(* ===== verification/NK_Prelude.thy ===== *)
theory NK_Prelude
  imports Main "HOL-Library.Word" "HOL-Library.Multiset"
begin

unbundle bit_operations_syntax

section \<open>Shared machine types, memory access and word arithmetic\<close>

text \<open>
  What the component theories share: names for the C integer types of an LP64 Linux target
  (\<open>size_t\<close>, \<open>uintptr_t\<close>, \<open>uint64_t\<close> and every pointer are 64-bit words, \<open>int\<close> values are
  mathematical integers where the code only compares them), byte memory with \<open>memcmp\<close>, and
  the arithmetic of the bit tricks the library uses everywhere: masking with a power of two
  minus one, rounding up to a multiple of a power of two, smearing bits to find the next power
  of two, and stepping around a ring of power-of-two size.
\<close>

type_synonym u8 = "8 word"
type_synonym u32 = "32 word"
type_synonym u64 = "64 word"
type_synonym ptr = "64 word"
type_synonym mem = "ptr \<Rightarrow> u8"

abbreviation (input) NULL :: ptr where
  "NULL \<equiv> 0"

named_theorems nk_word \<open>bit tricks on words, read as arithmetic on natural numbers\<close>

subsection \<open>Byte memory\<close>

text \<open>\<^verbatim>\<open>memcmp\<close> reads both buffers bytewise; only the sign of its result is specified.\<close>

definition read_bytes :: "mem \<Rightarrow> ptr \<Rightarrow> u64 \<Rightarrow> u8 list" where
  "read_bytes m p n = map (\<lambda>i. m (p + of_nat i)) [0..<unat n]"

fun bytes_cmp :: "u8 list \<Rightarrow> u8 list \<Rightarrow> int" where
  "bytes_cmp (x # xs) (y # ys) = (if x = y then bytes_cmp xs ys else uint x - uint y)"
| "bytes_cmp _ _ = 0"

definition memcmp :: "mem \<Rightarrow> ptr \<Rightarrow> ptr \<Rightarrow> u64 \<Rightarrow> int" where
  "memcmp m a b n = bytes_cmp (read_bytes m a n) (read_bytes m b n)"

lemma length_read_bytes [simp]: "length (read_bytes m p n) = unat n"
  by (simp add: read_bytes_def)

lemma bytes_cmp_eq_0: "length xs = length ys \<Longrightarrow> bytes_cmp xs ys = 0 \<longleftrightarrow> xs = ys"
  by (induction xs ys rule: bytes_cmp.induct) (auto simp: word_uint_eq_iff)

lemma memcmp_eq_0: "memcmp m a b n = 0 \<longleftrightarrow> read_bytes m a n = read_bytes m b n"
  by (simp add: memcmp_def bytes_cmp_eq_0)

lemma read_bytes_neq_Nil: "n \<noteq> 0 \<Longrightarrow> read_bytes m p n \<noteq> []"
  by (simp add: read_bytes_def unat_gt_0)

subsection \<open>Lists and options\<close>

lemma option_eqI: "(\<And>v. x = Some v \<longleftrightarrow> y = Some v) \<Longrightarrow> x = y"
  by (cases x; cases y) auto

lemma in_set_tlD: "x \<in> set (tl xs) \<Longrightarrow> x \<in> set xs"
  by (cases xs) simp_all

lemma sorted_wrt_distinctI:
  "distinct xs \<Longrightarrow> (\<And>x y. x \<in> set xs \<Longrightarrow> y \<in> set xs \<Longrightarrow> x \<noteq> y \<Longrightarrow> P x y) \<Longrightarrow> sorted_wrt P xs"
  by (induction xs) auto

subsection \<open>Masks and powers of two\<close>

lemma unat_less_exp_len: "unat (x :: 'a::len word) < 2 ^ LENGTH('a)"
  by (rule unsigned_less)

lemma unat_succ_less:
  fixes x y :: "'a::len word"
  assumes "x < y"
  shows "unat (x + 1) = unat x + 1"
proof -
  have "unat x + 1 < 2 ^ LENGTH('a)"
    using assms [unfolded word_less_nat_alt] unat_less_exp_len [of y] by linarith
  then show ?thesis by (simp add: unat_word_ariths)
qed

lemma unat_and_mask: "unat (x AND mask k :: 'a::len word) = unat x mod 2 ^ k"
  by (simp only: take_bit_eq_mask [symmetric] unsigned_take_bit_eq) (simp add: take_bit_eq_mod)

lemma unat_and_exp_minus_1 [nk_word]:
  "unat (x AND (2 ^ k - 1) :: 'a::len word) = unat x mod 2 ^ k"
  using unat_and_mask [of x k] by (simp add: mask_eq_exp_minus_1)

lemma unat_exp [nk_word]: "k < LENGTH('a) \<Longrightarrow> unat (2 ^ k :: 'a::len word) = 2 ^ k"
  using unat_of_nat [of "2 ^ k", where ?'a = 'a] by simp

lemma unat_eq_expD:
  fixes w :: "'a::len word"
  assumes "unat w = 2 ^ k"
  shows "k < LENGTH('a) \<and> w = 2 ^ k"
proof -
  have "unat w < 2 ^ LENGTH('a)" by (rule unsigned_less)
  with assms have k: "k < LENGTH('a)" by simp
  moreover from k assms have "w = 2 ^ k" by (simp add: word_unat_eq_iff unat_exp)
  ultimately show ?thesis by simp
qed

lemma pow2_nat_of_and_pred: "n > 0 \<Longrightarrow> n AND (n - 1) = 0 \<Longrightarrow> \<exists>k. n = 2 ^ k" for n :: nat
proof (induction n rule: less_induct)
  case (less n)
  show ?case
  proof (cases "even n")
    case True
    then obtain m where m: "n = 2 * m" by blast
    with less.prems have "m > 0" by simp
    then have "n - 1 = 1 + 2 * (m - 1)" using m by simp
    then have "n AND (n - 1) = 2 * (m AND (m - 1))"
      using m \<open>m > 0\<close> by (simp add: and_rec [of "2 * m"])
    with less.prems have "m AND (m - 1) = 0" by simp
    with less.IH [of m] m \<open>m > 0\<close> obtain k where "m = 2 ^ k" by auto
    with m have "n = 2 ^ Suc k" by simp
    then show ?thesis by blast
  next
    case False
    then obtain m where m: "n = 1 + 2 * m" by (metis oddE add.commute)
    have "n AND (n - 1) = 2 * m" using m by (simp add: and_rec [of "Suc (2 * m)"])
    with less.prems m have "n = 2 ^ 0" by simp
    then show ?thesis by blast
  qed
qed

text \<open>
  The test \<^verbatim>\<open>(c & (c - 1)) == 0\<close>, with \<^verbatim>\<open>c != 0\<close>, holds exactly for the powers of two.
\<close>

lemma pow2_iff_and_pred:
  fixes w :: "'a::len word"
  shows "w \<noteq> 0 \<and> w AND (w - 1) = 0 \<longleftrightarrow> (\<exists>k < LENGTH('a). w = 2 ^ k)"
proof
  assume asm: "w \<noteq> 0 \<and> w AND (w - 1) = 0"
  then have "unat w > 0" by (simp add: unat_gt_0)
  moreover have "unat w AND unat (w - 1) = unat (w AND (w - 1))"
    by (rule unsigned_and_eq [symmetric])
  then have "unat w AND (unat w - 1) = 0" using asm by (simp add: unat_minus_one)
  ultimately obtain k where "unat w = 2 ^ k" using pow2_nat_of_and_pred by blast
  then show "\<exists>k < LENGTH('a). w = 2 ^ k" using unat_eq_expD by blast
next
  assume "\<exists>k < LENGTH('a). w = 2 ^ k"
  then obtain k where k: "k < LENGTH('a)" "w = 2 ^ k" by blast
  then have "unat (w AND (w - 1)) = 0" by (simp add: unat_and_exp_minus_1 unat_exp)
  moreover have "unat w \<noteq> 0" using k by (simp add: unat_exp)
  ultimately show "w \<noteq> 0 \<and> w AND (w - 1) = 0" by (simp add: unat_eq_0)
qed

lemma unat_and_not_mask:
  fixes x :: "'a::len word"
  shows "unat (x AND NOT (mask k)) = unat x div 2 ^ k * 2 ^ k"
proof -
  have "x - (x AND mask k) = x AND NOT (x AND mask k)"
    by (rule disjunctive_diff) (simp add: bit_and_iff)
  also have "\<dots> = x AND NOT (mask k)"
    by (rule bit_word_eqI) (auto simp: bit_and_iff bit_or_iff bit_not_iff)
  finally have eq: "x AND NOT (mask k) = x - (x AND mask k)" by simp
  have "x AND mask k \<le> x" by (simp add: word_le_nat_alt unat_and_mask)
  then show ?thesis
    by (simp add: eq unat_sub unat_and_mask minus_mod_eq_div_mult)
qed

subsection \<open>Rounding up to a multiple of a power of two\<close>

text \<open>
  \<^verbatim>\<open>(x + (a - 1)) & ~(a - 1)\<close> for \<open>a = 2 ^ k\<close>: the least multiple of \<open>a\<close> that is at least
  \<open>x\<close>, unless the addition wraps around.
\<close>

definition align_up :: "nat \<Rightarrow> 'a::len word \<Rightarrow> 'a word" where
  "align_up k x = (x + (2 ^ k - 1)) AND NOT (2 ^ k - 1)"

lemma unat_exp_minus_1: "k < LENGTH('a) \<Longrightarrow> unat (2 ^ k - 1 :: 'a::len word) = 2 ^ k - 1"
  by (simp add: unat_minus_one unat_exp)

lemma dvd_align_up: "2 ^ k dvd unat (align_up k x)"
  using unat_and_not_mask [of "x + (2 ^ k - 1)" k]
  by (simp add: align_up_def mask_eq_exp_minus_1)

lemma unat_align_up:
  fixes x :: "'a::len word"
  assumes "k < LENGTH('a)" and "unat x + (2 ^ k - 1) < 2 ^ LENGTH('a)"
  shows "unat (align_up k x) = (unat x + (2 ^ k - 1)) div 2 ^ k * 2 ^ k"
proof -
  have "unat (x + (2 ^ k - 1)) = unat x + (2 ^ k - 1)"
    using assms by (subst unat_add_lem [THEN iffD1]) (simp_all add: unat_exp_minus_1)
  then show ?thesis
    using unat_and_not_mask [of "x + (2 ^ k - 1)" k]
    by (simp add: align_up_def mask_eq_exp_minus_1)
qed

lemma align_up_bounds:
  fixes x :: "'a::len word"
  assumes "k < LENGTH('a)" and "unat x + (2 ^ k - 1) < 2 ^ LENGTH('a)"
  shows "unat x \<le> unat (align_up k x)" and "unat (align_up k x) < unat x + 2 ^ k"
proof -
  let ?s = "unat x + (2 ^ k - 1)"
  have "?s div 2 ^ k * 2 ^ k + ?s mod 2 ^ k = ?s" by (rule div_mult_mod_eq)
  moreover have "?s mod 2 ^ k < 2 ^ k" by simp
  moreover have "(0::nat) < 2 ^ k" by simp
  ultimately show "unat x \<le> unat (align_up k x)" and "unat (align_up k x) < unat x + 2 ^ k"
    unfolding unat_align_up [OF assms] by linarith+
qed

text \<open>Where the addition wraps, the result is the wrapped sum rounded down: less than \<open>a\<close>, so 0.\<close>

lemma align_up_wraps:
  fixes x :: "'a::len word"
  assumes "k < LENGTH('a)" and "2 ^ LENGTH('a) \<le> unat x + (2 ^ k - 1)"
  shows "align_up k x = 0"
proof -
  let ?s = "unat x + (2 ^ k - 1)"
  have "unat x < 2 ^ LENGTH('a)" by (rule unsigned_less)
  moreover have "(2::nat) ^ k < 2 ^ LENGTH('a)" using assms(1) by simp
  ultimately have less: "?s - 2 ^ LENGTH('a) < 2 ^ k" "?s - 2 ^ LENGTH('a) < 2 ^ LENGTH('a)"
    using zero_less_power [of "2::nat" k] by linarith+
  have "unat (x + (2 ^ k - 1)) = ?s mod 2 ^ LENGTH('a)"
    using assms(1) by (simp only: unat_word_ariths unat_exp_minus_1)
  also have "\<dots> = ?s - 2 ^ LENGTH('a)"
    unfolding le_mod_geq [OF assms(2)] using less(2) by (rule mod_less)
  finally have "unat (align_up k x) = 0"
    using less unat_and_not_mask [of "x + (2 ^ k - 1)" k]
    by (simp only: align_up_def mask_eq_exp_minus_1) simp
  then show ?thesis by (simp add: unat_eq_0)
qed

lemma align_up_dvd:
  fixes x :: "'a::len word"
  assumes "k < LENGTH('a)" and "2 ^ k dvd unat x"
  shows "align_up k x = x"
proof -
  obtain q where q: "unat x = 2 ^ k * q" using assms(2) by blast
  have "unat x + (2 ^ k - 1) < 2 ^ LENGTH('a)"
  proof -
    have l: "(2::nat) ^ LENGTH('a) = 2 ^ k * 2 ^ (LENGTH('a) - k)" using assms(1) by (simp flip: power_add)
    have "2 ^ k * q < 2 ^ k * 2 ^ (LENGTH('a) - k)" using unat_less_exp_len [of x] q l by simp
    then have "q + 1 \<le> 2 ^ (LENGTH('a) - k)" by simp
    then have "2 ^ k * (q + 1) \<le> (2::nat) ^ LENGTH('a)" unfolding l by (rule mult_le_mono2)
    then have "2 ^ k * q + 2 ^ k \<le> (2::nat) ^ LENGTH('a)" by simp
    moreover have "(0::nat) < 2 ^ k" by simp
    ultimately show ?thesis unfolding q by linarith
  qed
  moreover have "(2 ^ k * q + (2 ^ k - 1)) div 2 ^ k = q"
    using div_mult_self4 [of "2 ^ k" q "2 ^ k - 1"] by simp
  ultimately have "unat (align_up k x) = unat x" using unat_align_up [OF assms(1)] q by simp
  then show ?thesis by (simp add: word_unat_eq_iff)
qed

lemma align_up_least:
  fixes x :: "'a::len word"
  assumes "k < LENGTH('a)" and "unat x + (2 ^ k - 1) < 2 ^ LENGTH('a)" and "2 ^ k dvd y" and "unat x \<le> y"
  shows "unat (align_up k x) \<le> y"
proof -
  obtain q where q: "y = 2 ^ k * q" using assms(3) by blast
  have "(unat x + (2 ^ k - 1)) div 2 ^ k \<le> (2 ^ k * q + (2 ^ k - 1)) div 2 ^ k"
    using assms(4) q by (intro div_le_mono) simp
  also have "\<dots> = q" using div_mult_self4 [of "2 ^ k" q "2 ^ k - 1"] by simp
  finally show ?thesis using unat_align_up [OF assms(1,2)] q by (simp add: mult.commute)
qed

subsection \<open>The next power of two\<close>

text \<open>
  Both \<^verbatim>\<open>_next_power_of_2\<close> functions smear the highest set bit of \<open>v - 1\<close> downwards by
  shifts of 1, 2, 4, ... and add one. A smearing step doubles the distance a bit is carried.
\<close>

lemma bit_smear:
  fixes v w :: "'a::len word"
  assumes "\<And>i. bit w i \<longleftrightarrow> (\<exists>d < m. bit v (i + d))"
  shows "bit (w OR drop_bit m w) i \<longleftrightarrow> (\<exists>d < 2 * m. bit v (i + d))"
proof -
  have "bit (w OR drop_bit m w) i \<longleftrightarrow> (\<exists>d < m. bit v (i + d)) \<or> (\<exists>d < m. bit v (m + i + d))"
    by (simp add: bit_or_iff bit_drop_bit_eq assms)
  also have "\<dots> \<longleftrightarrow> (\<exists>d < 2 * m. bit v (i + d))" (is "?l \<longleftrightarrow> ?r")
  proof
    assume ?l
    then consider d where "d < m" "bit v (i + d)" | d where "d < m" "bit v (i + (m + d))"
      by (auto simp: ac_simps)
    then show ?r
    proof cases
      case 1
      then show ?thesis by (intro exI [of _ d]) simp
    next
      case 2
      then show ?thesis by (intro exI [of _ "m + d"]) simp
    qed
  next
    assume ?r
    then obtain d where d: "d < 2 * m" "bit v (i + d)" by blast
    show ?l
    proof (cases "d < m")
      case False
      then have "bit v (m + i + (d - m)) \<and> d - m < m" using d by (simp add: ac_simps)
      then show ?thesis by blast
    qed (use d in blast)
  qed
  finally show ?thesis .
qed

lemma smeared_eq_mask:
  fixes v w :: "'a::len word"
  assumes sm: "\<And>i. bit w i \<longleftrightarrow> (\<exists>d < LENGTH('a). bit v (i + d))"
    and lt: "unat v < 2 ^ n" and ge: "n = 0 \<or> 2 ^ (n - 1) \<le> unat v"
  shows "w = mask n"
proof (rule bit_word_eqI)
  fix i assume i: "i < LENGTH('a)"
  show "bit w i \<longleftrightarrow> bit (mask n :: 'a word) i"
  proof (cases "i < n")
    case False
    have "\<not> bit v (i + d)" for d
    proof -
      have "(2::nat) ^ n \<le> 2 ^ (i + d)" using False by (intro power_increasing) auto
      with lt have "unat v < 2 ^ (i + d)" by linarith
      then have "\<not> bit (unat v) (i + d)" by (simp add: bit_iff_odd)
      then show ?thesis by (simp add: bit_unsigned_iff)
    qed
    then show ?thesis using sm False by (simp add: bit_mask_iff)
  next
    case True
    then obtain m where m: "n = Suc m" using less_imp_Suc_add by blast
    with ge lt have "unat v div 2 ^ m = 1" by (intro div_nat_eqI) auto
    then have "bit (unat v) m" by (simp add: bit_iff_odd)
    then have b: "bit v m" by (simp add: bit_unsigned_iff)
    then have "m < LENGTH('a)" by (rule bit_imp_le_length)
    then have "m - i < LENGTH('a) \<and> bit v (i + (m - i))" using b True m by simp
    then have "bit w i" using sm by blast
    then show ?thesis using True i by (simp add: bit_mask_iff)
  qed
qed

lemma ex_bit_size: "\<exists>n. x < 2 ^ n \<and> (n = 0 \<or> 2 ^ (n - 1) \<le> x)" for x :: nat
proof -
  define n where "n = (LEAST n. x < 2 ^ n)"
  have "x < 2 ^ n" unfolding n_def by (rule LeastI [of _ x]) simp
  moreover have "2 ^ (n - 1) \<le> x" if "n \<noteq> 0"
  proof (rule ccontr)
    assume "\<not> 2 ^ (n - 1) \<le> x"
    then have "n \<le> n - 1" unfolding n_def by (intro Least_le) simp
    with that show False by simp
  qed
  ultimately show ?thesis by (intro exI [of _ n]) auto
qed

text \<open>What a fully smeared \<open>v - 1\<close> gives after the final increment.\<close>

lemma smeared_plus_1:
  fixes v w :: "'a::len word"
  assumes sm: "\<And>i. bit w i \<longleftrightarrow> (\<exists>d < LENGTH('a). bit (v - 1) (i + d))"
    and "v \<noteq> 0" and "unat v \<le> 2 ^ (LENGTH('a) - 1)"
  shows "\<exists>k < LENGTH('a). w + 1 = 2 ^ k \<and> unat v \<le> 2 ^ k \<and> (\<forall>j. unat v \<le> 2 ^ j \<longrightarrow> k \<le> j)"
proof -
  obtain k where k: "unat (v - 1) < 2 ^ k" "k = 0 \<or> 2 ^ (k - 1) \<le> unat (v - 1)"
    using ex_bit_size by blast
  from smeared_eq_mask [OF sm k] have w: "w + 1 = 2 ^ k" by (simp add: mask_eq_exp_minus_1)
  have v: "unat (v - 1) = unat v - 1" "0 < unat v" using assms(2) by (simp_all add: unat_minus_one unat_gt_0)
  have least: "k \<le> j" if "unat v \<le> 2 ^ j" for j
  proof (cases "k = 0")
    case False
    with k v that have "(2::nat) ^ (k - 1) < 2 ^ j" by linarith
    then show ?thesis by simp
  qed simp
  have "k < LENGTH('a)" using least [OF assms(3)] len_gt_0 [where ?'a = 'a] by linarith
  moreover have "unat v \<le> 2 ^ k" using k v by linarith
  ultimately show ?thesis using w least by blast
qed

subsection \<open>Stepping around a ring of power-of-two size\<close>

lemma unat_mod_exp_plus:
  fixes a b :: "'a::len word"
  assumes "k \<le> LENGTH('a)"
  shows "unat (a + b) mod 2 ^ k = (unat a + unat b) mod 2 ^ k"
  using assms by (simp add: unat_word_ariths mod_mod_cancel le_imp_power_dvd)

lemma unat_succ_and [nk_word]:
  fixes s :: "'a::len word"
  assumes "k \<le> LENGTH('a)"
  shows "unat ((s + 1) AND (2 ^ k - 1)) = (unat s + 1) mod 2 ^ k"
  using unat_mod_exp_plus [OF assms, of s 1] by (simp add: unat_and_exp_minus_1)

lemma unat_diff_and [nk_word]:
  fixes s t :: "'a::len word"
  assumes "k \<le> LENGTH('a)" and "unat t < 2 ^ k"
  shows "unat ((s - t) AND (2 ^ k - 1)) = (unat s + 2 ^ k - unat t) mod 2 ^ k"
proof -
  have "(unat (s - t) + unat t) mod 2 ^ k = unat s mod 2 ^ k"
    using unat_mod_exp_plus [OF assms(1), of "s - t" t] by simp
  then have "(unat (s - t) + unat t + (2 ^ k - unat t)) mod 2 ^ k
      = (unat s + (2 ^ k - unat t)) mod 2 ^ k"
    by (rule mod_add_cong) simp
  then have "unat (s - t) mod 2 ^ k = (unat s + 2 ^ k - unat t) mod 2 ^ k"
    using assms(2) by (simp add: algebra_simps)
  then show ?thesis by (simp add: unat_and_exp_minus_1)
qed

lemma slots_distinct:
  fixes t i j n :: nat
  assumes "(t + i) mod n = (t + j) mod n" and "i < n" and "j < n"
  shows "i = j"
proof -
  have *: "i = j" if "i \<le> j" "j < n" "(t + j) mod n = (t + i) mod n" for i j
  proof -
    have "n dvd (t + j) - (t + i)" using that(3) mod_eq_dvd_iff_nat [of "t + i" "t + j" n] that(1) by simp
    then show ?thesis using that(1,2) dvd_imp_le [of n "j - i"] by (cases "j - i = 0") auto
  qed
  show ?thesis using * [of i j] * [of j i] assms by (cases "i \<le> j") auto
qed

subsection \<open>Signed differences of wrapping counters\<close>

lemma sint_of_int_u64:
  assumes "- (2 ^ 63) \<le> x" and "x < 2 ^ 63"
  shows "sint (word_of_int x :: u64) = x"
  using assms by (simp add: sint_sbintrunc' signed_take_bit_int_eq_self)

lemma sint_diff_of_nat:
  assumes "b \<le> a + 2 ^ 63" and "a < b + 2 ^ 63"
  shows "sint (of_nat a - of_nat b :: u64) = int a - int b"
proof -
  have "(of_nat a - of_nat b :: u64) = word_of_int (int a - int b)" by simp
  then show ?thesis using sint_of_int_u64 [of "int a - int b"] assms by simp
qed

subsection \<open>Conversions\<close>

lemma unat_ucast_u32: "unat (ucast w :: u64) = unat w" for w :: u32
  using unat_less_exp_len [of w] by (simp add: unsigned_ucast_eq take_bit_nat_eq_self)

lemma unat_of_nat_small: "n < 2 ^ 64 \<Longrightarrow> unat (of_nat n :: u64) = n"
  by (simp add: unat_of_nat)

subsection \<open>Flag bits\<close>

lemma word_and_eq_0: "a AND b = 0 \<longleftrightarrow> (\<forall>n. bit b n \<longrightarrow> \<not> bit a n)" for a b :: "'a::len word"
proof
  assume z: "a AND b = 0"
  show "\<forall>n. bit b n \<longrightarrow> \<not> bit a n"
  proof (intro allI impI notI)
    fix n
    assume "bit b n" "bit a n"
    then have "bit (a AND b) n" by (simp only: bit_and_iff)
    with z show False by simp
  qed
next
  assume "\<forall>n. bit b n \<longrightarrow> \<not> bit a n"
  then show "a AND b = 0" by (intro bit_word_eqI) (auto simp: bit_and_iff)
qed

lemma drop_bit_eq_0_iff: "drop_bit k w = 0 \<longleftrightarrow> (\<forall>n\<ge>k. \<not> bit w n)" for w :: "'a::len word"
proof
  assume "drop_bit k w = 0"
  then have "\<not> bit (drop_bit k w) (n - k)" for n by simp
  then show "\<forall>n\<ge>k. \<not> bit w n" by (metis bit_drop_bit_eq comp_apply le_add_diff_inverse)
next
  assume "\<forall>n\<ge>k. \<not> bit w n"
  then show "drop_bit k w = 0" by (intro bit_word_eqI) (simp add: bit_drop_bit_eq)
qed

end
