(* ===== verification/NK_Mutex.thy ===== *)
theory NK_Mutex
  imports NK_Prelude
begin

section \<open>Interleavings, reachable states, and what a lock gives its client\<close>

text \<open>
  The concurrent components are step relations \<open>step i s s'\<close>: thread \<open>i\<close> performs one atomic
  access (a load, a store, an exchange, a compare-and-swap or a fetch-and-add), and any thread may
  move next. Memory is sequentially consistent: the C code's weaker orderings are not modelled.
\<close>

inductive reach :: "('s \<Rightarrow> bool) \<Rightarrow> (nat \<Rightarrow> 's \<Rightarrow> 's \<Rightarrow> bool) \<Rightarrow> 's \<Rightarrow> bool"
  for init :: "'s \<Rightarrow> bool" and step :: "nat \<Rightarrow> 's \<Rightarrow> 's \<Rightarrow> bool"
where
  start: "init s \<Longrightarrow> reach init step s"
| move: "reach init step s \<Longrightarrow> step i s s' \<Longrightarrow> reach init step s'"

lemma reach_invariant:
  assumes "reach init step s"
    and "\<And>s. init s \<Longrightarrow> I s" and "\<And>i s s'. I s \<Longrightarrow> step i s s' \<Longrightarrow> I s'"
  shows "I s"
  using assms(1) by (induction rule: reach.induct) (auto intro: assms(2,3))

text \<open>The same, for an invariant whose preservation may use that the state is reachable.\<close>

lemma reach_invariant_strong:
  assumes "reach init step s"
    and "\<And>s. init s \<Longrightarrow> I s"
    and "\<And>i s s'. reach init step s \<Longrightarrow> I s \<Longrightarrow> step i s s' \<Longrightarrow> I s'"
  shows "I s"
  using assms(1) by (induction rule: reach.induct) (auto intro: assms(2,3))

subsection \<open>A critical section over shared data\<close>

text \<open>
  A client of a lock: while it holds the lock, a thread reads the shared data, computes, and
  writes the data back; in between, all other threads go on. It performs steps of the lock only
  between such operations. \<open>g_local i\<close> is the value thread \<open>i\<close> has read and not yet written back;
  \<open>g_log\<close> lists the threads in the order of their writes.
\<close>

record ('s, 'd) guarded =
  g_lock :: 's
  g_data :: 'd
  g_local :: "nat \<Rightarrow> 'd option"
  g_log :: "nat list"

inductive guarded_step ::
  "(nat \<Rightarrow> 's \<Rightarrow> 's \<Rightarrow> bool) \<Rightarrow> ('s \<Rightarrow> nat \<Rightarrow> bool) \<Rightarrow> (nat \<Rightarrow> 'd \<Rightarrow> 'd) \<Rightarrow>
   nat \<Rightarrow> ('s, 'd) guarded \<Rightarrow> ('s, 'd) guarded \<Rightarrow> bool"
  for step :: "nat \<Rightarrow> 's \<Rightarrow> 's \<Rightarrow> bool" and holds :: "'s \<Rightarrow> nat \<Rightarrow> bool" and opr :: "nat \<Rightarrow> 'd \<Rightarrow> 'd"
where
  lock_move: "step i (g_lock g) l' \<Longrightarrow> g_local g i = None \<Longrightarrow>
     guarded_step step holds opr i g (g\<lparr>g_lock := l'\<rparr>)"
| data_read: "holds (g_lock g) i \<Longrightarrow> g_local g i = None \<Longrightarrow>
     guarded_step step holds opr i g (g\<lparr>g_local := (g_local g)(i \<mapsto> g_data g)\<rparr>)"
| data_write: "holds (g_lock g) i \<Longrightarrow> g_local g i = Some d \<Longrightarrow>
     guarded_step step holds opr i g
       (g\<lparr>g_data := opr i d, g_local := (g_local g)(i := None), g_log := g_log g @ [i]\<rparr>)"

definition guarded_init :: "('s \<Rightarrow> bool) \<Rightarrow> 'd \<Rightarrow> ('s, 'd) guarded \<Rightarrow> bool" where
  "guarded_init init d0 g \<longleftrightarrow> init (g_lock g) \<and> g_data g = d0 \<and> g_local g = Map.empty \<and> g_log g = []"

text \<open>Every state of the lock is reached with the data untouched, and its holder can then update.\<close>

lemma guarded_lift:
  assumes "reach init step s"
  shows "reach (guarded_init init d) (guarded_step step holds opr)
     \<lparr>g_lock = s, g_data = d, g_local = Map.empty, g_log = []\<rparr>"
  using assms
proof (induction rule: reach.induct)
  case (start s)
  then show ?case by (intro reach.start) (simp add: guarded_init_def)
next
  case (move s i s')
  show ?case
    using reach.move [OF move.IH guarded_step.lock_move, of i s'] move.hyps(2) by simp
qed

lemma guarded_update:
  assumes "reach init step s" and "holds s i"
  shows "reach (guarded_init init d) (guarded_step step holds opr)
     \<lparr>g_lock = s, g_data = opr i d, g_local = Map.empty, g_log = [i]\<rparr>"
proof -
  note l = guarded_lift [OF assms(1), of d holds opr]
  note r = reach.move [OF l guarded_step.data_read [of holds _ i]]
  note w = reach.move [OF r guarded_step.data_write [of holds _ i d]]
  show ?thesis using w assms(2) by (simp add: fun_upd_idem)
qed

text \<open>
  The contract of a lock: no two threads hold it, and whether a thread holds it changes by its own
  steps only. Then no update is lost: the data is always the result of applying the operations one
  after the other, in the order of the writes, to the initial data.
\<close>

locale mutex =
  fixes init :: "'s \<Rightarrow> bool"
    and step :: "nat \<Rightarrow> 's \<Rightarrow> 's \<Rightarrow> bool"
    and holds :: "'s \<Rightarrow> nat \<Rightarrow> bool"
  assumes excl: "reach init step s \<Longrightarrow> holds s i \<Longrightarrow> holds s j \<Longrightarrow> i = j"
    and own_step: "step i s s' \<Longrightarrow> j \<noteq> i \<Longrightarrow> holds s' j = holds s j"
begin

lemma guarded_lock_reach:
  "reach (guarded_init init d0) (guarded_step step holds opr) g \<Longrightarrow> reach init step (g_lock g)"
proof (induction rule: reach.induct)
  case (start g)
  then show ?case by (simp add: guarded_init_def reach.start)
next
  case (move g i g')
  from move.hyps(2) move.IH show ?case
    by (cases rule: guarded_step.cases) (auto intro: reach.move)
qed

lemma guarded_local:
  "reach (guarded_init init d0) (guarded_step step holds opr) g \<Longrightarrow>
     \<forall>i d. g_local g i = Some d \<longrightarrow> holds (g_lock g) i \<and> d = g_data g"
proof (induction rule: reach.induct)
  case (start g)
  then show ?case by (simp add: guarded_init_def)
next
  case (move g i g')
  note lk = guarded_lock_reach [OF move.hyps(1)]
  from move.hyps(2) show ?case
  proof (cases rule: guarded_step.cases)
    case (lock_move l')
    show ?thesis
    proof (intro allI impI)
      fix j d
      assume "g_local g' j = Some d"
      then have "g_local g j = Some d" "j \<noteq> i" using lock_move by auto
      then show "holds (g_lock g') j \<and> d = g_data g'"
        using move.IH own_step [OF lock_move(2)] lock_move(1) by simp
    qed
  next
    case data_read
    then show ?thesis using move.IH by auto
  next
    case (data_write d)
    have "g_local g j = None" if "j \<noteq> i" for j
      using move.IH excl [OF lk _ data_write(2), of j] that by (cases "g_local g j") auto
    then show ?thesis using data_write(1) by auto
  qed
qed

lemma guarded_serial:
  "reach (guarded_init init d0) (guarded_step step holds opr) g \<Longrightarrow>
     g_data g = fold opr (g_log g) d0"
proof (induction rule: reach.induct)
  case (start g)
  then show ?case by (simp add: guarded_init_def)
next
  case (move g i g')
  note lo = guarded_local [OF move.hyps(1)]
  from move.hyps(2) show ?case
    by (cases rule: guarded_step.cases) (use move.IH lo in auto)
qed

end

end
