(* ===== verification/NK_Mcs.thy ===== *)
theory NK_Mcs
  imports NK_Mutex
begin

section \<open>The MCS lock (\<^verbatim>\<open>src/sync/mcs_lock.c\<close>)\<close>

text \<open>
  Every thread has one queue node (on its stack), so nodes are named by their thread. The state
  is the lock's tail pointer, the \<open>next\<close> and \<open>locked\<close> fields of all nodes and a program
  counter per thread: one constructor per point of \<^verbatim>\<open>nkit_mcs_lock\<close> and
  \<^verbatim>\<open>nkit_mcs_unlock\<close> between two accesses to shared memory. \<open>m_queue\<close> is a history variable:
  the threads in the order of their exchange on the tail, the holder first. No step reads it.
\<close>

datatype mcs_pc =
    Idle
  | Lock_store_locked \<comment> \<open>line 10 done: \<^verbatim>\<open>next\<close> is \<^verbatim>\<open>NULL\<close>\<close>
  | Lock_exchange \<comment> \<open>line 11 done: \<^verbatim>\<open>locked\<close> is 1\<close>
  | Lock_link nat \<comment> \<open>line 15 returned this predecessor\<close>
  | Lock_spin \<comment> \<open>line 19 done\<close>
  | Critical
  | Unlock_cas \<comment> \<open>line 30 read \<^verbatim>\<open>next == NULL\<close>\<close>
  | Unlock_wait \<comment> \<open>the compare-and-swap of line 33 failed\<close>
  | Unlock_handoff \<comment> \<open>\<^verbatim>\<open>next\<close> is known to be set\<close>

record mcs =
  m_tail :: "nat option"
  m_next :: "nat \<Rightarrow> nat option"
  m_locked :: "nat \<Rightarrow> bool"
  m_pc :: "nat \<Rightarrow> mcs_pc"
  m_queue :: "nat list"

definition nkit_mcs_init :: "mcs \<Rightarrow> bool" where
  "nkit_mcs_init s \<longleftrightarrow> m_tail s = None \<and> m_pc s = (\<lambda>_. Idle) \<and> m_queue s = []"

inductive nkit_mcs_lock_step :: "nat \<Rightarrow> mcs \<Rightarrow> mcs \<Rightarrow> bool" where
  store_next: "m_pc s i = Idle \<Longrightarrow> nkit_mcs_lock_step i s
     (s\<lparr>m_next := (m_next s)(i := None), m_pc := (m_pc s)(i := Lock_store_locked)\<rparr>)"
| store_locked: "m_pc s i = Lock_store_locked \<Longrightarrow> nkit_mcs_lock_step i s
     (s\<lparr>m_locked := (m_locked s)(i := True), m_pc := (m_pc s)(i := Lock_exchange)\<rparr>)"
| exchange: "m_pc s i = Lock_exchange \<Longrightarrow> nkit_mcs_lock_step i s
     (s\<lparr>m_tail := Some i,
        m_pc := (m_pc s)(i := (case m_tail s of None \<Rightarrow> Critical | Some prev \<Rightarrow> Lock_link prev)),
        m_queue := m_queue s @ [i]\<rparr>)"
| link: "m_pc s i = Lock_link prev \<Longrightarrow> nkit_mcs_lock_step i s
     (s\<lparr>m_next := (m_next s)(prev := Some i), m_pc := (m_pc s)(i := Lock_spin)\<rparr>)"
| spin: "m_pc s i = Lock_spin \<Longrightarrow> m_locked s i \<Longrightarrow> nkit_mcs_lock_step i s s"
| acquired: "m_pc s i = Lock_spin \<Longrightarrow> \<not> m_locked s i \<Longrightarrow> nkit_mcs_lock_step i s
     (s\<lparr>m_pc := (m_pc s)(i := Critical)\<rparr>)"

inductive nkit_mcs_unlock_step :: "nat \<Rightarrow> mcs \<Rightarrow> mcs \<Rightarrow> bool" where
  read_next: "m_pc s i = Critical \<Longrightarrow> nkit_mcs_unlock_step i s
     (s\<lparr>m_pc := (m_pc s)(i := (if m_next s i = None then Unlock_cas else Unlock_handoff))\<rparr>)"
| cas_ok: "m_pc s i = Unlock_cas \<Longrightarrow> m_tail s = Some i \<Longrightarrow> nkit_mcs_unlock_step i s
     (s\<lparr>m_tail := None, m_pc := (m_pc s)(i := Idle), m_queue := tl (m_queue s)\<rparr>)"
| cas_fail: "m_pc s i = Unlock_cas \<Longrightarrow> m_tail s \<noteq> Some i \<Longrightarrow> nkit_mcs_unlock_step i s
     (s\<lparr>m_pc := (m_pc s)(i := Unlock_wait)\<rparr>)"
| wait: "m_pc s i = Unlock_wait \<Longrightarrow> m_next s i = None \<Longrightarrow> nkit_mcs_unlock_step i s s"
| linked: "m_pc s i = Unlock_wait \<Longrightarrow> m_next s i \<noteq> None \<Longrightarrow> nkit_mcs_unlock_step i s
     (s\<lparr>m_pc := (m_pc s)(i := Unlock_handoff)\<rparr>)"
| handoff: "m_pc s i = Unlock_handoff \<Longrightarrow> m_next s i = Some j \<Longrightarrow> nkit_mcs_unlock_step i s
     (s\<lparr>m_locked := (m_locked s)(j := False), m_pc := (m_pc s)(i := Idle),
        m_queue := tl (m_queue s)\<rparr>)"

definition mcs_step :: "nat \<Rightarrow> mcs \<Rightarrow> mcs \<Rightarrow> bool" where
  "mcs_step i s s' \<longleftrightarrow> nkit_mcs_lock_step i s s' \<or> nkit_mcs_unlock_step i s s'"

abbreviation mcs_reach :: "mcs \<Rightarrow> bool" where
  "mcs_reach \<equiv> reach nkit_mcs_init mcs_step"

definition mcs_holds :: "mcs \<Rightarrow> nat \<Rightarrow> bool" where
  "mcs_holds s i \<longleftrightarrow> m_pc s i \<in> {Critical, Unlock_cas, Unlock_wait, Unlock_handoff}"

subsection \<open>The queue invariant\<close>

text \<open>
  The head of the queue holds the lock or has been granted it. Every other queued thread spins on
  its own flag with its predecessor linked to it, or is about to link.
\<close>

definition mcs_front :: "mcs \<Rightarrow> nat \<Rightarrow> bool" where
  "mcs_front s i \<longleftrightarrow> mcs_holds s i \<or> m_pc s i = Lock_spin \<and> \<not> m_locked s i"

definition mcs_behind :: "mcs \<Rightarrow> nat \<Rightarrow> nat \<Rightarrow> bool" where
  "mcs_behind s p i \<longleftrightarrow> m_locked s i \<and>
     (m_pc s i = Lock_link p \<and> m_next s p = None \<or> m_pc s i = Lock_spin \<and> m_next s p = Some i)"

definition mcs_inv :: "mcs \<Rightarrow> bool" where
  "mcs_inv s \<longleftrightarrow> distinct (m_queue s)
     \<and> m_tail s = (if m_queue s = [] then None else Some (last (m_queue s)))
     \<and> (\<forall>i. i \<notin> set (m_queue s) \<longleftrightarrow> m_pc s i \<in> {Idle, Lock_store_locked, Lock_exchange})
     \<and> (\<forall>i. m_pc s i \<in> {Lock_store_locked, Lock_exchange} \<longrightarrow> m_next s i = None)
     \<and> (\<forall>i. m_pc s i = Lock_exchange \<longrightarrow> m_locked s i)
     \<and> (m_queue s \<noteq> [] \<longrightarrow> mcs_front s (hd (m_queue s)) \<and> m_next s (last (m_queue s)) = None)
     \<and> successively (mcs_behind s) (m_queue s)
     \<and> (\<forall>i. m_pc s i = Unlock_wait \<longrightarrow> m_tail s \<noteq> Some i)
     \<and> (\<forall>i. m_pc s i = Unlock_handoff \<longrightarrow> m_next s i \<noteq> None)"

lemma mcs_invI:
  assumes "distinct (m_queue s)"
    and "m_tail s = (if m_queue s = [] then None else Some (last (m_queue s)))"
    and "\<And>i. i \<notin> set (m_queue s) \<longleftrightarrow> m_pc s i \<in> {Idle, Lock_store_locked, Lock_exchange}"
    and "\<And>i. m_pc s i \<in> {Lock_store_locked, Lock_exchange} \<Longrightarrow> m_next s i = None"
    and "\<And>i. m_pc s i = Lock_exchange \<Longrightarrow> m_locked s i"
    and "m_queue s \<noteq> [] \<Longrightarrow> mcs_front s (hd (m_queue s)) \<and> m_next s (last (m_queue s)) = None"
    and "successively (mcs_behind s) (m_queue s)"
    and "\<And>i. m_pc s i = Unlock_wait \<Longrightarrow> m_tail s \<noteq> Some i"
    and "\<And>i. m_pc s i = Unlock_handoff \<Longrightarrow> m_next s i \<noteq> None"
  shows "mcs_inv s"
  using assms unfolding mcs_inv_def by blast

lemma mcs_invD:
  assumes "mcs_inv s"
  shows "distinct (m_queue s)"
    and "m_tail s = (if m_queue s = [] then None else Some (last (m_queue s)))"
    and "i \<notin> set (m_queue s) \<longleftrightarrow> m_pc s i \<in> {Idle, Lock_store_locked, Lock_exchange}"
    and "m_pc s i \<in> {Lock_store_locked, Lock_exchange} \<Longrightarrow> m_next s i = None"
    and "m_pc s i = Lock_exchange \<Longrightarrow> m_locked s i"
    and "m_queue s \<noteq> [] \<Longrightarrow> mcs_front s (hd (m_queue s))"
    and "m_queue s \<noteq> [] \<Longrightarrow> m_next s (last (m_queue s)) = None"
    and "successively (mcs_behind s) (m_queue s)"
    and "m_pc s i = Unlock_wait \<Longrightarrow> m_tail s \<noteq> Some i"
    and "m_pc s i = Unlock_handoff \<Longrightarrow> m_next s i \<noteq> None"
  using assms unfolding mcs_inv_def by blast+

lemma mcs_inv_init: "nkit_mcs_init s \<Longrightarrow> mcs_inv s"
  by (simp add: nkit_mcs_init_def mcs_inv_def)

lemma successively_tl_pred: "successively P xs \<Longrightarrow> y \<in> set (tl xs) \<Longrightarrow> \<exists>x \<in> set xs. P x y"
  by (induction xs rule: induct_list012) auto

text \<open>Only the head of the queue holds the lock, or has been granted it.\<close>

lemma mcs_front_hd:
  assumes "mcs_inv s" and "mcs_front s i"
  shows "\<exists>q. m_queue s = i # q"
proof -
  have "i \<in> set (m_queue s)"
    using assms(2) mcs_invD(3) [OF assms(1), of i] by (auto simp: mcs_front_def mcs_holds_def)
  moreover have "i \<notin> set (tl (m_queue s))"
    using successively_tl_pred [OF mcs_invD(8) [OF assms(1)], of i] assms(2)
    by (auto simp: mcs_front_def mcs_holds_def mcs_behind_def)
  ultimately show ?thesis by (cases "m_queue s") auto
qed

text \<open>
  The chain depends on the flags and program counters of the waiting threads and on the \<open>next\<close>
  fields of all but the last.
\<close>

lemma mcs_chain_frame:
  assumes "successively (mcs_behind s) q"
    and "\<forall>j \<in> set (tl q). m_pc s' j = m_pc s j \<and> m_locked s' j = m_locked s j"
    and "\<forall>p \<in> set (butlast q). m_next s' p = m_next s p"
  shows "successively (mcs_behind s') q"
  using assms
proof (induction q rule: induct_list012)
  case (3 x y zs)
  then show ?case by (auto simp: mcs_behind_def)
qed simp_all

lemma in_tl_split: "y \<in> set (tl xs) \<Longrightarrow> \<exists>us x vs. xs = us @ x # y # vs"
proof (induction xs rule: induct_list012)
  case (3 a b xs)
  show ?case
  proof (cases "y = b")
    case True
    then show ?thesis by (intro exI [of _ "[]"]) simp
  next
    case False
    with 3 obtain us x vs where "b # xs = us @ x # y # vs" by auto
    then show ?thesis by (intro exI [of _ "a # us"]) simp
  qed
qed simp_all

text \<open>A waiting thread stands right behind its predecessor.\<close>

lemma mcs_waiting_split:
  assumes "mcs_inv s" and "i \<in> set (m_queue s)" and "\<not> mcs_front s i"
  shows "\<exists>us p vs. m_queue s = us @ p # i # vs \<and> mcs_behind s p i"
proof -
  have "i \<in> set (tl (m_queue s))"
    using assms mcs_invD(6) [OF assms(1)] by (cases "m_queue s") auto
  then obtain us p vs where "m_queue s = us @ p # i # vs" using in_tl_split by metis
  moreover from this have "mcs_behind s p i"
    using mcs_invD(8) [OF assms(1)] by (simp add: successively_append_iff)
  ultimately show ?thesis by blast
qed

lemma mcs_front_cong:
  "m_pc s' i = m_pc s i \<Longrightarrow> m_locked s' i = m_locked s i \<Longrightarrow> mcs_front s' i = mcs_front s i"
  by (simp add: mcs_front_def mcs_holds_def)

text \<open>A step of a thread that is not queued, before its exchange.\<close>

lemma mcs_inv_outside:
  assumes inv: "mcs_inv s" and out: "i \<notin> set (m_queue s)"
    and eq: "m_queue s' = m_queue s" "m_tail s' = m_tail s"
      "\<And>j. j \<noteq> i \<Longrightarrow> m_pc s' j = m_pc s j \<and> m_locked s' j = m_locked s j \<and> m_next s' j = m_next s j"
    and i: "m_pc s' i \<in> {Lock_store_locked, Lock_exchange}" "m_next s' i = None"
      "m_pc s' i = Lock_exchange \<longrightarrow> m_locked s' i"
  shows "mcs_inv s'"
proof -
  note D = mcs_invD [OF inv]
  have same: "m_pc s' j = m_pc s j" "m_locked s' j = m_locked s j" "m_next s' j = m_next s j"
    if "j \<in> set (m_queue s)" for j
    using that out eq(3) [of j] by auto
  show ?thesis
  proof (rule mcs_invI)
    show "successively (mcs_behind s') (m_queue s')"
      unfolding eq using D(8)
      by (rule mcs_chain_frame) (auto simp: same dest: in_set_butlastD in_set_tlD)
    show "mcs_front s' (hd (m_queue s')) \<and> m_next s' (last (m_queue s')) = None" if "m_queue s' \<noteq> []"
      using that D(6,7) same mcs_front_cong [of s' "hd (m_queue s)" s] by (simp add: eq)
    show "j \<notin> set (m_queue s') \<longleftrightarrow> m_pc s' j \<in> {Idle, Lock_store_locked, Lock_exchange}" for j
      using D(3) [of j] out i eq by (cases "j = i") auto
    show "m_next s' j = None" if "m_pc s' j \<in> {Lock_store_locked, Lock_exchange}" for j
      using D(4) [of j] i eq that by (cases "j = i") auto
    show "m_locked s' j" if "m_pc s' j = Lock_exchange" for j
      using D(5) [of j] i eq that by (cases "j = i") auto
    show "m_tail s' \<noteq> Some j" if "m_pc s' j = Unlock_wait" for j
      using D(9) [of j] i eq that by (cases "j = i") auto
    show "m_next s' j \<noteq> None" if "m_pc s' j = Unlock_handoff" for j
      using D(10) [of j] i eq that by (cases "j = i") auto
  qed (use D eq in auto)
qed

lemma mcs_inv_exchange:
  assumes inv: "mcs_inv s" and pc: "m_pc s i = Lock_exchange"
  defines "s' \<equiv> s\<lparr>m_tail := Some i,
        m_pc := (m_pc s)(i := (case m_tail s of None \<Rightarrow> Critical | Some prev \<Rightarrow> Lock_link prev)),
        m_queue := m_queue s @ [i]\<rparr>"
  shows "mcs_inv s'"
proof -
  note D = mcs_invD [OF inv]
  have q: "i \<notin> set (m_queue s)" using D(3) [of i] pc by simp
  have i: "m_next s i = None" "m_locked s i" using D(4,5) [of i] pc by auto
  show ?thesis
  proof (rule mcs_invI)
    have "successively (mcs_behind s') (m_queue s)"
      using D(8) q by (rule_tac mcs_chain_frame) (auto simp: s'_def dest: in_set_tlD)
    moreover have "mcs_behind s' (last (m_queue s)) i" if "m_queue s \<noteq> []"
      using that D(2,7) i by (auto simp: mcs_behind_def s'_def)
    moreover have "m_queue s' = m_queue s @ [i]" by (simp add: s'_def)
    ultimately show "successively (mcs_behind s') (m_queue s')"
      by (auto simp: successively_append_iff)
    show "mcs_front s' (hd (m_queue s')) \<and> m_next s' (last (m_queue s')) = None" if "m_queue s' \<noteq> []"
      using D(2,6,7) q i
      by (cases "m_queue s") (auto simp: mcs_front_def mcs_holds_def s'_def)
    show "j \<notin> set (m_queue s') \<longleftrightarrow> m_pc s' j \<in> {Idle, Lock_store_locked, Lock_exchange}" for j
      using D(3) [of j] by (cases "j = i") (auto simp: s'_def split: option.splits)
    show "m_tail s' \<noteq> Some j" if "m_pc s' j = Unlock_wait" for j
      using that pc by (cases "j = i") (auto simp: s'_def split: option.splits)
  qed (use D q in \<open>auto simp: s'_def split: if_splits option.splits\<close>)
qed

lemma mcs_inv_link:
  assumes inv: "mcs_inv s" and pc: "m_pc s i = Lock_link prev"
  defines "s' \<equiv> s\<lparr>m_next := (m_next s)(prev := Some i), m_pc := (m_pc s)(i := Lock_spin)\<rparr>"
  shows "mcs_inv s'"
proof -
  note D = mcs_invD [OF inv]
  have "i \<in> set (m_queue s)" "\<not> mcs_front s i"
    using D(3) [of i] pc by (auto simp: mcs_front_def mcs_holds_def)
  from mcs_waiting_split [OF inv this] obtain us p vs
    where q: "m_queue s = us @ p # i # vs" and b: "mcs_behind s p i" by blast
  have p: "prev = p" and l: "m_locked s i" using b pc by (auto simp: mcs_behind_def)
  have d: "distinct (us @ p # i # vs)" using D(1) q by simp
  have chain: "successively (mcs_behind s) (us @ [p])" "successively (mcs_behind s) (i # vs)"
    using D(8) unfolding q by (simp_all add: successively_append_iff)
  have "successively (mcs_behind s') (us @ [p])"
    using chain(1) by (rule mcs_chain_frame) (use d in \<open>auto simp: s'_def p dest: in_set_tlD\<close>)
  moreover have "successively (mcs_behind s') (i # vs)"
    using chain(2) by (rule mcs_chain_frame) (use d in \<open>auto simp: s'_def p split: if_splits dest: in_set_butlastD\<close>)
  moreover have "mcs_behind s' p i" using l by (simp add: mcs_behind_def s'_def p)
  ultimately have ch: "successively (mcs_behind s') (m_queue s')"
    by (simp add: s'_def q successively_append_iff successively_Cons)
  show ?thesis
  proof (rule mcs_invI)
    show "mcs_front s' (hd (m_queue s')) \<and> m_next s' (last (m_queue s')) = None" if "m_queue s' \<noteq> []"
    proof -
      have "last (i # vs) \<noteq> p" using d by auto
      moreover have "hd (us @ [p]) \<noteq> i" using d by (cases us) auto
      ultimately show ?thesis
        using D(6,7) unfolding q by (cases us) (auto simp: s'_def p q mcs_front_def mcs_holds_def)
    qed
    show "m_next s' j = None" if "m_pc s' j \<in> {Lock_store_locked, Lock_exchange}" for j
    proof -
      have "j \<noteq> p" using that D(3) [of p] q d by (auto simp: s'_def split: if_splits)
      then show ?thesis using that D(4) [of j] by (auto simp: s'_def p split: if_splits)
    qed
  qed (use D pc ch in \<open>auto simp: s'_def split: if_splits\<close>)
qed

text \<open>Steps of the front thread that keep it at the front.\<close>

lemma mcs_inv_front_move:
  assumes inv: "mcs_inv s" and fr: "mcs_front s i"
    and pc: "pc \<in> {Critical, Unlock_cas, Unlock_wait, Unlock_handoff}"
    and w: "pc = Unlock_wait \<longrightarrow> m_tail s \<noteq> Some i" and h: "pc = Unlock_handoff \<longrightarrow> m_next s i \<noteq> None"
  defines "s' \<equiv> s\<lparr>m_pc := (m_pc s)(i := pc)\<rparr>"
  shows "mcs_inv s'"
proof -
  note D = mcs_invD [OF inv]
  obtain q where q: "m_queue s = i # q" using mcs_front_hd [OF inv fr] by blast
  show ?thesis
  proof (rule mcs_invI)
    have "successively (mcs_behind s') (m_queue s)"
      using D(8) by (rule mcs_chain_frame) (use D(1) q in \<open>auto simp: s'_def\<close>)
    then show "successively (mcs_behind s') (m_queue s')" by (simp add: s'_def)
    show "mcs_front s' (hd (m_queue s')) \<and> m_next s' (last (m_queue s')) = None" if "m_queue s' \<noteq> []"
      using D(7) q pc by (auto simp: s'_def mcs_front_def mcs_holds_def)
    show "j \<notin> set (m_queue s') \<longleftrightarrow> m_pc s' j \<in> {Idle, Lock_store_locked, Lock_exchange}" for j
      using D(3) [of j] q pc by (cases "j = i") (auto simp: s'_def)
    show "m_tail s' \<noteq> Some j" if "m_pc s' j = Unlock_wait" for j
      using that D(9) [of j] w by (cases "j = i") (auto simp: s'_def)
    show "m_next s' j \<noteq> None" if "m_pc s' j = Unlock_handoff" for j
      using that D(10) [of j] h by (cases "j = i") (auto simp: s'_def)
  qed (use D pc in \<open>auto simp: s'_def split: if_splits\<close>)
qed

lemma mcs_inv_release_last:
  assumes inv: "mcs_inv s" and pc: "m_pc s i = Unlock_cas" and t: "m_tail s = Some i"
  defines "s' \<equiv> s\<lparr>m_tail := None, m_pc := (m_pc s)(i := Idle), m_queue := tl (m_queue s)\<rparr>"
  shows "mcs_inv s'"
proof -
  note D = mcs_invD [OF inv]
  have "mcs_front s i" using pc by (simp add: mcs_front_def mcs_holds_def)
  then obtain q where q: "m_queue s = i # q" using mcs_front_hd [OF inv] by blast
  have "q = []" using D(1,2) t q by (cases q rule: rev_cases) auto
  then show ?thesis
    using q D(3-5,9,10) pc by (intro mcs_invI) (auto simp: s'_def split: if_splits)
qed

lemma mcs_inv_handoff:
  assumes inv: "mcs_inv s" and pc: "m_pc s i = Unlock_handoff" and n: "m_next s i = Some j"
  defines "s' \<equiv> s\<lparr>m_locked := (m_locked s)(j := False), m_pc := (m_pc s)(i := Idle),
        m_queue := tl (m_queue s)\<rparr>"
  shows "mcs_inv s'"
proof -
  note D = mcs_invD [OF inv]
  have "mcs_front s i" using pc by (simp add: mcs_front_def mcs_holds_def)
  then obtain q where q: "m_queue s = i # q" using mcs_front_hd [OF inv] by blast
  then obtain k r where r: "q = k # r" using D(7) n by (cases q) auto
  have "mcs_behind s i k" using D(8) q r by simp
  then have k: "k = j" "m_pc s j = Lock_spin" using n by (auto simp: mcs_behind_def)
  have d: "distinct (i # j # r)" using D(1) q r k by simp
  show ?thesis
  proof (rule mcs_invI)
    have "successively (mcs_behind s) (j # r)" using D(8) q r k by simp
    then have "successively (mcs_behind s') (j # r)"
      by (rule mcs_chain_frame) (use d in \<open>auto simp: s'_def\<close>)
    then show "successively (mcs_behind s') (m_queue s')" by (simp add: s'_def q r k)
    show "mcs_front s' (hd (m_queue s')) \<and> m_next s' (last (m_queue s')) = None" if "m_queue s' \<noteq> []"
      using D(7) q r k d by (auto simp: s'_def mcs_front_def)
    show "l \<notin> set (m_queue s') \<longleftrightarrow> m_pc s' l \<in> {Idle, Lock_store_locked, Lock_exchange}" for l
      using D(3) [of l] q r k d by (cases "l = i") (auto simp: s'_def)
    show "m_locked s' l" if "m_pc s' l = Lock_exchange" for l
      using D(5) [of l] that k by (auto simp: s'_def split: if_splits)
  qed (use D q r k pc in \<open>auto simp: s'_def split: if_splits\<close>)
qed

lemma mcs_step_inv:
  assumes "mcs_inv s" and "mcs_step i s s'"
  shows "mcs_inv s'"
  using assms(2) unfolding mcs_step_def
proof
  assume "nkit_mcs_lock_step i s s'"
  then show ?thesis
  proof cases
    case store_next
    with assms(1) mcs_invD(3) [OF assms(1), of i] show ?thesis
      by (intro mcs_inv_outside [OF assms(1), of i]) auto
  next
    case store_locked
    with assms(1) mcs_invD(3,4) [OF assms(1), of i] show ?thesis
      by (intro mcs_inv_outside [OF assms(1), of i]) auto
  next
    case acquired
    then show ?thesis
      using mcs_inv_front_move [OF assms(1), of i Critical] by (simp add: mcs_front_def)
  qed (use assms(1) mcs_inv_exchange mcs_inv_link in auto)
next
  assume "nkit_mcs_unlock_step i s s'"
  then show ?thesis
  proof cases
    case read_next
    then show ?thesis
      using mcs_inv_front_move [OF assms(1), of i]
      by (auto simp: mcs_front_def mcs_holds_def)
  next
    case cas_fail
    then show ?thesis
      using mcs_inv_front_move [OF assms(1), of i Unlock_wait] by (simp add: mcs_front_def mcs_holds_def)
  next
    case linked
    then show ?thesis
      using mcs_inv_front_move [OF assms(1), of i Unlock_handoff] by (simp add: mcs_front_def mcs_holds_def)
  qed (use assms(1) mcs_inv_release_last mcs_inv_handoff in auto)
qed

lemma mcs_reach_inv: "mcs_reach s \<Longrightarrow> mcs_inv s"
  by (erule reach_invariant [where I = mcs_inv]) (auto intro: mcs_inv_init mcs_step_inv)

lemma mcs_holder_hd:
  assumes "mcs_reach s" and "mcs_holds s i"
  shows "\<exists>q. m_queue s = i # q"
  using mcs_front_hd [OF mcs_reach_inv [OF assms(1)], of i] assms(2) by (simp add: mcs_front_def)

lemma mcs_step_others:
  assumes "mcs_step i s s'" and "j \<noteq> i"
  shows "m_pc s' j = m_pc s j"
  using assms unfolding mcs_step_def
  by (auto elim!: nkit_mcs_lock_step.cases nkit_mcs_unlock_step.cases)

interpretation mcs: mutex nkit_mcs_init mcs_step mcs_holds
proof unfold_locales
  show "i = j" if "mcs_reach s" "mcs_holds s i" "mcs_holds s j" for s i j
    using mcs_holder_hd [OF that(1,2)] mcs_holder_hd [OF that(1,3)] by auto
  show "mcs_holds s' j = mcs_holds s j" if "mcs_step i s s'" "j \<noteq> i" for i s s' j
    using mcs_step_others [OF that] by (simp add: mcs_holds_def)
qed

subsection \<open>An uncontended lock\<close>

text \<open>
  The two functions as a thread runs them while no other thread moves, on the tail pointer alone:
  \<^const>\<open>None\<close> means that the call spins until another thread acts. The data structures use these
  for the lock calls around their critical sections.
\<close>

definition mcs_solo_lock :: "'n option \<Rightarrow> 'n \<Rightarrow> 'n option option" where
  "mcs_solo_lock tail node = (case tail of None \<Rightarrow> Some (Some node) | Some _ \<Rightarrow> None)"

definition mcs_solo_unlock :: "'n option \<Rightarrow> 'n \<Rightarrow> 'n option option" where
  "mcs_solo_unlock tail node = (if tail = Some node then Some None else None)"

lemma mcs_solo_lock_run:
  assumes "m_pc s i = Idle" and "mcs_solo_lock (m_tail s) i = Some t"
  shows "\<exists>s'. (mcs_step i)\<^sup>*\<^sup>* s s' \<and> m_pc s' i = Critical \<and> m_tail s' = t \<and> m_next s' i = None"
proof -
  let ?s1 = "s\<lparr>m_next := (m_next s)(i := None), m_pc := (m_pc s)(i := Lock_store_locked)\<rparr>"
  let ?s2 = "?s1\<lparr>m_locked := (m_locked ?s1)(i := True), m_pc := (m_pc ?s1)(i := Lock_exchange)\<rparr>"
  let ?s3 = "?s2\<lparr>m_tail := Some i, m_pc := (m_pc ?s2)(i := (case m_tail ?s2 of None \<Rightarrow> Critical
      | Some prev \<Rightarrow> Lock_link prev)), m_queue := m_queue ?s2 @ [i]\<rparr>"
  have "mcs_step i s ?s1" using nkit_mcs_lock_step.store_next [OF assms(1)] by (simp add: mcs_step_def)
  moreover have "mcs_step i ?s1 ?s2"
    using nkit_mcs_lock_step.store_locked [of ?s1 i] by (simp add: mcs_step_def)
  moreover have "mcs_step i ?s2 ?s3"
    using nkit_mcs_lock_step.exchange [of ?s2 i] by (simp add: mcs_step_def)
  ultimately have "(mcs_step i)\<^sup>*\<^sup>* s ?s3" by (meson rtranclp.rtrancl_into_rtrancl rtranclp.rtrancl_refl)
  moreover have "m_tail s = None" "t = Some i"
    using assms(2) by (auto simp: mcs_solo_lock_def split: option.splits)
  ultimately show ?thesis by (intro exI [of _ ?s3]) simp
qed

lemma mcs_solo_unlock_run:
  assumes "m_pc s i = Critical" and "m_next s i = None" and "mcs_solo_unlock (m_tail s) i = Some t"
  shows "\<exists>s'. (mcs_step i)\<^sup>*\<^sup>* s s' \<and> m_pc s' i = Idle \<and> m_tail s' = t"
proof -
  let ?s1 = "s\<lparr>m_pc := (m_pc s)(i := Unlock_cas)\<rparr>"
  let ?s2 = "?s1\<lparr>m_tail := None, m_pc := (m_pc ?s1)(i := Idle), m_queue := tl (m_queue ?s1)\<rparr>"
  have t: "m_tail s = Some i" "t = None"
    using assms(3) by (auto simp: mcs_solo_unlock_def split: if_splits)
  have "mcs_step i s ?s1"
    using nkit_mcs_unlock_step.read_next [OF assms(1)] assms(2) by (simp add: mcs_step_def)
  moreover have "mcs_step i ?s1 ?s2"
    using nkit_mcs_unlock_step.cas_ok [of ?s1 i] t by (simp add: mcs_step_def)
  ultimately have "(mcs_step i)\<^sup>*\<^sup>* s ?s2" by (meson rtranclp.rtrancl_into_rtrancl rtranclp.rtrancl_refl)
  then show ?thesis using t by (intro exI [of _ ?s2]) simp
qed

subsection \<open>Progress\<close>

lemma mcs_step_lockI: "nkit_mcs_lock_step i s s' \<Longrightarrow> mcs_step i s s'"
  and mcs_step_unlockI: "nkit_mcs_unlock_step i s s' \<Longrightarrow> mcs_step i s s'"
  by (simp_all add: mcs_step_def)

lemma mcs_moves: "mcs_step i s s' \<Longrightarrow> m_pc s' i \<noteq> m_pc s i \<Longrightarrow> \<exists>s'. mcs_step i s s' \<and> s' \<noteq> s"
  by auto

lemma mcs_waiter_links:
  assumes "mcs_inv s" and "m_queue s = h # q" and "m_next s h = None" and "m_tail s \<noteq> Some h"
  shows "\<exists>k \<in> set q. m_pc s k = Lock_link h"
proof -
  from assms(1,2,4) have "q \<noteq> []" by (auto simp: mcs_inv_def)
  then obtain k r where q: "q = k # r" by (cases q) auto
  with assms(1,2) have "mcs_behind s h k" by (simp add: mcs_inv_def)
  with assms(3) q show ?thesis by (auto simp: mcs_behind_def)
qed

lemma mcs_head_moves:
  assumes "mcs_inv s" and "m_queue s = h # q"
    and "\<not> (m_pc s h = Unlock_wait \<and> m_next s h = None)"
  shows "\<exists>s'. mcs_step h s s' \<and> s' \<noteq> s"
proof -
  have "mcs_front s h" using assms(1,2) by (simp add: mcs_inv_def)
  then consider "m_pc s h = Critical" | "m_pc s h = Unlock_cas" | "m_pc s h = Unlock_wait"
    | "m_pc s h = Unlock_handoff" | "m_pc s h = Lock_spin" "\<not> m_locked s h"
    by (auto simp: mcs_front_def mcs_holds_def)
  then show ?thesis
  proof cases
    case 1
    then show ?thesis using mcs_moves [OF mcs_step_unlockI [OF nkit_mcs_unlock_step.read_next [OF 1]]] by simp
  next
    case 2
    then show ?thesis
      using mcs_moves [OF mcs_step_unlockI [OF nkit_mcs_unlock_step.cas_ok [OF 2]]]
        mcs_moves [OF mcs_step_unlockI [OF nkit_mcs_unlock_step.cas_fail [OF 2]]]
      by (cases "m_tail s = Some h") simp_all
  next
    case 3
    with assms(3) show ?thesis
      using mcs_moves [OF mcs_step_unlockI [OF nkit_mcs_unlock_step.linked [OF 3]]] by simp
  next
    case 4
    then obtain j where "m_next s h = Some j" using assms(1) by (auto simp: mcs_inv_def)
    with 4 show ?thesis
      using mcs_moves [OF mcs_step_unlockI [OF nkit_mcs_unlock_step.handoff [OF 4]]] by simp
  next
    case 5
    then show ?thesis
      using mcs_moves [OF mcs_step_lockI [OF nkit_mcs_lock_step.acquired [OF 5]]] by simp
  qed
qed

lemma mcs_queue_step:
  assumes "mcs_step i s s'"
  shows "m_queue s' = m_queue s \<or> m_queue s' = m_queue s @ [i] \<and> m_pc s i = Lock_exchange
     \<or> m_queue s' = tl (m_queue s) \<and> mcs_holds s i \<and> \<not> mcs_holds s' i"
  using assms unfolding mcs_step_def
  by (auto elim!: nkit_mcs_lock_step.cases nkit_mcs_unlock_step.cases simp: mcs_holds_def)

subsection \<open>A run of two threads\<close>

text \<open>Thread 0 takes the free lock, thread 1 queues up behind it and links its node.\<close>

definition mcs_demo0 :: mcs where
  "mcs_demo0 = \<lparr>m_tail = None, m_next = (\<lambda>_. None), m_locked = (\<lambda>_. False), m_pc = (\<lambda>_. Idle), m_queue = []\<rparr>"

definition mcs_demo :: mcs where
  "mcs_demo = \<lparr>m_tail = Some 1, m_next = (\<lambda>_. None)(0 := Some 1),
     m_locked = (\<lambda>_. False)(0 := True, 1 := True), m_pc = (\<lambda>_. Idle)(0 := Critical, 1 := Lock_spin),
     m_queue = [0, 1]\<rparr>"

lemma mcs_demo0_reach: "mcs_reach mcs_demo0"
  by (rule reach.start) (simp add: nkit_mcs_init_def mcs_demo0_def)

lemma mcs_reach_lock: "mcs_reach s \<Longrightarrow> nkit_mcs_lock_step i s s' \<Longrightarrow> mcs_reach s'"
  by (auto intro: reach.move mcs_step_lockI)

lemma mcs_demo_reach: "mcs_reach mcs_demo"
proof -
  note L = mcs_reach_lock
  note e = L [OF L [OF L [OF mcs_demo0_reach nkit_mcs_lock_step.store_next [of _ 0]]
    nkit_mcs_lock_step.store_locked [of _ 0]] nkit_mcs_lock_step.exchange [of _ 0]]
  have "mcs_reach (mcs_demo\<lparr>m_tail := Some 0, m_next := \<lambda>_. None, m_locked := (\<lambda>_. False)(0 := True),
      m_pc := (\<lambda>_. Idle)(0 := Critical), m_queue := [0]\<rparr>)" (is "mcs_reach ?s3")
    by (rule back_subst [of mcs_reach, OF e]) (simp_all add: mcs_demo0_def mcs_demo_def fun_eq_iff)
  note f = L [OF L [OF L [OF L [OF this nkit_mcs_lock_step.store_next [of _ 1]]
    nkit_mcs_lock_step.store_locked [of _ 1]] nkit_mcs_lock_step.exchange [of _ 1]]
    nkit_mcs_lock_step.link [of _ 1 0]]
  show ?thesis by (rule back_subst [of mcs_reach, OF f]) (simp_all add: mcs_demo_def fun_eq_iff)
qed

subsection \<open>Properties\<close>

text \<open>
  C5. Mutual exclusion of the MCS lock: in every interleaving of any number of threads that lock
  and unlock, at most one thread is between the return of \<^verbatim>\<open>nkit_mcs_lock\<close> and the return of
  \<^verbatim>\<open>nkit_mcs_unlock\<close>.
\<close>

theorem mcs_mutual_exclusion:
  assumes "mcs_reach s" and "mcs_holds s i" and "mcs_holds s j"
  shows "i = j"
  using assms by (rule mcs.excl)

theorem mcs_mutual_exclusion_witness:
  "mcs_reach mcs_demo \<and> mcs_holds mcs_demo 0 \<and> \<not> mcs_holds mcs_demo 1"
proof -
  have "mcs_holds mcs_demo 0" by (simp add: mcs_demo_def mcs_holds_def)
  with mcs_demo_reach show ?thesis
    using mcs_mutual_exclusion [OF mcs_demo_reach, of 0 1] by auto
qed

text \<open>
  C10. The MCS lock is first come, first served: a thread that gets the lock is the first of the queue
  of threads in the order of their exchange on the tail; the queue only grows at its end, by the
  thread that executes the exchange, and only shrinks at its head, when the holder releases.
\<close>

theorem mcs_fifo:
  assumes "mcs_reach s" and "mcs_step i s s'"
  shows "(mcs_holds s' i \<longrightarrow> (\<exists>q. m_queue s' = i # q)) \<and>
     (m_queue s' = m_queue s \<or> m_queue s' = m_queue s @ [i] \<and> m_pc s i = Lock_exchange
       \<or> m_queue s = i # m_queue s' \<and> mcs_holds s i \<and> \<not> mcs_holds s' i)"
proof -
  from assms have "mcs_reach s'" by (rule reach.move)
  then have "mcs_holds s' i \<longrightarrow> (\<exists>q. m_queue s' = i # q)" using mcs_holder_hd by blast
  moreover have "m_queue s = i # m_queue s'" if "m_queue s' = tl (m_queue s)" "mcs_holds s i"
    using mcs_holder_hd [OF assms(1) that(2)] that(1) by auto
  ultimately show ?thesis using mcs_queue_step [OF assms(2)] by blast
qed

theorem mcs_fifo_witness:
  "\<exists>s'. mcs_reach mcs_demo \<and> mcs_step 0 mcs_demo s' \<and>
     (m_queue s' = [0, 1] \<or> m_queue s' = [0, 1, 0] \<or> m_queue s' = [1])"
proof -
  have c: "m_pc mcs_demo 0 = Critical" "m_queue mcs_demo = [0, 1]" by (simp_all add: mcs_demo_def)
  note st = mcs_step_unlockI [OF nkit_mcs_unlock_step.read_next [OF c(1)]]
  show ?thesis
    using mcs_fifo [OF mcs_demo_reach st] st mcs_demo_reach c(2) by (intro exI conjI) auto
qed

text \<open>
  C11. The MCS lock does not deadlock: whenever threads are queued, some queued thread has a step that
  changes the state. It is the head of the queue, or, while the head waits in
  \<^verbatim>\<open>nkit_mcs_unlock\<close> for its successor to link, that successor.
\<close>

theorem mcs_progress:
  assumes "mcs_reach s" and "m_queue s \<noteq> []"
  shows "\<exists>i \<in> set (m_queue s). \<exists>s'. mcs_step i s s' \<and> s' \<noteq> s"
proof -
  note inv = mcs_reach_inv [OF assms(1)]
  obtain h q where hq: "m_queue s = h # q" using assms(2) by (cases "m_queue s") auto
  show ?thesis
  proof (cases "m_pc s h = Unlock_wait \<and> m_next s h = None")
    case True
    then obtain k where k: "k \<in> set q" "m_pc s k = Lock_link h"
      using mcs_waiter_links [OF inv hq] inv by (auto simp: mcs_inv_def)
    then show ?thesis
      using mcs_moves [OF mcs_step_lockI [OF nkit_mcs_lock_step.link [OF k(2)]]] hq by auto
  next
    case False
    then show ?thesis using mcs_head_moves [OF inv hq] hq by auto
  qed
qed

theorem mcs_progress_witness:
  "mcs_reach mcs_demo \<and> (\<exists>i \<in> {0, 1}. \<exists>s'. mcs_step i mcs_demo s' \<and> s' \<noteq> mcs_demo)"
  using mcs_progress [OF mcs_demo_reach] mcs_demo_reach by (simp add: mcs_demo_def)

text \<open>
  C12. Data guarded by the MCS lock loses no update: threads that read the data, compute and write it
  back inside the critical section, interleaved with any steps of the others, leave the data as the
  operations applied one after the other would.
\<close>

theorem mcs_serialises:
  assumes "reach (guarded_init nkit_mcs_init d0) (guarded_step mcs_step mcs_holds opr) g"
  shows "g_data g = fold opr (g_log g) d0"
  using assms by (rule mcs.guarded_serial)

theorem mcs_serialises_witness:
  "\<exists>g. reach (guarded_init nkit_mcs_init (5::nat)) (guarded_step mcs_step mcs_holds (\<lambda>i d. d + i + 1)) g \<and>
     g_log g = [0] \<and> g_data g = 6"
proof -
  have "mcs_holds mcs_demo 0" by (simp add: mcs_demo_def mcs_holds_def)
  note run = guarded_update [of nkit_mcs_init mcs_step mcs_demo mcs_holds 0 5 "\<lambda>i d. d + i + 1",
    OF mcs_demo_reach this]
  show ?thesis using mcs_serialises [OF run] run by (intro exI [of _ "\<lparr>g_lock = mcs_demo, g_data = 6,
    g_local = Map.empty, g_log = [0]\<rparr>"]) simp
qed

end
