(* ===== verification/NK_Ticket.thy ===== *)
theory NK_Ticket
  imports NK_Mutex
begin

section \<open>The ticket lock (\<^verbatim>\<open>src/sync/ticket_lock.c\<close>)\<close>

text \<open>
  Both counters are 32 bits wide and wrap around. A thread that has taken its ticket loads
  \<open>serving\<close>, and either enters or executes as many pauses as its ticket is ahead, then loads
  again. \<open>t_queue\<close> is a history variable: the threads in the order of their tickets, the one being
  served first. The step relation admits \<open>2\<^sup>3\<^sup>2\<close> threads, the number of tickets.
\<close>

datatype ticket_pc =
    T_idle
  | T_load u32 \<comment> \<open>in the loop of line 20, with this ticket\<close>
  | T_pause u32 u32 \<comment> \<open>in the loop of line 29: ticket, pauses left\<close>
  | T_critical

record ticket_lock =
  t_ticket :: u32
  t_serving :: u32
  t_pc :: "nat \<Rightarrow> ticket_pc"
  t_queue :: "nat list"

definition nkit_ticket_init :: "ticket_lock \<Rightarrow> bool" where
  "nkit_ticket_init s \<longleftrightarrow> t_ticket s = 0 \<and> t_serving s = 0 \<and> t_pc s = (\<lambda>_. T_idle) \<and> t_queue s = []"

inductive nkit_ticket_lock_step :: "nat \<Rightarrow> ticket_lock \<Rightarrow> ticket_lock \<Rightarrow> bool" where
  take_ticket: "t_pc s i = T_idle \<Longrightarrow> nkit_ticket_lock_step i s
     (s\<lparr>t_ticket := t_ticket s + 1, t_pc := (t_pc s)(i := T_load (t_ticket s)), t_queue := t_queue s @ [i]\<rparr>)"
| our_turn: "t_pc s i = T_load my_ticket \<Longrightarrow> t_serving s = my_ticket \<Longrightarrow> nkit_ticket_lock_step i s
     (s\<lparr>t_pc := (t_pc s)(i := T_critical)\<rparr>)"
| backoff: "t_pc s i = T_load my_ticket \<Longrightarrow> t_serving s \<noteq> my_ticket \<Longrightarrow> nkit_ticket_lock_step i s
     (s\<lparr>t_pc := (t_pc s)(i := T_pause my_ticket (my_ticket - t_serving s))\<rparr>)"
| pause: "t_pc s i = T_pause my_ticket n \<Longrightarrow> nkit_ticket_lock_step i s
     (s\<lparr>t_pc := (t_pc s)(i := (if n = 0 then T_load my_ticket else T_pause my_ticket (n - 1)))\<rparr>)"

inductive nkit_ticket_unlock_step :: "nat \<Rightarrow> ticket_lock \<Rightarrow> ticket_lock \<Rightarrow> bool" where
  serve_next: "t_pc s i = T_critical \<Longrightarrow> nkit_ticket_unlock_step i s
     (s\<lparr>t_serving := t_serving s + 1, t_pc := (t_pc s)(i := T_idle), t_queue := tl (t_queue s)\<rparr>)"

definition ticket_step :: "nat \<Rightarrow> ticket_lock \<Rightarrow> ticket_lock \<Rightarrow> bool" where
  "ticket_step i s s' \<longleftrightarrow> i < 2 ^ 32 \<and> (nkit_ticket_lock_step i s s' \<or> nkit_ticket_unlock_step i s s')"

abbreviation ticket_reach :: "ticket_lock \<Rightarrow> bool" where
  "ticket_reach \<equiv> reach nkit_ticket_init ticket_step"

definition ticket_holds :: "ticket_lock \<Rightarrow> nat \<Rightarrow> bool" where
  "ticket_holds s i \<longleftrightarrow> t_pc s i = T_critical"

inductive_simps ticket_unlock_simp: "nkit_ticket_unlock_step i s s'"

subsection \<open>The invariant\<close>

text \<open>The thread at position \<open>p\<close> of the queue has the ticket \<open>serving + p\<close>, and only position 0 is in.\<close>

fun ticket_at :: "u32 \<Rightarrow> nat \<Rightarrow> ticket_pc \<Rightarrow> bool" where
  "ticket_at serving p T_idle = False"
| "ticket_at serving p T_critical = (p = 0)"
| "ticket_at serving p (T_load my) = (my = serving + of_nat p)"
| "ticket_at serving p (T_pause my n) = (my = serving + of_nat p)"

definition ticket_inv :: "ticket_lock \<Rightarrow> bool" where
  "ticket_inv s \<longleftrightarrow> distinct (t_queue s) \<and> set (t_queue s) \<subseteq> {..<2 ^ 32}
     \<and> t_ticket s = t_serving s + of_nat (length (t_queue s))
     \<and> (\<forall>i. i \<notin> set (t_queue s) \<longrightarrow> t_pc s i = T_idle)
     \<and> (\<forall>p<length (t_queue s). ticket_at (t_serving s) p (t_pc s (t_queue s ! p)))"

lemma ticket_invD:
  assumes "ticket_inv s"
  shows "distinct (t_queue s)" and "set (t_queue s) \<subseteq> {..<2 ^ 32}"
    and "t_ticket s = t_serving s + of_nat (length (t_queue s))"
    and "\<And>i. i \<notin> set (t_queue s) \<Longrightarrow> t_pc s i = T_idle"
    and "\<And>p. p < length (t_queue s) \<Longrightarrow> ticket_at (t_serving s) p (t_pc s (t_queue s ! p))"
  using assms by (simp_all add: ticket_inv_def)

lemma ticket_invI:
  assumes "distinct (t_queue s)" and "set (t_queue s) \<subseteq> {..<2 ^ 32}"
    and "t_ticket s = t_serving s + of_nat (length (t_queue s))"
    and "\<And>i. i \<notin> set (t_queue s) \<Longrightarrow> t_pc s i = T_idle"
    and "\<And>p. p < length (t_queue s) \<Longrightarrow> ticket_at (t_serving s) p (t_pc s (t_queue s ! p))"
  shows "ticket_inv s"
  using assms by (simp add: ticket_inv_def)

lemma ticket_queued:
  assumes "ticket_inv s" and "t_pc s i \<noteq> T_idle"
  obtains p where "p < length (t_queue s)" and "t_queue s ! p = i" and "ticket_at (t_serving s) p (t_pc s i)"
  using assms ticket_invD(4,5) [OF assms(1)] by (metis in_set_conv_nth)

lemma ticket_queue_bound: "ticket_inv s \<Longrightarrow> length (t_queue s) \<le> 2 ^ 32"
  using ticket_invD(1,2) [of s] card_mono [of "{..<2 ^ 32}" "set (t_queue s)"]
  by (simp add: distinct_card)

lemma ticket_turn:
  assumes "ticket_inv s" and "p < length (t_queue s)" and "t_serving s = t_serving s + of_nat p"
  shows "p = 0"
proof -
  have "unat (of_nat p :: u32) = p"
    using assms(2) ticket_queue_bound [OF assms(1)] by (simp add: unat_of_nat)
  moreover have "(of_nat p :: u32) = 0" using assms(3) by simp
  ultimately show ?thesis by simp
qed

lemma ticket_inv_local:
  assumes "ticket_inv s" and "p < length (t_queue s)" and "t_queue s ! p = i"
    and "ticket_at (t_serving s) p c"
  shows "ticket_inv (s\<lparr>t_pc := (t_pc s)(i := c)\<rparr>)"
proof -
  have "ticket_at (t_serving s) r (((t_pc s)(i := c)) (t_queue s ! r))" if "r < length (t_queue s)" for r
  proof (cases "r = p")
    case False
    then have "t_queue s ! r \<noteq> i"
      using ticket_invD(1) [OF assms(1)] assms(2,3) that nth_eq_iff_index_eq by blast
    then show ?thesis using ticket_invD(5) [OF assms(1) that] by simp
  qed (use assms(3,4) in simp)
  moreover have "i \<in> set (t_queue s)" using assms(2,3) by auto
  ultimately show ?thesis using assms(1) by (auto simp: ticket_inv_def)
qed

lemma ticket_inv_take:
  assumes "ticket_inv s" and "t_pc s i = T_idle" and "i < 2 ^ 32"
  shows "ticket_inv
    (s\<lparr>t_ticket := t_ticket s + 1, t_pc := (t_pc s)(i := T_load (t_ticket s)), t_queue := t_queue s @ [i]\<rparr>)"
    (is "ticket_inv ?s'")
proof -
  have ni: "i \<notin> set (t_queue s)"
    using assms(2) ticket_invD(5) [OF assms(1)] by (metis in_set_conv_nth ticket_at.simps(1))
  have "ticket_at (t_serving ?s') p (t_pc ?s' (t_queue ?s' ! p))" if "p < length (t_queue ?s')" for p
  proof (cases "p = length (t_queue s)")
    case True
    then show ?thesis using ticket_invD(3) [OF assms(1)] by simp
  next
    case False
    with that have "p < length (t_queue s)" by simp
    then show ?thesis using ticket_invD(5) [OF assms(1), of p] ni nth_mem [of p "t_queue s"]
      by (auto simp: nth_append)
  qed
  then show ?thesis using ticket_invD [OF assms(1)] assms(3) ni
    by (intro ticket_invI) (simp_all del: fun_upd_apply, simp_all)
qed

lemma ticket_inv_serve:
  assumes "ticket_inv s" and "t_pc s i = T_critical"
  shows "ticket_inv
    (s\<lparr>t_serving := t_serving s + 1, t_pc := (t_pc s)(i := T_idle), t_queue := tl (t_queue s)\<rparr>)"
    (is "ticket_inv ?s'")
proof -
  obtain p where "p < length (t_queue s)" "t_queue s ! p = i" "ticket_at (t_serving s) p (t_pc s i)"
    using ticket_queued [OF assms(1), of i] assms(2) by auto
  then obtain q where q: "t_queue s = i # q"
    using assms(2) by (cases "t_queue s") auto
  with ticket_invD(1) [OF assms(1)] have ni: "i \<notin> set q" by simp
  have "ticket_at (t_serving ?s') p (t_pc ?s' (q ! p))" if "p < length q" for p
  proof -
    have "q ! p \<noteq> i" using ni that nth_mem by auto
    then show ?thesis using ticket_invD(5) [OF assms(1), of "Suc p"] that q
      by (cases "t_pc s (q ! p)") (simp_all add: add.assoc)
  qed
  then show ?thesis using assms(1) q ni by (auto simp: ticket_inv_def add.assoc)
qed

lemma ticket_step_inv:
  assumes "ticket_inv s" and "ticket_step i s s'"
  shows "ticket_inv s'"
proof -
  have lk: "ticket_inv s'" if "nkit_ticket_lock_step i s s'" "i < 2 ^ 32"
    using that(1)
  proof (cases rule: nkit_ticket_lock_step.cases)
    case take_ticket
    then show ?thesis using ticket_inv_take [OF assms(1)] that(2) by simp
  next
    case (our_turn my)
    then obtain p where p: "p < length (t_queue s)" "t_queue s ! p = i" "ticket_at (t_serving s) p (t_pc s i)"
      using ticket_queued [OF assms(1), of i] by auto
    then have "p = 0" using ticket_turn [OF assms(1) p(1)] our_turn by simp
    with p our_turn show ?thesis
      using ticket_inv_local [OF assms(1) p(1,2), of T_critical] by simp
  next
    case (backoff my)
    then obtain p where p: "p < length (t_queue s)" "t_queue s ! p = i" "ticket_at (t_serving s) p (t_pc s i)"
      using ticket_queued [OF assms(1), of i] by auto
    with backoff show ?thesis
      using ticket_inv_local [OF assms(1) p(1,2)] by simp
  next
    case (pause my n)
    then obtain p where p: "p < length (t_queue s)" "t_queue s ! p = i" "ticket_at (t_serving s) p (t_pc s i)"
      using ticket_queued [OF assms(1), of i] by auto
    with pause show ?thesis
      using ticket_inv_local [OF assms(1) p(1,2)] by auto
  qed
  show ?thesis
    using assms(2) lk ticket_inv_serve [OF assms(1)] by (auto simp: ticket_step_def ticket_unlock_simp)
qed

lemma ticket_reach_inv: "ticket_reach s \<Longrightarrow> ticket_inv s"
  by (erule reach_invariant [where I = ticket_inv])
    (simp add: nkit_ticket_init_def ticket_inv_def, rule ticket_step_inv)

lemma ticket_holder_hd:
  assumes "ticket_reach s" and "ticket_holds s i"
  shows "\<exists>q. t_queue s = i # q"
proof -
  obtain p where "p < length (t_queue s)" "t_queue s ! p = i" "ticket_at (t_serving s) p (t_pc s i)"
    using ticket_queued [OF ticket_reach_inv [OF assms(1)], of i] assms(2) by (auto simp: ticket_holds_def)
  then show ?thesis using assms(2) by (cases "t_queue s") (auto simp: ticket_holds_def)
qed

interpretation ticket: mutex nkit_ticket_init ticket_step ticket_holds
proof unfold_locales
  show "i = j" if "ticket_reach s" "ticket_holds s i" "ticket_holds s j" for s i j
    using ticket_holder_hd [OF that(1,2)] ticket_holder_hd [OF that(1,3)] by auto
  show "ticket_holds s' j = ticket_holds s j" if "ticket_step i s s'" "j \<noteq> i" for i s s' j
    using that by (auto simp: ticket_step_def ticket_holds_def ticket_unlock_simp
      elim!: nkit_ticket_lock_step.cases)
qed

subsection \<open>Progress of the thread being served\<close>

lemma ticket_pauses_end:
  assumes "t_pc s i = T_pause my n" and "i < 2 ^ 32"
  shows "(ticket_step i)\<^sup>*\<^sup>* s (s\<lparr>t_pc := (t_pc s)(i := T_load my)\<rparr>)"
  using assms
proof (induction "unat n" arbitrary: s n)
  case 0
  then have "n = 0" by (simp add: unat_eq_0)
  with 0 have "ticket_step i s (s\<lparr>t_pc := (t_pc s)(i := T_load my)\<rparr>)"
    using nkit_ticket_lock_step.pause [of s i my n] by (simp add: ticket_step_def)
  then show ?case by (rule r_into_rtranclp)
next
  case (Suc k)
  let ?s1 = "s\<lparr>t_pc := (t_pc s)(i := T_pause my (n - 1))\<rparr>"
  have "n \<noteq> 0" using Suc.hyps(2) by auto
  then have "ticket_step i s ?s1"
    using nkit_ticket_lock_step.pause [OF Suc.prems(1)] Suc.prems(2) by (simp add: ticket_step_def)
  moreover have "unat (n - 1) = k" using Suc.hyps(2) \<open>n \<noteq> 0\<close> by (simp add: unat_minus_one)
  then have "(ticket_step i)\<^sup>*\<^sup>* ?s1 (s\<lparr>t_pc := (t_pc s)(i := T_load my)\<rparr>)"
    using Suc.hyps(1) [of "n - 1" ?s1] Suc.prems(2) by simp
  ultimately show ?case by (rule converse_rtranclp_into_rtranclp)
qed

lemma ticket_load_enters:
  assumes "t_pc s i = T_load (t_serving s)" and "i < 2 ^ 32"
  shows "ticket_step i s (s\<lparr>t_pc := (t_pc s)(i := T_critical)\<rparr>)"
  using nkit_ticket_lock_step.our_turn [OF assms(1)] assms(2) by (simp add: ticket_step_def)

subsection \<open>A run of two threads\<close>

text \<open>Thread 0 and thread 1 hold the tickets 0 and 1.\<close>

definition ticket_demo :: ticket_lock where
  "ticket_demo = \<lparr>t_ticket = 2, t_serving = 0,
     t_pc = (\<lambda>_. T_idle)(0 := T_critical, 1 := T_load 1), t_queue = [0, 1]\<rparr>"

lemma ticket_reach_lock:
  "ticket_reach s \<Longrightarrow> nkit_ticket_lock_step i s s' \<Longrightarrow> i < 2 ^ 32 \<Longrightarrow> ticket_reach s'"
  by (rule reach.move [of _ _ s i]) (simp_all add: ticket_step_def)

lemma ticket_demo_reach: "ticket_reach ticket_demo"
proof -
  have init: "ticket_reach \<lparr>t_ticket = 0, t_serving = 0, t_pc = \<lambda>_. T_idle, t_queue = []\<rparr>"
    by (rule reach.start) (simp add: nkit_ticket_init_def)
  note L = ticket_reach_lock
  note r = L [OF L [OF L [OF init nkit_ticket_lock_step.take_ticket [of _ 0]]
    nkit_ticket_lock_step.our_turn [of _ 0 0]] nkit_ticket_lock_step.take_ticket [of _ 1]]
  show ?thesis by (rule back_subst [of ticket_reach, OF r]) (simp_all add: ticket_demo_def fun_eq_iff)
qed

subsection \<open>Properties\<close>

text \<open>
  C13. Mutual exclusion of the ticket lock, with 32-bit tickets that wrap around: in every
  interleaving of up to \<open>2\<^sup>3\<^sup>2\<close> threads, however often they lock, at most one thread is inside.
\<close>

theorem ticket_mutual_exclusion:
  assumes "ticket_reach s" and "ticket_holds s i" and "ticket_holds s j"
  shows "i = j"
  using assms by (rule ticket.excl)

theorem ticket_mutual_exclusion_witness:
  "ticket_reach ticket_demo \<and> ticket_holds ticket_demo 0 \<and> \<not> ticket_holds ticket_demo 1"
proof -
  have "ticket_holds ticket_demo 0" by (simp add: ticket_demo_def ticket_holds_def)
  with ticket_demo_reach show ?thesis
    using ticket_mutual_exclusion [OF ticket_demo_reach, of 0 1] by auto
qed

text \<open>
  The back-off is proportional: the number of pauses a thread executes between two loads of
  \<^verbatim>\<open>serving\<close>, the difference \<^verbatim>\<open>my_ticket - current\<close> computed with wrap-around, is the number of
  threads ahead of it in the queue.
\<close>

theorem ticket_backoff_distance:
  assumes "ticket_reach s" and "t_pc s i = T_load my_ticket"
  shows "\<exists>p < length (t_queue s). t_queue s ! p = i \<and> unat (my_ticket - t_serving s) = p"
proof -
  note inv = ticket_reach_inv [OF assms(1)]
  obtain p where p: "p < length (t_queue s)" "t_queue s ! p = i" "ticket_at (t_serving s) p (t_pc s i)"
    using ticket_queued [OF inv, of i] assms(2) by auto
  then have "unat (my_ticket - t_serving s) = p"
    using assms(2) ticket_queue_bound [OF inv] by (simp add: unat_of_nat)
  with p show ?thesis by blast
qed

theorem ticket_backoff_distance_witness:
  "ticket_reach ticket_demo \<and> t_pc ticket_demo 1 = T_load 1 \<and>
     (\<exists>p < 2. t_queue ticket_demo ! p = 1 \<and> unat (1 - t_serving ticket_demo) = p)"
proof -
  have "t_pc ticket_demo 1 = T_load 1" "length (t_queue ticket_demo) = 2" by (simp_all add: ticket_demo_def)
  then show ?thesis using ticket_backoff_distance [OF ticket_demo_reach, of 1 1] ticket_demo_reach by simp
qed

text \<open>
  C14. The ticket lock serves in the order of the tickets and does not block the thread whose turn it
  is: the holder is always the first of the queue, and if the first of the queue is not inside yet,
  its own steps alone, whatever its remaining pauses, bring it inside.
\<close>

theorem ticket_first_enters:
  assumes "ticket_reach s" and "t_queue s = i # q"
  shows "(\<forall>j. ticket_holds s j \<longrightarrow> j = i) \<and> (\<exists>s'. (ticket_step i)\<^sup>*\<^sup>* s s' \<and> ticket_holds s' i)"
proof -
  note inv = ticket_reach_inv [OF assms(1)]
  have at: "ticket_at (t_serving s) 0 (t_pc s i)" and i: "i < 2 ^ 32"
    using ticket_invD(5) [OF inv, of 0] ticket_invD(2) [OF inv] assms(2) by auto
  let ?e = "s\<lparr>t_pc := (t_pc s)(i := T_critical)\<rparr>"
  have "\<exists>s'. (ticket_step i)\<^sup>*\<^sup>* s s' \<and> ticket_holds s' i"
  proof (cases "t_pc s i")
    case (T_load my)
    then have "ticket_step i s ?e" using at i ticket_load_enters by simp
    then show ?thesis by (intro exI [of _ ?e]) (auto simp: ticket_holds_def)
  next
    case (T_pause my n)
    then have "my = t_serving s" using at by simp
    then have "ticket_step i (s\<lparr>t_pc := (t_pc s)(i := T_load my)\<rparr>) ?e"
      using ticket_load_enters [of "s\<lparr>t_pc := (t_pc s)(i := T_load my)\<rparr>" i] i by simp
    with ticket_pauses_end [OF T_pause i] show ?thesis
      by (intro exI [of _ ?e]) (auto simp: ticket_holds_def)
  qed (use at in \<open>auto simp: ticket_holds_def\<close>)
  then show ?thesis using ticket_holder_hd [OF assms(1)] assms(2) by auto
qed

theorem ticket_first_enters_witness:
  "ticket_reach ticket_demo \<and> (\<exists>s'. (ticket_step 0)\<^sup>*\<^sup>* ticket_demo s' \<and> ticket_holds s' 0)"
  using ticket_first_enters [OF ticket_demo_reach, of 0 "[1]"] ticket_demo_reach
  by (simp add: ticket_demo_def)

end
