(* ===== verification/NK_Rws.thy ===== *)
theory NK_Rws
  imports NK_Mutex
begin

section \<open>The reader-writer spinlock (\<^verbatim>\<open>src/sync/rws_lock.c\<close>)\<close>

text \<open>
  One 32-bit word holds the whole state: bit 0 the active writer, bit 1 the announcement of a
  waiting writer, the bits above the number of readers. Compare-and-swap is the weak one: it may fail
  although the word is unchanged. The step relation admits \<open>2\<^sup>3\<^sup>0 - 1\<close> threads, as many readers as
  the 30 bits can count.
\<close>

definition RWS_WRITER_ACTIVE :: u32 where
  "RWS_WRITER_ACTIVE = push_bit 0 1"

definition RWS_WRITER_WAITING :: u32 where
  "RWS_WRITER_WAITING = push_bit 1 1"

definition RWS_READER_INCR :: u32 where
  "RWS_READER_INCR = push_bit 2 1"

definition RWS_READER_MASK :: u32 where
  "RWS_READER_MASK = NOT (RWS_WRITER_ACTIVE OR RWS_WRITER_WAITING)"

datatype rws_pc =
    Rw_idle
  | R_load \<comment> \<open>the loop of \<^verbatim>\<open>nkit_rws_read_lock\<close>, before the load\<close>
  | R_cas u32 \<comment> \<open>the loaded state, no writer active or waiting\<close>
  | Reading
  | W_load \<comment> \<open>announced; the loop of \<^verbatim>\<open>nkit_rws_write_lock\<close>, before the load\<close>
  | W_cas u32 \<comment> \<open>the loaded state, no reader and no writer active\<close>
  | Writing

record rws =
  r_state :: u32
  r_pc :: "nat \<Rightarrow> rws_pc"

definition nkit_rws_init :: "rws \<Rightarrow> bool" where
  "nkit_rws_init s \<longleftrightarrow> r_state s = 0 \<and> r_pc s = (\<lambda>_. Rw_idle)"

inductive nkit_rws_read_lock_step :: "nat \<Rightarrow> rws \<Rightarrow> rws \<Rightarrow> bool" where
  r_blocked: "r_pc s i = Rw_idle \<or> r_pc s i = R_load \<Longrightarrow>
     r_state s AND (RWS_WRITER_ACTIVE OR RWS_WRITER_WAITING) \<noteq> 0 \<Longrightarrow>
     nkit_rws_read_lock_step i s (s\<lparr>r_pc := (r_pc s)(i := R_load)\<rparr>)"
| r_free: "r_pc s i = Rw_idle \<or> r_pc s i = R_load \<Longrightarrow>
     r_state s AND (RWS_WRITER_ACTIVE OR RWS_WRITER_WAITING) = 0 \<Longrightarrow>
     nkit_rws_read_lock_step i s (s\<lparr>r_pc := (r_pc s)(i := R_cas (r_state s))\<rparr>)"
| r_cas_ok: "r_pc s i = R_cas st \<Longrightarrow> r_state s = st \<Longrightarrow>
     nkit_rws_read_lock_step i s
       (s\<lparr>r_state := st + RWS_READER_INCR, r_pc := (r_pc s)(i := Reading)\<rparr>)"
| r_cas_fail: "r_pc s i = R_cas st \<Longrightarrow>
     nkit_rws_read_lock_step i s (s\<lparr>r_pc := (r_pc s)(i := R_load)\<rparr>)"

inductive nkit_rws_read_unlock_step :: "nat \<Rightarrow> rws \<Rightarrow> rws \<Rightarrow> bool" where
  r_leave: "r_pc s i = Reading \<Longrightarrow> nkit_rws_read_unlock_step i s
     (s\<lparr>r_state := r_state s - RWS_READER_INCR, r_pc := (r_pc s)(i := Rw_idle)\<rparr>)"

inductive nkit_rws_write_lock_step :: "nat \<Rightarrow> rws \<Rightarrow> rws \<Rightarrow> bool" where
  w_announce: "r_pc s i = Rw_idle \<Longrightarrow> nkit_rws_write_lock_step i s
     (s\<lparr>r_state := r_state s OR RWS_WRITER_WAITING, r_pc := (r_pc s)(i := W_load)\<rparr>)"
| w_busy: "r_pc s i = W_load \<Longrightarrow>
     \<not> (r_state s AND RWS_READER_MASK = 0 \<and> r_state s AND RWS_WRITER_ACTIVE = 0) \<Longrightarrow>
     nkit_rws_write_lock_step i s s"
| w_free: "r_pc s i = W_load \<Longrightarrow>
     r_state s AND RWS_READER_MASK = 0 \<and> r_state s AND RWS_WRITER_ACTIVE = 0 \<Longrightarrow>
     nkit_rws_write_lock_step i s (s\<lparr>r_pc := (r_pc s)(i := W_cas (r_state s))\<rparr>)"
| w_cas_ok: "r_pc s i = W_cas st \<Longrightarrow> r_state s = st \<Longrightarrow>
     nkit_rws_write_lock_step i s
       (s\<lparr>r_state := (st AND NOT RWS_WRITER_WAITING) OR RWS_WRITER_ACTIVE, r_pc := (r_pc s)(i := Writing)\<rparr>)"
| w_cas_fail: "r_pc s i = W_cas st \<Longrightarrow>
     nkit_rws_write_lock_step i s (s\<lparr>r_pc := (r_pc s)(i := W_load)\<rparr>)"

inductive nkit_rws_write_unlock_step :: "nat \<Rightarrow> rws \<Rightarrow> rws \<Rightarrow> bool" where
  w_leave: "r_pc s i = Writing \<Longrightarrow> nkit_rws_write_unlock_step i s
     (s\<lparr>r_state := r_state s AND NOT RWS_WRITER_ACTIVE, r_pc := (r_pc s)(i := Rw_idle)\<rparr>)"

definition rws_step :: "nat \<Rightarrow> rws \<Rightarrow> rws \<Rightarrow> bool" where
  "rws_step i s s' \<longleftrightarrow> i < 2 ^ 30 - 1 \<and>
     (nkit_rws_read_lock_step i s s' \<or> nkit_rws_read_unlock_step i s s' \<or>
      nkit_rws_write_lock_step i s s' \<or> nkit_rws_write_unlock_step i s s')"

abbreviation rws_reach :: "rws \<Rightarrow> bool" where
  "rws_reach \<equiv> reach nkit_rws_init rws_step"

definition rws_writing :: "rws \<Rightarrow> nat \<Rightarrow> bool" where
  "rws_writing s i \<longleftrightarrow> r_pc s i = Writing"

inductive_simps rws_leave_simps:
  "nkit_rws_read_unlock_step i s s'"
  "nkit_rws_write_unlock_step i s s'"

subsection \<open>The bits of the state word\<close>

lemma rws_flag_bits:
  "bit RWS_WRITER_ACTIVE n \<longleftrightarrow> n = 0" "bit RWS_WRITER_WAITING n \<longleftrightarrow> n = 1"
  by (auto simp: RWS_WRITER_ACTIVE_def RWS_WRITER_WAITING_def bit_simps bit_1_iff)

lemma rws_mask_bits: "bit RWS_READER_MASK n \<longleftrightarrow> 2 \<le> n \<and> n < 32"
  unfolding RWS_READER_MASK_def bit_not_iff bit_or_iff rws_flag_bits by auto

lemma rws_reader_incr: "RWS_READER_INCR = 4"
  by (simp add: RWS_READER_INCR_def push_bit_eq_mult)

text \<open>The number of readers and the active flag a state word stands for.\<close>

definition rws_count :: "u32 \<Rightarrow> nat" where
  "rws_count w = unat (drop_bit 2 w)"

lemma rws_count_div: "rws_count w = unat w div 4"
  by (simp add: rws_count_def drop_bit_eq_div unat_div_distrib)

lemma rws_count_flags:
  "rws_count (w OR RWS_WRITER_WAITING) = rws_count w"
  "rws_count (w AND NOT RWS_WRITER_ACTIVE) = rws_count w"
  "rws_count ((w AND NOT RWS_WRITER_WAITING) OR RWS_WRITER_ACTIVE) = rws_count w"
  unfolding rws_count_def
  by (rule arg_cong [of _ _ unat], rule bit_word_eqI,
    auto simp: bit_simps rws_flag_bits dest: bit_imp_le_length)+

lemma rws_active_flags:
  "bit (w OR RWS_WRITER_WAITING) 0 = bit w 0"
  "\<not> bit (w AND NOT RWS_WRITER_ACTIVE) 0"
  "bit ((w AND NOT RWS_WRITER_WAITING) OR RWS_WRITER_ACTIVE) 0"
  by (simp_all add: bit_or_iff bit_and_iff bit_not_iff rws_flag_bits)

lemma rws_tests:
  "w AND (RWS_WRITER_ACTIVE OR RWS_WRITER_WAITING) = 0 \<longleftrightarrow> \<not> bit w 0 \<and> \<not> bit w 1"
  "w AND RWS_WRITER_ACTIVE = 0 \<longleftrightarrow> \<not> bit w 0"
  "w AND RWS_READER_MASK = 0 \<longleftrightarrow> rws_count w = 0"
proof -
  show "w AND (RWS_WRITER_ACTIVE OR RWS_WRITER_WAITING) = 0 \<longleftrightarrow> \<not> bit w 0 \<and> \<not> bit w 1"
    and "w AND RWS_WRITER_ACTIVE = 0 \<longleftrightarrow> \<not> bit w 0"
    by (auto simp: word_and_eq_0 bit_or_iff rws_flag_bits)
  have "(\<forall>n. 2 \<le> n \<and> n < 32 \<longrightarrow> \<not> bit w n) \<longleftrightarrow> (\<forall>n\<ge>2. \<not> bit w n)"
    using bit_imp_le_length [of w] by auto
  then show "w AND RWS_READER_MASK = 0 \<longleftrightarrow> rws_count w = 0"
    by (simp add: word_and_eq_0 rws_mask_bits rws_count_def drop_bit_eq_0_iff unat_eq_0)
qed

lemma rws_count_incr:
  assumes "rws_count w < 2 ^ 30 - 1"
  shows "rws_count (w + RWS_READER_INCR) = rws_count w + 1"
  using assms by (simp add: rws_count_div rws_reader_incr unat_word_ariths)

lemma rws_count_decr:
  assumes "0 < rws_count w"
  shows "rws_count (w - RWS_READER_INCR) = rws_count w - 1"
proof -
  have "4 \<le> unat w" using assms by (simp add: rws_count_div div_greater_zero_iff)
  then show ?thesis by (simp add: rws_count_div rws_reader_incr unat_sub_if')
qed

lemma rws_active_incr: "bit (w + RWS_READER_INCR) 0 = bit w 0" "bit (w - RWS_READER_INCR) 0 = bit w 0"
proof -
  show *: "bit (w + RWS_READER_INCR) 0 = bit w 0" for w by (simp add: bit_0 rws_reader_incr)
  show "bit (w - RWS_READER_INCR) 0 = bit w 0" using * [of "w - RWS_READER_INCR"] by simp
qed

subsection \<open>The invariant\<close>

definition rws_inv :: "rws \<Rightarrow> bool" where
  "rws_inv s \<longleftrightarrow> (\<forall>i. r_pc s i = Reading \<longrightarrow> i < 2 ^ 30 - 1)
     \<and> rws_count (r_state s) = card {i. r_pc s i = Reading}
     \<and> (bit (r_state s) 0 \<longleftrightarrow> (\<exists>i. r_pc s i = Writing))
     \<and> (\<forall>i j. r_pc s i = Writing \<longrightarrow> r_pc s j = Writing \<longrightarrow> i = j)
     \<and> (\<forall>i j. r_pc s i = Writing \<longrightarrow> r_pc s j \<noteq> Reading)
     \<and> (\<forall>i st. r_pc s i = R_cas st \<longrightarrow> \<not> bit st 0 \<and> \<not> bit st 1)
     \<and> (\<forall>i st. r_pc s i = W_cas st \<longrightarrow> rws_count st = 0 \<and> \<not> bit st 0)"

lemma rws_invD:
  assumes "rws_inv s"
  shows "\<And>i. r_pc s i = Reading \<Longrightarrow> i < 2 ^ 30 - 1"
    and "rws_count (r_state s) = card {i. r_pc s i = Reading}"
    and "bit (r_state s) 0 \<longleftrightarrow> (\<exists>i. r_pc s i = Writing)"
    and "\<And>i j. r_pc s i = Writing \<Longrightarrow> r_pc s j = Writing \<Longrightarrow> i = j"
    and "\<And>i j. r_pc s i = Writing \<Longrightarrow> r_pc s j \<noteq> Reading"
    and "\<And>i st. r_pc s i = R_cas st \<Longrightarrow> \<not> bit st 0 \<and> \<not> bit st 1"
    and "\<And>i st. r_pc s i = W_cas st \<Longrightarrow> rws_count st = 0 \<and> \<not> bit st 0"
  using assms unfolding rws_inv_def by blast+

lemma rws_readers_finite: "rws_inv s \<Longrightarrow> finite {i. r_pc s i = Reading}"
  by (rule finite_subset [of _ "{..<2 ^ 30 - 1}"]) (auto dest: rws_invD(1))

text \<open>A step of a thread that stays outside, or that leaves the count and the active flag alone.\<close>

lemma rws_inv_local:
  assumes "rws_inv s" and "r_pc s i \<noteq> Reading" "r_pc s i \<noteq> Writing" and "c \<noteq> Reading" "c \<noteq> Writing"
    and "\<And>st. c = R_cas st \<Longrightarrow> \<not> bit st 0 \<and> \<not> bit st 1"
    and "\<And>st. c = W_cas st \<Longrightarrow> rws_count st = 0 \<and> \<not> bit st 0"
    and "rws_count w = rws_count (r_state s)" and "bit w 0 = bit (r_state s) 0"
  shows "rws_inv (s\<lparr>r_state := w, r_pc := (r_pc s)(i := c)\<rparr>)"
proof -
  have "((r_pc s)(i := c)) j = Reading \<longleftrightarrow> r_pc s j = Reading"
    "((r_pc s)(i := c)) j = Writing \<longleftrightarrow> r_pc s j = Writing" for j
    using assms(2-5) by auto
  moreover have "\<not> bit st 0 \<and> \<not> bit st 1" if "((r_pc s)(i := c)) j = R_cas st" for j st
    using that assms(6) rws_invD(6) [OF assms(1)] by (auto split: if_splits)
  moreover have "rws_count st = 0 \<and> \<not> bit st 0" if "((r_pc s)(i := c)) j = W_cas st" for j st
    using that assms(7) rws_invD(7) [OF assms(1)] by (auto split: if_splits)
  ultimately show ?thesis
    using assms(1,8,9) unfolding rws_inv_def by (simp del: fun_upd_apply)
qed

lemma rws_inv_read:
  assumes "rws_inv s" and "r_pc s i = R_cas (r_state s)" and "i < 2 ^ 30 - 1"
  shows "rws_inv (s\<lparr>r_state := r_state s + RWS_READER_INCR, r_pc := (r_pc s)(i := Reading)\<rparr>)"
proof -
  let ?R = "{i. r_pc s i = Reading}"
  have nw: "r_pc s j \<noteq> Writing" for j using rws_invD(3,6) [OF assms(1)] assms(2) by blast
  have eq: "{j. ((r_pc s)(i := Reading)) j = Reading} = insert i ?R" by auto
  have "insert i ?R \<subseteq> {..<2 ^ 30 - 1}" using rws_invD(1) [OF assms(1)] assms(3) by auto
  then have "card (insert i ?R) \<le> 2 ^ 30 - 1" using card_mono [of "{..<2 ^ 30 - 1 :: nat}"] by auto
  then have lt: "card ?R < 2 ^ 30 - 1"
    using rws_readers_finite [OF assms(1)] assms(2) by simp
  show ?thesis
    using assms nw lt rws_readers_finite [OF assms(1)] eq
      rws_count_incr [of "r_state s"] rws_active_incr(1) [of "r_state s"]
    by (auto simp: rws_inv_def)
qed

lemma rws_inv_read_leave:
  assumes "rws_inv s" and "r_pc s i = Reading"
  shows "rws_inv (s\<lparr>r_state := r_state s - RWS_READER_INCR, r_pc := (r_pc s)(i := Rw_idle)\<rparr>)"
proof -
  let ?R = "{i. r_pc s i = Reading}"
  have nw: "r_pc s j \<noteq> Writing" for j using rws_invD(5) [OF assms(1)] assms(2) by blast
  have eq: "{j. ((r_pc s)(i := Rw_idle)) j = Reading} = ?R - {i}" by auto
  have "0 < card ?R" using rws_readers_finite [OF assms(1)] assms(2) by (auto simp: card_gt_0_iff)
  then show ?thesis
    using assms nw rws_readers_finite [OF assms(1)] eq
      rws_count_decr [of "r_state s"] rws_active_incr(2) [of "r_state s"]
    by (auto simp: rws_inv_def)
qed

lemma rws_inv_write:
  assumes "rws_inv s" and "r_pc s i = W_cas (r_state s)"
  shows "rws_inv (s\<lparr>r_state := (r_state s AND NOT RWS_WRITER_WAITING) OR RWS_WRITER_ACTIVE,
     r_pc := (r_pc s)(i := Writing)\<rparr>)"
proof -
  have z: "rws_count (r_state s) = 0" "\<not> bit (r_state s) 0" using rws_invD(7) [OF assms] by auto
  then have nw: "r_pc s j \<noteq> Writing" for j using rws_invD(3) [OF assms(1)] by blast
  have "{i. r_pc s i = Reading} = {}"
    using z(1) rws_invD(2) [OF assms(1)] rws_readers_finite [OF assms(1)] by simp
  then have nr: "r_pc s j \<noteq> Reading" for j by auto
  show ?thesis
    using assms nw nr z rws_active_flags(3) [of "r_state s"] rws_count_flags(3) [of "r_state s"]
    by (auto simp: rws_inv_def)
qed

lemma rws_inv_write_leave:
  assumes "rws_inv s" and "r_pc s i = Writing"
  shows "rws_inv (s\<lparr>r_state := r_state s AND NOT RWS_WRITER_ACTIVE, r_pc := (r_pc s)(i := Rw_idle)\<rparr>)"
proof -
  have eq: "{j. ((r_pc s)(i := Rw_idle)) j = Reading} = {i. r_pc s i = Reading}" using assms(2) by auto
  have "((r_pc s)(i := Rw_idle)) j \<noteq> Writing" for j using rws_invD(4) [OF assms(1) assms(2)] by auto
  then show ?thesis
    using assms eq rws_active_flags(2) [of "r_state s"] rws_count_flags(2) [of "r_state s"]
    by (auto simp: rws_inv_def)
qed

lemma rws_step_inv:
  assumes "rws_inv s" and "rws_step i s s'"
  shows "rws_inv s'"
proof -
  note loc = rws_inv_local [OF assms(1), of i]
  have rd: "rws_inv s'" if "nkit_rws_read_lock_step i s s'" "i < 2 ^ 30 - 1"
    using that(1)
  proof (cases rule: nkit_rws_read_lock_step.cases)
    case r_blocked
    then show ?thesis using loc [of R_load "r_state s"] by auto
  next
    case r_free
    then show ?thesis using loc [of "R_cas (r_state s)" "r_state s"] rws_tests(1) by auto
  next
    case (r_cas_ok st)
    then show ?thesis using rws_inv_read [OF assms(1)] that(2) by auto
  next
    case (r_cas_fail st)
    then show ?thesis using loc [of R_load "r_state s"] by auto
  qed
  have wr: "rws_inv s'" if "nkit_rws_write_lock_step i s s'"
    using that
  proof (cases rule: nkit_rws_write_lock_step.cases)
    case w_announce
    then show ?thesis
      using loc [of W_load "r_state s OR RWS_WRITER_WAITING"] rws_count_flags(1) rws_active_flags(1)
      by auto
  next
    case w_free
    then show ?thesis using loc [of "W_cas (r_state s)" "r_state s"] rws_tests(2,3) by auto
  next
    case (w_cas_ok st)
    then show ?thesis using rws_inv_write [OF assms(1)] by auto
  next
    case (w_cas_fail st)
    then show ?thesis using loc [of W_load "r_state s"] by auto
  qed (use assms(1) in simp)
  show ?thesis
    using assms rd wr rws_inv_read_leave rws_inv_write_leave by (auto simp: rws_step_def rws_leave_simps)
qed

lemma rws_inv_init: "nkit_rws_init s \<Longrightarrow> rws_inv s"
  by (simp add: nkit_rws_init_def rws_inv_def rws_count_def)

lemma rws_reach_inv: "rws_reach s \<Longrightarrow> rws_inv s"
  by (erule reach_invariant [where I = rws_inv]) (erule rws_inv_init, erule rws_step_inv)

interpretation rwsw: mutex nkit_rws_init rws_step rws_writing
proof unfold_locales
  show "i = j" if "rws_reach s" "rws_writing s i" "rws_writing s j" for s i j
    using rws_invD(4) [OF rws_reach_inv [OF that(1)]] that(2,3) by (simp add: rws_writing_def)
  show "rws_writing s' j = rws_writing s j" if "rws_step i s s'" "j \<noteq> i" for i s s' j
    using that by (auto simp: rws_step_def rws_writing_def rws_leave_simps
      elim!: nkit_rws_read_lock_step.cases nkit_rws_write_lock_step.cases)
qed

subsection \<open>A run in which a reader overtakes a waiting writer\<close>

text \<open>
  Threads 0 and 1 announce themselves as writers; 0 enters and leaves, which clears the only
  announcement bit; thread 2 then comes as a reader.
\<close>

definition rws_overtaken :: rws where
  "rws_overtaken = \<lparr>r_state = 0, r_pc = (\<lambda>_. Rw_idle)(1 := W_load)\<rparr>"

lemma rws_reachI:
  assumes "rws_reach s" and "i < 2 ^ 30 - 1"
  shows "nkit_rws_read_lock_step i s s' \<Longrightarrow> rws_reach s'"
    and "nkit_rws_write_lock_step i s s' \<Longrightarrow> rws_reach s'"
    and "nkit_rws_write_unlock_step i s s' \<Longrightarrow> rws_reach s'"
  using assms by (auto intro!: reach.move [of _ _ s i] simp: rws_step_def)

lemma rws_words:
  "(2 :: u32) AND RWS_READER_MASK = 0" "(2 :: u32) AND RWS_WRITER_ACTIVE = 0"
  "(2 :: u32) AND NOT RWS_WRITER_WAITING OR RWS_WRITER_ACTIVE = 1" "RWS_WRITER_WAITING = 2"
  "(1 :: u32) AND NOT RWS_WRITER_ACTIVE = 0"
  by (simp_all add: RWS_READER_MASK_def RWS_WRITER_ACTIVE_def RWS_WRITER_WAITING_def push_bit_eq_mult)

lemma rws_overtaken_reach: "rws_reach rws_overtaken"
proof -
  have init: "rws_reach \<lparr>r_state = 0, r_pc = \<lambda>_. Rw_idle\<rparr>"
    by (rule reach.start) (simp add: nkit_rws_init_def)
  note W = rws_reachI(2) and U = rws_reachI(3)
  note a = W [OF W [OF init _ nkit_rws_write_lock_step.w_announce [of _ 0]]
    _ nkit_rws_write_lock_step.w_announce [of _ 1]]
  note b = U [OF W [OF W [OF a _ nkit_rws_write_lock_step.w_free [of _ 0]]
    _ nkit_rws_write_lock_step.w_cas_ok [of _ 0 2]] _ nkit_rws_write_unlock_step.w_leave [of _ 0]]
  show ?thesis
    by (rule back_subst [of rws_reach, OF b]) (simp_all add: rws_words rws_overtaken_def fun_eq_iff)
qed

subsection \<open>Properties\<close>

text \<open>
  C15. The reader-writer lock excludes: in every interleaving of up to \<open>2\<^sup>3\<^sup>0 - 1\<close> threads, while a
  writer is inside no reader and no other writer is, and the reader count in the state word is the
  number of readers inside.
\<close>

theorem rws_exclusion:
  assumes "rws_reach s"
  shows "(r_pc s i = Writing \<longrightarrow> r_pc s j \<noteq> Reading \<and> (r_pc s j = Writing \<longrightarrow> i = j)) \<and>
     rws_count (r_state s) = card {k. r_pc s k = Reading}"
  using rws_invD(2,4,5) [OF rws_reach_inv [OF assms]] by blast

theorem rws_exclusion_witness:
  "rws_reach rws_overtaken \<and> rws_count (r_state rws_overtaken) = card {k. r_pc rws_overtaken k = Reading}"
  using rws_exclusion [OF rws_overtaken_reach] rws_overtaken_reach by simp

text \<open>
  While the announcement bit of a writer is set, no step of any thread, not even of a reader that
  had seen the lock free before the announcement, adds a reader.
\<close>

theorem rws_waiting_blocks_readers:
  assumes "rws_reach s" and "r_state s AND RWS_WRITER_WAITING \<noteq> 0" and "rws_step i s s'"
  shows "{k. r_pc s' k = Reading} \<subseteq> {k. r_pc s k = Reading}"
proof -
  have "bit (r_state s) 1" using assms(2) by (auto simp: word_and_eq_0 rws_flag_bits)
  then have "r_pc s i \<noteq> R_cas (r_state s)" using rws_invD(6) [OF rws_reach_inv [OF assms(1)]] by blast
  then show ?thesis
    using assms(3) by (auto simp: rws_step_def rws_leave_simps split: if_splits
      elim!: nkit_rws_read_lock_step.cases nkit_rws_write_lock_step.cases)
qed

theorem rws_waiting_blocks_readers_witness:
  "\<exists>s s'. rws_reach s \<and> r_state s AND RWS_WRITER_WAITING \<noteq> 0 \<and> rws_step 2 s s' \<and>
     {k. r_pc s' k = Reading} \<subseteq> {k. r_pc s k = Reading}"
proof -
  note st = nkit_rws_write_lock_step.w_announce [of rws_overtaken 0]
  let ?s = "rws_overtaken\<lparr>r_state := r_state rws_overtaken OR RWS_WRITER_WAITING,
    r_pc := (r_pc rws_overtaken)(0 := W_load)\<rparr>"
  have r: "rws_reach ?s" using rws_reachI(2) [OF rws_overtaken_reach _ st] by (simp add: rws_overtaken_def)
  have w: "r_state ?s AND RWS_WRITER_WAITING \<noteq> 0" by (simp add: rws_overtaken_def rws_words)
  have "nkit_rws_read_lock_step 2 ?s (?s\<lparr>r_pc := (r_pc ?s)(2 := R_load)\<rparr>)"
    using nkit_rws_read_lock_step.r_blocked [of ?s 2]
    by (simp add: rws_overtaken_def rws_words RWS_WRITER_ACTIVE_def)
  then have st: "rws_step 2 ?s (?s\<lparr>r_pc := (r_pc ?s)(2 := R_load)\<rparr>)" by (simp add: rws_step_def)
  show ?thesis using rws_waiting_blocks_readers [OF r w st] r w st by blast
qed

text \<open>
  Writers share one announcement bit, and a writer that enters clears it also for the others:
  a reachable state has thread 1 waiting in \<^verbatim>\<open>nkit_rws_write_lock\<close> after its announcement, nobody
  inside, and a reader that only now calls \<^verbatim>\<open>nkit_rws_read_lock\<close> enters before it. The preference
  for writers, which the comment gives as the protection against writer starvation, does not cover
  two writers.
\<close>

theorem rws_reader_overtakes_writer:
  "\<exists>s s1 s2. rws_reach s \<and> r_pc s 1 = W_load \<and> r_pc s 2 = Rw_idle \<and>
     nkit_rws_read_lock_step 2 s s1 \<and> nkit_rws_read_lock_step 2 s1 s2 \<and>
     r_pc s2 2 = Reading \<and> r_pc s2 1 = W_load"
proof -
  let ?s1 = "rws_overtaken\<lparr>r_pc := (r_pc rws_overtaken)(2 := R_cas 0)\<rparr>"
  let ?s2 = "?s1\<lparr>r_state := 0 + RWS_READER_INCR, r_pc := (r_pc ?s1)(2 := Reading)\<rparr>"
  have "nkit_rws_read_lock_step 2 rws_overtaken ?s1"
    using nkit_rws_read_lock_step.r_free [of rws_overtaken 2] by (simp add: rws_overtaken_def)
  moreover have "nkit_rws_read_lock_step 2 ?s1 ?s2"
    by (rule nkit_rws_read_lock_step.r_cas_ok) (simp_all add: rws_overtaken_def)
  ultimately show ?thesis
    using rws_overtaken_reach
    by (intro exI [of _ rws_overtaken] exI [of _ ?s1] exI [of _ ?s2]) (simp add: rws_overtaken_def)
qed

end
