(* ===== verification/NK_Platform.thy ===== *)
theory NK_Platform
  imports NK_Prelude
begin

section \<open>The platform: operating system, C library and libnuma as an environment\<close>

text \<open>
  libnumakit is a thin layer over calls it does not implement: \<^verbatim>\<open>mmap\<close>, \<^verbatim>\<open>mbind\<close>,
  \<^verbatim>\<open>madvise\<close>, \<^verbatim>\<open>malloc\<close>, libnuma, hwloc, threads, performance counters and a few system calls. They are a parameter of every
  operation here: the record \<open>os\<close> carries a function \<open>os_answer\<close> that says what the \<open>n\<close>-th
  call of a run answers. Nothing is assumed about it unless a theorem says so, so every theorem
  quantifies over all outcomes, allocation failures included.

  Beside the answers the record keeps a ledger. \<open>os_live\<close> is the multiset of resources that
  are allocated and not yet released; \<open>os_fault\<close> becomes true, for good, when a resource is released
  that is not live (a double free, or a release with the wrong size) and when an operation reads
  outside an array or through an invalid pointer; \<open>os_trace\<close> records the calls, latest first. The ledger does not influence any answer.
\<close>

datatype mbind_mode = MPOL_BIND | MPOL_PREFERRED

datatype perf_counter = PERF_COUNT_HW_CACHE_MISSES | PERF_COUNT_HW_INSTRUCTIONS

datatype perf_ioctl = PERF_EVENT_IOC_RESET | PERF_EVENT_IOC_ENABLE | PERF_EVENT_IOC_DISABLE

datatype hwloc_type = HWLOC_OBJ_NUMANODE | HWLOC_OBJ_PU

datatype hwloc_cpus = \<comment> \<open>what a hwloc bitmap was filled with\<close>
    Cpus_of ptr \<comment> \<open>a copy of the CPU set at this address\<close>
  | Cpu_only int

datatype numa_call =
    Num_configured_cpus
  | Node_of_cpu int
  | Distance int int
  | Node_free int \<comment> \<open>free bytes of a node, from \<^verbatim>\<open>numa_node_size64\<close>\<close>
  | Allocate_mask
  | Node_to_cpus int
  | Cpu_bit int int \<comment> \<open>the bit of a CPU in the mask filled for a node\<close>
  | Move_pages ptr \<comment> \<open>result of \<^verbatim>\<open>move_pages\<close>; the status it fills\<close>
  | Move_pages_status ptr

datatype thread_call =
    Nprocessors_onln
  | Sched_getcpu
  | Getcpu \<comment> \<open>result of \<^verbatim>\<open>SYS_getcpu\<close>; the two values it fills\<close>
  | Getcpu_cpu
  | Getcpu_node
  | Sched_setaffinity "int list"
  | Pthread_self
  | Pthread_setaffinity u64 "int list"
  | Pthread_create ptr \<comment> \<open>the argument of the new thread\<close>
  | Pthread_tid ptr \<comment> \<open>the handle of the thread created with this argument\<close>
  | Pthread_join u64
  | Nanosleep u64 u64
  | Usleep u64
  | Sched_yield

datatype perf_call =
    Perf_event_open perf_counter
  | Ioctl int perf_ioctl
  | Read_fd int \<comment> \<open>result of \<^verbatim>\<open>read\<close>; the value it fills\<close>
  | Read_value int

datatype hwloc_call =
    Topology_init
  | Topology_handle
  | Topology_set_flags ptr
  | Topology_load ptr
  | Get_nbobjs ptr hwloc_type
  | Get_numanode ptr int
  | Node_cpuset ptr
  | Pus_inside ptr ptr
  | Local_memory ptr
  | Bitmap_alloc
  | Set_cpubind ptr hwloc_cpus

datatype os_call =
    Malloc u64
  | Calloc u64 u64
  | Aligned_alloc u64 u64
  | Numa_alloc_onnode u64 int
  | Mmap u64 bool \<comment> \<open>length and whether \<^verbatim>\<open>MAP_HUGETLB\<close> is set\<close>
  | Mbind ptr u64 mbind_mode u64 \<comment> \<open>address, length, mode, node mask\<close>
  | Mbind_node ptr u64 int \<comment> \<open>\<^verbatim>\<open>mbind\<close> with a libnuma bit mask holding one node\<close>
  | Madvise_dontneed ptr u64
  | Sysconf_pagesize
  | Numa_available
  | Numa_max_node
  | Numa_call numa_call
  | Thread_call thread_call
  | Perf_call perf_call
  | Hwloc_call hwloc_call

datatype os_res =
    Heap ptr \<comment> \<open>from \<^verbatim>\<open>malloc\<close>, \<^verbatim>\<open>calloc\<close>, \<^verbatim>\<open>aligned_alloc\<close>\<close>
  | Numa ptr u64 \<comment> \<open>from \<^verbatim>\<open>numa_alloc_onnode\<close>, with its size\<close>
  | Mapping ptr u64 \<comment> \<open>from \<^verbatim>\<open>mmap\<close>, with its length\<close>
  | Mask ptr \<comment> \<open>a libnuma bit mask\<close>
  | Bitmap ptr \<comment> \<open>a hwloc bitmap\<close>
  | Topology ptr \<comment> \<open>a hwloc topology\<close>
  | Fd int \<comment> \<open>a file descriptor\<close>

record os =
  os_answer :: "nat \<Rightarrow> os_call \<Rightarrow> u64"
  os_tick :: nat
  os_live :: "os_res multiset"
  os_fault :: bool
  os_trace :: "os_call list"

definition os_ask :: "os_call \<Rightarrow> os \<Rightarrow> u64 \<times> os" where
  "os_ask c w = (os_answer w (os_tick w) c,
     w\<lparr>os_tick := Suc (os_tick w), os_trace := c # os_trace w\<rparr>)"

definition MAP_FAILED :: ptr where
  "MAP_FAILED = - 1"

text \<open>An allocator returns \<^const>\<open>NULL\<close> (\<^verbatim>\<open>mmap\<close>: \<^const>\<open>MAP_FAILED\<close>) or a new resource.\<close>

definition os_alloc :: "os_call \<Rightarrow> (ptr \<Rightarrow> os_res) \<Rightarrow> ptr \<Rightarrow> os \<Rightarrow> ptr \<times> os" where
  "os_alloc c mk failed w =
     (case os_ask c w of (p, w') \<Rightarrow>
        (p, if p = failed then w' else w'\<lparr>os_live := add_mset (mk p) (os_live w')\<rparr>))"

definition os_release :: "os_res \<Rightarrow> os \<Rightarrow> os" where
  "os_release r w =
     (if r \<in># os_live w then w\<lparr>os_live := os_live w - {#r#}\<rparr> else w\<lparr>os_fault := True\<rparr>)"

definition os_malloc :: "u64 \<Rightarrow> os \<Rightarrow> ptr \<times> os" where
  "os_malloc n = os_alloc (Malloc n) Heap NULL"

definition os_calloc :: "u64 \<Rightarrow> u64 \<Rightarrow> os \<Rightarrow> ptr \<times> os" where
  "os_calloc n sz = os_alloc (Calloc n sz) Heap NULL"

definition os_aligned_alloc :: "u64 \<Rightarrow> u64 \<Rightarrow> os \<Rightarrow> ptr \<times> os" where
  "os_aligned_alloc a sz = os_alloc (Aligned_alloc a sz) Heap NULL"

definition os_free :: "ptr \<Rightarrow> os \<Rightarrow> os" where
  "os_free p w = (if p = NULL then w else os_release (Heap p) w)"

definition os_numa_alloc :: "u64 \<Rightarrow> int \<Rightarrow> os \<Rightarrow> ptr \<times> os" where
  "os_numa_alloc sz node = os_alloc (Numa_alloc_onnode sz node) (\<lambda>p. Numa p sz) NULL"

definition os_numa_free :: "ptr \<Rightarrow> u64 \<Rightarrow> os \<Rightarrow> os" where
  "os_numa_free p sz w = (if p = NULL then w else os_release (Numa p sz) w)"

definition os_mmap :: "u64 \<Rightarrow> bool \<Rightarrow> os \<Rightarrow> ptr \<times> os" where
  "os_mmap len huge = os_alloc (Mmap len huge) (\<lambda>p. Mapping p len) MAP_FAILED"

definition os_munmap :: "ptr \<Rightarrow> u64 \<Rightarrow> os \<Rightarrow> os" where
  "os_munmap p len w = os_release (Mapping p len) w"

text \<open>Signed results (\<^verbatim>\<open>numa_available\<close>, \<^verbatim>\<open>mbind\<close>, ...) are read as two's complement.\<close>

definition os_ask_int :: "os_call \<Rightarrow> os \<Rightarrow> int \<times> os" where
  "os_ask_int c w = (case os_ask c w of (r, w') \<Rightarrow> (sint r, w'))"

text \<open>A value of type \<^verbatim>\<open>unsigned int\<close> that the code converts to \<^verbatim>\<open>int\<close>.\<close>

definition os_ask_i32 :: "os_call \<Rightarrow> os \<Rightarrow> int \<times> os" where
  "os_ask_i32 c w = (case os_ask c w of (r, w') \<Rightarrow> (sint (ucast r :: u32), w'))"

text \<open>
  \<^verbatim>\<open>numa_node_to_cpus\<close> fills a bit mask; the mask is the function that says which CPUs are in it.
\<close>

definition os_node_to_cpus :: "int \<Rightarrow> os \<Rightarrow> int \<times> (int \<Rightarrow> bool) \<times> os" where
  "os_node_to_cpus node w = (case os_ask_int (Numa_call (Node_to_cpus node)) w of (rc, w') \<Rightarrow>
     (rc, \<lambda>cpu. os_answer w (os_tick w) (Numa_call (Cpu_bit node cpu)) \<noteq> 0, w'))"

text \<open>Undefined behaviour of the program, such as an access outside an array, is recorded as a fault.\<close>

definition os_invalid :: "os \<Rightarrow> os" where
  "os_invalid w = w\<lparr>os_fault := True\<rparr>"

definition os_do :: "os_call \<Rightarrow> os \<Rightarrow> os" where
  "os_do c w = snd (os_ask c w)"

definition os_open :: "perf_counter \<Rightarrow> os \<Rightarrow> int \<times> os" where
  "os_open c w = (case os_ask_int (Perf_call (Perf_event_open c)) w of (fd, w') \<Rightarrow>
     (fd, if fd < 0 then w' else w'\<lparr>os_live := add_mset (Fd fd) (os_live w')\<rparr>))"

definition os_close :: "int \<Rightarrow> os \<Rightarrow> os" where
  "os_close fd = os_release (Fd fd)"

definition os_mask :: "os \<Rightarrow> ptr \<times> os" where
  "os_mask = os_alloc (Numa_call Allocate_mask) Mask NULL"

definition os_free_mask :: "ptr \<Rightarrow> os \<Rightarrow> os" where
  "os_free_mask p w = (if p = NULL then w else os_release (Mask p) w)"

definition os_bitmap :: "os \<Rightarrow> ptr \<times> os" where
  "os_bitmap = os_alloc (Hwloc_call Bitmap_alloc) Bitmap NULL"

definition os_free_bitmap :: "ptr \<Rightarrow> os \<Rightarrow> os" where
  "os_free_bitmap p w = (if p = NULL then w else os_release (Bitmap p) w)"

text \<open>A successful \<^verbatim>\<open>hwloc_topology_init\<close> fills in the handle of a new topology.\<close>

definition os_topology :: "os \<Rightarrow> ptr \<times> os" where
  "os_topology w = (case os_ask (Hwloc_call Topology_handle) w of (t, w') \<Rightarrow>
     (t, w'\<lparr>os_live := add_mset (Topology t) (os_live w')\<rparr>))"

subsection \<open>Documented behaviour of \<^verbatim>\<open>mmap\<close>\<close>

text \<open>
  What the code relies on (\<^verbatim>\<open>mmap(2)\<close>): a mapping of length 0 fails; a successful one does not
  start at address 0, starts on a page boundary (a 2 MB boundary with \<^verbatim>\<open>MAP_HUGETLB\<close>) and lies
  in the user half of the address space.
\<close>

definition mmap_ok :: "os \<Rightarrow> bool" where
  "mmap_ok w \<longleftrightarrow> (\<forall>n len huge. let p = os_answer w n (Mmap len huge) in
     p = MAP_FAILED \<or>
     (len \<noteq> 0 \<and> p \<noteq> NULL \<and> (if huge then 2 ^ 21 else 2 ^ 12) dvd unat p
      \<and> unat p + unat len < 2 ^ 63))"

lemma mmap_okD:
  assumes "mmap_ok w" and "os_answer w n (Mmap len huge) = p" and "p \<noteq> MAP_FAILED"
  shows "len \<noteq> 0" and "p \<noteq> NULL" and "(if huge then 2 ^ 21 else 2 ^ 12) dvd unat p"
    and "unat p + unat len < 2 ^ 63"
  using assms unfolding mmap_ok_def Let_def by metis+

lemma mmap_ok_cong: "os_answer w' = os_answer w \<Longrightarrow> mmap_ok w' = mmap_ok w"
  by (simp add: mmap_ok_def)

subsection \<open>The ledger\<close>

definition ledger :: "os \<Rightarrow> os_res multiset \<times> bool" where
  "ledger w = (os_live w, os_fault w)"

lemma ledger_eq_iff: "ledger w' = (m, f) \<longleftrightarrow> os_live w' = m \<and> os_fault w' = f"
  by (auto simp: ledger_def)

named_theorems os_simps \<open>effect of the platform calls on the ledger and the answers\<close>

lemma os_ask_simps [os_simps]:
  "fst (os_ask c w) = os_answer w (os_tick w) c"
  "os_live (snd (os_ask c w)) = os_live w"
  "os_fault (snd (os_ask c w)) = os_fault w"
  "os_answer (snd (os_ask c w)) = os_answer w"
  "os_tick (snd (os_ask c w)) = Suc (os_tick w)"
  "os_trace (snd (os_ask c w)) = c # os_trace w"
  by (simp_all add: os_ask_def)

lemma os_ask_int_simps [os_simps]:
  "fst (os_ask_int c w) = sint (os_answer w (os_tick w) c)"
  "snd (os_ask_int c w) = snd (os_ask c w)"
  by (simp_all add: os_ask_int_def os_ask_def)

lemma os_alloc_simps [os_simps]:
  "fst (os_alloc c mk fl w) = os_answer w (os_tick w) c"
  "os_live (snd (os_alloc c mk fl w)) =
     (if os_answer w (os_tick w) c = fl then os_live w
      else add_mset (mk (os_answer w (os_tick w) c)) (os_live w))"
  "os_fault (snd (os_alloc c mk fl w)) = os_fault w"
  "os_answer (snd (os_alloc c mk fl w)) = os_answer w"
  "os_tick (snd (os_alloc c mk fl w)) = Suc (os_tick w)"
  "os_trace (snd (os_alloc c mk fl w)) = c # os_trace w"
  by (simp_all add: os_alloc_def os_ask_def)

lemma os_release_simps [os_simps]:
  "os_live (os_release r w) = os_live w - {#r#}"
  "os_fault (os_release r w) \<longleftrightarrow> os_fault w \<or> r \<notin># os_live w"
  "os_answer (os_release r w) = os_answer w"
  "os_tick (os_release r w) = os_tick w"
  "os_trace (os_release r w) = os_trace w"
  by (simp_all add: os_release_def)

lemma os_do_simps [os_simps]:
  "os_live (os_do c w) = os_live w"
  "os_fault (os_do c w) = os_fault w"
  "os_answer (os_do c w) = os_answer w"
  "os_tick (os_do c w) = Suc (os_tick w)"
  "os_trace (os_do c w) = c # os_trace w"
  by (simp_all add: os_do_def os_simps)

lemma os_invalid_simps [os_simps]:
  "os_live (os_invalid w) = os_live w"
  "os_fault (os_invalid w)"
  "os_answer (os_invalid w) = os_answer w"
  "os_tick (os_invalid w) = os_tick w"
  "os_trace (os_invalid w) = os_trace w"
  by (simp_all add: os_invalid_def)

lemma os_topology_simps [os_simps]:
  "fst (os_topology w) = os_answer w (os_tick w) (Hwloc_call Topology_handle)"
  "os_live (snd (os_topology w)) =
     add_mset (Topology (os_answer w (os_tick w) (Hwloc_call Topology_handle))) (os_live w)"
  "os_fault (snd (os_topology w)) = os_fault w"
  "os_answer (snd (os_topology w)) = os_answer w"
  "os_tick (snd (os_topology w)) = Suc (os_tick w)"
  "os_trace (snd (os_topology w)) = Hwloc_call Topology_handle # os_trace w"
  by (simp_all add: os_topology_def os_ask_def)

lemma os_ask_i32_simps [os_simps]:
  "fst (os_ask_i32 c w) = sint (ucast (os_answer w (os_tick w) c) :: u32)"
  "snd (os_ask_i32 c w) = snd (os_ask c w)"
  by (simp_all add: os_ask_i32_def os_ask_def)

lemma os_node_to_cpus_simps [os_simps]:
  "fst (os_node_to_cpus node w) = sint (os_answer w (os_tick w) (Numa_call (Node_to_cpus node)))"
  "snd (snd (os_node_to_cpus node w)) = snd (os_ask (Numa_call (Node_to_cpus node)) w)"
  by (simp_all add: os_node_to_cpus_def os_ask_int_def os_ask_def)

lemma os_open_simps [os_simps]:
  "fst (os_open c w) = sint (os_answer w (os_tick w) (Perf_call (Perf_event_open c)))"
  "os_live (snd (os_open c w)) =
     (if sint (os_answer w (os_tick w) (Perf_call (Perf_event_open c))) < 0 then os_live w
      else add_mset (Fd (sint (os_answer w (os_tick w) (Perf_call (Perf_event_open c))))) (os_live w))"
  "os_fault (snd (os_open c w)) = os_fault w"
  "os_answer (snd (os_open c w)) = os_answer w"
  "os_tick (snd (os_open c w)) = Suc (os_tick w)"
  "os_trace (snd (os_open c w)) = Perf_call (Perf_event_open c) # os_trace w"
  by (simp_all add: os_open_def os_ask_int_def os_ask_def)

lemma ledger_simps:
  "ledger (snd (os_ask c w)) = ledger w"
  "ledger (snd (os_ask_int c w)) = ledger w"
  "ledger (snd (os_ask_i32 c w)) = ledger w"
  "ledger (os_do c w) = ledger w"
  by (simp_all add: ledger_def os_simps)

lemmas os_prim_defs = os_malloc_def os_calloc_def os_aligned_alloc_def os_free_def
  os_numa_alloc_def os_numa_free_def os_mmap_def os_munmap_def
  os_close_def os_mask_def os_free_mask_def os_bitmap_def os_free_bitmap_def

subsection \<open>Objects that own resources\<close>

text \<open>
  The contract every constructor and destructor pair of the library is meant to keep, in an
  environment \<open>env\<close> that behaves as documented: a constructor that fails leaves the ledger as it
  was, one that succeeds returns a valid object and adds what the object owns, and the destructor
  of a valid object releases exactly that, with no invalid release.
\<close>

locale owned_object =
  fixes env :: "os \<Rightarrow> bool"
    and create :: "os \<Rightarrow> 'x option \<times> os"
    and destroy :: "'x \<Rightarrow> os \<Rightarrow> os"
    and owns :: "'x \<Rightarrow> os_res multiset"
    and valid :: "'x \<Rightarrow> bool"
  assumes create_None: "env w \<Longrightarrow> create w = (None, w') \<Longrightarrow> ledger w' = ledger w \<and> env w'"
    and create_Some: "env w \<Longrightarrow> create w = (Some x, w') \<Longrightarrow>
      ledger w' = (os_live w + owns x, os_fault w) \<and> valid x \<and> env w'"
    and destroy_owned: "valid x \<Longrightarrow> owns x \<subseteq># os_live w \<Longrightarrow>
      ledger (destroy x w) = (os_live w - owns x, os_fault w)"
    and destroy_env: "env w \<Longrightarrow> env (destroy x w)"
begin

lemma create_destroy:
  assumes "env w" and "create w = (Some x, w')"
  shows "ledger (destroy x w') = ledger w"
proof -
  from create_Some [OF assms] have w': "os_live w' = os_live w + owns x" "os_fault w' = os_fault w"
    and "valid x" by (simp_all add: ledger_def)
  then have "ledger (destroy x w') = (os_live w' - owns x, os_fault w')"
    by (intro destroy_owned) simp_all
  with w' show ?thesis by (simp add: ledger_def)
qed

lemma destroy_all:
  assumes "\<forall>x \<in> set xs. valid x" and "(\<Sum>x\<leftarrow>xs. owns x) \<subseteq># os_live w"
  shows "ledger (fold destroy xs w) = (os_live w - (\<Sum>x\<leftarrow>xs. owns x), os_fault w)"
  using assms
proof (induction xs arbitrary: w)
  case Nil
  then show ?case by (simp add: ledger_def)
next
  case (Cons x xs)
  have "owns x \<subseteq># os_live w"
    using Cons.prems subset_mset.order_trans [OF mset_subset_eq_add_left] by simp
  then have d: "os_live (destroy x w) = os_live w - owns x" "os_fault (destroy x w) = os_fault w"
    using Cons.prems destroy_owned [of x w] by (simp_all add: ledger_def)
  have "(\<Sum>x\<leftarrow>xs. owns x) \<subseteq># os_live (destroy x w)"
  proof (rule mset_subset_eqI)
    fix r
    show "count (\<Sum>x\<leftarrow>xs. owns x) r \<le> count (os_live (destroy x w)) r"
      using mset_subset_eq_count [OF Cons.prems(2), of r] by (simp add: d)
  qed
  with Cons.IH [of "destroy x w"] Cons.prems show ?case by (simp add: d)
qed

lemma destroy_all_env: "env w \<Longrightarrow> env (fold destroy xs w)"
  by (induction xs arbitrary: w) (simp_all add: destroy_env)

end

text \<open>The resource behind a pointer that may be null, and the calls in these terms.\<close>

definition heap_owns :: "ptr \<Rightarrow> os_res multiset" where
  "heap_owns p = (if p = NULL then {#} else {#Heap p#})"

definition numa_owns :: "ptr \<Rightarrow> u64 \<Rightarrow> os_res multiset" where
  "numa_owns p n = (if p = NULL then {#} else {#Numa p n#})"

lemma malloc_owns:
  assumes "os_malloc n w = (p, w')"
  shows "ledger w' = (os_live w + heap_owns p, os_fault w)" and "os_answer w' = os_answer w"
  using assms os_alloc_simps(1-4) [of "Malloc n" Heap NULL w]
  by (auto simp: os_malloc_def heap_owns_def ledger_def)

lemma calloc_owns:
  assumes "os_calloc n k w = (p, w')"
  shows "ledger w' = (os_live w + heap_owns p, os_fault w)" and "os_answer w' = os_answer w"
  using assms os_alloc_simps(1-4) [of "Calloc n k" Heap NULL w]
  by (auto simp: os_calloc_def heap_owns_def ledger_def)

lemma numa_alloc_owns:
  assumes "os_numa_alloc n i w = (p, w')"
  shows "ledger w' = (os_live w + numa_owns p n, os_fault w)" and "os_answer w' = os_answer w"
  using assms os_alloc_simps(1-4) [of "Numa_alloc_onnode n i" "\<lambda>p. Numa p n" NULL w]
  by (auto simp: os_numa_alloc_def numa_owns_def ledger_def)

lemma free_owns: "os_live w = R + heap_owns p \<Longrightarrow> ledger (os_free p w) = (R, os_fault w)"
  by (simp add: os_free_def heap_owns_def ledger_def os_simps)

lemma numa_free_owns: "os_live w = R + numa_owns p n \<Longrightarrow> ledger (os_numa_free p n w) = (R, os_fault w)"
  by (simp add: os_numa_free_def numa_owns_def ledger_def os_simps)

definition opt_owns :: "('a \<Rightarrow> os_res multiset) \<Rightarrow> 'a option \<Rightarrow> os_res multiset" where
  "opt_owns own x = (case x of None \<Rightarrow> {#} | Some y \<Rightarrow> own y)"

lemma os_ask_int_keeps:
  assumes "os_ask_int c w = (r, w')"
  shows "ledger w' = ledger w" and "os_answer w' = os_answer w"
  using assms os_ask_int_simps(2) [of c w] by (auto simp: ledger_def os_simps)

subsection \<open>A concrete platform\<close>

text \<open>
  A platform on which the hypotheses of the theorems hold, for evaluating them on concrete
  inputs: no hugepages, 4 KB pages, every mapping of up to \<open>2 ^ 40\<close> bytes at a fixed address.
\<close>

fun demo_numa :: "numa_call \<Rightarrow> u64" where
  "demo_numa Num_configured_cpus = 2"
| "demo_numa (Cpu_bit i c) = 1"
| "demo_numa Allocate_mask = 12288"
| "demo_numa _ = 0"

fun demo_hwloc :: "hwloc_call \<Rightarrow> u64" where
  "demo_hwloc Bitmap_alloc = 20480"
| "demo_hwloc Topology_handle = 24576"
| "demo_hwloc (Get_nbobjs t ty) = 1"
| "demo_hwloc (Get_numanode t i) = 28672"
| "demo_hwloc (Node_cpuset n) = 32768"
| "demo_hwloc _ = 0"

fun demo_answer :: "os_call \<Rightarrow> u64" where
  "demo_answer (Mmap len huge) =
     (if huge \<or> len = 0 \<or> 2 ^ 40 < len then MAP_FAILED else 2 ^ 40)"
| "demo_answer (Malloc n) = 4096"
| "demo_answer (Calloc n m) = 8192"
| "demo_answer (Aligned_alloc a n) = 16384"
| "demo_answer (Numa_alloc_onnode n i) = 65536"
| "demo_answer Sysconf_pagesize = 4096"
| "demo_answer (Numa_call c) = demo_numa c"
| "demo_answer (Hwloc_call c) = demo_hwloc c"
| "demo_answer _ = 0"

definition demo_os :: os where
  "demo_os = \<lparr>os_answer = (\<lambda>_. demo_answer), os_tick = 0, os_live = {#}, os_fault = False,
     os_trace = []\<rparr>"

lemma mmap_ok_demo_os: "mmap_ok demo_os"
  unfolding mmap_ok_def demo_os_def Let_def
  by (auto simp: not_less word_le_nat_alt)

end
