(* ===== verification/NK_Arena.thy ===== *)
theory NK_Arena
  imports NK_Platform
begin

section \<open>Memory arenas (\<^verbatim>\<open>src/memory/arena.c\<close>)\<close>

text \<open>
  An arena is one mapping carved up by a bump pointer. The record \<open>nkit_arena\<close> is the C struct
  with the address of the struct itself (\<open>ar_addr\<close>, what \<^verbatim>\<open>free\<close> gets). A handle that may be
  \<^verbatim>\<open>NULL\<close> is an option.
\<close>

record nkit_arena =
  ar_addr :: ptr
  ar_base :: ptr
  ar_size :: u64
  ar_used :: u64
  ar_node_id :: int
  ar_use_huge :: bool

definition HUGE_PAGE_SIZE :: u64 where
  "HUGE_PAGE_SIZE = 2 * 1024 * 1024"

definition sizeof_arena :: u64 where
  "sizeof_arena = 32"

definition nkit_arena_create :: "int \<Rightarrow> u64 \<Rightarrow> os \<Rightarrow> nkit_arena option \<times> os" where
  "nkit_arena_create node_id sz w =
    (if sz = 0 then (None, w) else
     case os_malloc sizeof_arena w of (arena, w1) \<Rightarrow>
     if arena = NULL then (None, w1) else
     let aligned_size = (sz + HUGE_PAGE_SIZE - 1) AND NOT (HUGE_PAGE_SIZE - 1) in
     case os_mmap aligned_size True w1 of (huge_base, w2) \<Rightarrow>
     case (if huge_base = MAP_FAILED
           then (case os_mmap aligned_size False w2 of (b, w3) \<Rightarrow> (b, False, w3))
           else (huge_base, True, w2)) of (base, use_huge, w3) \<Rightarrow>
     if base = MAP_FAILED then (None, os_free arena w3) else
     let nodemask = push_bit (nat node_id) 1 in
     case os_ask_int (Mbind base aligned_size MPOL_BIND nodemask) w3 of (ret, w4) \<Rightarrow>
     let w5 = (if ret < 0
               then snd (os_ask_int (Mbind base aligned_size MPOL_PREFERRED nodemask) w4)
               else w4) in
     (Some \<lparr>ar_addr = arena, ar_base = base, ar_size = aligned_size, ar_used = 0,
            ar_node_id = node_id, ar_use_huge = use_huge\<rparr>, w5))"

definition nkit_arena_alloc :: "nkit_arena option \<Rightarrow> u64 \<Rightarrow> ptr \<times> nkit_arena option" where
  "nkit_arena_alloc h sz =
    (case h of None \<Rightarrow> (NULL, None)
     | Some arena \<Rightarrow>
       let aligned_size = (sz + 63) AND NOT 63 in
       if ar_used arena + aligned_size > ar_size arena then (NULL, Some arena)
       else (ar_base arena + ar_used arena,
             Some (arena\<lparr>ar_used := ar_used arena + aligned_size\<rparr>)))"

definition nkit_arena_destroy :: "nkit_arena option \<Rightarrow> os \<Rightarrow> os" where
  "nkit_arena_destroy h w =
    (case h of None \<Rightarrow> w
     | Some arena \<Rightarrow>
       os_free (ar_addr arena)
         (if ar_base arena \<noteq> NULL \<and> ar_base arena \<noteq> MAP_FAILED
          then os_munmap (ar_base arena) (ar_size arena) w else w))"

definition nkit_arena_reset :: "nkit_arena option \<Rightarrow> nkit_arena option" where
  "nkit_arena_reset h = map_option (\<lambda>arena. arena\<lparr>ar_used := 0\<rparr>) h"

definition nkit_arena_coalesce :: "nkit_arena option \<Rightarrow> os \<Rightarrow> u64 \<times> os" where
  "nkit_arena_coalesce h w =
    (case h of None \<Rightarrow> (0, w)
     | Some arena \<Rightarrow>
       if ar_base arena = NULL \<or> ar_base arena = MAP_FAILED then (0, w) else
       if ar_size arena = 0 then (0, w) else
       case (if ar_use_huge arena then (HUGE_PAGE_SIZE, w) else os_ask Sysconf_pagesize w)
         of (page_size, w1) \<Rightarrow>
       if page_size = 0 then (0, w1) else
       let used_end = ar_base arena + ar_used arena;
           first_free_page = (used_end + page_size - 1) AND NOT (page_size - 1);
           arena_end = ar_base arena + ar_size arena in
       if first_free_page \<ge> arena_end then (0, w1) else
       let free_bytes = arena_end - first_free_page;
           pages_to_return = free_bytes div page_size in
       if pages_to_return = 0 then (0, w1) else
       case os_ask_int (Madvise_dontneed first_free_page (pages_to_return * page_size)) w1
         of (ret, w2) \<Rightarrow>
       if ret \<noteq> 0 then (0, w2) else (pages_to_return, w2))"

definition nkit_arena_used :: "nkit_arena option \<Rightarrow> u64" where
  "nkit_arena_used h = (case h of None \<Rightarrow> 0 | Some arena \<Rightarrow> ar_used arena)"

definition nkit_arena_size :: "nkit_arena option \<Rightarrow> u64" where
  "nkit_arena_size h = (case h of None \<Rightarrow> 0 | Some arena \<Rightarrow> ar_size arena)"

definition nkit_arena_is_huge :: "nkit_arena option \<Rightarrow> int" where
  "nkit_arena_is_huge h =
    (case h of None \<Rightarrow> 0 | Some arena \<Rightarrow> if ar_use_huge arena then 1 else 0)"

subsection \<open>What an arena owns, and the invariant\<close>

definition arena_owns :: "nkit_arena \<Rightarrow> os_res multiset" where
  "arena_owns a = {#Heap (ar_addr a), Mapping (ar_base a) (ar_size a)#}"

definition arena_wf :: "nkit_arena \<Rightarrow> bool" where
  "arena_wf a \<longleftrightarrow> ar_addr a \<noteq> NULL \<and> ar_base a \<noteq> NULL \<and> ar_base a \<noteq> MAP_FAILED
     \<and> (if ar_use_huge a then 2 ^ 21 else 2 ^ 12) dvd unat (ar_base a)
     \<and> 2 ^ 21 dvd unat (ar_size a) \<and> ar_size a \<noteq> 0
     \<and> unat (ar_base a) + unat (ar_size a) < 2 ^ 63
     \<and> unat (ar_used a) \<le> unat (ar_size a) \<and> 2 ^ 6 dvd unat (ar_used a)"

lemma arena_owns_used [simp]: "arena_owns (a\<lparr>ar_used := u\<rparr>) = arena_owns a"
  by (simp add: arena_owns_def)

lemma huge_align_eq: "(sz + HUGE_PAGE_SIZE - 1) AND NOT (HUGE_PAGE_SIZE - 1) = align_up 21 sz"
  by (simp add: align_up_def HUGE_PAGE_SIZE_def add.commute)

lemma line_align_eq: "(sz + 63) AND NOT 63 = align_up 6 (sz :: u64)"
  by (simp add: align_up_def)

lemma nkit_arena_alloc_Some: "nkit_arena_alloc (Some a) sz =
    (if unat (ar_size a) < unat (ar_used a + align_up 6 sz) then (NULL, Some a)
     else (ar_base a + ar_used a, Some (a\<lparr>ar_used := ar_used a + align_up 6 sz\<rparr>)))"
  unfolding nkit_arena_alloc_def line_align_eq by (simp add: Let_def word_less_nat_alt)

subsection \<open>Creation and destruction\<close>

lemmas arena_create_simps = nkit_arena_create_def huge_align_eq os_simps os_prim_defs Let_def
  case_prod_beta ledger_def

lemma nkit_arena_create_Some:
  assumes "nkit_arena_create node_id sz w = (Some a, w')"
  shows "ledger w' = (os_live w + arena_owns a, os_fault w)"
    and "os_answer w' = os_answer w"
    and "ar_size a = align_up 21 sz" and "ar_used a = 0" and "ar_node_id a = node_id"
    and "ar_addr a \<noteq> NULL" and "ar_base a \<noteq> MAP_FAILED"
    and "\<exists>n. os_answer w n (Mmap (ar_size a) (ar_use_huge a)) = ar_base a"
  using assms by (auto simp: arena_create_simps arena_owns_def split: if_splits)

lemma nkit_arena_create_None:
  assumes "nkit_arena_create node_id sz w = (None, w')"
  shows "ledger w' = ledger w" and "os_answer w' = os_answer w"
  using assms by (auto simp: arena_create_simps split: if_splits)

lemma nkit_arena_create_answer [simp]: "os_answer (snd (nkit_arena_create node_id sz w)) = os_answer w"
proof (cases "nkit_arena_create node_id sz w")
  case (Pair h w')
  then show ?thesis using nkit_arena_create_Some(2) nkit_arena_create_None(2) by (cases h) auto
qed

lemma nkit_arena_create_wf:
  assumes "mmap_ok w" and "nkit_arena_create node_id sz w = (Some a, w')"
  shows "arena_wf a" and "unat sz \<le> unat (ar_size a)"
proof -
  note C = nkit_arena_create_Some [OF assms(2)]
  from C(8) obtain n where "os_answer w n (Mmap (ar_size a) (ar_use_huge a)) = ar_base a" by blast
  note M = mmap_okD [OF assms(1) this C(7)]
  have nowrap: "unat sz + (2 ^ 21 - 1) < 2 ^ LENGTH(64)"
  proof (rule ccontr)
    assume "\<not> ?thesis"
    then have "align_up 21 sz = 0" by (intro align_up_wraps) simp_all
    with M(1) C(3) show False by simp
  qed
  show "unat sz \<le> unat (ar_size a)"
    using align_up_bounds(1) [of 21 sz, OF _ nowrap] C(3) by simp
  show "arena_wf a"
    using M C dvd_align_up [of 21 sz] by (simp add: arena_wf_def)
qed

lemma nkit_arena_destroy_ledger:
  assumes "arena_wf a" and "arena_owns a \<subseteq># os_live w"
  shows "ledger (nkit_arena_destroy (Some a) w) = (os_live w - arena_owns a, os_fault w)"
proof -
  have "Heap (ar_addr a) \<in># os_live w" "Mapping (ar_base a) (ar_size a) \<in># os_live w"
    using mset_subset_eqD [OF assms(2)] by (simp_all add: arena_owns_def)
  then show ?thesis
    using assms(1)
    by (auto simp: nkit_arena_destroy_def arena_wf_def arena_owns_def ledger_def os_simps os_prim_defs
        in_diff_count not_in_iff diff_diff_add_mset add_mset_commute)
qed

lemma nkit_arena_destroy_answer [simp]: "os_answer (nkit_arena_destroy h w) = os_answer w"
  by (auto simp: nkit_arena_destroy_def os_simps os_prim_defs split: option.splits)

interpretation arena: owned_object mmap_ok "nkit_arena_create node_id sz"
  "\<lambda>a. nkit_arena_destroy (Some a)" arena_owns arena_wf for node_id sz
proof unfold_locales
  show "ledger w' = ledger w \<and> mmap_ok w'"
    if "mmap_ok w" "nkit_arena_create node_id sz w = (None, w')" for w w'
    using nkit_arena_create_None [OF that(2)] that(1) mmap_ok_cong by blast
  show "ledger w' = (os_live w + arena_owns a, os_fault w) \<and> arena_wf a \<and> mmap_ok w'"
    if "mmap_ok w" "nkit_arena_create node_id sz w = (Some a, w')" for w w' a
    using nkit_arena_create_Some(1,2) [OF that(2)] nkit_arena_create_wf(1) [OF that] that(1)
      mmap_ok_cong by blast
  show "ledger (nkit_arena_destroy (Some a) w) = (os_live w - arena_owns a, os_fault w)"
    if "arena_wf a" "arena_owns a \<subseteq># os_live w" for a w
    using that by (rule nkit_arena_destroy_ledger)
  show "mmap_ok (nkit_arena_destroy (Some a) w)" if "mmap_ok w" for a w
    using that by (simp add: mmap_ok_def)
qed

subsection \<open>Bump allocation\<close>

text \<open>
  Requests up to \<open>2 ^ 63 - 64\<close> bytes: neither the rounding nor the bump can wrap, because a
  mapping lies in the lower half of the address space.
\<close>

abbreviation small_request :: "u64 \<Rightarrow> bool" where
  "small_request sz \<equiv> unat sz \<le> 2 ^ 63 - 64"

lemma small_request_align:
  assumes "small_request sz"
  shows "unat sz \<le> unat (align_up 6 sz)" "unat (align_up 6 sz) < unat sz + 64"
  using align_up_bounds [of 6 sz] assms by simp_all

lemma arena_bump_unat:
  assumes "arena_wf a" and "small_request sz"
  shows "unat (ar_used a + align_up 6 sz) = unat (ar_used a) + unat (align_up 6 sz)"
proof -
  have "unat (ar_used a) < 2 ^ 63" using assms(1) by (simp add: arena_wf_def)
  moreover have "unat (align_up 6 sz) < 2 ^ 63" using small_request_align(2) [OF assms(2)] assms(2) by simp
  ultimately show ?thesis by (subst unat_add_lem [THEN iffD1]) simp_all
qed

lemma nkit_arena_alloc_cases:
  assumes "arena_wf a" and "small_request sz"
  shows "nkit_arena_alloc (Some a) sz =
    (if unat (ar_size a) < unat (ar_used a) + unat (align_up 6 sz) then (NULL, Some a)
     else (ar_base a + ar_used a, Some (a\<lparr>ar_used := ar_used a + align_up 6 sz\<rparr>)))"
  using arena_bump_unat [OF assms] by (simp add: nkit_arena_alloc_Some)

lemma nkit_arena_alloc_wf:
  assumes "arena_wf a" and "small_request sz" and "nkit_arena_alloc (Some a) sz = (p, h)"
  obtains a' where "h = Some a'" "arena_wf a'" "ar_base a' = ar_base a" "ar_size a' = ar_size a"
    "if p = NULL then a' = a else unat p = unat (ar_base a) + unat (ar_used a)
       \<and> unat (ar_used a') = unat (ar_used a) + unat (align_up 6 sz)"
proof (cases "unat (ar_size a) < unat (ar_used a) + unat (align_up 6 sz)")
  case True
  with assms that [of a] show ?thesis by (simp add: nkit_arena_alloc_cases)
next
  case False
  let ?a = "a\<lparr>ar_used := ar_used a + align_up 6 sz\<rparr>"
  have wf: "arena_wf ?a"
    using assms(1) False arena_bump_unat [OF assms(1,2)] dvd_align_up [of 6 sz]
    by (auto simp: arena_wf_def)
  have "unat (ar_base a + ar_used a) = unat (ar_base a) + unat (ar_used a)"
    using assms(1) by (subst unat_add_lem [THEN iffD1]) (auto simp: arena_wf_def)
  moreover from this have "ar_base a + ar_used a \<noteq> NULL"
    using assms(1) by (auto simp: arena_wf_def simp flip: unat_eq_0)
  ultimately show ?thesis
    using assms False that [of ?a] wf arena_bump_unat [OF assms(1,2)]
    by (auto simp: nkit_arena_alloc_cases)
qed

text \<open>A new arena serves an allocation of the size it was created for.\<close>

lemma arena_first_alloc:
  assumes "mmap_ok w" and "nkit_arena_create node_id sz w = (Some a, w')" and "2 ^ 6 dvd unat sz"
  shows "nkit_arena_alloc (Some a) sz = (ar_base a, Some (a\<lparr>ar_used := sz\<rparr>))"
    and "ar_base a \<noteq> NULL" and "unat sz < 2 ^ 63" and "arena_wf (a\<lparr>ar_used := sz\<rparr>)"
proof -
  note wf = nkit_arena_create_wf [OF assms(1,2)]
  have u: "ar_used a = 0" using nkit_arena_create_Some(4) [OF assms(2)] .
  have al: "align_up 6 sz = sz" using align_up_dvd [of 6 sz] assms(3) by simp
  show "ar_base a \<noteq> NULL" "unat sz < 2 ^ 63" "arena_wf (a\<lparr>ar_used := sz\<rparr>)"
    using wf assms(3) by (auto simp: arena_wf_def)
  show "nkit_arena_alloc (Some a) sz = (ar_base a, Some (a\<lparr>ar_used := sz\<rparr>))"
    using wf(2) al u by (simp add: nkit_arena_alloc_Some)
qed

lemma arena_first_alloc_rounded:
  assumes "mmap_ok w" and "nkit_arena_create node_id sz w = (Some a, w')"
  shows "nkit_arena_alloc (Some a) sz = (ar_base a, Some (a\<lparr>ar_used := align_up 6 sz\<rparr>))"
    and "ar_base a \<noteq> NULL" and "unat sz < 2 ^ 63" and "arena_wf (a\<lparr>ar_used := align_up 6 sz\<rparr>)"
proof -
  note wf = nkit_arena_create_wf [OF assms(1,2)]
  have u: "ar_used a = 0" using nkit_arena_create_Some(4) [OF assms(2)] .
  show n: "ar_base a \<noteq> NULL" "unat sz < 2 ^ 63" using wf by (auto simp: arena_wf_def)
  have "2 ^ 6 dvd unat (ar_size a)" using wf(1) by (auto simp: arena_wf_def intro: power_le_dvd [of 2 21])
  then have le: "unat (align_up 6 sz) \<le> unat (ar_size a)"
    using align_up_least [of 6 sz "unat (ar_size a)"] wf(2) n(2) by simp
  then show "nkit_arena_alloc (Some a) sz = (ar_base a, Some (a\<lparr>ar_used := align_up 6 sz\<rparr>))"
    using u by (simp add: nkit_arena_alloc_Some)
  show "arena_wf (a\<lparr>ar_used := align_up 6 sz\<rparr>)"
    using wf(1) le dvd_align_up [of 6 sz] by (simp add: arena_wf_def)
qed

text \<open>A client that allocates a list of sizes, keeping the blocks it gets.\<close>

fun arena_alloc_run :: "nkit_arena option \<Rightarrow> u64 list \<Rightarrow> (ptr \<times> u64) list \<times> nkit_arena option" where
  "arena_alloc_run h [] = ([], h)"
| "arena_alloc_run h (sz # szs) =
    (case nkit_arena_alloc h sz of (p, h1) \<Rightarrow>
     case arena_alloc_run h1 szs of (bs, h2) \<Rightarrow> (if p = NULL then bs else (p, sz) # bs, h2))"

definition block_addrs :: "ptr \<times> u64 \<Rightarrow> nat set" where
  "block_addrs b = {unat (fst b) ..< unat (fst b) + unat (snd b)}"

definition blocks_disjoint :: "(ptr \<times> u64) list \<Rightarrow> bool" where
  "blocks_disjoint bs \<longleftrightarrow> sorted_wrt (\<lambda>b c. block_addrs b \<inter> block_addrs c = {}) bs"

lemma arena_alloc_run_range:
  assumes "arena_wf a" and "\<forall>sz \<in> set szs. small_request sz"
    and "arena_alloc_run (Some a) szs = (bs, h)"
  shows "\<exists>a'. h = Some a' \<and> arena_wf a' \<and> ar_base a' = ar_base a \<and> ar_size a' = ar_size a
    \<and> unat (ar_used a) \<le> unat (ar_used a')
    \<and> (\<forall>b \<in> set bs. 2 ^ 6 dvd unat (fst b) \<and> block_addrs b \<subseteq>
          {unat (ar_base a) + unat (ar_used a) ..< unat (ar_base a) + unat (ar_used a')})
    \<and> blocks_disjoint bs"
  using assms
proof (induction szs arbitrary: a bs h)
  case Nil
  then show ?case by (auto simp: blocks_disjoint_def)
next
  case (Cons sz szs)
  obtain p h1 where al: "nkit_arena_alloc (Some a) sz = (p, h1)" by fastforce
  obtain bs1 h2 where run: "arena_alloc_run h1 szs = (bs1, h2)" by fastforce
  have small: "small_request sz" using Cons.prems(2) by simp
  obtain a1 where a1: "h1 = Some a1" "arena_wf a1" "ar_base a1 = ar_base a" "ar_size a1 = ar_size a"
    "if p = NULL then a1 = a else unat p = unat (ar_base a) + unat (ar_used a)
       \<and> unat (ar_used a1) = unat (ar_used a) + unat (align_up 6 sz)"
    using nkit_arena_alloc_wf [OF Cons.prems(1) small al] .
  have res: "bs = (if p = NULL then bs1 else (p, sz) # bs1)" "h = h2"
    using Cons.prems(3) al run by (auto split: if_splits)
  from Cons.IH [of a1 bs1 h2] Cons.prems(2) a1 run
  obtain a' where a': "h2 = Some a'" "arena_wf a'" "ar_base a' = ar_base a" "ar_size a' = ar_size a"
    "unat (ar_used a1) \<le> unat (ar_used a')"
    "\<forall>b \<in> set bs1. 2 ^ 6 dvd unat (fst b) \<and> block_addrs b \<subseteq>
       {unat (ar_base a) + unat (ar_used a1) ..< unat (ar_base a) + unat (ar_used a')}"
    "blocks_disjoint bs1"
    by auto
  show ?case
  proof (cases "p = NULL")
    case True
    with a1 a' res show ?thesis by auto
  next
    case False
    with a1 have p: "unat p = unat (ar_base a) + unat (ar_used a)"
      and u1: "unat (ar_used a1) = unat (ar_used a) + unat (align_up 6 sz)" by simp_all
    have blk: "block_addrs (p, sz) \<subseteq>
        {unat (ar_base a) + unat (ar_used a) ..< unat (ar_base a) + unat (ar_used a1)}"
      using small_request_align(1) [OF small] p u1 by (auto simp: block_addrs_def)
    have "2 ^ 6 dvd unat (ar_base a)"
      using Cons.prems(1) by (auto simp: arena_wf_def intro: power_le_dvd split: if_splits)
    moreover have "2 ^ 6 dvd unat (ar_used a)" using Cons.prems(1) by (simp add: arena_wf_def)
    ultimately have "2 ^ 6 dvd unat p" by (simp add: p)
    moreover have "\<forall>b \<in> set bs1. block_addrs (p, sz) \<inter> block_addrs b = {}"
      using blk a'(6) by fastforce
    moreover have "\<forall>b \<in> set bs1. block_addrs b \<subseteq>
        {unat (ar_base a) + unat (ar_used a) ..< unat (ar_base a) + unat (ar_used a')}"
      using a'(6) u1 by fastforce
    moreover have "block_addrs (p, sz) \<subseteq>
        {unat (ar_base a) + unat (ar_used a) ..< unat (ar_base a) + unat (ar_used a')}"
      using blk a'(5) by fastforce
    ultimately show ?thesis
      using a1 a' res False u1 by (auto simp: blocks_disjoint_def)
  qed
qed

subsection \<open>Returning unused pages\<close>

definition arena_shift :: "nkit_arena \<Rightarrow> nat" where
  "arena_shift a = (if ar_use_huge a then 21 else 12)"

definition page_law :: "nkit_arena \<Rightarrow> os \<Rightarrow> bool" where
  "page_law a w \<longleftrightarrow> ar_use_huge a \<or> os_answer w (os_tick w) Sysconf_pagesize = 4096"

abbreviation arena_free_start :: "nkit_arena \<Rightarrow> u64" where
  "arena_free_start a \<equiv> align_up (arena_shift a) (ar_base a + ar_used a)"

abbreviation arena_end :: "nkit_arena \<Rightarrow> u64" where
  "arena_end a \<equiv> ar_base a + ar_size a"

lemma arena_coalesce_arith:
  assumes "arena_wf a"
  shows "unat (arena_end a) = unat (ar_base a) + unat (ar_size a)"
    and "unat (ar_base a) + unat (ar_used a) \<le> unat (arena_free_start a)"
    and "unat (arena_free_start a) < unat (ar_base a) + unat (ar_used a) + 2 ^ arena_shift a"
    and "2 ^ arena_shift a dvd unat (arena_end a) - unat (arena_free_start a)"
proof -
  let ?k = "arena_shift a"
  have k: "?k = 21 \<or> ?k = 12" by (simp add: arena_shift_def)
  show e: "unat (arena_end a) = unat (ar_base a) + unat (ar_size a)"
    using assms by (subst unat_add_lem [THEN iffD1]) (simp_all add: arena_wf_def)
  have u: "unat (ar_base a + ar_used a) = unat (ar_base a) + unat (ar_used a)"
    using assms by (subst unat_add_lem [THEN iffD1]) (simp_all add: arena_wf_def)
  have "unat (ar_base a + ar_used a) + (2 ^ ?k - 1) < 2 ^ LENGTH(64)"
    using assms k u by (auto simp: arena_wf_def)
  note b = align_up_bounds [OF _ this]
  show "unat (ar_base a) + unat (ar_used a) \<le> unat (arena_free_start a)"
    and "unat (arena_free_start a) < unat (ar_base a) + unat (ar_used a) + 2 ^ ?k"
    using b k u by auto
  have "2 ^ ?k dvd unat (ar_base a)" "2 ^ ?k dvd unat (ar_size a)"
    using assms by (auto simp: arena_wf_def arena_shift_def intro: power_le_dvd)
  then show "2 ^ ?k dvd unat (arena_end a) - unat (arena_free_start a)"
    by (simp add: e dvd_align_up dvd_diff_nat)
qed

lemma nkit_arena_coalesce_eq:
  assumes "arena_wf a" and "page_law a w"
  shows "nkit_arena_coalesce (Some a) w =
    (let w1 = (if ar_use_huge a then w else snd (os_ask Sysconf_pagesize w));
         len = arena_end a - arena_free_start a;
         n = len div 2 ^ arena_shift a in
     if arena_end a \<le> arena_free_start a then (0, w1) else
     if n = 0 then (0, w1) else
     case os_ask_int (Madvise_dontneed (arena_free_start a) (n * 2 ^ arena_shift a)) w1
       of (ret, w2) \<Rightarrow> if ret \<noteq> 0 then (0, w2) else (n, w2))"
proof -
  have "(x + HUGE_PAGE_SIZE - 1) AND NOT (HUGE_PAGE_SIZE - 1) = align_up 21 x" for x
    by (rule huge_align_eq)
  moreover have "(x + 4096 - 1) AND NOT (4096 - 1) = align_up 12 (x :: u64)" for x
    by (simp add: align_up_def add.commute)
  ultimately show ?thesis
    using assms
    by (auto simp: nkit_arena_coalesce_def arena_wf_def page_law_def arena_shift_def os_ask_def
        HUGE_PAGE_SIZE_def Let_def case_prod_beta)
qed

subsection \<open>Properties\<close>

text \<open>
  C7. Whatever sizes up to \<open>2 ^ 63 - 64\<close> bytes a client requests from a fresh arena, in whatever
  order, the blocks it gets are aligned to a cache line, lie inside the arena's mapping, and no
  two of them overlap.
\<close>

theorem arena_blocks_disjoint:
  assumes "mmap_ok w" and "nkit_arena_create node_id sz w = (Some a, w')"
    and "\<forall>n \<in> set szs. small_request n" and "arena_alloc_run (Some a) szs = (bs, h)"
  shows "blocks_disjoint bs \<and>
    (\<forall>b \<in> set bs. 64 dvd unat (fst b) \<and> block_addrs b \<subseteq> block_addrs (ar_base a, ar_size a))"
proof -
  have wf: "arena_wf a" using nkit_arena_create_wf(1) [OF assms(1,2)] .
  have used: "ar_used a = 0" using nkit_arena_create_Some(4) [OF assms(2)] .
  from arena_alloc_run_range [OF wf assms(3,4)] obtain a' where a': "arena_wf a'"
    "ar_size a' = ar_size a" "blocks_disjoint bs"
    "\<forall>b \<in> set bs. 2 ^ 6 dvd unat (fst b) \<and>
      block_addrs b \<subseteq> {unat (ar_base a) ..< unat (ar_base a) + unat (ar_used a')}"
    by (auto simp: used)
  then have "unat (ar_used a') \<le> unat (ar_size a)" by (simp add: arena_wf_def)
  with a'(3,4) show ?thesis by (fastforce simp: block_addrs_def [of "(ar_base a, ar_size a)"])
qed

lemma demo_arena: "nkit_arena_create 0 100 demo_os = (Some \<lparr>ar_addr = 4096, ar_base = 2 ^ 40,
     ar_size = 2097152, ar_used = 0, ar_node_id = 0, ar_use_huge = False\<rparr>,
   snd (nkit_arena_create 0 100 demo_os))"
  by (simp add: nkit_arena_create_def demo_os_def os_prim_defs os_alloc_def os_ask_def os_ask_int_def
      HUGE_PAGE_SIZE_def sizeof_arena_def MAP_FAILED_def)

theorem arena_blocks_disjoint_witness:
  "\<exists>bs h. arena_alloc_run (fst (nkit_arena_create 0 100 demo_os)) [100, 1, 3000000] = (bs, h)
     \<and> length bs = 2 \<and> blocks_disjoint bs"
proof -
  obtain a where a: "nkit_arena_create 0 100 demo_os = (Some a, snd (nkit_arena_create 0 100 demo_os))"
    and aeq: "a = \<lparr>ar_addr = 4096, ar_base = 2 ^ 40, ar_size = 2097152, ar_used = 0,
       ar_node_id = 0, ar_use_huge = False\<rparr>"
    using demo_arena by blast
  have run: "arena_alloc_run (Some a) [100, 1, 3000000] = ([(2 ^ 40, 100), (2 ^ 40 + 128, 1)],
      Some (a\<lparr>ar_used := 192\<rparr>))"
    by (simp add: aeq nkit_arena_alloc_def)
  then have "blocks_disjoint [(2 ^ 40, 100), (2 ^ 40 + 128, 1)]"
    using arena_blocks_disjoint [OF mmap_ok_demo_os a _ run] by simp
  moreover from a have "fst (nkit_arena_create 0 100 demo_os) = Some a" by (metis fst_conv)
  ultimately show ?thesis using run by (intro exI [of _ "[(2 ^ 40, 100), (2 ^ 40 + 128, 1)]"]) simp
qed

text \<open>
  C31. The overflow the bump allocator does not check for: in any arena that has handed out
  something, a request for \<open>2 ^ 64\<close> minus the bytes in use succeeds, although it is far larger than
  the arena, and rewinds the arena, so that the next allocation gets the first block again.
\<close>

theorem arena_alloc_wraps:
  assumes "arena_wf a" and "ar_used a \<noteq> 0"
  shows "nkit_arena_alloc (Some a) (- ar_used a) =
    (ar_base a + ar_used a, Some (a\<lparr>ar_used := 0\<rparr>))"
proof -
  from assms have d: "64 dvd unat (ar_used a)" and u: "unat (ar_used a) \<noteq> 0"
    by (simp_all add: arena_wf_def unat_eq_0)
  have n: "unat (- ar_used a) = 2 ^ 64 - unat (ar_used a)"
    using u unat_sub_if' [of 0 "ar_used a"] by simp
  have "64 dvd unat (- ar_used a)" using d unat_less_exp_len [of "ar_used a"] by (simp add: n dvd_diff_nat)
  moreover have "unat (- ar_used a) + 63 < 2 ^ 64"
    using u d unat_less_exp_len [of "ar_used a"] by (auto simp: n dest!: dvd_imp_le)
  ultimately have "unat (align_up 6 (- ar_used a)) = unat (- ar_used a)"
    by (subst unat_align_up) auto
  then have "align_up 6 (- ar_used a) = - ar_used a" by (simp only: word_unat_eq_iff)
  then show ?thesis by (simp add: nkit_arena_alloc_Some)
qed

theorem arena_alloc_wraps_witness:
  "\<exists>a :: nkit_arena. arena_wf a \<and> ar_used a = 128 \<and> ar_size a = 2097152 \<and>
     nkit_arena_alloc (Some a) (- 128) = (ar_base a + 128, Some (a\<lparr>ar_used := 0\<rparr>))"
proof -
  let ?a = "\<lparr>ar_addr = 4096, ar_base = 2 ^ 40, ar_size = 2097152, ar_used = 128,
     ar_node_id = 0, ar_use_huge = False\<rparr>"
  have "arena_wf ?a" by (simp add: arena_wf_def MAP_FAILED_def)
  with arena_alloc_wraps [of ?a] show ?thesis by (intro exI [of _ ?a]) simp
qed

text \<open>
  C30. Coalescing never gives back a page that holds allocated bytes: the only memory the kernel is
  told to discard is the range from the first page boundary at or above the watermark to the end of
  the arena, and the result counts exactly the pages of that range (or is 0 when the kernel
  refuses). No resource is acquired or released.
\<close>

theorem arena_coalesce_range:
  assumes "arena_wf a" and "page_law a w" and "nkit_arena_coalesce (Some a) w = (n, w')"
  shows "ledger w' = ledger w \<and> (\<exists>tr. os_trace w' = tr @ os_trace w \<and>
    (\<forall>p len. Madvise_dontneed p len \<in> set tr \<longrightarrow>
       unat (ar_base a) + unat (ar_used a) \<le> unat p
       \<and> unat p < unat (ar_base a) + unat (ar_used a) + 2 ^ arena_shift a
       \<and> unat p + unat len = unat (ar_base a) + unat (ar_size a)
       \<and> (n = 0 \<or> unat len = unat n * 2 ^ arena_shift a))
    \<and> (n \<noteq> 0 \<longrightarrow> (\<exists>p len. Madvise_dontneed p len \<in> set tr)))"
proof -
  let ?w1 = "if ar_use_huge a then w else snd (os_ask Sysconf_pagesize w)"
  let ?k = "arena_shift a" and ?f = "arena_free_start a" and ?e = "arena_end a"
  let ?n = "(?e - ?f) div 2 ^ ?k"
  note A = arena_coalesce_arith [OF assms(1)]
  have k: "unat (2 ^ ?k :: u64) = 2 ^ ?k" by (rule unat_exp) (simp add: arena_shift_def)
  have w1: "ledger ?w1 = ledger w" "\<exists>tr. os_trace ?w1 = tr @ os_trace w \<and> set tr \<subseteq> {Sysconf_pagesize}"
    by (auto simp: os_simps ledger_def)
  show ?thesis
  proof (cases "?e \<le> ?f \<or> ?n = 0")
    case True
    then have "w' = ?w1" "n = 0" using assms(3)
      by (auto simp: nkit_arena_coalesce_eq [OF assms(1,2)] Let_def split: if_splits)
    then show ?thesis using w1 by auto
  next
    case False
    then have ef: "unat (?e - ?f) = unat ?e - unat ?f" by (intro unat_sub) auto
    have "unat ?n = (unat ?e - unat ?f) div 2 ^ ?k" by (simp add: unat_div ef k)
    then have len: "unat ?n * 2 ^ ?k = unat ?e - unat ?f" using A(4) by simp
    then have mul: "unat (?n * 2 ^ ?k) = unat ?e - unat ?f"
      using unat_less_exp_len [of ?e] by (subst unat_mult_lem [THEN iffD1]) (simp_all add: k)
    let ?c = "Madvise_dontneed ?f (?n * 2 ^ ?k)"
    have "nkit_arena_coalesce (Some a) w =
        (if fst (os_ask_int ?c ?w1) \<noteq> 0 then 0 else ?n, snd (os_ask ?c ?w1))"
      using False unfolding nkit_arena_coalesce_eq [OF assms(1,2)] Let_def
      by (simp add: case_prod_beta os_ask_int_simps(2))
    then have w': "w' = snd (os_ask ?c ?w1)" and n: "n = 0 \<or> n = ?n"
      using assms(3) by (auto split: if_splits)
    obtain tr where tr: "os_trace ?w1 = tr @ os_trace w" "set tr \<subseteq> {Sysconf_pagesize}"
      using w1(2) by blast
    have "unat ?f \<le> unat ?e" using False by (simp add: word_le_nat_alt)
    then have "unat ?f + unat (?n * 2 ^ ?k) = unat (ar_base a) + unat (ar_size a)"
      using mul A(1) by linarith
    moreover have "n = 0 \<or> unat (?n * 2 ^ ?k) = unat n * 2 ^ ?k" using n mul len by metis
    moreover have "ledger w' = ledger w" using w1(1) by (simp only: w' ledger_def os_ask_simps)
    moreover have "os_trace w' = (?c # tr) @ os_trace w" by (simp only: w' os_ask_simps tr append_Cons)
    ultimately show ?thesis using A(2,3) tr(2) by (intro conjI exI [of _ "?c # tr"]) auto
  qed
qed

theorem arena_coalesce_range_witness:
  "\<exists>a tr. arena_wf a \<and> page_law a demo_os \<and> fst (nkit_arena_coalesce (Some a) demo_os) = 511
     \<and> os_trace (snd (nkit_arena_coalesce (Some a) demo_os)) = tr @ os_trace demo_os
     \<and> (\<exists>p len. Madvise_dontneed p len \<in> set tr)"
proof -
  let ?a = "\<lparr>ar_addr = 4096, ar_base = 2 ^ 40, ar_size = 2097152, ar_used = 128,
     ar_node_id = 0, ar_use_huge = False\<rparr>"
  have wf: "arena_wf ?a" by (simp add: arena_wf_def MAP_FAILED_def)
  have pl: "page_law ?a demo_os" by (simp add: page_law_def demo_os_def)
  have run: "nkit_arena_coalesce (Some ?a) demo_os = (511, snd (nkit_arena_coalesce (Some ?a) demo_os))"
    by (simp add: nkit_arena_coalesce_def demo_os_def os_ask_def os_ask_int_def MAP_FAILED_def Let_def)
  then have n: "fst (nkit_arena_coalesce (Some ?a) demo_os) = 511" by (metis fst_conv)
  from arena_coalesce_range [OF wf pl run] wf pl n show ?thesis by (intro exI [of _ ?a]) auto
qed

text \<open>
  Creating an arena leaks nothing: when it fails the ledger of live resources is as before, and
  when it succeeds, destroying the arena restores it with no invalid release.
\<close>

theorem arena_create_destroy_ledger:
  assumes "mmap_ok w"
  shows "(case nkit_arena_create node_id sz w of
      (None, w') \<Rightarrow> ledger w' = ledger w
    | (Some a, w') \<Rightarrow> ledger w' = (os_live w + arena_owns a, os_fault w)
        \<and> ledger (nkit_arena_destroy (Some a) w') = ledger w)"
proof (cases "nkit_arena_create node_id sz w")
  case (Pair h w')
  then show ?thesis
    using arena.create_None [OF assms] arena.create_Some [OF assms] arena.create_destroy [OF assms]
    by (cases h) simp_all
qed

theorem arena_create_destroy_ledger_witness:
  "ledger (nkit_arena_destroy (fst (nkit_arena_create 0 100 demo_os))
     (snd (nkit_arena_create 0 100 demo_os))) = ({#}, False)"
proof -
  obtain a where a: "nkit_arena_create 0 100 demo_os = (Some a, snd (nkit_arena_create 0 100 demo_os))"
    using demo_arena by blast
  have f: "fst (nkit_arena_create 0 100 demo_os) = Some a" by (subst a) simp
  from arena_create_destroy_ledger [OF mmap_ok_demo_os, of 0 100]
  have "ledger (nkit_arena_destroy (Some a) (snd (nkit_arena_create 0 100 demo_os))) = ledger demo_os"
    by (subst (asm) a) simp
  moreover have "ledger demo_os = ({#}, False)" by (simp add: ledger_def demo_os_def)
  ultimately show ?thesis by (simp add: f)
qed

end
