(* ===== verification/NK_Probe.thy ===== *)
theory NK_Probe
  imports Main
begin

section \<open>Probe distances on a ring of slots\<close>

text \<open>
  The combinatorics of Robin Hood hashing, without words and buckets. A table of \<open>n\<close> slots is a
  map \<open>t\<close> from slots to the home slot of the resident, \<^const>\<open>None\<close> where the slot is empty.
  \<open>pd n h i\<close> is the probe distance of a resident with home \<open>h\<close> in slot \<open>i\<close>.
\<close>

definition pd :: "nat \<Rightarrow> nat \<Rightarrow> nat \<Rightarrow> nat" where
  "pd n h i = (i + n - h) mod n"

definition next_slot :: "nat \<Rightarrow> nat \<Rightarrow> nat" where
  "next_slot n i = (i + 1) mod n"

lemma pd_cases: "h < n \<Longrightarrow> i < n \<Longrightarrow> pd n h i = (if h \<le> i then i - h else i + n - h)"
  by (auto simp: pd_def le_mod_geq)

lemma next_slot_cases: "i < n \<Longrightarrow> next_slot n i = (if i + 1 = n then 0 else i + 1)"
  by (auto simp: next_slot_def)

lemma probe_cases: "(h :: nat) < n \<Longrightarrow> e < n \<Longrightarrow> (h + e) mod n = (if h + e < n then h + e else h + e - n)"
  by (auto simp: le_mod_geq)

lemma pd_less: "h < n \<Longrightarrow> pd n h i < n"
  by (simp add: pd_def)

lemma pd_probe: "h < n \<Longrightarrow> e < n \<Longrightarrow> pd n h ((h + e) mod n) = e"
  by (auto simp: probe_cases pd_cases)

lemma probe_pd: "h < n \<Longrightarrow> i < n \<Longrightarrow> (h + pd n h i) mod n = i"
  by (auto simp: pd_cases)

lemma pd_next:
  "h < n \<Longrightarrow> i < n \<Longrightarrow> pd n h (next_slot n i) = (if pd n h i + 1 = n then 0 else pd n h i + 1)"
  by (auto simp: next_slot_cases pd_cases)

lemma pd_next_pos: "h < n \<Longrightarrow> i < n \<Longrightarrow> 0 < pd n h (next_slot n i) \<Longrightarrow> pd n h i + 1 = pd n h (next_slot n i)"
  by (simp add: pd_next split: if_splits)

lemma next_slot_neq: "1 < n \<Longrightarrow> i < n \<Longrightarrow> next_slot n i \<noteq> i"
  by (auto simp: next_slot_cases)

lemma next_slot_inj: "i < n \<Longrightarrow> j < n \<Longrightarrow> next_slot n i = next_slot n j \<Longrightarrow> i = j"
  by (auto simp: next_slot_cases split: if_splits)

lemma next_probe: "next_slot n ((h + e) mod n) = (h + Suc e) mod n"
  by (simp add: next_slot_def mod_simps)

subsection \<open>The Robin Hood invariant\<close>

text \<open>A displaced resident follows a resident that is displaced by at most one slot less.\<close>

definition rh :: "nat \<Rightarrow> (nat \<rightharpoonup> nat) \<Rightarrow> bool" where
  "rh n t \<longleftrightarrow> (\<forall>i < n. \<forall>h. t (next_slot n i) = Some h \<longrightarrow> 0 < pd n h (next_slot n i) \<longrightarrow>
     (\<exists>h'. t i = Some h' \<and> pd n h (next_slot n i) \<le> pd n h' i + 1))"

lemma rhD:
  assumes "rh n t" and "i < n" and "t (next_slot n i) = Some h" and "0 < pd n h (next_slot n i)"
  obtains h' where "t i = Some h'" and "pd n h (next_slot n i) \<le> pd n h' i + 1"
  using assms unfolding rh_def by blast

lemma rhI:
  assumes "\<And>i h. i < n \<Longrightarrow> t (next_slot n i) = Some h \<Longrightarrow> 0 < pd n h (next_slot n i) \<Longrightarrow>
     \<exists>h'. t i = Some h' \<and> pd n h (next_slot n i) \<le> pd n h' i + 1"
  shows "rh n t"
  using assms unfolding rh_def by blast

lemma rh_empty: "rh n Map.empty"
  by (simp add: rh_def)

text \<open>The slot \<open>e\<close> steps after \<open>h\<close> has a resident displaced by at least \<open>e\<close>.\<close>

definition rich :: "nat \<Rightarrow> (nat \<rightharpoonup> nat) \<Rightarrow> nat \<Rightarrow> nat \<Rightarrow> bool" where
  "rich n t h e \<longleftrightarrow> (\<exists>h'. t ((h + e) mod n) = Some h' \<and> e \<le> pd n h' ((h + e) mod n))"

lemma rich_down:
  assumes "rh n t" and "0 < n" and "rich n t h (Suc e)"
  shows "rich n t h e"
proof -
  let ?i = "(h + e) mod n"
  obtain h' where h': "t (next_slot n ?i) = Some h'" "Suc e \<le> pd n h' (next_slot n ?i)"
    using assms(3) unfolding next_probe rich_def by blast
  then obtain h'' where "t ?i = Some h''" "pd n h' (next_slot n ?i) \<le> pd n h'' ?i + 1"
    using rhD [OF assms(1), of ?i h'] assms(2) by (metis Suc_le_lessD mod_less_divisor zero_less_Suc less_le_trans)
  with h' show ?thesis by (auto simp: rich_def)
qed

lemma rich_le:
  assumes "rh n t" and "0 < n" and "rich n t h e" and "e' \<le> e"
  shows "rich n t h e'"
  using assms(4,3) by (rule inc_induct) (rule rich_down [OF assms(1,2)])

lemma rich_full:
  assumes "rh n t" and "h < n" and "rich n t h e" and "n \<le> Suc e" and "i < n"
  shows "t i \<noteq> None"
proof -
  have "pd n h i \<le> e" using pd_less [OF assms(2), of i] assms(4) by simp
  then have "rich n t h (pd n h i)" using rich_le [OF assms(1) _ assms(3)] assms(2) by simp
  then show ?thesis using probe_pd [OF assms(2,5)] by (auto simp: rich_def)
qed

subsection \<open>The three updates that keep it\<close>

lemma rh_place:
  assumes "rh n t" and "1 < n" and "h < n" and "e < n" and "e = 0 \<or> rich n t h (e - 1)"
    and "\<And>h'. t ((h + e) mod n) = Some h' \<Longrightarrow> pd n h' ((h + e) mod n) \<le> e"
  shows "rh n (t((h + e) mod n \<mapsto> h))"
proof (rule rhI)
  fix i g
  let ?s = "(h + e) mod n" and ?j = "next_slot n i"
  assume i: "i < n" and g: "(t(?s \<mapsto> h)) ?j = Some g" and pos: "0 < pd n g ?j"
  have s: "?s < n" using assms(2) by simp
  consider "?j = ?s" | "i = ?s" "?j \<noteq> ?s" | "i \<noteq> ?s" "?j \<noteq> ?s" by blast
  then show "\<exists>h'. (t(?s \<mapsto> h)) i = Some h' \<and> pd n g ?j \<le> pd n h' i + 1"
  proof cases
    case 1
    then have gh: "g = h" "pd n g ?j = e" using g pd_probe [OF assms(3,4)] by auto
    then have e: "e \<noteq> 0" using pos by simp
    then have "next_slot n ((h + (e - 1)) mod n) = ?j" using next_probe [of n h "e - 1"] 1 by simp
    then have i': "(h + (e - 1)) mod n = i" using next_slot_inj [of _ n i] i assms(2) by simp
    moreover have "i \<noteq> ?s" using 1 next_slot_neq [OF assms(2) i] by auto
    moreover have "rich n t h (e - 1)" using e assms(5) by blast
    ultimately show ?thesis using gh(2) by (auto simp: rich_def)
  next
    case 2
    then have "t ?j = Some g" using g by simp
    with pos 2 rhD [OF assms(1) i] obtain h' where "t ?s = Some h'" "pd n g ?j \<le> pd n h' ?s + 1" by metis
    with assms(6) have "pd n g ?j \<le> e + 1" by fastforce
    with 2 show ?thesis using pd_probe [OF assms(3,4)] by simp
  next
    case 3
    then show ?thesis using g pos rhD [OF assms(1) i] by (metis fun_upd_other)
  qed
qed

lemma rh_shift:
  assumes "rh n t" and "1 < n" and "s < n" and "t (next_slot n s) = Some h" and "h < n"
    and "0 < pd n h (next_slot n s)"
  shows "rh n (t(s \<mapsto> h))"
proof (rule rhI)
  fix i g
  let ?j = "next_slot n i"
  assume i: "i < n" and g: "(t(s \<mapsto> h)) ?j = Some g" and pos: "0 < pd n g ?j"
  have bk: "pd n h s + 1 = pd n h (next_slot n s)" using pd_next_pos [OF assms(5,3,6)] .
  obtain r where r: "t s = Some r" "pd n h (next_slot n s) \<le> pd n r s + 1"
    using rhD [OF assms(1,3,4,6)] by blast
  consider "?j = s" | "i = s" "?j \<noteq> s" | "i \<noteq> s" "?j \<noteq> s" by blast
  then show "\<exists>h'. (t(s \<mapsto> h)) i = Some h' \<and> pd n g ?j \<le> pd n h' i + 1"
  proof cases
    case 1
    then have "g = h" using g by simp
    have "0 < pd n r ?j" using r(2) bk pos 1 \<open>g = h\<close> by simp
    then obtain h' where "t i = Some h'" "pd n r ?j \<le> pd n h' i + 1"
      using rhD [OF assms(1) i, of r] r(1) 1 by metis
    moreover have "i \<noteq> s" using 1 next_slot_neq [OF assms(2) i] by auto
    ultimately show ?thesis using r(2) bk 1 \<open>g = h\<close> by simp
  next
    case 2
    then show ?thesis using g assms(4) bk by simp
  next
    case 3
    then show ?thesis using g pos rhD [OF assms(1) i] by (metis fun_upd_other)
  qed
qed

lemma rh_clear:
  assumes "rh n t" and "1 < n" and "s < n"
    and "\<And>h. t (next_slot n s) = Some h \<Longrightarrow> pd n h (next_slot n s) = 0"
  shows "rh n (t(s := None))"
proof (rule rhI)
  fix i g
  let ?j = "next_slot n i"
  assume i: "i < n" and g: "(t(s := None)) ?j = Some g" and pos: "0 < pd n g ?j"
  then have "?j \<noteq> s" "t ?j = Some g" by (auto split: if_splits)
  moreover then have "i \<noteq> s" using assms(4) pos by auto
  ultimately show "\<exists>h'. (t(s := None)) i = Some h' \<and> pd n g ?j \<le> pd n h' i + 1"
    using pos rhD [OF assms(1) i] by (metis fun_upd_other)
qed

end
