(* ===== verification/NK_Hash.thy ===== *)
theory NK_Hash
  imports NK_Arena NK_Mcs NK_Probe "HOL-Library.Monad_Syntax"
begin

section \<open>The hash table (\<^verbatim>\<open>src/structs/hash_table.c\<close>): model\<close>

text \<open>
  Open addressing with Robin Hood probing and backward-shift deletion. A bucket holds a pointer to
  the key, not the key, so the operations read the byte memory \<open>m\<close>. The bucket array that the
  arena provides is the list \<open>h_buckets\<close>, of length \<open>h_capacity\<close>; \<open>h_lock\<close> is the tail
  pointer of the MCS lock and \<open>node\<close> the caller's queue node. A \<^verbatim>\<open>for (;;)\<close> loop is a partial
  function whose value \<^const>\<open>None\<close> means that it never returns; so does \<^const>\<open>None\<close> of an
  operation.
\<close>

record nkit_bucket =
  b_hash :: u64
  b_key :: ptr
  b_key_len :: u64
  b_value :: ptr

record nkit_hash =
  h_addr :: ptr
  h_buckets :: "nkit_bucket list"
  h_capacity :: u64
  h_mask :: u64
  h_count :: u64
  h_arena :: "nkit_arena option"
  h_lock :: "ptr option"
  h_node_id :: int

definition NKIT_HASH_MIN_CAPACITY :: u64 where
  "NKIT_HASH_MIN_CAPACITY = 16"

definition NKIT_HASH_MAX_LOAD_NUM :: u64 where
  "NKIT_HASH_MAX_LOAD_NUM = 3"

definition NKIT_HASH_MAX_LOAD_DEN :: u64 where
  "NKIT_HASH_MAX_LOAD_DEN = 4"

definition sizeof_bucket :: u64 where
  "sizeof_bucket = 32"

definition sizeof_hash :: u64 where
  "sizeof_hash = 56"

definition bucket_zero :: nkit_bucket where
  "bucket_zero = \<lparr>b_hash = 0, b_key = NULL, b_key_len = 0, b_value = NULL\<rparr>"

definition fnv1a_bytes :: "u8 list \<Rightarrow> u64" where
  "fnv1a_bytes bytes =
    (let h = fold (\<lambda>byte hash. (hash XOR ucast byte) * 1099511628211) bytes 14695981039346656037
     in h OR (if h = 0 then 1 else 0))"

definition nkit_fnv1a :: "mem \<Rightarrow> ptr \<Rightarrow> u64 \<Rightarrow> u64" where
  "nkit_fnv1a m data len = fnv1a_bytes (read_bytes m data len)"

definition next_power_of_2 :: "u64 \<Rightarrow> u64" where
  "next_power_of_2 v =
    (let v = v - 1;
         v = v OR drop_bit 1 v;
         v = v OR drop_bit 2 v;
         v = v OR drop_bit 4 v;
         v = v OR drop_bit 8 v;
         v = v OR drop_bit 16 v;
         v = v OR drop_bit 32 v
     in v + 1)"

definition probe_distance :: "u64 \<Rightarrow> u64 \<Rightarrow> u64 \<Rightarrow> u64" where
  "probe_distance hash slot msk = (slot - (hash AND msk)) AND msk"

definition keys_equal :: "mem \<Rightarrow> ptr \<Rightarrow> u64 \<Rightarrow> ptr \<Rightarrow> u64 \<Rightarrow> bool" where
  "keys_equal m a a_len b b_len \<longleftrightarrow> a_len = b_len \<and> memcmp m a b a_len = 0"

definition nkit_hash_create :: "int \<Rightarrow> u64 \<Rightarrow> os \<Rightarrow> nkit_hash option \<times> os" where
  "nkit_hash_create node_id cap w =
    (case os_ask_int Numa_available w of (avail, w0) \<Rightarrow>
     if avail < 0 then (None, w0) else
     let capacity = next_power_of_2 (if cap < NKIT_HASH_MIN_CAPACITY then NKIT_HASH_MIN_CAPACITY else cap) in
     case os_numa_alloc sizeof_hash node_id w0 of (ht, w1) \<Rightarrow>
     if ht = NULL then (None, w1) else
     let buckets_sz = sizeof_bucket * capacity in
     case nkit_arena_create node_id buckets_sz w1 of
       (None, w2) \<Rightarrow> (None, os_numa_free ht sizeof_hash w2)
     | (Some a, w2) \<Rightarrow>
       case nkit_arena_alloc (Some a) buckets_sz of (buckets, arena) \<Rightarrow>
       if buckets = NULL then (None, os_numa_free ht sizeof_hash (nkit_arena_destroy arena w2)) else
       (Some \<lparr>h_addr = ht, h_buckets = replicate (unat capacity) bucket_zero, h_capacity = capacity,
              h_mask = capacity - 1, h_count = 0, h_arena = arena, h_lock = None,
              h_node_id = node_id\<rparr>, w2))"

definition nkit_hash_destroy :: "nkit_hash option \<Rightarrow> os \<Rightarrow> os" where
  "nkit_hash_destroy h w =
    (case h of None \<Rightarrow> w
     | Some ht \<Rightarrow> os_numa_free (h_addr ht) sizeof_hash (nkit_arena_destroy (h_arena ht) w))"

text \<open>The loop of \<^verbatim>\<open>_nkit_hash_put_internal\<close>; \<open>cur\<close> holds the four \<^verbatim>\<open>cur_\<close> variables.\<close>

partial_function (option) hash_put_loop ::
  "mem \<Rightarrow> bool \<Rightarrow> nkit_hash \<Rightarrow> nkit_bucket \<Rightarrow> u64 \<Rightarrow> u64 \<Rightarrow> (int \<times> nkit_hash) option"
where
  "hash_put_loop m is_rehash ht cur slot dist =
    (let b = h_buckets ht ! unat slot in
     if b_hash b = 0 then
       Some (0, ht\<lparr>h_buckets := (h_buckets ht)[unat slot := cur],
                   h_count := (if is_rehash then h_count ht else h_count ht + 1)\<rparr>)
     else if \<not> is_rehash \<and> b_hash b = b_hash cur
             \<and> keys_equal m (b_key b) (b_key_len b) (b_key cur) (b_key_len cur) then
       Some (0, ht\<lparr>h_buckets := (h_buckets ht)[unat slot := b\<lparr>b_value := b_value cur\<rparr>]\<rparr>)
     else
       let existing_dist = probe_distance (b_hash b) slot (h_mask ht) in
       if dist > existing_dist
       then hash_put_loop m is_rehash (ht\<lparr>h_buckets := (h_buckets ht)[unat slot := cur]\<rparr>) b
              ((slot + 1) AND h_mask ht) (existing_dist + 1)
       else hash_put_loop m is_rehash ht cur ((slot + 1) AND h_mask ht) (dist + 1))"

definition nkit_hash_put_internal ::
  "mem \<Rightarrow> nkit_hash \<Rightarrow> u64 \<Rightarrow> ptr \<Rightarrow> u64 \<Rightarrow> ptr \<Rightarrow> bool \<Rightarrow> (int \<times> nkit_hash) option"
where
  "nkit_hash_put_internal m ht hash key key_len val is_rehash =
    hash_put_loop m is_rehash ht
      \<lparr>b_hash = hash, b_key = key, b_key_len = key_len, b_value = val\<rparr> (hash AND h_mask ht) 0"

text \<open>The loop of \<^verbatim>\<open>_nkit_hash_resize\<close> over the old buckets.\<close>

fun hash_rehash :: "mem \<Rightarrow> nkit_bucket list \<Rightarrow> nkit_hash \<Rightarrow> nkit_hash option" where
  "hash_rehash m [] ht = Some ht"
| "hash_rehash m (b # old_buckets) ht =
    (if b_hash b \<noteq> 0 then
       case nkit_hash_put_internal m ht (b_hash b) (b_key b) (b_key_len b) (b_value b) True of
         None \<Rightarrow> None
       | Some (_, ht') \<Rightarrow> hash_rehash m old_buckets ht'
     else hash_rehash m old_buckets ht)"

definition nkit_hash_resize :: "mem \<Rightarrow> nkit_hash \<Rightarrow> os \<Rightarrow> (nkit_hash \<times> os) option" where
  "nkit_hash_resize m ht w =
    (let new_capacity = h_capacity ht * 2;
         new_buckets_sz = sizeof_bucket * new_capacity in
     case nkit_arena_create (h_node_id ht) new_buckets_sz w of
       (None, w1) \<Rightarrow> Some (ht, w1)
     | (Some a, w1) \<Rightarrow>
       case nkit_arena_alloc (Some a) new_buckets_sz of (new_buckets, new_arena) \<Rightarrow>
       if new_buckets = NULL then Some (ht, nkit_arena_destroy new_arena w1) else
       case hash_rehash m (h_buckets ht)
              (ht\<lparr>h_buckets := replicate (unat new_capacity) bucket_zero,
                  h_capacity := new_capacity, h_mask := new_capacity - 1\<rparr>) of
         None \<Rightarrow> None
       | Some ht' \<Rightarrow> Some (ht'\<lparr>h_arena := new_arena\<rparr>, nkit_arena_destroy (h_arena ht) w1))"

definition nkit_hash_put ::
  "mem \<Rightarrow> ptr \<Rightarrow> nkit_hash option \<Rightarrow> ptr \<Rightarrow> u64 \<Rightarrow> ptr \<Rightarrow> os \<Rightarrow> (int \<times> nkit_hash option \<times> os) option"
where
  "nkit_hash_put m node h key key_len val w =
    (case h of None \<Rightarrow> Some (- 1, None, w)
     | Some ht \<Rightarrow>
       if key = NULL \<or> key_len = 0 then Some (- 1, Some ht, w) else do {
         lk \<leftarrow> mcs_solo_lock (h_lock ht) node;
         let ht = ht\<lparr>h_lock := lk\<rparr>;
         let hash = nkit_fnv1a m key key_len;
         (ht, w) \<leftarrow> (if h_count ht * NKIT_HASH_MAX_LOAD_DEN \<ge> h_capacity ht * NKIT_HASH_MAX_LOAD_NUM
                    then nkit_hash_resize m ht w else Some (ht, w));
         (ret, ht) \<leftarrow> nkit_hash_put_internal m ht hash key key_len val False;
         lk \<leftarrow> mcs_solo_unlock (h_lock ht) node;
         Some (ret, Some (ht\<lparr>h_lock := lk\<rparr>), w)
       })"

text \<open>
  The probe loop that \<^verbatim>\<open>nkit_hash_get\<close> and \<^verbatim>\<open>nkit_hash_remove\<close> both contain: the slot of the key,
  or nothing where the loop leaves with the key not found.
\<close>

partial_function (option) hash_probe ::
  "mem \<Rightarrow> nkit_hash \<Rightarrow> u64 \<Rightarrow> ptr \<Rightarrow> u64 \<Rightarrow> u64 \<Rightarrow> u64 \<Rightarrow> u64 option option"
where
  "hash_probe m ht hash key key_len slot dist =
    (let b = h_buckets ht ! unat slot in
     if b_hash b = 0 then Some None
     else if probe_distance (b_hash b) slot (h_mask ht) < dist then Some None
     else if b_hash b = hash \<and> keys_equal m (b_key b) (b_key_len b) key key_len then Some (Some slot)
     else hash_probe m ht hash key key_len ((slot + 1) AND h_mask ht) (dist + 1))"

definition nkit_hash_get ::
  "mem \<Rightarrow> ptr \<Rightarrow> nkit_hash option \<Rightarrow> ptr \<Rightarrow> u64 \<Rightarrow> (ptr \<times> nkit_hash option) option"
where
  "nkit_hash_get m node h key key_len =
    (case h of None \<Rightarrow> Some (NULL, None)
     | Some ht \<Rightarrow>
       if key = NULL \<or> key_len = 0 then Some (NULL, Some ht) else do {
         lk \<leftarrow> mcs_solo_lock (h_lock ht) node;
         let ht = ht\<lparr>h_lock := lk\<rparr>;
         let hash = nkit_fnv1a m key key_len;
         found \<leftarrow> hash_probe m ht hash key key_len (hash AND h_mask ht) 0;
         lk \<leftarrow> mcs_solo_unlock (h_lock ht) node;
         Some (case found of None \<Rightarrow> NULL | Some slot \<Rightarrow> b_value (h_buckets ht ! unat slot),
               Some (ht\<lparr>h_lock := lk\<rparr>))
       })"

text \<open>The backward-shift loop of \<^verbatim>\<open>nkit_hash_remove\<close>; its result is the hole to clear (the \<^verbatim>\<open>empty\<close> of the source).\<close>

partial_function (option) hash_shift :: "nkit_hash \<Rightarrow> u64 \<Rightarrow> (nkit_hash \<times> u64) option" where
  "hash_shift ht hole =
    (let next = (hole + 1) AND h_mask ht;
         nb = h_buckets ht ! unat next in
     if b_hash nb = 0 \<or> probe_distance (b_hash nb) next (h_mask ht) = 0 then Some (ht, hole)
     else hash_shift (ht\<lparr>h_buckets := (h_buckets ht)[unat hole := nb]\<rparr>) next)"

definition nkit_hash_remove ::
  "mem \<Rightarrow> ptr \<Rightarrow> nkit_hash option \<Rightarrow> ptr \<Rightarrow> u64 \<Rightarrow> (int \<times> nkit_hash option) option"
where
  "nkit_hash_remove m node h key key_len =
    (case h of None \<Rightarrow> Some (- 1, None)
     | Some ht \<Rightarrow>
       if key = NULL \<or> key_len = 0 then Some (- 1, Some ht) else do {
         lk \<leftarrow> mcs_solo_lock (h_lock ht) node;
         let ht = ht\<lparr>h_lock := lk\<rparr>;
         let hash = nkit_fnv1a m key key_len;
         found \<leftarrow> hash_probe m ht hash key key_len (hash AND h_mask ht) 0;
         (ret, ht) \<leftarrow> (case found of None \<Rightarrow> Some (- 1, ht)
            | Some slot \<Rightarrow> do {
                (ht, hole) \<leftarrow> hash_shift ht slot;
                Some (0, ht\<lparr>h_buckets := (h_buckets ht)[unat hole := bucket_zero],
                            h_count := h_count ht - 1\<rparr>)
              });
         lk \<leftarrow> mcs_solo_unlock (h_lock ht) node;
         Some (ret, Some (ht\<lparr>h_lock := lk\<rparr>))
       })"

definition nkit_hash_count :: "nkit_hash option \<Rightarrow> u64" where
  "nkit_hash_count h = (case h of None \<Rightarrow> 0 | Some ht \<Rightarrow> h_count ht)"

end
