(* ===== verification/NK_Hash_Loops.thy ===== *)
theory NK_Hash_Loops
  imports NK_Hash
begin

section \<open>The hash table: its loops\<close>

text \<open>
  What the loops of \<^verbatim>\<open>hash_table.c\<close> do on a bucket array that is a Robin Hood table: the
  insertion loop ends and adds the new bucket if a slot is free, overwrites the value if the key is
  there, and runs forever on a full table without the key; the probe loop finds exactly the keys of
  the table and always ends; the backward shift ends and removes one bucket.
\<close>

definition key_bytes :: "mem \<Rightarrow> nkit_bucket \<Rightarrow> u8 list" where
  "key_bytes m b = read_bytes m (b_key b) (b_key_len b)"

definition occupied :: "nkit_bucket \<Rightarrow> bool" where
  "occupied b \<longleftrightarrow> b_hash b \<noteq> 0"

definition home :: "nat \<Rightarrow> nkit_bucket \<Rightarrow> nat" where
  "home n b = unat (b_hash b) mod n"

definition homes :: "nkit_bucket list \<Rightarrow> nat \<rightharpoonup> nat" where
  "homes bs i = (if i < length bs \<and> occupied (bs ! i) then Some (home (length bs) (bs ! i)) else None)"

definition entries :: "nkit_bucket list \<Rightarrow> nkit_bucket multiset" where
  "entries bs = filter_mset occupied (mset bs)"

definition distinct_keys :: "mem \<Rightarrow> nkit_bucket multiset \<Rightarrow> bool" where
  "distinct_keys m M \<longleftrightarrow> (\<forall>b c. {#b, c#} \<subseteq># M \<longrightarrow> key_bytes m b \<noteq> key_bytes m c)"

definition anchored :: "nkit_bucket list \<Rightarrow> bool" where
  "anchored bs \<longleftrightarrow> (\<exists>i < length bs. \<forall>h. homes bs i = Some h \<longrightarrow> pd (length bs) h i = 0)"

definition table_shape :: "nat \<Rightarrow> nkit_hash \<Rightarrow> bool" where
  "table_shape k ht \<longleftrightarrow> 0 < k \<and> k < 64 \<and> length (h_buckets ht) = 2 ^ k \<and> h_mask ht = 2 ^ k - 1"

lemma keys_equal_iff: "keys_equal m a a_len b b_len \<longleftrightarrow> read_bytes m a a_len = read_bytes m b b_len"
proof -
  have "a_len = b_len" if "read_bytes m a a_len = read_bytes m b b_len"
    using arg_cong [OF that, of length] by (simp add: word_unat_eq_iff)
  then show ?thesis by (auto simp: keys_equal_def memcmp_eq_0)
qed

lemma occupied_zero [simp]: "\<not> occupied bucket_zero"
  by (simp add: occupied_def bucket_zero_def)

lemma home_less: "home (2 ^ k) b < 2 ^ k"
  by (simp add: home_def)

subsection \<open>Slots as words\<close>

lemma unat_probe_distance:
  assumes "k \<le> 64" and "unat slot < 2 ^ k"
  shows "unat (probe_distance hash slot (2 ^ k - 1)) = pd (2 ^ k) (unat hash mod 2 ^ k) (unat slot)"
  using assms unat_diff_and [of k "hash AND (2 ^ k - 1)" slot]
  by (simp add: probe_distance_def pd_def unat_and_exp_minus_1)

lemma unat_next_slot: "k \<le> 64 \<Longrightarrow> unat ((slot + 1) AND (2 ^ k - 1) :: u64) = next_slot (2 ^ k) (unat slot)"
  by (simp add: unat_succ_and next_slot_def)

lemma pd_towards:
  "s < n \<Longrightarrow> z < n \<Longrightarrow> s \<noteq> z \<Longrightarrow> pd n s z = Suc (pd n (next_slot n s) z)"
  by (auto simp: pd_cases next_slot_cases)

subsection \<open>Updates of the bucket array\<close>

lemma homes_update:
  "i < length bs \<Longrightarrow> homes (bs[i := b]) =
     (homes bs)(i := if occupied b then Some (home (length bs) b) else None)"
  by (auto simp: homes_def fun_eq_iff nth_list_update)

lemma homes_Some: "i < length bs \<Longrightarrow> homes bs i = Some h \<longleftrightarrow> occupied (bs ! i) \<and> h = home (length bs) (bs ! i)"
  by (auto simp: homes_def)

lemma entries_place:
  assumes "i < length bs" and "\<not> occupied (bs ! i)" and "occupied b"
  shows "entries (bs[i := b]) = add_mset b (entries bs)"
  using assms by (simp add: entries_def mset_update)

lemma entries_swap:
  assumes "i < length bs" and "occupied (bs ! i)" and "occupied b"
  shows "add_mset (bs ! i) (entries (bs[i := b])) = add_mset b (entries bs)"
proof -
  have "bs ! i \<in># filter_mset occupied (mset bs)" using assms by simp
  with assms show ?thesis by (simp add: entries_def mset_update)
qed

lemma in_entries: "b \<in># entries bs \<longleftrightarrow> b \<in> set bs \<and> occupied b"
  by (simp add: entries_def)

lemma distinct_keys_mono: "distinct_keys m N \<Longrightarrow> M \<subseteq># N \<Longrightarrow> distinct_keys m M"
  using subset_mset.order_trans unfolding distinct_keys_def by blast

lemma distinct_keys_fresh:
  assumes "distinct_keys m (add_mset c M)" and "b \<in># M"
  shows "key_bytes m b \<noteq> key_bytes m c"
  using assms mset_subset_eq_add_mset_cancel [of c "{#b#}" M] by (fastforce simp: distinct_keys_def)

subsection \<open>Inserting a new key\<close>

text \<open>
  Where the loop stands: \<open>dist\<close> steps after the home of \<open>cur\<close>, with the slot before held by a
  resident that is not closer to its home.
\<close>

definition cursor :: "nat \<Rightarrow> nkit_bucket list \<Rightarrow> nkit_bucket \<Rightarrow> u64 \<Rightarrow> u64 \<Rightarrow> bool" where
  "cursor k bs cur slot dist \<longleftrightarrow> occupied cur \<and> unat slot = (home (2 ^ k) cur + unat dist) mod 2 ^ k
     \<and> (unat dist = 0 \<or> rich (2 ^ k) (homes bs) (home (2 ^ k) cur) (unat dist - 1))"

lemma cursor_start:
  assumes "occupied cur" and "k \<le> 64"
  shows "cursor k bs cur (b_hash cur AND (2 ^ k - 1)) 0"
  using assms by (simp add: cursor_def home_def unat_and_exp_minus_1)

lemma unat_plus_1: "unat x < 2 ^ k \<Longrightarrow> k < 64 \<Longrightarrow> unat (x + 1 :: u64) = unat x + 1"
  using power_strict_increasing [of k 64 "2 :: nat"] by (simp add: unat_word_ariths)

lemma cursor_dist:
  assumes "rh (2 ^ k) (homes bs)" and "cursor k bs cur slot dist"
    and "z < 2 ^ k" and "homes bs z = None"
  shows "unat dist < 2 ^ k" and "pd (2 ^ k) (home (2 ^ k) cur) (unat slot) = unat dist"
proof -
  show d: "unat dist < 2 ^ k"
  proof (rule ccontr)
    assume "\<not> unat dist < 2 ^ k"
    then have "rich (2 ^ k) (homes bs) (home (2 ^ k) cur) (unat dist - 1)" "2 ^ k \<le> Suc (unat dist - 1)"
      using assms(2) by (auto simp: cursor_def)
    then show False using rich_full [OF assms(1) home_less _ _ assms(3)] assms(4) by blast
  qed
  then show "pd (2 ^ k) (home (2 ^ k) cur) (unat slot) = unat dist"
    using assms(2) pd_probe [OF home_less d] by (simp add: cursor_def)
qed


lemma cursor_place:
  assumes "0 < k" and "length bs = 2 ^ k" and "rh (2 ^ k) (homes bs)"
    and "cursor k bs cur slot dist" and "z < 2 ^ k" and "homes bs z = None"
    and "occupied (bs ! unat slot) \<Longrightarrow> pd (2 ^ k) (home (2 ^ k) (bs ! unat slot)) (unat slot) \<le> unat dist"
  shows "rh (2 ^ k) (homes (bs[unat slot := cur]))"
proof -
  have slot: "unat slot = (home (2 ^ k) cur + unat dist) mod 2 ^ k" "occupied cur"
    using assms(4) by (simp_all add: cursor_def)
  then have "unat slot < length bs" using assms(2) by simp
  moreover have "rh (2 ^ k) ((homes bs)((home (2 ^ k) cur + unat dist) mod 2 ^ k \<mapsto> home (2 ^ k) cur))"
  proof (rule rh_place [OF assms(3) _ home_less cursor_dist(1) [OF assms(3-6)]])
    show "(1 :: nat) < 2 ^ k" using assms(1) by (intro one_less_power) simp_all
    show "unat dist = 0 \<or> rich (2 ^ k) (homes bs) (home (2 ^ k) cur) (unat dist - 1)"
      using assms(4) by (simp add: cursor_def)
  qed (use assms(2,7) slot calculation in \<open>simp add: homes_Some\<close>)
  ultimately show ?thesis using homes_update [of "unat slot" bs cur] slot assms(2) by simp
qed

lemma anchored_place:
  assumes "rh (2 ^ k) (homes bs)" and "0 < k" and "length bs = 2 ^ k" and "i < 2 ^ k"
    and "\<not> occupied (bs ! i)"
  shows "anchored (bs[i := b])"
proof -
  let ?j = "next_slot (2 ^ k) i"
  have "(1 :: nat) < 2 ^ k" using assms(2) by (intro one_less_power) simp_all
  then have j: "?j \<noteq> i" "?j < 2 ^ k" using next_slot_neq assms(4) by (auto simp: next_slot_def)
  have "homes bs i = None" using assms(5) by (simp add: homes_def)
  then have "pd (2 ^ k) h ?j = 0" if "homes bs ?j = Some h" for h
    using rhD [OF assms(1,4) that] by (metis not_gr_zero option.distinct(1))
  then show ?thesis
    unfolding anchored_def using j assms(3,4) by (intro exI [of _ ?j]) (simp add: homes_update)
qed

lemma cursor_next:
  assumes "k < 64" and "length bs = 2 ^ k" and "rh (2 ^ k) (homes bs)"
    and "cursor k bs cur slot dist" and "z < 2 ^ k" and "homes bs z = None"
    and "occupied (bs ! unat slot)"
    and "unat dist \<le> pd (2 ^ k) (home (2 ^ k) (bs ! unat slot)) (unat slot)"
  shows "cursor k bs cur ((slot + 1) AND (2 ^ k - 1)) (dist + 1)"
proof -
  have slot: "unat slot = (home (2 ^ k) cur + unat dist) mod 2 ^ k"
    using assms(4) by (simp add: cursor_def)
  then have "rich (2 ^ k) (homes bs) (home (2 ^ k) cur) (unat dist)"
    using assms(2,7,8) by (simp add: rich_def homes_Some)
  moreover have "unat ((slot + 1) AND (2 ^ k - 1)) = (home (2 ^ k) cur + Suc (unat dist)) mod 2 ^ k"
    using assms(1) slot by (simp only: unat_next_slot less_imp_le next_probe)
  ultimately show ?thesis
    using assms(4) unat_plus_1 [OF cursor_dist(1) [OF assms(3-6)] assms(1)] by (simp add: cursor_def)
qed

lemma cursor_swap:
  assumes "k < 64" and "length bs = 2 ^ k" and "rh (2 ^ k) (homes bs)"
    and "cursor k bs cur slot dist" and "z < 2 ^ k" and "homes bs z = None"
    and "occupied (bs ! unat slot)"
    and "unat d = pd (2 ^ k) (home (2 ^ k) (bs ! unat slot)) (unat slot)" and "unat d < unat dist"
  shows "cursor k (bs[unat slot := cur]) (bs ! unat slot) ((slot + 1) AND (2 ^ k - 1)) (d + 1)"
proof -
  let ?h = "home (2 ^ k) (bs ! unat slot)"
  have s: "unat slot < 2 ^ k" using assms(4) by (simp add: cursor_def)
  have at: "(?h + unat d) mod 2 ^ k = unat slot" using probe_pd [OF home_less s] assms(8) by simp
  have "occupied cur" using assms(4) by (simp add: cursor_def)
  then have "rich (2 ^ k) (homes (bs[unat slot := cur])) ?h (unat d)"
    using assms(2,9) s cursor_dist(2) [OF assms(3-6)] by (simp add: rich_def at homes_update)
  moreover have "unat ((slot + 1) AND (2 ^ k - 1)) = (?h + Suc (unat d)) mod 2 ^ k"
    using assms(1) at by (simp only: unat_next_slot less_imp_le flip: next_probe)
  moreover have "unat d < 2 ^ k" using assms(8) pd_less [OF home_less] by simp
  ultimately show ?thesis
    using assms(1,7) unat_plus_1 [of d k] by (simp add: cursor_def)
qed

lemma hash_put_loop_absent:
  assumes "table_shape k ht" and "rh (2 ^ k) (homes (h_buckets ht))"
    and "cursor k (h_buckets ht) cur slot dist"
    and "z < 2 ^ k" and "homes (h_buckets ht) z = None"
    and "distinct_keys m (add_mset cur (entries (h_buckets ht)))"
  shows "\<exists>bs. hash_put_loop m is_rehash ht cur slot dist =
       Some (0, ht\<lparr>h_buckets := bs, h_count := (if is_rehash then h_count ht else h_count ht + 1)\<rparr>) \<and>
     length bs = 2 ^ k \<and> rh (2 ^ k) (homes bs) \<and> anchored bs \<and>
     entries bs = add_mset cur (entries (h_buckets ht))"
  using assms
proof (induction "pd (2 ^ k) (unat slot) z" arbitrary: ht cur slot dist rule: less_induct)
  case (less slot ht cur dist)
  let ?bs = "h_buckets ht" and ?b = "h_buckets ht ! unat slot"
  have k: "0 < k" "k < 64" and len: "length ?bs = 2 ^ k" and msk: "h_mask ht = 2 ^ k - 1"
    using less.prems(1) by (simp_all add: table_shape_def)
  have s: "unat slot < 2 ^ k" and occ: "occupied cur" using less.prems(3) by (simp_all add: cursor_def)
  define d where "d = probe_distance (b_hash ?b) slot (2 ^ k - 1)"
  have d: "unat d = pd (2 ^ k) (home (2 ^ k) ?b) (unat slot)"
    using unat_probe_distance [of k slot "b_hash ?b"] k s by (simp add: d_def home_def)
  note C = k(2) len less.prems(2-5)
  show ?case
  proof (cases "occupied ?b")
    case False
    then have "rh (2 ^ k) (homes (?bs[unat slot := cur]))"
      using cursor_place [OF k(1) len less.prems(2-5)] by simp
    moreover have "entries (?bs[unat slot := cur]) = add_mset cur (entries ?bs)"
      using entries_place [of "unat slot" ?bs cur] False occ s len by simp
    moreover have "anchored (?bs[unat slot := cur])"
      using anchored_place [OF less.prems(2) k(1) len s] False by simp
    ultimately show ?thesis
      using False len by (subst hash_put_loop.simps) (auto simp: Let_def occupied_def)
  next
    case True
    then have ns: "unat slot \<noteq> z" using less.prems(5) len s by (auto simp: homes_def)
    have closer: "pd (2 ^ k) (unat ((slot + 1) AND (2 ^ k - 1))) z < pd (2 ^ k) (unat slot) z"
      using pd_towards [OF s less.prems(4) ns] k by (simp add: unat_next_slot)
    have nomatch: "\<not> keys_equal m (b_key ?b) (b_key_len ?b) (b_key cur) (b_key_len cur)"
      using distinct_keys_fresh [OF less.prems(6), of ?b] True s len
      by (simp add: keys_equal_iff key_bytes_def in_entries)
    show ?thesis
    proof (cases "d < dist")
      case sw: True
      let ?ht = "ht\<lparr>h_buckets := ?bs[unat slot := cur]\<rparr>"
      have le: "unat d < unat dist" using sw by (simp add: word_less_nat_alt)
      have "rh (2 ^ k) (homes (h_buckets ?ht))"
        using cursor_place [OF k(1) len less.prems(2-5)] d le by simp
      moreover have "add_mset ?b (entries (h_buckets ?ht)) = add_mset cur (entries ?bs)"
        using entries_swap [of "unat slot" ?bs cur] True occ s len by simp
      moreover have "homes (h_buckets ?ht) z = None"
        using homes_update [of "unat slot" ?bs cur] less.prems(5) ns s len by simp
      ultimately have "\<exists>bs. hash_put_loop m is_rehash ?ht ?b ((slot + 1) AND (2 ^ k - 1)) (d + 1) =
           Some (0, ?ht\<lparr>h_buckets := bs, h_count := (if is_rehash then h_count ht else h_count ht + 1)\<rparr>) \<and>
         length bs = 2 ^ k \<and> rh (2 ^ k) (homes bs) \<and> anchored bs \<and> entries bs = add_mset cur (entries ?bs)"
        using less.hyps [OF closer, of ?ht ?b "d + 1"] less.prems(1,4,6)
          cursor_swap [OF C True d le] by (cases is_rehash) (simp_all add: table_shape_def)
      then show ?thesis
        using sw True nomatch msk by (subst hash_put_loop.simps) (simp add: Let_def occupied_def flip: d_def)
    next
      case False
      have le: "unat dist \<le> unat d" using False by (simp add: word_less_nat_alt)
      show ?thesis
        using less.hyps [OF closer less.prems(1,2) cursor_next [OF C True] less.prems(4-6)] le d
          False True nomatch msk
        by (subst hash_put_loop.simps) (simp add: Let_def occupied_def flip: d_def)
    qed
  qed
qed

subsection \<open>Finding a key\<close>

lemma distinct_keys_nth:
  assumes "distinct_keys m (entries bs)" and "i < length bs" and "j < length bs" and "i \<noteq> j"
    and "occupied (bs ! i)" and "occupied (bs ! j)"
  shows "key_bytes m (bs ! i) \<noteq> key_bytes m (bs ! j)"
proof -
  let ?rest = "take i bs @ drop (Suc i) bs"
  have "mset bs = add_mset (bs ! i) (mset ?rest)"
    using id_take_nth_drop [OF assms(2)] by (metis mset.simps(2) mset_append union_mset_add_mset_right)
  then have "distinct_keys m (add_mset (bs ! i) (filter_mset occupied (mset ?rest)))"
    using assms(1,5) by (simp add: entries_def)
  moreover have "bs ! j \<in> set ?rest"
  proof (cases "j < i")
    case True
    then show ?thesis using assms(2) by (auto simp: in_set_conv_nth intro!: exI [of _ j])
  next
    case False
    with assms(3,4) show ?thesis by (auto simp: in_set_conv_nth intro!: exI [of _ "j - Suc i"])
  qed
  then have "bs ! j \<in># filter_mset occupied (mset ?rest)" using assms(6) by simp
  ultimately show ?thesis by (metis distinct_keys_fresh)
qed

text \<open>One step of every loop that looks for the key of the bucket in slot \<open>i\<close>.\<close>

lemma on_the_way:
  assumes "rh (2 ^ k) (homes bs)" and "length bs = 2 ^ k" and "i < 2 ^ k" and "occupied (bs ! i)"
    and "e \<le> pd (2 ^ k) (home (2 ^ k) (bs ! i)) i"
  defines "p \<equiv> (home (2 ^ k) (bs ! i) + e) mod 2 ^ k"
  shows "p < 2 ^ k" and "occupied (bs ! p)" and "e \<le> pd (2 ^ k) (home (2 ^ k) (bs ! p)) p"
    and "p = i \<longleftrightarrow> e = pd (2 ^ k) (home (2 ^ k) (bs ! i)) i"
proof -
  let ?h = "home (2 ^ k) (bs ! i)"
  show p: "p < 2 ^ k" by (simp add: p_def)
  have "rich (2 ^ k) (homes bs) ?h (pd (2 ^ k) ?h i)"
    using probe_pd [OF home_less assms(3)] assms(2-4) by (simp add: rich_def homes_Some)
  from rich_le [OF assms(1) _ this assms(5)] have "rich (2 ^ k) (homes bs) ?h e" by simp
  then show "occupied (bs ! p)" "e \<le> pd (2 ^ k) (home (2 ^ k) (bs ! p)) p"
    using assms(2) p by (auto simp: rich_def homes_Some p_def)
  have "e < 2 ^ k" using assms(5) pd_less [OF home_less] le_less_trans by blast
  then show "p = i \<longleftrightarrow> e = pd (2 ^ k) ?h i"
    using pd_probe [OF home_less, of e k "bs ! i"] probe_pd [OF home_less assms(3)] by (auto simp: p_def)
qed

lemma hash_put_loop_present:
  assumes "table_shape k ht" and "rh (2 ^ k) (homes (h_buckets ht))"
    and "i < 2 ^ k" and "occupied (h_buckets ht ! i)" and "distinct_keys m (entries (h_buckets ht))"
    and "b_hash cur = b_hash (h_buckets ht ! i)"
    and "key_bytes m cur = key_bytes m (h_buckets ht ! i)"
    and "unat dist \<le> pd (2 ^ k) (home (2 ^ k) (h_buckets ht ! i)) i"
    and "unat slot = (home (2 ^ k) (h_buckets ht ! i) + unat dist) mod 2 ^ k"
  shows "hash_put_loop m False ht cur slot dist =
    Some (0, ht\<lparr>h_buckets := (h_buckets ht)[i := (h_buckets ht ! i)\<lparr>b_value := b_value cur\<rparr>]\<rparr>)"
  using assms(8,9)
proof (induction "pd (2 ^ k) (home (2 ^ k) (h_buckets ht ! i)) i - unat dist" arbitrary: slot dist rule: less_induct)
  case (less dist slot)
  let ?bs = "h_buckets ht" and ?b = "h_buckets ht ! unat slot"
  have k: "k < 64" and len: "length ?bs = 2 ^ k" and msk: "h_mask ht = 2 ^ k - 1"
    using assms(1) by (simp_all add: table_shape_def)
  note way = on_the_way [OF assms(2) len assms(3,4) less.prems(1), folded less.prems(2)]
  show ?case
  proof (cases "unat slot = i")
    case True
    then show ?thesis using assms(4,6,7)
      by (subst hash_put_loop.simps) (simp add: Let_def occupied_def keys_equal_iff key_bytes_def)
  next
    case False
    then have lt: "unat dist < pd (2 ^ k) (home (2 ^ k) (?bs ! i)) i" using way(4) less.prems(1) by simp
    then have "unat dist < 2 ^ k" using pd_less [OF home_less] less_trans by blast
    note d1 = unat_plus_1 [OF this k]
    have "key_bytes m ?b \<noteq> key_bytes m cur"
      using distinct_keys_nth [OF assms(5), of "unat slot" i] way(1,2) False assms(3,4,7) len by simp
    moreover have "\<not> probe_distance (b_hash ?b) slot (2 ^ k - 1) < dist"
      using way(1,3) k unat_probe_distance [of k slot "b_hash ?b"]
      by (simp add: word_less_nat_alt home_def)
    moreover have "unat ((slot + 1) AND (2 ^ k - 1)) = (home (2 ^ k) (?bs ! i) + unat (dist + 1)) mod 2 ^ k"
      using k less.prems(2) by (simp only: d1 unat_next_slot less_imp_le next_probe Suc_eq_plus1)
    ultimately show ?thesis
      using less.hyps [of "dist + 1"] lt d1 way(2) msk
      by (subst hash_put_loop.simps) (simp add: Let_def occupied_def keys_equal_iff key_bytes_def)
  qed
qed

lemma hash_probe_present:
  assumes "table_shape k ht" and "rh (2 ^ k) (homes (h_buckets ht))"
    and "i < 2 ^ k" and "occupied (h_buckets ht ! i)" and "distinct_keys m (entries (h_buckets ht))"
    and "hash = b_hash (h_buckets ht ! i)"
    and "read_bytes m key key_len = key_bytes m (h_buckets ht ! i)"
    and "unat dist \<le> pd (2 ^ k) (home (2 ^ k) (h_buckets ht ! i)) i"
    and "unat slot = (home (2 ^ k) (h_buckets ht ! i) + unat dist) mod 2 ^ k"
  shows "hash_probe m ht hash key key_len slot dist = Some (Some (of_nat i))"
  using assms(8,9)
proof (induction "pd (2 ^ k) (home (2 ^ k) (h_buckets ht ! i)) i - unat dist" arbitrary: slot dist rule: less_induct)
  case (less dist slot)
  let ?bs = "h_buckets ht" and ?b = "h_buckets ht ! unat slot"
  have k: "k < 64" and len: "length ?bs = 2 ^ k" and msk: "h_mask ht = 2 ^ k - 1"
    using assms(1) by (simp_all add: table_shape_def)
  note way = on_the_way [OF assms(2) len assms(3,4) less.prems(1), folded less.prems(2)]
  have nl: "\<not> probe_distance (b_hash ?b) slot (2 ^ k - 1) < dist"
    using way(1,3) k unat_probe_distance [of k slot "b_hash ?b"]
    by (simp add: word_less_nat_alt home_def)
  show ?case
  proof (cases "unat slot = i")
    case True
    moreover from True have "slot = of_nat i" by auto
    ultimately show ?thesis using assms(4,6,7) nl msk
      by (subst hash_probe.simps) (simp add: Let_def occupied_def keys_equal_iff key_bytes_def)
  next
    case False
    then have lt: "unat dist < pd (2 ^ k) (home (2 ^ k) (?bs ! i)) i" using way(4) less.prems(1) by simp
    then have "unat dist < 2 ^ k" using pd_less [OF home_less] less_trans by blast
    note d1 = unat_plus_1 [OF this k]
    have "key_bytes m ?b \<noteq> read_bytes m key key_len"
      using distinct_keys_nth [OF assms(5), of "unat slot" i] way(1,2) False assms(3,4,7) len by simp
    moreover have "unat ((slot + 1) AND (2 ^ k - 1)) = (home (2 ^ k) (?bs ! i) + unat (dist + 1)) mod 2 ^ k"
      using k less.prems(2) by (simp only: d1 unat_next_slot less_imp_le next_probe Suc_eq_plus1)
    ultimately show ?thesis
      using less.hyps [of "dist + 1"] lt d1 way(2) msk nl
      by (subst hash_probe.simps) (simp add: Let_def occupied_def keys_equal_iff key_bytes_def)
  qed
qed

text \<open>The search for a key that is not in the table ends, whether or not the table is full.\<close>

lemma hash_probe_absent:
  assumes "table_shape k ht" and "\<forall>b \<in># entries (h_buckets ht). key_bytes m b \<noteq> read_bytes m key key_len"
    and "unat slot < 2 ^ k" and "unat dist \<le> 2 ^ k"
  shows "hash_probe m ht hash key key_len slot dist = Some None"
  using assms(3,4)
proof (induction "2 ^ k - unat dist" arbitrary: slot dist rule: less_induct)
  case (less dist slot)
  let ?b = "h_buckets ht ! unat slot"
  have k: "k < 64" and len: "length (h_buckets ht) = 2 ^ k" and msk: "h_mask ht = 2 ^ k - 1"
    using assms(1) by (simp_all add: table_shape_def)
  have pd: "unat (probe_distance (b_hash ?b) slot (2 ^ k - 1)) < 2 ^ k"
    using unat_probe_distance [of k slot "b_hash ?b"] less.prems(1) k pd_less [of "unat (b_hash ?b) mod 2 ^ k"]
    by simp
  show ?case
  proof (cases "occupied ?b \<and> \<not> probe_distance (b_hash ?b) slot (2 ^ k - 1) < dist")
    case False
    then show ?thesis using msk by (subst hash_probe.simps) (auto simp: Let_def occupied_def)
  next
    case True
    then have lt: "unat dist < 2 ^ k" using pd by (simp add: word_less_nat_alt)
    note d1 = unat_plus_1 [OF lt k]
    have "?b \<in># entries (h_buckets ht)" using True less.prems(1) len by (simp add: in_entries)
    then have "key_bytes m ?b \<noteq> read_bytes m key key_len" using assms(2) by blast
    moreover have "unat ((slot + 1) AND (2 ^ k - 1)) < 2 ^ k" using k by (simp add: unat_and_exp_minus_1)
    ultimately show ?thesis
      using less.hyps [of "dist + 1"] lt d1 msk True
      by (subst hash_probe.simps) (simp add: Let_def occupied_def keys_equal_iff key_bytes_def)
  qed
qed

subsection \<open>Backward-shift deletion\<close>

lemma entries_clear:
  assumes "i < length bs" and "occupied (bs ! i)"
  shows "entries bs = add_mset (bs ! i) (entries (bs[i := bucket_zero]))"
proof -
  have "bs ! i \<in># filter_mset occupied (mset bs)" using assms by simp
  with assms show ?thesis by (simp add: entries_def mset_update)
qed

lemma entries_move:
  assumes "i < length bs" and "j < length bs" and "i \<noteq> j" and "occupied (bs ! i)" and "occupied (bs ! j)"
  shows "entries (bs[i := bs ! j, j := bucket_zero]) = entries (bs[i := bucket_zero])"
proof -
  have "add_mset (bs ! j) (entries (bs[i := bs ! j, j := bucket_zero])) = entries (bs[i := bs ! j])"
    using entries_clear [of j "bs[i := bs ! j]"] assms by simp
  moreover have "add_mset (bs ! i) (entries (bs[i := bs ! j])) = add_mset (bs ! j) (entries bs)"
    by (rule entries_swap [OF assms(1,4,5)])
  ultimately show ?thesis using entries_clear [OF assms(1,4)] by (metis add_mset_add_mset_same_iff add_mset_commute)
qed

text \<open>
  While the loop runs, the slot of the hole still holds a stale copy, and with that copy the table
  is a Robin Hood table throughout.
\<close>

lemma hash_shift_ok:
  assumes "table_shape k ht" and "rh (2 ^ k) (homes (h_buckets ht))"
    and "unat hole < 2 ^ k" and "occupied (h_buckets ht ! unat hole)"
    and "a < 2 ^ k" and "\<And>h. homes (h_buckets ht) a = Some h \<Longrightarrow> pd (2 ^ k) h a = 0"
  shows "\<exists>bs hole'. hash_shift ht hole = Some (ht\<lparr>h_buckets := bs\<rparr>, hole') \<and> unat hole' < 2 ^ k \<and>
     length bs = 2 ^ k \<and> rh (2 ^ k) (homes (bs[unat hole' := bucket_zero])) \<and>
     entries (bs[unat hole' := bucket_zero]) = entries ((h_buckets ht)[unat hole := bucket_zero])"
  using assms
proof (induction "pd (2 ^ k) (next_slot (2 ^ k) (unat hole)) a" arbitrary: ht hole rule: less_induct)
  case (less hole ht)
  let ?n = "2 ^ k :: nat" and ?bs = "h_buckets ht" and ?s = "unat hole"
  define nxt where "nxt = (hole + 1) AND (2 ^ k - 1)"
  let ?nb = "?bs ! unat nxt" and ?j = "unat nxt"
  have k: "0 < k" "k < 64" and len: "length ?bs = ?n" and msk: "h_mask ht = 2 ^ k - 1"
    using less.prems(1) by (simp_all add: table_shape_def)
  have n1: "1 < ?n" using k by (intro one_less_power) simp_all
  have nx: "?j = next_slot ?n ?s" using k by (simp add: nxt_def unat_next_slot)
  have j: "?j < ?n" "?j \<noteq> ?s" using nx next_slot_neq [OF n1 less.prems(3)] by (auto simp: next_slot_def)
  have d: "unat (probe_distance (b_hash ?nb) nxt (2 ^ k - 1)) = pd ?n (home ?n ?nb) ?j"
    using unat_probe_distance [of k nxt "b_hash ?nb"] k j by (simp add: home_def)
  show ?case
  proof (cases "occupied ?nb \<and> 0 < pd ?n (home ?n ?nb) ?j")
    case False
    then have "rh ?n ((homes ?bs)(?s := None))"
      using rh_clear [OF less.prems(2) n1 less.prems(3)] j len by (auto simp: homes_Some simp flip: nx)
    moreover have "hash_shift ht hole = Some (ht, hole)"
      using False d msk
      by (subst hash_shift.simps) (auto simp: Let_def occupied_def unat_eq_0 simp flip: nxt_def)
    ultimately show ?thesis using less.prems(3) len
      by (intro exI [of _ ?bs] exI [of _ hole]) (simp add: homes_update)
  next
    case True
    let ?ht = "ht\<lparr>h_buckets := ?bs[?s := ?nb]\<rparr>"
    have "homes ?bs ?j = Some (home ?n ?nb)" using True j len by (simp add: homes_Some)
    then have "?j \<noteq> a" using less.prems(6) True by auto
    then have closer: "pd ?n (next_slot ?n ?j) a < pd ?n (next_slot ?n ?s) a"
      using pd_towards [OF j(1) less.prems(5)] nx by simp
    have rh: "rh ?n (homes (h_buckets ?ht))"
      using rh_shift [OF less.prems(2) n1 less.prems(3)] True j len less.prems(3) home_less
      by (simp add: homes_update homes_Some flip: nx)
    have anchor: "pd ?n h a = 0" if "homes (h_buckets ?ht) a = Some h" for h
    proof (cases "a = ?s")
      case False
      then show ?thesis using that less.prems(3,6) len by (simp add: homes_update)
    next
      case a: True
      then have h: "h = home ?n ?nb" using that True less.prems(3) len by (simp add: homes_update)
      have "pd ?n (home ?n (?bs ! ?s)) ?s = 0"
        using less.prems(3,4,6) a len by (simp add: homes_Some)
      moreover obtain h' where "homes ?bs ?s = Some h'" "pd ?n (home ?n ?nb) ?j \<le> pd ?n h' ?s + 1"
        using rhD [OF less.prems(2,3), of "home ?n ?nb"] True j len nx by (metis homes_Some)
      ultimately have "pd ?n (home ?n ?nb) ?j \<le> 1"
        using less.prems(3) len by (simp add: homes_Some)
      then show ?thesis using pd_next_pos [OF home_less less.prems(3), of ?nb] True nx a h by simp
    qed
    have "entries ((h_buckets ?ht)[?j := bucket_zero]) = entries (?bs[?s := bucket_zero])"
      using entries_move [of ?s ?bs ?j] True j less.prems(3,4) len by auto
    moreover have "table_shape k ?ht" using less.prems(1) by (simp add: table_shape_def)
    moreover have "occupied (h_buckets ?ht ! ?j)" using True j by simp
    moreover have "probe_distance (b_hash ?nb) nxt (2 ^ k - 1) \<noteq> 0" using True d by auto
    ultimately show ?thesis
      using less.hyps [of nxt ?ht, OF closer _ rh j(1) _ less.prems(5) anchor] True msk
      by (subst hash_shift.simps) (simp add: Let_def occupied_def unat_eq_0 flip: nxt_def)
  qed
qed

subsection \<open>A full table\<close>

lemma hash_put_loop_stuck:
  assumes "hash_put_loop m is_rehash ht cur slot dist = Some y"
    and "\<not> is_rehash" and "table_shape k ht" and "unat slot < 2 ^ k"
    and "\<forall>b \<in> set (h_buckets ht). occupied b" and "occupied cur"
    and "distinct_keys m (add_mset cur (entries (h_buckets ht)))"
  shows False
  using assms(2-)
proof (induction rule: hash_put_loop.raw_induct [OF _ assms(1), consumes 0, case_names 1])
  case (1 loop m is_rehash ht cur slot dist y)
  let ?b = "h_buckets ht ! unat slot" and ?next = "(slot + 1) AND h_mask ht"
  let ?ht = "ht\<lparr>h_buckets := (h_buckets ht)[unat slot := cur]\<rparr>"
  note rec = 1(1) and body = 1(2) and prems = 1(3-8)
  have len: "length (h_buckets ht) = 2 ^ k" and nx: "unat ?next < 2 ^ k"
    using prems(2) by (simp_all add: table_shape_def unat_and_exp_minus_1)
  have b: "occupied ?b" "?b \<in># entries (h_buckets ht)" using prems(3,4) len by (simp_all add: in_entries)
  then have "\<not> keys_equal m (b_key ?b) (b_key_len ?b) (b_key cur) (b_key_len cur)"
    using distinct_keys_fresh [OF prems(6)] by (simp add: keys_equal_iff key_bytes_def)
  then consider e where "loop m is_rehash ?ht ?b ?next e = Some y"
    | e where "loop m is_rehash ht cur ?next e = Some y"
    using body b(1) by (auto simp: Let_def occupied_def split: if_splits)
  then show False
  proof cases
    case 1
    have "add_mset ?b (entries (h_buckets ?ht)) = add_mset cur (entries (h_buckets ht))"
      using entries_swap [of "unat slot" "h_buckets ht" cur] prems(3,5) len b(1) by simp
    moreover have "\<forall>c \<in> set (h_buckets ?ht). occupied c"
      using prems(4,5) set_update_subset_insert [of "h_buckets ht" "unat slot" cur] by auto
    ultimately show ?thesis
      using rec [OF 1 prems(1) _ nx] prems(2,6) b(1) by (simp add: table_shape_def)
  next
    case 2
    then show ?thesis using rec [OF 2 prems(1,2) nx prems(4-6)] by simp
  qed
qed

lemma hash_put_loop_full:
  assumes "table_shape k ht" and "unat slot < 2 ^ k" and "\<forall>b \<in> set (h_buckets ht). occupied b"
    and "occupied cur" and "distinct_keys m (add_mset cur (entries (h_buckets ht)))"
  shows "hash_put_loop m False ht cur slot dist = None"
  using hash_put_loop_stuck [OF _ _ assms, of False dist] by (cases "hash_put_loop m False ht cur slot dist") auto

end
