(* ===== verification/NK_Map_Spec.thy ===== *)
theory NK_Map_Spec
  imports NK_Platform
begin

section \<open>The contract of a map with keys in memory\<close>

text \<open>
  The hash table and the skip list offer the same interface: \<^verbatim>\<open>put\<close>, \<^verbatim>\<open>get\<close> and \<^verbatim>\<open>remove\<close> with
  a key given by address and length. The contract: in a good state every operation returns, keeps
  the state good, makes no invalid release, and acts on the abstract map from key bytes to values
  as documented. A \<^verbatim>\<open>put\<close> may run out of memory and then changes nothing. \<open>env\<close> is what an
  implementation relies on in the platform when a \<^verbatim>\<open>put\<close> begins. \<open>room\<close> is the number of
  further keys for which an implementation promises that \<^verbatim>\<open>put\<close> returns at all.
\<close>

datatype map_op = is_put: Op_put ptr u64 ptr | Op_get ptr u64 | Op_remove ptr u64

datatype map_res = Ret int | Val ptr

definition op_key_ok :: "map_op \<Rightarrow> bool" where
  "op_key_ok op \<longleftrightarrow> (case op of Op_put p n v \<Rightarrow> p \<noteq> NULL \<and> n \<noteq> 0 | Op_get p n \<Rightarrow> p \<noteq> NULL \<and> n \<noteq> 0
     | Op_remove p n \<Rightarrow> p \<noteq> NULL \<and> n \<noteq> 0)"

fun puts :: "map_op list \<Rightarrow> nat" where
  "puts [] = 0"
| "puts (Op_put p n v # ops) = Suc (puts ops)"
| "puts (_ # ops) = puts ops"

text \<open>What an operation may answer on a map, and the map after it.\<close>

inductive map_spec :: "(ptr \<Rightarrow> u64 \<Rightarrow> 'k) \<Rightarrow> map_op \<Rightarrow> ('k \<rightharpoonup> ptr) \<Rightarrow> map_res \<Rightarrow> ('k \<rightharpoonup> ptr) \<Rightarrow> bool"
  for key :: "ptr \<Rightarrow> u64 \<Rightarrow> 'k"
where
  spec_put: "map_spec key (Op_put p n v) M (Ret 0) (M(key p n \<mapsto> v))"
| spec_put_oom: "map_spec key (Op_put p n v) M (Ret (- 1)) M"
| spec_get: "map_spec key (Op_get p n) M (Val (case M (key p n) of None \<Rightarrow> NULL | Some v \<Rightarrow> v)) M"
| spec_remove: "map_spec key (Op_remove p n) M (Ret (if M (key p n) = None then - 1 else 0)) (M(key p n := None))"

fun map_spec_run ::
  "(ptr \<Rightarrow> u64 \<Rightarrow> 'k) \<Rightarrow> map_op list \<Rightarrow> ('k \<rightharpoonup> ptr) \<Rightarrow> map_res list \<Rightarrow> ('k \<rightharpoonup> ptr) \<Rightarrow> bool"
where
  "map_spec_run key [] M [] M' = (M' = M)"
| "map_spec_run key (op # ops) M (r # rs) M' = (\<exists>M1. map_spec key op M r M1 \<and> map_spec_run key ops M1 rs M')"
| "map_spec_run key _ _ _ _ = False"

text \<open>A client that issues an operation, and a list of them, on an implementation.\<close>

fun map_step ::
  "(ptr \<Rightarrow> u64 \<Rightarrow> ptr \<Rightarrow> 's \<Rightarrow> os \<Rightarrow> (int \<times> 's \<times> os) option) \<Rightarrow> (ptr \<Rightarrow> u64 \<Rightarrow> 's \<Rightarrow> (ptr \<times> 's) option) \<Rightarrow>
   (ptr \<Rightarrow> u64 \<Rightarrow> 's \<Rightarrow> os \<Rightarrow> (int \<times> 's \<times> os) option) \<Rightarrow> map_op \<Rightarrow> 's \<Rightarrow> os \<Rightarrow> (map_res \<times> 's \<times> os) option"
where
  "map_step put get remove (Op_put p n v) s w = map_option (\<lambda>(r, s', w'). (Ret r, s', w')) (put p n v s w)"
| "map_step put get remove (Op_get p n) s w = map_option (\<lambda>(v, s'). (Val v, s', w)) (get p n s)"
| "map_step put get remove (Op_remove p n) s w = map_option (\<lambda>(r, s', w'). (Ret r, s', w')) (remove p n s w)"

fun map_run ::
  "(ptr \<Rightarrow> u64 \<Rightarrow> ptr \<Rightarrow> 's \<Rightarrow> os \<Rightarrow> (int \<times> 's \<times> os) option) \<Rightarrow> (ptr \<Rightarrow> u64 \<Rightarrow> 's \<Rightarrow> (ptr \<times> 's) option) \<Rightarrow>
   (ptr \<Rightarrow> u64 \<Rightarrow> 's \<Rightarrow> os \<Rightarrow> (int \<times> 's \<times> os) option) \<Rightarrow> map_op list \<Rightarrow> 's \<Rightarrow> os \<Rightarrow> (map_res list \<times> 's \<times> os) option"
where
  "map_run put get remove [] s w = Some ([], s, w)"
| "map_run put get remove (op # ops) s w =
    (case map_step put get remove op s w of
       None \<Rightarrow> None
     | Some (r, s', w') \<Rightarrow> map_option (\<lambda>(rs, t). (r # rs, t)) (map_run put get remove ops s' w'))"

text \<open>The condition on the platform, before each \<^verbatim>\<open>put\<close> of a run.\<close>

fun run_env ::
  "('s \<Rightarrow> os \<Rightarrow> bool) \<Rightarrow> (map_op \<Rightarrow> 's \<Rightarrow> os \<Rightarrow> (map_res \<times> 's \<times> os) option) \<Rightarrow> map_op list \<Rightarrow> 's \<Rightarrow> os \<Rightarrow> bool"
where
  "run_env env step [] s w = True"
| "run_env env step (op # ops) s w =
    ((is_put op \<longrightarrow> env s w) \<and> (case step op s w of None \<Rightarrow> True | Some (_, s', w') \<Rightarrow> run_env env step ops s' w'))"

lemma run_env_True: "run_env (\<lambda>_ _. True) step ops s w"
  by (induction ops arbitrary: s w) (auto split: option.split)

locale byte_map =
  fixes env :: "'s \<Rightarrow> os \<Rightarrow> bool"
    and good :: "'s \<Rightarrow> os \<Rightarrow> bool"
    and abs_map :: "'s \<Rightarrow> 'k \<rightharpoonup> ptr"
    and key :: "ptr \<Rightarrow> u64 \<Rightarrow> 'k"
    and room :: "'s \<Rightarrow> nat"
    and put :: "ptr \<Rightarrow> u64 \<Rightarrow> ptr \<Rightarrow> 's \<Rightarrow> os \<Rightarrow> (int \<times> 's \<times> os) option"
    and get :: "ptr \<Rightarrow> u64 \<Rightarrow> 's \<Rightarrow> (ptr \<times> 's) option"
    and remove :: "ptr \<Rightarrow> u64 \<Rightarrow> 's \<Rightarrow> os \<Rightarrow> (int \<times> 's \<times> os) option"
  assumes put_law: "env s w \<Longrightarrow> good s w \<Longrightarrow> p \<noteq> NULL \<Longrightarrow> n \<noteq> 0 \<Longrightarrow> 0 < room s \<Longrightarrow>
      \<exists>r s' w'. put p n v s w = Some (r, s', w') \<and> good s' w' \<and> room s \<le> Suc (room s') \<and>
        os_fault w' = os_fault w \<and> map_spec key (Op_put p n v) (abs_map s) (Ret r) (abs_map s')"
    and get_law: "good s w \<Longrightarrow> p \<noteq> NULL \<Longrightarrow> n \<noteq> 0 \<Longrightarrow>
      get p n s = Some (case abs_map s (key p n) of None \<Rightarrow> NULL | Some v \<Rightarrow> v, s)"
    and remove_law: "good s w \<Longrightarrow> p \<noteq> NULL \<Longrightarrow> n \<noteq> 0 \<Longrightarrow>
      \<exists>s' w'. remove p n s w = Some (if abs_map s (key p n) = None then - 1 else 0, s', w') \<and> good s' w' \<and>
        room s \<le> room s' \<and> os_fault w' = os_fault w \<and> abs_map s' = (abs_map s)(key p n := None)"
begin

lemma step_refines:
  assumes "is_put op \<Longrightarrow> env s w" and "good s w" and "op_key_ok op" and "puts [op] \<le> room s"
  shows "\<exists>r s1 w1. map_step put get remove op s w = Some (r, s1, w1) \<and> good s1 w1 \<and> room s \<le> room s1 + puts [op] \<and>
    os_fault w1 = os_fault w \<and> map_spec key op (abs_map s) r (abs_map s1)"
proof (cases op)
  case (Op_put p n v)
  then have "env s w" using assms(1) by simp
  then show ?thesis using put_law [OF _ assms(2), of p n v] Op_put assms(3,4) by (fastforce simp: op_key_ok_def)
next
  case (Op_get p n)
  then show ?thesis using get_law [OF assms(2), of p n] assms
    by (auto simp: op_key_ok_def intro: map_spec.spec_get)
next
  case (Op_remove p n)
  then have "p \<noteq> NULL" "n \<noteq> 0" using assms(3) by (simp_all add: op_key_ok_def)
  from remove_law [OF assms(2) this] obtain s' w'
    where "remove p n s w = Some (if abs_map s (key p n) = None then - 1 else 0, s', w')" "good s' w'"
      "room s \<le> room s'" "os_fault w' = os_fault w" "abs_map s' = (abs_map s)(key p n := None)" by blast
  then show ?thesis using Op_remove map_spec.spec_remove [of key p n "abs_map s"] by auto
qed

lemma puts_Cons: "puts (op # ops) = puts [op] + puts ops"
  by (cases op) simp_all

lemma run_refines:
  assumes "good s w" and "\<forall>op \<in> set ops. op_key_ok op" and "puts ops \<le> room s"
    and "run_env env (map_step put get remove) ops s w"
  shows "\<exists>rs s' w'. map_run put get remove ops s w = Some (rs, s', w') \<and> good s' w' \<and>
     os_fault w' = os_fault w \<and> map_spec_run key ops (abs_map s) rs (abs_map s')"
  using assms
proof (induction ops arbitrary: s w)
  case (Cons op ops)
  have room: "puts [op] + puts ops \<le> room s" using Cons.prems(3) puts_Cons [of op ops] by simp
  obtain r s1 w1 where op: "map_step put get remove op s w = Some (r, s1, w1)" and 1: "good s1 w1"
    "room s \<le> room s1 + puts [op]" "os_fault w1 = os_fault w" "map_spec key op (abs_map s) r (abs_map s1)"
    using step_refines [of op s w] Cons.prems room by auto
  have "run_env env (map_step put get remove) ops s1 w1" using Cons.prems(4) op by simp
  from Cons.IH [OF 1(1) _ _ this] Cons.prems(2) room 1(2) obtain rs s' w' where
    "map_run put get remove ops s1 w1 = Some (rs, s', w')" "good s' w'" "os_fault w' = os_fault w1"
    "map_spec_run key ops (abs_map s1) rs (abs_map s')" by auto
  then show ?case using op 1(3,4) by auto
qed simp

text \<open>What was put last is what is found, until it is removed.\<close>

lemma put_get:
  assumes "env s w" and "good s w" and "p \<noteq> NULL" and "n \<noteq> 0" and "0 < room s"
    and "put p n v s w = Some (0, s', w')" and "q \<noteq> NULL" and "l \<noteq> 0"
  shows "get q l s' = Some (if key q l = key p n then v
     else case abs_map s (key q l) of None \<Rightarrow> NULL | Some u \<Rightarrow> u, s')"
proof -
  obtain r s'' w'' where "put p n v s w = Some (r, s'', w'')" "good s'' w''"
    "map_spec key (Op_put p n v) (abs_map s) (Ret r) (abs_map s'')"
    using put_law [OF assms(1-5), of v] by blast
  with assms(6) have "good s' w'" "map_spec key (Op_put p n v) (abs_map s) (Ret 0) (abs_map s')" by auto
  moreover from this(2) have "abs_map s' = (abs_map s)(key p n \<mapsto> v)" by (cases rule: map_spec.cases) auto
  ultimately show ?thesis using get_law [OF _ assms(7,8)] by auto
qed

end

end
