(* ===== verification/NK_Hash_Correct.thy ===== *)
theory NK_Hash_Correct
  imports NK_Hash_Loops NK_Map_Spec
begin

section \<open>The hash table: correctness\<close>

text \<open>
  The table refines a finite map from key bytes to values. The invariant \<open>hash_ok\<close> says that the
  bucket array is a Robin Hood table of power-of-two size for the hash values stored in it, that
  these are the FNV-1a hashes of the keys, that no two buckets hold the same key bytes and that
  \<open>count\<close> counts the occupied buckets.
\<close>

subsection \<open>The table as a map\<close>

definition hash_map :: "mem \<Rightarrow> nkit_bucket list \<Rightarrow> u8 list \<rightharpoonup> ptr" where
  "hash_map m bs = map_of (map (\<lambda>b. (key_bytes m b, b_value b)) (filter occupied bs))"

definition hash_ok :: "mem \<Rightarrow> nkit_hash \<Rightarrow> bool" where
  "hash_ok m ht \<longleftrightarrow>
     (\<exists>k \<ge> 4. k \<le> 57 \<and> h_capacity ht = 2 ^ k \<and> table_shape k ht \<and> rh (2 ^ k) (homes (h_buckets ht)))
     \<and> anchored (h_buckets ht) \<and> distinct_keys m (entries (h_buckets ht))
     \<and> (\<forall>b \<in># entries (h_buckets ht). b_hash b = fnv1a_bytes (key_bytes m b))
     \<and> unat (h_count ht) = size (entries (h_buckets ht))"

lemma fnv1a_nonzero: "fnv1a_bytes bs \<noteq> 0"
  by (simp add: fnv1a_bytes_def Let_def)

lemma hash_map_Some:
  assumes "distinct_keys m (entries bs)"
  shows "hash_map m bs x = Some v \<longleftrightarrow> (\<exists>b \<in># entries bs. key_bytes m b = x \<and> b_value b = v)"
proof
  assume "hash_map m bs x = Some v"
  from map_of_SomeD [OF this [unfolded hash_map_def]]
  show "\<exists>b \<in># entries bs. key_bytes m b = x \<and> b_value b = v" by (auto simp: in_entries)
next
  assume "\<exists>b \<in># entries bs. key_bytes m b = x \<and> b_value b = v"
  then obtain b where b: "b \<in># entries bs" "key_bytes m b = x" "b_value b = v" by blast
  then have "x \<in> fst ` set (map (\<lambda>b. (key_bytes m b, b_value b)) (filter occupied bs))"
    by (force simp: in_entries)
  then obtain v' where v': "hash_map m bs x = Some v'"
    using map_of_eq_None_iff [of "map (\<lambda>b. (key_bytes m b, b_value b)) (filter occupied bs)" x]
    by (cases "hash_map m bs x") (auto simp: hash_map_def)
  from map_of_SomeD [OF this [unfolded hash_map_def]]
  obtain c where c: "c \<in># entries bs" "key_bytes m c = x" "b_value c = v'" by (auto simp: in_entries)
  have E: "entries bs = add_mset b (entries bs - {#b#})" using b(1) by simp
  have "c = b"
  proof (rule ccontr)
    assume "c \<noteq> b"
    moreover have "c \<in># add_mset b (entries bs - {#b#})" using c(1) E by simp
    ultimately have "c \<in># entries bs - {#b#}" by simp
    moreover have "distinct_keys m (add_mset b (entries bs - {#b#}))" using assms E by simp
    ultimately have "key_bytes m c \<noteq> key_bytes m b" by (rule distinct_keys_fresh [rotated])
    with b c show False by simp
  qed
  with v' b c show "hash_map m bs x = Some v" by simp
qed

lemma hash_map_add:
  assumes "distinct_keys m (entries bs)" and "entries bs = add_mset b (entries bs')"
  shows "hash_map m bs = (hash_map m bs')(key_bytes m b \<mapsto> b_value b)"
    and "hash_map m bs' (key_bytes m b) = None"
    and "distinct_keys m (entries bs')"
proof -
  show d: "distinct_keys m (entries bs')"
    by (rule distinct_keys_mono [OF assms(1)]) (simp add: assms(2))
  show n: "hash_map m bs' (key_bytes m b) = None"
    using hash_map_Some [OF d, of "key_bytes m b"] distinct_keys_fresh [OF assms(1) [unfolded assms(2)]]
    by (cases "hash_map m bs' (key_bytes m b)") auto
  have "hash_map m bs x = Some v \<longleftrightarrow> ((hash_map m bs')(key_bytes m b \<mapsto> b_value b)) x = Some v" for x v
    using hash_map_Some [OF assms(1), of x v] hash_map_Some [OF d, of x v] n assms(2) by auto
  then show "hash_map m bs = (hash_map m bs')(key_bytes m b \<mapsto> b_value b)"
    by (intro ext option_eqI)
qed

lemma hash_map_None:
  "distinct_keys m (entries bs) \<Longrightarrow> hash_map m bs x = None \<longleftrightarrow> (\<forall>b \<in># entries bs. key_bytes m b \<noteq> x)"
  using hash_map_Some [of m bs x] by (metis not_None_eq)

lemma hash_map_slot:
  assumes "hash_map m bs x = Some v"
  obtains i where "i < length bs" and "occupied (bs ! i)" and "key_bytes m (bs ! i) = x" and "b_value (bs ! i) = v"
  using map_of_SomeD [OF assms [unfolded hash_map_def]] by (auto simp: in_set_conv_nth)

lemma distinct_keys_insert:
  assumes "distinct_keys m M" and "\<forall>b \<in># M. key_bytes m b \<noteq> key_bytes m c"
  shows "distinct_keys m (add_mset c M)"
  unfolding distinct_keys_def
proof (intro allI impI)
  fix x y
  assume sub: "{#x, y#} \<subseteq># add_mset c M"
  show "key_bytes m x \<noteq> key_bytes m y"
  proof (cases "x = c \<or> y = c")
    case True
    then consider "x = c" "{#y#} \<subseteq># M" | "y = c" "{#x#} \<subseteq># M"
      using sub by (auto simp: mset_subset_eq_add_mset_cancel add_mset_commute)
    then show ?thesis using assms(2) by cases auto
  next
    case False
    have "{#x, y#} \<subseteq># M"
    proof (rule mset_subset_eqI)
      show "count {#x, y#} a \<le> count M a" for a
        using mset_subset_eq_count [OF sub, of a] False by (cases "a = c") auto
    qed
    then show ?thesis using assms(1) by (simp add: distinct_keys_def)
  qed
qed

lemma size_entries: "size (entries bs) = length (filter occupied bs)"
  unfolding entries_def by (metis mset_filter size_mset)

lemma free_slot:
  assumes "size (entries bs) < length bs"
  obtains z where "z < length bs" and "homes bs z = None"
proof -
  have "\<not> (\<forall>b \<in> set bs. occupied b)" using assms by (metis filter_True less_irrefl size_entries)
  then show ?thesis using that by (auto simp: homes_def in_set_conv_nth)
qed

lemma size_entries_le: "size (entries bs) \<le> length bs"
  by (simp add: size_entries)

subsection \<open>Resizing\<close>

lemma hash_rehash_ok:
  assumes "table_shape k ht" and "rh (2 ^ k) (homes (h_buckets ht))" and "anchored (h_buckets ht)"
    and "distinct_keys m (entries (h_buckets ht) + entries old)"
    and "size (entries (h_buckets ht)) + size (entries old) < 2 ^ k"
  shows "\<exists>bs. hash_rehash m old ht = Some (ht\<lparr>h_buckets := bs\<rparr>) \<and> length bs = 2 ^ k \<and>
     rh (2 ^ k) (homes bs) \<and> anchored bs \<and> entries bs = entries (h_buckets ht) + entries old"
  using assms
proof (induction old arbitrary: ht)
  case Nil
  then show ?case by (intro exI [of _ "h_buckets ht"]) (simp add: entries_def table_shape_def)
next
  case (Cons b old)
  have len: "length (h_buckets ht) = 2 ^ k" and k: "k \<le> 64" and msk: "h_mask ht = 2 ^ k - 1"
    using Cons.prems(1) by (simp_all add: table_shape_def)
  show ?case
  proof (cases "occupied b")
    case False
    then show ?thesis using Cons by (simp add: occupied_def entries_def)
  next
    case True
    then have e: "entries (b # old) = add_mset b (entries old)" by (simp add: entries_def)
    obtain z where z: "z < 2 ^ k" "homes (h_buckets ht) z = None"
      using free_slot [of "h_buckets ht"] Cons.prems(5) len by auto
    have dk: "distinct_keys m (add_mset b (entries (h_buckets ht)))"
      by (rule distinct_keys_mono [OF Cons.prems(4)]) (simp add: e)
    obtain bs where bs: "hash_put_loop m True ht b (b_hash b AND h_mask ht) 0 = Some (0, ht\<lparr>h_buckets := bs\<rparr>)"
      "length bs = 2 ^ k" "rh (2 ^ k) (homes bs)" "anchored bs" "entries bs = add_mset b (entries (h_buckets ht))"
      using hash_put_loop_absent [OF Cons.prems(1,2) cursor_start [OF True k] z dk, of True] msk by auto
    have "table_shape k (ht\<lparr>h_buckets := bs\<rparr>)" using Cons.prems(1) bs(2) by (simp add: table_shape_def)
    moreover have "nkit_hash_put_internal m ht (b_hash b) (b_key b) (b_key_len b) (b_value b) True =
        Some (0, ht\<lparr>h_buckets := bs\<rparr>)"
      using bs(1) by (cases b) (simp add: nkit_hash_put_internal_def)
    ultimately show ?thesis
      using Cons.IH [of "ht\<lparr>h_buckets := bs\<rparr>"] Cons.prems(4,5) bs e True
      by (simp add: occupied_def)
  qed
qed

lemma bucket_size: "sizeof_bucket * 2 ^ k = 2 ^ (k + 5)"
  by (simp add: sizeof_bucket_def power_add)

subsection \<open>The operations\<close>

lemma hash_okE:
  assumes "hash_ok m ht"
  obtains k where "4 \<le> k" and "k \<le> 57" and "h_capacity ht = 2 ^ k" and "table_shape k ht"
    and "rh (2 ^ k) (homes (h_buckets ht))" and "length (h_buckets ht) = 2 ^ k" and "h_mask ht = 2 ^ k - 1"
  using assms unfolding hash_ok_def table_shape_def by blast

lemma hash_okD:
  assumes "hash_ok m ht"
  shows "anchored (h_buckets ht)" and "distinct_keys m (entries (h_buckets ht))"
    and "\<And>b. b \<in># entries (h_buckets ht) \<Longrightarrow> b_hash b = fnv1a_bytes (key_bytes m b)"
    and "unat (h_count ht) = size (entries (h_buckets ht))"
  using assms by (simp_all add: hash_ok_def)

lemma put_internal_present:
  assumes "hash_ok m ht" and "hash_map m (h_buckets ht) (read_bytes m key key_len) \<noteq> None"
  shows "\<exists>bs. nkit_hash_put_internal m ht (nkit_fnv1a m key key_len) key key_len v False =
      Some (0, ht\<lparr>h_buckets := bs\<rparr>) \<and> hash_ok m (ht\<lparr>h_buckets := bs\<rparr>) \<and>
     hash_map m bs = (hash_map m (h_buckets ht))(read_bytes m key key_len \<mapsto> v)"
proof -
  let ?bs = "h_buckets ht" and ?x = "read_bytes m key key_len"
  obtain k where k: "4 \<le> k" "k \<le> 57" "h_capacity ht = 2 ^ k" "table_shape k ht" "rh (2 ^ k) (homes ?bs)"
    and len: "length ?bs = 2 ^ k" and msk: "h_mask ht = 2 ^ k - 1" using hash_okE [OF assms(1)] by blast
  note ok = hash_okD [OF assms(1)]
  obtain i where i: "i < length ?bs" "occupied (?bs ! i)" "key_bytes m (?bs ! i) = ?x"
    using assms(2) hash_map_slot by (metis not_None_eq)
  let ?b = "?bs ! i" and ?cur = "\<lparr>b_hash = nkit_fnv1a m key key_len, b_key = key, b_key_len = key_len, b_value = v\<rparr>"
  let ?b' = "?b\<lparr>b_value := v\<rparr>" and ?new = "?bs[i := ?b\<lparr>b_value := v\<rparr>]"
  have h: "b_hash ?b = nkit_fnv1a m key key_len" using ok(3) [of ?b] i by (simp add: in_entries nkit_fnv1a_def)
  have put: "nkit_hash_put_internal m ht (nkit_fnv1a m key key_len) key key_len v False = Some (0, ht\<lparr>h_buckets := ?new\<rparr>)"
    unfolding nkit_hash_put_internal_def
    using hash_put_loop_present [OF k(4,5) _ i(2) ok(2), where cur = ?cur and dist = 0] i len k(2) msk h
    by (simp add: key_bytes_def home_def unat_and_exp_minus_1)
  have occ': "occupied ?b'" "key_bytes m ?b' = ?x" using i(2,3) by (simp_all add: occupied_def key_bytes_def)
  have E: "entries ?bs = add_mset ?b (entries (?bs[i := bucket_zero]))" using entries_clear [OF i(1,2)] .
  have E': "entries ?new = add_mset ?b' (entries (?bs[i := bucket_zero]))"
    using entries_clear [of i ?new] i(1) occ'(1) by simp
  note old = hash_map_add [OF ok(2) E]
  have dk: "distinct_keys m (entries ?new)"
    unfolding E' using old(3) hash_map_None [OF old(3)] old(2) i(3) occ'(2) by (intro distinct_keys_insert) auto
  have "hash_map m ?new = (hash_map m ?bs)(?x \<mapsto> v)"
    using hash_map_add(1) [OF dk E'] old(1) i(3) occ'(2) by simp
  moreover have "homes ?new = homes ?bs"
    using i occ'(1) by (auto simp: homes_update homes_def home_def)
  then have "hash_ok m (ht\<lparr>h_buckets := ?new\<rparr>)"
    using k ok dk E E' len h occ'(2) i(3) unfolding hash_ok_def
    by (auto simp: table_shape_def anchored_def nkit_fnv1a_def)
  ultimately show ?thesis using put by blast
qed

lemma put_internal_absent:
  assumes "hash_ok m ht" and "hash_map m (h_buckets ht) (read_bytes m key key_len) = None"
    and "h_count ht < h_capacity ht"
  shows "\<exists>bs. nkit_hash_put_internal m ht (nkit_fnv1a m key key_len) key key_len v False =
      Some (0, ht\<lparr>h_buckets := bs, h_count := h_count ht + 1\<rparr>) \<and>
     hash_ok m (ht\<lparr>h_buckets := bs, h_count := h_count ht + 1\<rparr>) \<and>
     hash_map m bs = (hash_map m (h_buckets ht))(read_bytes m key key_len \<mapsto> v)"
proof -
  let ?bs = "h_buckets ht" and ?x = "read_bytes m key key_len"
  obtain k where k: "4 \<le> k" "k \<le> 57" "h_capacity ht = 2 ^ k" "table_shape k ht" "rh (2 ^ k) (homes ?bs)"
    and len: "length ?bs = 2 ^ k" and msk: "h_mask ht = 2 ^ k - 1" using hash_okE [OF assms(1)] by blast
  note ok = hash_okD [OF assms(1)]
  let ?cur = "\<lparr>b_hash = nkit_fnv1a m key key_len, b_key = key, b_key_len = key_len, b_value = v\<rparr>"
  have cur: "occupied ?cur" "key_bytes m ?cur = ?x" "b_hash ?cur = fnv1a_bytes ?x"
    by (simp_all add: occupied_def key_bytes_def nkit_fnv1a_def fnv1a_nonzero)
  have less: "size (entries ?bs) < 2 ^ k" using assms(3) ok(4) k(2,3) by (simp add: word_less_nat_alt unat_exp)
  then obtain z where z: "z < 2 ^ k" "homes ?bs z = None" using free_slot [of ?bs] len by auto
  have dk: "distinct_keys m (add_mset ?cur (entries ?bs))"
    using ok(2) hash_map_None [OF ok(2)] assms(2) cur(2) by (intro distinct_keys_insert) auto
  have k64: "k \<le> 64" using k(2) by simp
  note loop = hash_put_loop_absent [OF k(4,5) cursor_start [OF cur(1) k64] z dk, of False]
  obtain bs where bs: "nkit_hash_put_internal m ht (nkit_fnv1a m key key_len) key key_len v False =
      Some (0, ht\<lparr>h_buckets := bs, h_count := h_count ht + 1\<rparr>)" "length bs = 2 ^ k" "rh (2 ^ k) (homes bs)"
      "anchored bs" "entries bs = add_mset ?cur (entries ?bs)"
    using loop msk by (auto simp: nkit_hash_put_internal_def)
  have c: "unat (h_count ht + 1) = unat (h_count ht) + 1"
    using unat_plus_1 [of "h_count ht" k] less ok(4) k(2) by simp
  have "hash_ok m (ht\<lparr>h_buckets := bs, h_count := h_count ht + 1\<rparr>)"
    using k ok bs dk c cur unfolding hash_ok_def by (auto simp: table_shape_def)
  moreover have "hash_map m bs = (hash_map m ?bs)(?x \<mapsto> v)"
    using hash_map_add(1) [OF _ bs(5)] dk bs(5) cur(2) by simp
  ultimately show ?thesis using bs(1) by blast
qed

text \<open>What a table owns, and that the handle and the arena behind it are proper.\<close>

definition hash_valid :: "nkit_hash \<Rightarrow> bool" where
  "hash_valid ht \<longleftrightarrow> h_addr ht \<noteq> NULL \<and> (\<exists>a. h_arena ht = Some a \<and> arena_wf a)"

definition hash_owns :: "nkit_hash \<Rightarrow> os_res multiset" where
  "hash_owns ht = add_mset (Numa (h_addr ht) sizeof_hash)
     (case h_arena ht of None \<Rightarrow> {#} | Some a \<Rightarrow> arena_owns a)"

definition hash_room :: "nkit_hash \<Rightarrow> nat" where
  "hash_room ht = unat (h_capacity ht) - unat (h_count ht)"

lemma homes_zero: "homes (replicate n bucket_zero) = Map.empty"
  by (auto simp: homes_def)

lemma entries_zero: "entries (replicate n bucket_zero) = {#}"
  by (simp add: entries_def)

lemma hash_resize_ok:
  assumes "hash_ok m ht" and "hash_valid ht" and "mmap_ok w" and "hash_owns ht \<subseteq># os_live w"
  shows "\<exists>ht' w'. nkit_hash_resize m ht w = Some (ht', w') \<and> hash_ok m ht' \<and> hash_valid ht' \<and> mmap_ok w' \<and>
     hash_map m (h_buckets ht') = hash_map m (h_buckets ht) \<and> h_lock ht' = h_lock ht \<and>
     h_count ht' = h_count ht \<and> h_capacity ht \<le> h_capacity ht' \<and>
     ledger w' = (os_live w - hash_owns ht + hash_owns ht', os_fault w)"
proof -
  let ?bs = "h_buckets ht" and ?sz = "sizeof_bucket * (h_capacity ht * 2)"
  obtain k where k: "4 \<le> k" "k \<le> 57" "h_capacity ht = 2 ^ k" "table_shape k ht" "rh (2 ^ k) (homes ?bs)"
    and len: "length ?bs = 2 ^ k" and msk: "h_mask ht = 2 ^ k - 1" using hash_okE [OF assms(1)] by blast
  note ok = hash_okD [OF assms(1)]
  have cap: "h_capacity ht * 2 = 2 ^ (k + 1)" using k(3) by simp
  have sz: "?sz = 2 ^ (k + 6)" using bucket_size [of "k + 1"] cap by (simp add: add.commute)
  obtain oa where oa: "h_arena ht = Some oa" "arena_wf oa" using assms(2) by (auto simp: hash_valid_def)
  show ?thesis
  proof (cases "nkit_arena_create (h_node_id ht) ?sz w")
    case (Pair h w1)
    show ?thesis
    proof (cases h)
      case None
      then have "nkit_hash_resize m ht w = Some (ht, w1)" using Pair by (simp add: nkit_hash_resize_def Let_def)
      moreover have "ledger w1 = (os_live w - hash_owns ht + hash_owns ht, os_fault w)" "mmap_ok w1"
        using arena.create_None [OF assms(3)] Pair None assms(4) by (auto simp: ledger_def)
      ultimately show ?thesis using assms(1,2) by auto
    next
      case (Some a)
      note mk = Pair [unfolded Some]
      have "unat ?sz = 2 ^ (k + 6)" using k(2) by (simp only: sz) (simp add: unat_exp)
      then have "2 ^ 6 dvd unat ?sz" using le_imp_power_dvd [of 6 "k + 6" "2::nat"] by simp
      note first = arena_first_alloc [OF assms(3) mk this]
      have k1: "k + 1 \<le> 57"
      proof -
        have "(2::nat) ^ (k + 6) < 2 ^ 63" using first(3) k(2) by (simp add: sz unat_exp)
        then have "k + 6 < 63" by (rule power_less_imp_less_exp [rotated]) simp
        then show ?thesis by simp
      qed
      let ?ht0 = "ht\<lparr>h_buckets := replicate (unat (h_capacity ht * 2)) bucket_zero,
        h_capacity := h_capacity ht * 2, h_mask := h_capacity ht * 2 - 1\<rparr>"
      have n1: "unat (h_capacity ht * 2) = 2 ^ (k + 1)" unfolding cap using k1 by (intro unat_exp) simp
      have ts: "table_shape (k + 1) ?ht0" using k1 n1 cap by (simp add: table_shape_def)
      have "anchored (h_buckets ?ht0)" using n1 by (auto simp: anchored_def homes_zero intro: exI [of _ 0])
      moreover have "size (entries ?bs) < 2 ^ (k + 1)"
        using le_less_trans [OF size_entries_le, of ?bs "2 ^ (k + 1)"] len by simp
      ultimately obtain bs where bs: "hash_rehash m ?bs ?ht0 = Some (?ht0\<lparr>h_buckets := bs\<rparr>)"
          "length bs = 2 ^ (k + 1)" "rh (2 ^ (k + 1)) (homes bs)" "anchored bs" "entries bs = entries ?bs"
        using hash_rehash_ok [OF ts, of m ?bs] ok(2) by (auto simp: homes_zero entries_zero rh_empty)
      let ?ht' = "?ht0\<lparr>h_buckets := bs, h_arena := Some (a\<lparr>ar_used := ?sz\<rparr>)\<rparr>"
      let ?w' = "nkit_arena_destroy (Some oa) w1"
      have "nkit_hash_resize m ht w = Some (?ht', ?w')"
        using mk first(1,2) bs(1) oa(1) by (simp add: nkit_hash_resize_def Let_def)
      moreover have "hash_ok m ?ht'"
        unfolding hash_ok_def using k(1) k1 cap n1 bs ok
        by (auto intro!: exI [of _ "k + 1"] simp: table_shape_def)
      moreover have "hash_valid ?ht'" using assms(2) first(4) by (simp add: hash_valid_def)
      moreover have "hash_map m bs = hash_map m ?bs"
        using hash_map_Some [of m bs] hash_map_Some [of m ?bs] bs(5) ok(2) by (intro ext option_eqI) simp
      moreover have w1: "os_live w1 = os_live w + arena_owns a" "os_fault w1 = os_fault w" "mmap_ok w1"
        using arena.create_Some [OF assms(3) mk] by (simp_all add: ledger_def)
      obtain R where R: "os_live w = hash_owns ht + R" using assms(4) by (metis subset_mset.le_iff_add)
      then have "arena_owns oa \<subseteq># os_live w1" using w1(1) oa(1) by (simp add: hash_owns_def)
      from arena.destroy_owned [OF oa(2) this]
      have "ledger ?w' = (os_live w - hash_owns ht + hash_owns ?ht', os_fault w)"
        using w1 R oa(1) by (simp add: ledger_def hash_owns_def)
      moreover have "mmap_ok ?w'" using arena.destroy_env [OF w1(3)] .
      moreover have "h_capacity ht \<le> h_capacity ?ht'" using n1 k(2,3)
        by (simp add: word_le_nat_alt unat_exp)
      ultimately show ?thesis by (intro exI [of _ ?ht'] exI [of _ ?w']) simp
    qed
  qed
qed

lemma hash_put_ok:
  assumes "hash_ok m ht" and "hash_valid ht" and "h_lock ht = None" and "mmap_ok w"
    and "hash_owns ht \<subseteq># os_live w" and "key \<noteq> NULL" and "key_len \<noteq> 0"
    and "h_count ht < h_capacity ht \<or> hash_map m (h_buckets ht) (read_bytes m key key_len) \<noteq> None"
  shows "\<exists>ht' w'. nkit_hash_put m node (Some ht) key key_len v w = Some (0, Some ht', w') \<and>
     hash_ok m ht' \<and> hash_valid ht' \<and> h_lock ht' = None \<and> mmap_ok w' \<and>
     hash_map m (h_buckets ht') = (hash_map m (h_buckets ht))(read_bytes m key key_len \<mapsto> v) \<and>
     hash_room ht \<le> Suc (hash_room ht') \<and>
     ledger w' = (os_live w - hash_owns ht + hash_owns ht', os_fault w)"
proof -
  let ?x = "read_bytes m key key_len" and ?hash = "nkit_fnv1a m key key_len" and ?l = "ht\<lparr>h_lock := Some node\<rparr>"
  have l: "hash_ok m ?l" "hash_valid ?l" "hash_owns ?l = hash_owns ht"
    using assms(1,2) by (auto simp: hash_ok_def table_shape_def hash_valid_def hash_owns_def)
  define grow where "grow = (if h_count ?l * NKIT_HASH_MAX_LOAD_DEN \<ge> h_capacity ?l * NKIT_HASH_MAX_LOAD_NUM
    then nkit_hash_resize m ?l w else Some (?l, w))"
  obtain h1 w1 where h1: "grow = Some (h1, w1)" "hash_ok m h1" "hash_valid h1" "mmap_ok w1"
    "hash_map m (h_buckets h1) = hash_map m (h_buckets ht)" "h_lock h1 = Some node"
    "h_count h1 = h_count ht" "h_capacity ht \<le> h_capacity h1"
    "ledger w1 = (os_live w - hash_owns ht + hash_owns h1, os_fault w)"
  proof (cases "h_count ?l * NKIT_HASH_MAX_LOAD_DEN \<ge> h_capacity ?l * NKIT_HASH_MAX_LOAD_NUM")
    case True
    then show ?thesis using that hash_resize_ok [OF l(1,2) assms(4)] assms(5) l(3) by (auto simp: grow_def)
  next
    case False
    then show ?thesis
      using that [of ?l w] l assms(4,5) by (auto simp: grow_def ledger_def)
  qed
  have "\<exists>h2. nkit_hash_put_internal m h1 ?hash key key_len v False = Some (0, h2) \<and> hash_ok m h2 \<and>
      hash_valid h2 \<and> h_lock h2 = Some node \<and> hash_owns h2 = hash_owns h1 \<and> hash_room h1 \<le> Suc (hash_room h2) \<and>
      hash_map m (h_buckets h2) = (hash_map m (h_buckets ht))(?x \<mapsto> v)"
  proof (cases "hash_map m (h_buckets h1) ?x")
    case None
    then have "h_count h1 < h_capacity h1" using assms(8) h1(5,7,8) by auto
    moreover note unat_succ_less [OF this]
    ultimately show ?thesis
      using put_internal_absent [OF h1(2) None, of v] h1(3,5,6)
      by (fastforce simp: hash_valid_def hash_owns_def hash_room_def)
  next
    case (Some u)
    then have "hash_map m (h_buckets h1) ?x \<noteq> None" by simp
    from put_internal_present [OF h1(2) this, of v] show ?thesis
      using h1(3,5,6) by (fastforce simp: hash_valid_def hash_owns_def hash_room_def)
  qed
  then obtain h2 where h2: "nkit_hash_put_internal m h1 ?hash key key_len v False = Some (0, h2)"
    "hash_ok m h2" "hash_valid h2" "h_lock h2 = Some node" "hash_owns h2 = hash_owns h1"
    "hash_room h1 \<le> Suc (hash_room h2)"
    "hash_map m (h_buckets h2) = (hash_map m (h_buckets ht))(?x \<mapsto> v)" by blast
  have "nkit_hash_put m node (Some ht) key key_len v w = Some (0, Some (h2\<lparr>h_lock := None\<rparr>), w1)"
    using assms(3,6,7) h1(1) h2(1,4)
    by (auto simp: grow_def nkit_hash_put_def mcs_solo_lock_def mcs_solo_unlock_def Let_def split: if_splits)
  moreover have "hash_ok m (h2\<lparr>h_lock := None\<rparr>)" "hash_valid (h2\<lparr>h_lock := None\<rparr>)"
    "hash_owns (h2\<lparr>h_lock := None\<rparr>) = hash_owns h1"
    using h2 by (auto simp: hash_ok_def table_shape_def hash_valid_def hash_owns_def)
  moreover have "hash_room ht \<le> Suc (hash_room (h2\<lparr>h_lock := None\<rparr>))"
    using h1(7,8) h2(6) by (auto simp: hash_room_def word_le_nat_alt)
  ultimately show ?thesis using h1(4,9) h2(7) by auto
qed

lemma hash_probe_ok:
  assumes "hash_ok m ht"
  shows "\<exists>found. hash_probe m ht (nkit_fnv1a m key key_len) key key_len (nkit_fnv1a m key key_len AND h_mask ht) 0
      = Some found \<and>
     (case found of None \<Rightarrow> hash_map m (h_buckets ht) (read_bytes m key key_len) = None
      | Some slot \<Rightarrow> unat slot < length (h_buckets ht) \<and> occupied (h_buckets ht ! unat slot) \<and>
          key_bytes m (h_buckets ht ! unat slot) = read_bytes m key key_len \<and>
          hash_map m (h_buckets ht) (read_bytes m key key_len) = Some (b_value (h_buckets ht ! unat slot)))"
proof -
  let ?bs = "h_buckets ht" and ?x = "read_bytes m key key_len"
  obtain k where k: "k \<le> 57" "table_shape k ht" "rh (2 ^ k) (homes ?bs)"
    and len: "length ?bs = 2 ^ k" and msk: "h_mask ht = 2 ^ k - 1" using hash_okE [OF assms(1)] by blast
  note ok = hash_okD [OF assms]
  show ?thesis
  proof (cases "hash_map m ?bs ?x")
    case None
    then show ?thesis
      using hash_probe_absent [OF k(2), of m key key_len] hash_map_None [OF ok(2)] msk
      by (simp add: unat_and_exp_minus_1)
  next
    case (Some v)
    then obtain i where i: "i < 2 ^ k" "occupied (?bs ! i)" "key_bytes m (?bs ! i) = ?x" "b_value (?bs ! i) = v"
      using hash_map_slot len by metis
    have h: "b_hash (?bs ! i) = nkit_fnv1a m key key_len"
      using ok(3) [of "?bs ! i"] i len by (simp add: in_entries nkit_fnv1a_def)
    have "unat (of_nat i :: u64) = i"
      using i(1) power_strict_increasing [of k 64 "2::nat"] k(1) by (simp add: unat_of_nat)
    then show ?thesis
      using hash_probe_present [OF k(2,3) i(1,2) ok(2), of "nkit_fnv1a m key key_len" key key_len 0] i h msk len Some k(1)
      by (simp add: home_def unat_and_exp_minus_1)
  qed
qed

lemma hash_get_ok:
  assumes "hash_ok m ht" and "h_lock ht = None" and "key \<noteq> NULL" and "key_len \<noteq> 0"
  shows "nkit_hash_get m node (Some ht) key key_len =
    Some (case hash_map m (h_buckets ht) (read_bytes m key key_len) of None \<Rightarrow> NULL | Some v \<Rightarrow> v, Some ht)"
proof -
  let ?l = "ht\<lparr>h_lock := Some node\<rparr>"
  have l: "hash_ok m ?l" using assms(1) by (auto simp: hash_ok_def table_shape_def)
  have e: "?l\<lparr>h_lock := None\<rparr> = ht" using assms(2) by simp
  show ?thesis
    using hash_probe_ok [OF l, of key key_len] assms(2-4) e
    by (auto simp: nkit_hash_get_def mcs_solo_lock_def mcs_solo_unlock_def Let_def split: option.splits)
qed

lemma hash_remove_ok:
  assumes "hash_ok m ht" and "h_lock ht = None" and "key \<noteq> NULL" and "key_len \<noteq> 0"
  shows "\<exists>ht'. nkit_hash_remove m node (Some ht) key key_len =
      Some (if hash_map m (h_buckets ht) (read_bytes m key key_len) = None then - 1 else 0, Some ht') \<and>
     hash_ok m ht' \<and> h_lock ht' = None \<and> h_arena ht' = h_arena ht \<and> h_addr ht' = h_addr ht \<and>
     hash_room ht \<le> hash_room ht' \<and>
     hash_map m (h_buckets ht') = (hash_map m (h_buckets ht))(read_bytes m key key_len := None)"
proof -
  let ?l = "ht\<lparr>h_lock := Some node\<rparr>" and ?bs = "h_buckets ht" and ?x = "read_bytes m key key_len"
  have l: "hash_ok m ?l" using assms(1) by (auto simp: hash_ok_def table_shape_def)
  obtain k where k: "4 \<le> k" "k \<le> 57" "h_capacity ?l = 2 ^ k" "table_shape k ?l" "rh (2 ^ k) (homes (h_buckets ?l))"
    and len: "length (h_buckets ?l) = 2 ^ k" using hash_okE [OF l] by blast
  note ok = hash_okD [OF assms(1)]
  have bs_l: "h_buckets ?l = ?bs" by simp
  obtain found where f: "hash_probe m ?l (nkit_fnv1a m key key_len) key key_len (nkit_fnv1a m key key_len AND h_mask ?l) 0
      = Some found" and fc: "case found of None \<Rightarrow> hash_map m ?bs ?x = None
      | Some slot \<Rightarrow> unat slot < length ?bs \<and> occupied (?bs ! unat slot) \<and> key_bytes m (?bs ! unat slot) = ?x \<and>
          hash_map m ?bs ?x = Some (b_value (?bs ! unat slot))"
    using hash_probe_ok [OF l, of key key_len, unfolded bs_l] by blast
  show ?thesis
  proof (cases found)
    case None
    then have "nkit_hash_remove m node (Some ht) key key_len = Some (- 1, Some ht)"
      using f assms(2-4) by (simp add: nkit_hash_remove_def mcs_solo_lock_def mcs_solo_unlock_def Let_def)
    then show ?thesis using None fc assms(1,2) by (auto simp: fun_upd_idem)
  next
    case (Some slot)
    let ?b = "?bs ! unat slot"
    have slot: "unat slot < 2 ^ k" "occupied ?b" "key_bytes m ?b = ?x" "hash_map m ?bs ?x = Some (b_value ?b)"
      using Some fc len by auto
    obtain a where a: "a < 2 ^ k" "\<And>h. homes ?bs a = Some h \<Longrightarrow> pd (2 ^ k) h a = 0"
      using ok(1) len by (auto simp: anchored_def)
    obtain bs hole where sh: "hash_shift ?l slot = Some (?l\<lparr>h_buckets := bs\<rparr>, hole)" "unat hole < 2 ^ k"
      "length bs = 2 ^ k" "rh (2 ^ k) (homes (bs[unat hole := bucket_zero]))"
      "entries (bs[unat hole := bucket_zero]) = entries (?bs[unat slot := bucket_zero])"
      using hash_shift_ok [OF k(4,5) slot(1) _ a(1)] slot(2) a(2) by auto
    let ?bs' = "bs[unat hole := bucket_zero]"
    let ?ht' = "ht\<lparr>h_buckets := ?bs', h_count := h_count ht - 1\<rparr>"
    have E: "entries ?bs = add_mset ?b (entries ?bs')"
      using entries_clear [of "unat slot" ?bs] slot(1,2) len sh(5) by simp
    note mp = hash_map_add [OF ok(2) E]
    have "homes ?bs' (unat hole) = None" using sh(2,3) by (simp add: homes_def)
    then have "anchored ?bs'" using sh(2,3) by (auto simp: anchored_def)
    moreover have c: "unat (h_count ht - 1) = size (entries ?bs')" "unat (h_count ht - 1) < unat (h_count ht)"
      using ok(4) E unat_minus_one [of "h_count ht"] by (cases "h_count ht = 0"; simp)+
    ultimately have "hash_ok m ?ht'"
      using k sh(3,4) ok(3) E mp(3) unfolding hash_ok_def by (auto simp: table_shape_def)
    moreover have "nkit_hash_remove m node (Some ht) key key_len = Some (0, Some ?ht')"
      using f Some sh(1) assms(2-4)
      by (simp add: nkit_hash_remove_def mcs_solo_lock_def mcs_solo_unlock_def Let_def)
    moreover have "hash_map m ?bs' = (hash_map m ?bs)(?x := None)"
      using mp(1,2) slot(3) by (simp add: fun_upd_idem)
    ultimately show ?thesis using slot(4) assms(2) c(2) by (simp add: hash_room_def)
  qed
qed

subsection \<open>Creation and destruction\<close>

lemma next_power_of_2_smear:
  "\<exists>w. next_power_of_2 v = w + 1 \<and> (\<forall>i. bit w i \<longleftrightarrow> (\<exists>d < LENGTH(64). bit (v - 1) (i + d)))"
proof -
  let ?u = "v - 1"
  let ?a = "?u OR drop_bit 1 ?u"
  let ?b = "?a OR drop_bit 2 ?a"
  let ?c = "?b OR drop_bit 4 ?b"
  let ?d = "?c OR drop_bit 8 ?c"
  let ?e = "?d OR drop_bit 16 ?d"
  let ?f = "?e OR drop_bit 32 ?e"
  have 0: "bit ?u i \<longleftrightarrow> (\<exists>d < 1. bit ?u (i + d))" for i by simp
  have 1: "bit ?a i \<longleftrightarrow> (\<exists>d < 2. bit ?u (i + d))" for i using bit_smear [OF 0] by simp
  have 2: "bit ?b i \<longleftrightarrow> (\<exists>d < 4. bit ?u (i + d))" for i using bit_smear [OF 1] by simp
  have 3: "bit ?c i \<longleftrightarrow> (\<exists>d < 8. bit ?u (i + d))" for i using bit_smear [OF 2] by simp
  have 4: "bit ?d i \<longleftrightarrow> (\<exists>d < 16. bit ?u (i + d))" for i using bit_smear [OF 3] by simp
  have 5: "bit ?e i \<longleftrightarrow> (\<exists>d < 32. bit ?u (i + d))" for i using bit_smear [OF 4] by simp
  have 6: "bit ?f i \<longleftrightarrow> (\<exists>d < LENGTH(64). bit ?u (i + d))" for i using bit_smear [OF 5] by simp
  have "next_power_of_2 v = ?f + 1" by (simp only: next_power_of_2_def Let_def)
  with 6 show ?thesis by blast
qed

lemma next_power_of_2_least:
  assumes "v \<noteq> 0" and "unat v \<le> 2 ^ 63"
  shows "\<exists>k < 64. next_power_of_2 v = 2 ^ k \<and> unat v \<le> 2 ^ k \<and> (\<forall>j. unat v \<le> 2 ^ j \<longrightarrow> k \<le> j)"
proof -
  obtain w where w: "next_power_of_2 v = w + 1" "\<And>i. bit w i \<longleftrightarrow> (\<exists>d < LENGTH(64). bit (v - 1) (i + d))"
    using next_power_of_2_smear by blast
  from smeared_plus_1 [OF w(2)] assms show ?thesis by (simp add: w(1))
qed

lemma next_power_of_2_wraps:
  assumes "2 ^ 63 < unat v"
  shows "next_power_of_2 v = 0"
proof -
  obtain w where w: "next_power_of_2 v = w + 1" "\<And>i. bit w i \<longleftrightarrow> (\<exists>d < LENGTH(64). bit (v - 1) (i + d))"
    using next_power_of_2_smear by blast
  have "v \<noteq> 0" using assms by auto
  then have "unat (v - 1) = unat v - 1" by (rule unat_minus_one)
  then have "w = mask 64"
    using smeared_eq_mask [OF w(2), of 64] assms unat_less_exp_len [of "v - 1"] by simp
  then show ?thesis using w(1) by (simp add: mask_eq_exp_minus_1)
qed

definition rounded_capacity :: "u64 \<Rightarrow> u64" where
  "rounded_capacity cap = next_power_of_2 (if cap < NKIT_HASH_MIN_CAPACITY then NKIT_HASH_MIN_CAPACITY else cap)"

lemma rounded_capacity_exp:
  assumes "rounded_capacity cap \<noteq> 0"
  shows "\<exists>k \<ge> 4. k < 64 \<and> rounded_capacity cap = 2 ^ k \<and> unat cap \<le> 2 ^ k \<and>
     (\<forall>j \<ge> 4. unat cap \<le> 2 ^ j \<longrightarrow> k \<le> j)"
proof -
  let ?c = "if cap < NKIT_HASH_MIN_CAPACITY then NKIT_HASH_MIN_CAPACITY else cap"
  have c: "?c \<noteq> 0" "unat ?c = max 16 (unat cap)"
    by (auto simp: NKIT_HASH_MIN_CAPACITY_def word_less_nat_alt max_def)
  have "unat ?c \<le> 2 ^ 63"
    using next_power_of_2_wraps [of ?c] assms by (cases "2 ^ 63 < unat ?c") (auto simp: rounded_capacity_def)
  then obtain k where k: "k < 64" "rounded_capacity cap = 2 ^ k" "unat ?c \<le> 2 ^ k"
      "\<And>j. unat ?c \<le> 2 ^ j \<Longrightarrow> k \<le> j"
    using next_power_of_2_least [OF c(1)] unfolding rounded_capacity_def by blast
  have "(2::nat) ^ 4 \<le> 2 ^ k" using k(3) c(2) by simp
  then have "4 \<le> k" by (rule power_le_imp_le_exp [rotated]) simp
  moreover have "k \<le> j" if "4 \<le> j" "unat cap \<le> 2 ^ j" for j
    using power_increasing [OF that(1), of "2::nat"] that(2) c(2) by (intro k(4)) simp
  ultimately show ?thesis using k c(2) by auto
qed

lemma hash_create_split:
  obtains w1 p where "os_numa_alloc sizeof_hash node_id (snd (os_ask_int Numa_available w)) = (p, w1)"
    and "os_answer w1 = os_answer w" and "os_fault w1 = os_fault w"
    and "os_live w1 = (if p = NULL then os_live w else add_mset (Numa p sizeof_hash) (os_live w))"
proof -
  obtain p w1 where "os_numa_alloc sizeof_hash node_id (snd (os_ask_int Numa_available w)) = (p, w1)"
    by (cases "os_numa_alloc sizeof_hash node_id (snd (os_ask_int Numa_available w))")
  moreover from this have "p = fst (os_numa_alloc sizeof_hash node_id (snd (os_ask_int Numa_available w)))"
    "w1 = snd (os_numa_alloc sizeof_hash node_id (snd (os_ask_int Numa_available w)))" by simp_all
  ultimately show ?thesis using that by (simp add: os_numa_alloc_def os_simps)
qed

lemma hash_create_Some:
  assumes "mmap_ok w" and "nkit_hash_create node_id cap w = (Some ht, w')"
  shows "hash_ok m ht" and "hash_valid ht" and "h_lock ht = None" and "hash_map m (h_buckets ht) = Map.empty"
    and "ledger w' = (os_live w + hash_owns ht, os_fault w)" and "mmap_ok w'"
    and "h_capacity ht = rounded_capacity cap" and "h_count ht = 0"
proof -
  let ?cap = "rounded_capacity cap" and ?sz = "sizeof_bucket * rounded_capacity cap"
  obtain p w1 where p: "os_numa_alloc sizeof_hash node_id (snd (os_ask_int Numa_available w)) = (p, w1)"
    "os_answer w1 = os_answer w" "os_fault w1 = os_fault w"
    "os_live w1 = (if p = NULL then os_live w else add_mset (Numa p sizeof_hash) (os_live w))"
    by (rule hash_create_split)
  have w1: "mmap_ok w1" using assms(1) p(2) mmap_ok_cong by blast
  obtain h w2 where h: "nkit_arena_create node_id ?sz w1 = (h, w2)" by (cases "nkit_arena_create node_id ?sz w1")
  obtain a where a: "h = Some a" and pn: "p \<noteq> NULL"
    using assms(2) p(1) h
    by (cases h) (auto simp: nkit_hash_create_def Let_def case_prod_beta rounded_capacity_def split: if_splits)
  note mk = h [unfolded a]
  have "?sz \<noteq> 0" using mk by (auto simp: nkit_arena_create_def)
  then have "?cap \<noteq> 0" by auto
  then obtain k where k: "4 \<le> k" "k < 64" "?cap = 2 ^ k" using rounded_capacity_exp [of cap] by blast
  have sz: "?sz = 2 ^ (k + 5)" using bucket_size k(3) by simp
  have "k + 5 < 64"
  proof (rule ccontr)
    assume "\<not> k + 5 < 64"
    then have "(2 :: u64) ^ (k + 5) = 0" by (intro exp_eq_zero_iff [THEN iffD2]) simp
    with \<open>?sz \<noteq> 0\<close> sz show False by simp
  qed
  then have usz: "unat ?sz = 2 ^ (k + 5)" unfolding sz by (intro unat_exp) simp
  then have "2 ^ 6 dvd unat ?sz" using le_imp_power_dvd [of 6 "k + 5" "2::nat"] k(1) by simp
  note first = arena_first_alloc [OF w1 mk this]
  have "(2::nat) ^ (k + 5) < 2 ^ 63" using first(3) usz by simp
  then have "k + 5 < 63" by (rule power_less_imp_less_exp [rotated]) simp
  then have k57: "k \<le> 57" by simp
  have ht: "ht = \<lparr>h_addr = p, h_buckets = replicate (unat ?cap) bucket_zero, h_capacity = ?cap,
      h_mask = ?cap - 1, h_count = 0, h_arena = Some (a\<lparr>ar_used := ?sz\<rparr>), h_lock = None, h_node_id = node_id\<rparr>"
    and w': "w' = w2"
    using assms(2) p(1) mk first(1,2)
    by (auto simp: nkit_hash_create_def Let_def case_prod_beta rounded_capacity_def split: if_splits)
  have un: "unat ?cap = 2 ^ k" using k by (simp add: unat_exp)
  show "hash_ok m ht"
    unfolding hash_ok_def using k k57 un
    by (auto simp: ht table_shape_def homes_zero rh_empty anchored_def entries_zero distinct_keys_def
        intro!: exI [of _ k] exI [of _ 0])
  show "hash_valid ht" using pn first(4) by (simp add: ht hash_valid_def)
  show "h_lock ht = None" "h_capacity ht = ?cap" "h_count ht = 0" by (simp_all add: ht)
  show "hash_map m (h_buckets ht) = Map.empty" by (simp add: ht hash_map_def)
  show "ledger w' = (os_live w + hash_owns ht, os_fault w)" "mmap_ok w'"
    using arena.create_Some [OF w1 mk] p pn by (simp_all add: w' ht hash_owns_def ledger_def)
qed

lemma hash_create_None:
  assumes "mmap_ok w" and "nkit_hash_create node_id cap w = (None, w')"
  shows "ledger w' = ledger w \<and> mmap_ok w'"
proof -
  let ?sz = "sizeof_bucket * rounded_capacity cap"
  obtain p w1 where p: "os_numa_alloc sizeof_hash node_id (snd (os_ask_int Numa_available w)) = (p, w1)"
    "os_answer w1 = os_answer w" "os_fault w1 = os_fault w"
    "os_live w1 = (if p = NULL then os_live w else add_mset (Numa p sizeof_hash) (os_live w))"
    by (rule hash_create_split)
  have w1: "mmap_ok w1" using assms(1) p(2) mmap_ok_cong by blast
  obtain h w2 where h: "nkit_arena_create node_id ?sz w1 = (h, w2)" by (cases "nkit_arena_create node_id ?sz w1")
  consider "w' = snd (os_ask_int Numa_available w)" | "p = NULL" "w' = w1"
    | "p \<noteq> NULL" "h = None" "w' = os_numa_free p sizeof_hash w2"
    | a where "p \<noteq> NULL" "h = Some a" "fst (nkit_arena_alloc (Some a) ?sz) = NULL"
        "w' = os_numa_free p sizeof_hash (nkit_arena_destroy (snd (nkit_arena_alloc (Some a) ?sz)) w2)"
    using assms(2) p(1) h
    by (cases h) (auto simp: nkit_hash_create_def Let_def case_prod_beta rounded_capacity_def split: if_splits)
  then show ?thesis
  proof cases
    case 1
    then show ?thesis using assms(1) by (simp add: ledger_def os_simps mmap_ok_def)
  next
    case 2
    then show ?thesis using p w1 by (simp add: ledger_def)
  next
    case 3
    then show ?thesis using arena.create_None [OF w1] h p
      by (auto simp: ledger_def os_numa_free_def os_simps mmap_ok_def)
  next
    case (4 a)
    have "snd (nkit_arena_alloc (Some a) ?sz) = Some a"
      using 4(3) nkit_arena_create_wf(1) [OF w1 h [unfolded 4(2)]] nkit_arena_create_Some(4) [OF h [unfolded 4(2)]]
      by (auto simp: nkit_arena_alloc_Some arena_wf_def split: if_splits)
    moreover have "ledger (nkit_arena_destroy (Some a) w2) = ledger w1" "mmap_ok (nkit_arena_destroy (Some a) w2)"
      using arena.create_destroy [OF w1] arena.create_Some [OF w1] arena.destroy_env h 4(2) by auto
    ultimately show ?thesis using 4 p
      by (auto simp: ledger_def os_numa_free_def os_simps mmap_ok_def)
  qed
qed

lemma hash_destroy_ledger:
  assumes "hash_valid ht" and "hash_owns ht \<subseteq># os_live w"
  shows "ledger (nkit_hash_destroy (Some ht) w) = (os_live w - hash_owns ht, os_fault w)"
proof -
  obtain a where a: "h_arena ht = Some a" "arena_wf a" "h_addr ht \<noteq> NULL" using assms(1) by (auto simp: hash_valid_def)
  obtain R where R: "os_live w = hash_owns ht + R" using assms(2) by (metis subset_mset.le_iff_add)
  then have "arena_owns a \<subseteq># os_live w" using a(1) by (simp add: hash_owns_def)
  from arena.destroy_owned [OF a(2) this] show ?thesis
    using R a by (simp add: nkit_hash_destroy_def ledger_def hash_owns_def os_numa_free_def os_simps)
qed

interpretation htab: owned_object mmap_ok "nkit_hash_create node_id cap"
  "\<lambda>ht. nkit_hash_destroy (Some ht)" hash_owns hash_valid for node_id cap
proof unfold_locales
  show "ledger w' = ledger w \<and> mmap_ok w'"
    if "mmap_ok w" "nkit_hash_create node_id cap w = (None, w')" for w w'
    using that by (rule hash_create_None)
  show "ledger w' = (os_live w + hash_owns ht, os_fault w) \<and> hash_valid ht \<and> mmap_ok w'"
    if "mmap_ok w" "nkit_hash_create node_id cap w = (Some ht, w')" for w w' ht
    using hash_create_Some(2,5,6) [OF that] by blast
  show "ledger (nkit_hash_destroy (Some ht) w) = (os_live w - hash_owns ht, os_fault w)"
    if "hash_valid ht" "hash_owns ht \<subseteq># os_live w" for ht w
    using that by (rule hash_destroy_ledger)
  show "mmap_ok (nkit_hash_destroy (Some ht) w)" if "mmap_ok w" for ht w
    using that by (simp add: mmap_ok_def nkit_hash_destroy_def os_numa_free_def os_simps)
qed

subsection \<open>The table implements the map contract\<close>

definition hash_good :: "mem \<Rightarrow> nkit_hash option \<Rightarrow> os \<Rightarrow> bool" where
  "hash_good m h w \<longleftrightarrow> (case h of None \<Rightarrow> False | Some ht \<Rightarrow>
     hash_ok m ht \<and> hash_valid ht \<and> h_lock ht = None \<and> hash_owns ht \<subseteq># os_live w \<and> mmap_ok w)"

definition hash_abs :: "mem \<Rightarrow> nkit_hash option \<Rightarrow> u8 list \<rightharpoonup> ptr" where
  "hash_abs m h = (case h of None \<Rightarrow> Map.empty | Some ht \<Rightarrow> hash_map m (h_buckets ht))"

definition hash_room_op :: "nkit_hash option \<Rightarrow> nat" where
  "hash_room_op h = (case h of None \<Rightarrow> 0 | Some ht \<Rightarrow> hash_room ht)"

definition hash_put_op ::
  "mem \<Rightarrow> ptr \<Rightarrow> ptr \<Rightarrow> u64 \<Rightarrow> ptr \<Rightarrow> nkit_hash option \<Rightarrow> os \<Rightarrow> (int \<times> nkit_hash option \<times> os) option"
where
  "hash_put_op m node p n v h w = nkit_hash_put m node h p n v w"

definition hash_get_op ::
  "mem \<Rightarrow> ptr \<Rightarrow> ptr \<Rightarrow> u64 \<Rightarrow> nkit_hash option \<Rightarrow> (ptr \<times> nkit_hash option) option"
where
  "hash_get_op m node p n h = nkit_hash_get m node h p n"

definition hash_remove_op ::
  "mem \<Rightarrow> ptr \<Rightarrow> ptr \<Rightarrow> u64 \<Rightarrow> nkit_hash option \<Rightarrow> os \<Rightarrow> (int \<times> nkit_hash option \<times> os) option"
where
  "hash_remove_op m node p n h w = map_option (\<lambda>(r, h'). (r, h', w)) (nkit_hash_remove m node h p n)"

interpretation hmap: byte_map "\<lambda>_ _. True" "hash_good m" "hash_abs m" "read_bytes m" hash_room_op
  "hash_put_op m node" "hash_get_op m node" "hash_remove_op m node" for m node
proof unfold_locales
  fix h w p v and n :: u64
  assume good: "hash_good m h w" and key: "p \<noteq> NULL" "n \<noteq> 0"
  then obtain ht where ht: "h = Some ht" "hash_ok m ht" "hash_valid ht" "h_lock ht = None"
    "hash_owns ht \<subseteq># os_live w" "mmap_ok w" by (auto simp: hash_good_def split: option.splits)
  show "\<exists>r h' w'. hash_put_op m node p n v h w = Some (r, h', w') \<and> hash_good m h' w' \<and>
      hash_room_op h \<le> Suc (hash_room_op h') \<and> os_fault w' = os_fault w \<and>
      map_spec (read_bytes m) (Op_put p n v) (hash_abs m h) (Ret r) (hash_abs m h')" if "0 < hash_room_op h"
  proof -
    have "h_count ht < h_capacity ht"
      using that ht(1) by (simp add: hash_room_op_def hash_room_def word_less_nat_alt)
    with hash_put_ok [OF ht(2-4,6,5) key, of node v] obtain ht' w' where
      "nkit_hash_put m node (Some ht) p n v w = Some (0, Some ht', w')" "hash_ok m ht'" "hash_valid ht'"
      "h_lock ht' = None" "mmap_ok w'"
      "hash_map m (h_buckets ht') = (hash_map m (h_buckets ht))(read_bytes m p n \<mapsto> v)"
      "hash_room ht \<le> Suc (hash_room ht')" "ledger w' = (os_live w - hash_owns ht + hash_owns ht', os_fault w)"
      by blast
    then show ?thesis
      using ht(1) map_spec.spec_put [of "read_bytes m" p n v "hash_map m (h_buckets ht)"]
      by (simp add: hash_put_op_def hash_good_def hash_abs_def hash_room_op_def ledger_def)
  qed
  show "hash_get_op m node p n h =
      Some (case hash_abs m h (read_bytes m p n) of None \<Rightarrow> NULL | Some v \<Rightarrow> v, h)"
    using hash_get_ok [OF ht(2,4) key] ht(1) by (simp add: hash_get_op_def hash_abs_def)
  obtain ht' where "nkit_hash_remove m node (Some ht) p n =
      Some (if hash_map m (h_buckets ht) (read_bytes m p n) = None then - 1 else 0, Some ht')"
    "hash_ok m ht'" "h_lock ht' = None" "h_arena ht' = h_arena ht" "h_addr ht' = h_addr ht"
    "hash_room ht \<le> hash_room ht'"
    "hash_map m (h_buckets ht') = (hash_map m (h_buckets ht))(read_bytes m p n := None)"
    using hash_remove_ok [OF ht(2,4) key] by blast
  then show "\<exists>h' w'. hash_remove_op m node p n h w =
      Some (if hash_abs m h (read_bytes m p n) = None then - 1 else 0, h', w') \<and> hash_good m h' w' \<and>
      hash_room_op h \<le> hash_room_op h' \<and> os_fault w' = os_fault w \<and>
      hash_abs m h' = (hash_abs m h)(read_bytes m p n := None)"
    using ht by (simp add: hash_remove_op_def hash_good_def hash_abs_def hash_room_op_def hash_valid_def hash_owns_def)
qed

end
