(* ===== verification/NK_Hash_Thms.thy ===== *)
theory NK_Hash_Thms
  imports NK_Hash_Correct
begin

section \<open>The hash table: properties\<close>

text \<open>The theorems of the hash table, with concrete tables on which their hypotheses hold.\<close>

subsection \<open>Concrete tables\<close>

text \<open>
  A memory in which the byte at an address is the low byte of the address, so that one-byte keys can
  be given by their address.
\<close>

definition echo_mem :: mem where
  "echo_mem p = ucast p"

lemma echo_key: "read_bytes echo_mem p 1 = [ucast p]"
  by (simp add: read_bytes_def echo_mem_def)

definition demo_hash :: nkit_hash where
  "demo_hash = the (fst (nkit_hash_create 0 16 demo_os))"

lemma demo_hash_create: "nkit_hash_create 0 16 demo_os = (Some demo_hash, snd (nkit_hash_create 0 16 demo_os))"
proof -
  have "next_power_of_2 16 = 16" by code_simp
  then have "fst (nkit_hash_create 0 16 demo_os) \<noteq> None"
    by (simp add: nkit_hash_create_def NKIT_HASH_MIN_CAPACITY_def sizeof_bucket_def sizeof_hash_def
      nkit_arena_create_def nkit_arena_alloc_def demo_os_def os_prim_defs os_alloc_def os_ask_def os_ask_int_def
      HUGE_PAGE_SIZE_def sizeof_arena_def MAP_FAILED_def)
  then show ?thesis by (auto simp: demo_hash_def prod_eq_iff)
qed

lemma demo_hash_good: "hash_good echo_mem (Some demo_hash) (snd (nkit_hash_create 0 16 demo_os))"
  using hash_create_Some(1) [OF mmap_ok_demo_os demo_hash_create, of echo_mem]
    hash_create_Some(2,3,5,6) [OF mmap_ok_demo_os demo_hash_create]
  by (simp add: hash_good_def ledger_def)

lemma demo_hash_room: "hash_room_op (Some demo_hash) = 16" "h_count demo_hash = 0"
proof -
  have "next_power_of_2 16 = 16" by code_simp
  then show "hash_room_op (Some demo_hash) = 16" "h_count demo_hash = 0"
    using hash_create_Some(7,8) [OF mmap_ok_demo_os demo_hash_create]
    by (simp_all add: hash_room_op_def hash_room_def rounded_capacity_def NKIT_HASH_MIN_CAPACITY_def)
qed

text \<open>A full table of 16 buckets: bucket \<open>i\<close> holds a one-byte key whose hash has the low bits \<open>i\<close>.\<close>

definition full_bucket :: "nat \<Rightarrow> nkit_bucket" where
  "full_bucket i = (let p = 16 + (((of_nat i * 11) AND 15) XOR 5) in
     \<lparr>b_hash = fnv1a_bytes [ucast (p :: ptr)], b_key = p, b_key_len = 1, b_value = p\<rparr>)"

definition full_hash :: nkit_hash where
  "full_hash = \<lparr>h_addr = 65536, h_buckets = map full_bucket [0..<16], h_capacity = 16, h_mask = 15,
     h_count = 16, h_arena = None, h_lock = None, h_node_id = 0\<rparr>"


lemma upt16: "[0..<16] = [0,1,2,3,4,5,6,7,8,9,10,11,12,13,14,15::nat]"
  by (simp add: upt_rec)


lemmas full_simps = full_hash_def full_bucket_def upt16 fnv1a_bytes_def

lemma full_homes: "map (home 16) (h_buckets full_hash) = [0..<16]"
  by (simp add: full_simps home_def)

lemma full_occupied: "list_all occupied (h_buckets full_hash)"
  by (simp add: full_simps occupied_def)

lemma full_keys: "map (key_bytes echo_mem) (h_buckets full_hash) =
    [[21], [30], [19], [20], [25], [18], [23], [24], [29], [22], [27], [28], [17], [26], [31], [16]]"
  by (simp add: full_simps key_bytes_def echo_key)

lemma distinct_keysI:
  assumes "distinct (map (key_bytes m) (filter occupied bs))"
  shows "distinct_keys m (entries bs)"
  using assms
proof (induction bs)
  case (Cons b bs)
  show ?case
  proof (cases "occupied b")
    case True
    then have "entries (b # bs) = add_mset b (entries bs)" by (simp add: entries_def)
    moreover have "key_bytes m c \<noteq> key_bytes m b" if "c \<in># entries bs" for c
      using that Cons.prems True by (auto simp: in_entries image_iff)
    ultimately show ?thesis using Cons True by (simp add: distinct_keys_insert)
  qed (use Cons in \<open>simp add: entries_def\<close>)
qed (simp add: entries_def distinct_keys_def)

lemma full_homes_nth: "homes (h_buckets full_hash) i = (if i < 16 then Some i else None)"
proof -
  have len: "length (h_buckets full_hash) = 16" by (simp add: full_hash_def)
  show ?thesis
  proof (cases "i < 16")
    case True
    then have "home 16 (h_buckets full_hash ! i) = i"
      using arg_cong [OF full_homes, of "\<lambda>l. l ! i"] len by simp
    moreover have "occupied (h_buckets full_hash ! i)" using full_occupied True len by (simp add: list_all_length)
    ultimately show ?thesis using True len by (simp add: homes_def)
  qed (use len in \<open>simp add: homes_def\<close>)
qed

lemma full_hash_ok: "hash_ok echo_mem full_hash"
proof -
  let ?bs = "h_buckets full_hash"
  have len: "length ?bs = 2 ^ 4" "h_capacity full_hash = 2 ^ 4" "h_mask full_hash = 2 ^ 4 - 1"
    by (simp_all add: full_hash_def)
  have count: "unat (h_count full_hash) = 16" by (simp add: full_hash_def)
  have occ: "filter occupied ?bs = ?bs" using full_occupied by (simp add: list_all_iff)
  have "pd 16 h i = 0" if "homes ?bs i = Some h" for h i
    using that by (auto simp: full_homes_nth pd_def split: if_splits)
  then have "rh (2 ^ 4) (homes ?bs)" and an: "anchored ?bs"
    using len(1) by (auto simp: rh_def anchored_def intro!: exI [of _ 0])
  moreover have "distinct_keys echo_mem (entries ?bs)"
    by (rule distinct_keysI) (simp add: occ full_keys)
  moreover have "b_hash b = fnv1a_bytes (key_bytes echo_mem b)" if "b \<in> set ?bs" for b
    using that by (auto simp: full_hash_def full_bucket_def Let_def key_bytes_def echo_key)
  moreover have "size (entries ?bs) = 16" using occ len(1) by (simp add: size_entries)
  ultimately show ?thesis
    unfolding hash_ok_def using len
    by (intro conjI exI [of _ 4]) (simp_all add: table_shape_def in_entries count)
qed

lemma full_map: "hash_map echo_mem (h_buckets full_hash) = map_of
    [([21], 21), ([30], 30), ([19], 19), ([20], 20), ([25], 25), ([18], 18), ([23], 23), ([24], 24), ([29], 29), ([22], 22), ([27], 27), ([28], 28), ([17], 17), ([26], 26), ([31], 31), ([16], 16)]"
proof -
  have "filter occupied (h_buckets full_hash) = h_buckets full_hash" using full_occupied by (simp add: list_all_iff)
  then show ?thesis by (simp only: hash_map_def) (simp add: full_simps key_bytes_def echo_key)
qed

subsection \<open>Properties\<close>



text \<open>
  One \<^verbatim>\<open>nkit_hash_put\<close>, with the memory it uses: if a bucket is free, or the key is present, the
  call returns 0, the table maps the key to the value and every other key as before, the resize
  that may happen on the way loses no entry and replaces what the table owns, nothing leaks.
\<close>

theorem hash_put_refines:
  assumes "hash_good m (Some ht) w" and "key \<noteq> NULL" and "key_len \<noteq> 0"
    and "h_count ht < h_capacity ht \<or> hash_map m (h_buckets ht) (read_bytes m key key_len) \<noteq> None"
  shows "\<exists>ht' w'. nkit_hash_put m node (Some ht) key key_len v w = Some (0, Some ht', w') \<and>
     hash_good m (Some ht') w' \<and>
     hash_map m (h_buckets ht') = (hash_map m (h_buckets ht))(read_bytes m key key_len \<mapsto> v) \<and>
     ledger w' = (os_live w - hash_owns ht + hash_owns ht', os_fault w)"
proof -
  have "hash_ok m ht" "hash_valid ht" "h_lock ht = None" "mmap_ok w" "hash_owns ht \<subseteq># os_live w"
    using assms(1) by (simp_all add: hash_good_def)
  from hash_put_ok [OF this assms(2-4), of node v] show ?thesis
    by (auto simp: hash_good_def ledger_def)
qed

theorem hash_put_refines_witness:
  "\<exists>ht' w'. nkit_hash_put echo_mem 1 (Some demo_hash) 7 1 100 (snd (nkit_hash_create 0 16 demo_os))
     = Some (0, Some ht', w') \<and> hash_map echo_mem (h_buckets ht') [7] = Some 100"
proof -
  have "h_count demo_hash < h_capacity demo_hash"
    using demo_hash_room by (simp add: hash_room_op_def hash_room_def word_less_nat_alt)
  then show ?thesis
    using hash_put_refines [OF demo_hash_good, of 7 1 1 100] by (auto simp: echo_key)
qed

text \<open>
  \<^verbatim>\<open>nkit_hash_get\<close> returns, on any table, full ones included: the value of the key, or \<^verbatim>\<open>NULL\<close>
  exactly for a key that was never put or has been removed; the table and its lock are as before.
\<close>

theorem hash_get_refines:
  assumes "hash_ok m ht" and "h_lock ht = None" and "key \<noteq> NULL" and "key_len \<noteq> 0"
  shows "nkit_hash_get m node (Some ht) key key_len =
    Some (case hash_map m (h_buckets ht) (read_bytes m key key_len) of None \<Rightarrow> NULL | Some v \<Rightarrow> v, Some ht)"
  using assms by (rule hash_get_ok)

theorem hash_get_refines_witness:
  "nkit_hash_get echo_mem 1 (Some full_hash) 21 1 = Some (21, Some full_hash) \<and>
   nkit_hash_get echo_mem 1 (Some full_hash) 32 1 = Some (NULL, Some full_hash)"
proof -
  have l: "h_lock full_hash = None" by (simp add: full_hash_def)
  have "hash_map echo_mem (h_buckets full_hash) [21] = Some 21"
    "hash_map echo_mem (h_buckets full_hash) [32] = None"
    by (simp_all add: full_map)
  then show ?thesis
    using hash_get_refines [OF full_hash_ok l, of 21 1 1] hash_get_refines [OF full_hash_ok l, of 32 1 1]
    by (simp add: echo_key)
qed

text \<open>
  \<^verbatim>\<open>nkit_hash_remove\<close> returns; it reports \<^verbatim>\<open>-1\<close> exactly when the key is absent, afterwards the
  key is gone and no other key is affected, and the backward shift restores the Robin Hood
  invariant on which the searches rely.
\<close>

theorem hash_remove_refines:
  assumes "hash_good m (Some ht) w" and "key \<noteq> NULL" and "key_len \<noteq> 0"
  shows "\<exists>ht'. nkit_hash_remove m node (Some ht) key key_len =
      Some (if hash_map m (h_buckets ht) (read_bytes m key key_len) = None then - 1 else 0, Some ht') \<and>
     hash_good m (Some ht') w \<and>
     hash_map m (h_buckets ht') = (hash_map m (h_buckets ht))(read_bytes m key key_len := None)"
proof -
  have g: "hash_ok m ht" "h_lock ht = None" "hash_valid ht" "hash_owns ht \<subseteq># os_live w" "mmap_ok w"
    using assms(1) by (simp_all add: hash_good_def)
  from hash_remove_ok [OF g(1,2) assms(2,3), of node] obtain ht' where
    "nkit_hash_remove m node (Some ht) key key_len =
      Some (if hash_map m (h_buckets ht) (read_bytes m key key_len) = None then - 1 else 0, Some ht')"
    "hash_ok m ht'" "h_lock ht' = None" "h_arena ht' = h_arena ht" "h_addr ht' = h_addr ht"
    "hash_map m (h_buckets ht') = (hash_map m (h_buckets ht))(read_bytes m key key_len := None)" by blast
  then show ?thesis using g(3-5) by (simp add: hash_good_def hash_valid_def hash_owns_def)
qed

theorem hash_remove_refines_witness:
  "\<exists>ht'. nkit_hash_remove echo_mem 1 (Some demo_hash) 7 1 = Some (- 1, Some ht') \<and>
     hash_map echo_mem (h_buckets ht') [7] = None"
proof -
  have "hash_map echo_mem (h_buckets demo_hash) = Map.empty"
    using hash_create_Some(4) [OF mmap_ok_demo_os demo_hash_create] .
  then show ?thesis using hash_remove_refines [OF demo_hash_good, of 7 1 1] by (auto simp: echo_key)
qed

text \<open>
  C28. A full table that cannot grow: \<^verbatim>\<open>nkit_hash_put\<close> of a new key never returns, and holds the
  lock while it loops. The header promises \<^verbatim>\<open>-1\<close> for a full table, but no path of the code
  returns it: a failed resize is ignored, and the insertion loop ends only at a free bucket or at
  the key itself.
\<close>

theorem hash_put_full_diverges:
  assumes "hash_ok m ht" and "h_count ht = h_capacity ht" and "h_lock ht = None"
    and "key \<noteq> NULL" and "key_len \<noteq> 0"
    and "hash_map m (h_buckets ht) (read_bytes m key key_len) = None"
    and "fst (nkit_arena_create (h_node_id ht) (sizeof_bucket * (h_capacity ht * 2)) w) = None"
  shows "nkit_hash_put m node (Some ht) key key_len v w = None"
proof -
  let ?l = "ht\<lparr>h_lock := Some node\<rparr>" and ?bs = "h_buckets ht" and ?x = "read_bytes m key key_len"
  let ?cur = "\<lparr>b_hash = nkit_fnv1a m key key_len, b_key = key, b_key_len = key_len, b_value = v\<rparr>"
  obtain k where k: "k \<le> 57" "h_capacity ht = 2 ^ k" "table_shape k ht" "length ?bs = 2 ^ k" "h_mask ht = 2 ^ k - 1"
    using hash_okE [OF assms(1)] by blast
  note ok = hash_okD [OF assms(1)]
  have cur: "occupied ?cur" "key_bytes m ?cur = ?x"
    by (simp_all add: occupied_def key_bytes_def nkit_fnv1a_def fnv1a_nonzero)
  have "length (filter occupied ?bs) = length ?bs"
    using ok(4) assms(2) k(1,2,4) by (simp add: size_entries unat_exp)
  then have "\<forall>b \<in> set ?bs. occupied b" using length_filter_less [of _ ?bs occupied] by fastforce
  moreover have "distinct_keys m (add_mset ?cur (entries ?bs))"
    using ok(2) hash_map_None [OF ok(2)] assms(6) cur(2) by (intro distinct_keys_insert) auto
  moreover have "table_shape k ?l" using k(3) by (simp add: table_shape_def)
  ultimately have "hash_put_loop m False ?l ?cur (nkit_fnv1a m key key_len AND h_mask ht) 0 = None"
    using hash_put_loop_full [of k ?l "nkit_fnv1a m key key_len AND h_mask ht" ?cur m 0] cur(1) k(5)
    by (simp add: unat_and_exp_minus_1)
  then have "nkit_hash_put_internal m ?l (nkit_fnv1a m key key_len) key key_len v False = None"
    by (simp add: nkit_hash_put_internal_def)
  moreover have "\<exists>w1. nkit_hash_resize m ?l w = Some (?l, w1)"
    using assms(7) by (auto simp: nkit_hash_resize_def Let_def case_prod_beta split: option.splits)
  ultimately show ?thesis
    using assms(3-5) by (auto simp: nkit_hash_put_def mcs_solo_lock_def Let_def)
qed

theorem hash_put_full_diverges_witness:
  "nkit_hash_put echo_mem 1 (Some full_hash) 32 1 5 (demo_os\<lparr>os_answer := \<lambda>_ _. - 1\<rparr>) = None"
proof (rule hash_put_full_diverges [OF full_hash_ok])
  show "hash_map echo_mem (h_buckets full_hash) (read_bytes echo_mem 32 1) = None"
    by (simp add: echo_key full_map)
  show "fst (nkit_arena_create (h_node_id full_hash) (sizeof_bucket * (h_capacity full_hash * 2))
      (demo_os\<lparr>os_answer := \<lambda>_ _. - 1\<rparr>)) = None"
    by (simp add: full_hash_def sizeof_bucket_def nkit_arena_create_def os_prim_defs os_alloc_def os_ask_def
      demo_os_def MAP_FAILED_def Let_def)
qed (simp_all add: full_hash_def)

text \<open>
  C29. Creating a table: if it fails, every resource acquired on the way has been released; if it
  succeeds, the table is empty and well formed, its capacity is the least power of two that is at
  least 16 and at least the requested one, and destroying it releases exactly what it owns.
\<close>

theorem hash_create_destroy:
  assumes "mmap_ok w"
  shows "(case nkit_hash_create node_id cap w of
      (None, w') \<Rightarrow> ledger w' = ledger w
    | (Some ht, w') \<Rightarrow> hash_good m (Some ht) w' \<and> hash_map m (h_buckets ht) = Map.empty \<and>
        (\<exists>k \<ge> 4. h_capacity ht = 2 ^ k \<and> unat cap \<le> 2 ^ k \<and> (\<forall>j \<ge> 4. unat cap \<le> 2 ^ j \<longrightarrow> k \<le> j)) \<and>
        ledger (nkit_hash_destroy (Some ht) w') = ledger w)"
proof (cases "nkit_hash_create node_id cap w")
  case (Pair h w')
  show ?thesis
  proof (cases h)
    case None
    then show ?thesis using htab.create_None [OF assms] Pair by simp
  next
    case (Some ht)
    note mk = Pair [unfolded Some]
    note c = hash_create_Some(1) [OF assms mk, of m] hash_create_Some(2,3,5,6,7) [OF assms mk]
    have "h_capacity ht \<noteq> 0" using c(1) by (auto simp: hash_ok_def unat_exp simp flip: unat_eq_0)
    then show ?thesis
      using mk c hash_create_Some(4) [OF assms mk, of m] htab.create_destroy [OF assms mk]
        rounded_capacity_exp [of cap]
      by (auto simp: hash_good_def ledger_def)
  qed
qed

theorem hash_create_destroy_witness:
  "mmap_ok demo_os \<and> ledger (nkit_hash_destroy (Some demo_hash) (snd (nkit_hash_create 0 16 demo_os))) = ({#}, False)"
proof -
  have "ledger (nkit_hash_destroy (Some demo_hash) (snd (nkit_hash_create 0 16 demo_os))) = ledger demo_os"
    using hash_create_destroy [OF mmap_ok_demo_os, where node_id = 0 and cap = 16 and m = echo_mem]
    by (subst (asm) demo_hash_create) simp
  then show ?thesis using mmap_ok_demo_os by (simp add: ledger_def demo_os_def)
qed

end
