(* ===== verification/NK_Queue_Spec.thy ===== *)
theory NK_Queue_Spec
  imports NK_Prelude
begin

section \<open>The contract of a bounded queue\<close>

text \<open>
  What the clients of the ring buffer (the slab allocator's free-list and the node mailboxes) rely
  on: \<open>rep s q\<close> says that the state \<open>s\<close> holds the items \<open>q\<close>, oldest first. A push of a full queue
  and a pop of an empty one fail and change nothing; neither call blocks.
\<close>

text \<open>Runs of pushes (\<open>Some x\<close>) and pops (\<^const>\<open>None\<close>), on an implementation and on a list.\<close>

fun queue_run ::
  "('s \<Rightarrow> ptr \<Rightarrow> (bool \<times> 's) option) \<Rightarrow> ('s \<Rightarrow> (ptr option \<times> 's) option) \<Rightarrow> 's \<Rightarrow> ptr option list \<Rightarrow>
   (ptr option list \<times> 's) option"
where
  "queue_run push pop s [] = Some ([], s)"
| "queue_run push pop s (Some x # ops) =
    (case push s x of None \<Rightarrow> None | Some (_, s') \<Rightarrow> queue_run push pop s' ops)"
| "queue_run push pop s (None # ops) =
    (case pop s of None \<Rightarrow> None
     | Some (r, s') \<Rightarrow> map_option (\<lambda>(rs, t). (r # rs, t)) (queue_run push pop s' ops))"

fun queue_spec :: "nat \<Rightarrow> ptr list \<Rightarrow> ptr option list \<Rightarrow> ptr option list \<times> ptr list" where
  "queue_spec n q [] = ([], q)"
| "queue_spec n q (Some x # ops) = queue_spec n (if length q < n then q @ [x] else q) ops"
| "queue_spec n [] (None # ops) = (case queue_spec n [] ops of (rs, q) \<Rightarrow> (None # rs, q))"
| "queue_spec n (x # q) (None # ops) = (case queue_spec n q ops of (rs, q) \<Rightarrow> (Some x # rs, q))"

locale bounded_queue =
  fixes rep :: "'s \<Rightarrow> ptr list \<Rightarrow> bool"
    and cap :: "'s \<Rightarrow> nat"
    and push :: "'s \<Rightarrow> ptr \<Rightarrow> (bool \<times> 's) option"
    and pop :: "'s \<Rightarrow> (ptr option \<times> 's) option"
  assumes rep_cap: "rep s q \<Longrightarrow> length q \<le> cap s"
    and push_ok: "rep s q \<Longrightarrow> length q < cap s \<Longrightarrow>
      \<exists>s'. push s x = Some (True, s') \<and> rep s' (q @ [x]) \<and> cap s' = cap s"
    and push_full: "rep s q \<Longrightarrow> length q = cap s \<Longrightarrow> push s x = Some (False, s)"
    and pop_ok: "rep s (x # q) \<Longrightarrow> \<exists>s'. pop s = Some (Some x, s') \<and> rep s' q \<and> cap s' = cap s"
    and pop_empty: "rep s [] \<Longrightarrow> pop s = Some (None, s)"
begin

text \<open>A client that pushes and pops in any order sees a first-in first-out queue of bounded length.\<close>

lemma run_fifo:
  assumes "rep s q"
  shows "\<exists>s'. queue_run push pop s ops = Some (fst (queue_spec (cap s) q ops), s') \<and>
     rep s' (snd (queue_spec (cap s) q ops)) \<and> cap s' = cap s"
  using assms
proof (induction ops arbitrary: s q)
  case (Cons op ops)
  show ?case
  proof (cases op)
    case (Some x)
    show ?thesis
    proof (cases "length q < cap s")
      case True
      then obtain s1 where s1: "push s x = Some (True, s1)" "rep s1 (q @ [x])" "cap s1 = cap s"
        using push_ok [OF Cons.prems, of x] by auto
      then show ?thesis using Cons.IH [OF s1(2)] Some True by simp
    next
      case False
      then have "push s x = Some (False, s)" using push_full [OF Cons.prems] rep_cap [OF Cons.prems] by simp
      then show ?thesis using Cons.IH [OF Cons.prems] Some False by simp
    qed
  next
    case None
    show ?thesis
    proof (cases q)
      case Nil
      then have s: "rep s []" "pop s = Some (None, s)" using Cons.prems pop_empty by auto
      then obtain s' where "queue_run push pop s ops = Some (fst (queue_spec (cap s) [] ops), s')"
        "rep s' (snd (queue_spec (cap s) [] ops))" "cap s' = cap s" using Cons.IH by blast
      then show ?thesis using s None Nil by (simp add: case_prod_beta)
    next
      case q: (Cons x r)
      with Cons.prems obtain s1 where s1: "pop s = Some (Some x, s1)" "rep s1 r" "cap s1 = cap s"
        using pop_ok by blast
      then obtain s' where "queue_run push pop s1 ops = Some (fst (queue_spec (cap s) r ops), s')"
        "rep s' (snd (queue_spec (cap s) r ops))" "cap s' = cap s" using Cons.IH [OF s1(2)] by auto
      then show ?thesis using s1 None q by (simp add: case_prod_beta)
    qed
  qed
qed simp

end

end
