(* ===== verification/NK_Ring.thy ===== *)
theory NK_Ring
  imports NK_Arena NK_Queue_Spec
begin

section \<open>The ring buffer (\<^verbatim>\<open>include/numakit/structs/ring_buffer.h\<close>, \<^verbatim>\<open>src/structs/ring_buffer.c\<close>)\<close>

text \<open>
  Every cell carries a sequence number that says whose turn it is. \<open>head\<close> and \<open>tail\<close> are 64-bit
  counters that are masked on access and wrap around; the differences the code tests are signed.
  This theory models the calls as one thread runs them; the interleavings of many producers and
  consumers are in \<open>NK_Ring_Mpmc\<close>. A loop that never returns is \<^const>\<open>None\<close>.
\<close>

record nkit_cell =
  c_sequence :: u64
  c_data :: ptr

record nkit_ring =
  rg_addr :: ptr
  rg_head :: u64
  rg_tail :: u64
  rg_capacity :: u64
  rg_mask :: u64
  rg_cells :: "nkit_cell list"
  rg_arena :: "nkit_arena option"

definition sizeof_ring :: u64 where
  "sizeof_ring = 384"

definition sizeof_cell :: u64 where
  "sizeof_cell = 16"

definition nkit_ring_create :: "int \<Rightarrow> u64 \<Rightarrow> os \<Rightarrow> nkit_ring option \<times> os" where
  "nkit_ring_create node_id capacity w =
    (if capacity < 2 \<or> capacity AND (capacity - 1) \<noteq> 0 then (None, w) else
     let struct_sz = sizeof_ring;
         cells_sz = sizeof_cell * capacity;
         total_sz = struct_sz + cells_sz in
     case nkit_arena_create node_id total_sz w of
       (None, w1) \<Rightarrow> (None, w1)
     | (Some a, w1) \<Rightarrow>
       case nkit_arena_alloc (Some a) total_sz of (block, arena) \<Rightarrow>
       if block = NULL then (None, nkit_arena_destroy arena w1) else
       (Some \<lparr>rg_addr = block, rg_head = 0, rg_tail = 0, rg_capacity = capacity, rg_mask = capacity - 1,
              rg_cells = map (\<lambda>i. \<lparr>c_sequence = of_nat i, c_data = NULL\<rparr>) [0..<unat capacity],
              rg_arena = arena\<rparr>, w1))"

definition nkit_ring_free :: "nkit_ring option \<Rightarrow> os \<Rightarrow> os" where
  "nkit_ring_free r w =
    (case r of None \<Rightarrow> w
     | Some ring \<Rightarrow> if rg_arena ring \<noteq> None then nkit_arena_destroy (rg_arena ring) w else w)"

partial_function (option) ring_push_loop :: "nkit_ring \<Rightarrow> ptr \<Rightarrow> u64 \<Rightarrow> (bool \<times> nkit_ring) option" where
  "ring_push_loop ring item head =
    (let i = unat (head AND rg_mask ring);
         seq = c_sequence (rg_cells ring ! i);
         diff = sint (seq - head) in
     if diff = 0 then
       (if rg_head ring = head then
          Some (True, ring\<lparr>rg_head := head + 1,
            rg_cells := (rg_cells ring)[i := \<lparr>c_sequence = head + 1, c_data = item\<rparr>]\<rparr>)
        else ring_push_loop ring item (rg_head ring))
     else if diff < 0 then Some (False, ring)
     else ring_push_loop ring item (rg_head ring))"

definition nkit_ring_push :: "nkit_ring \<Rightarrow> ptr \<Rightarrow> (bool \<times> nkit_ring) option" where
  "nkit_ring_push ring item = ring_push_loop ring item (rg_head ring)"

partial_function (option) ring_pop_loop :: "nkit_ring \<Rightarrow> u64 \<Rightarrow> (ptr option \<times> nkit_ring) option" where
  "ring_pop_loop ring tail =
    (let i = unat (tail AND rg_mask ring);
         cell = rg_cells ring ! i;
         diff = sint (c_sequence cell - (tail + 1)) in
     if diff = 0 then
       (if rg_tail ring = tail then
          Some (Some (c_data cell), ring\<lparr>rg_tail := tail + 1,
            rg_cells := (rg_cells ring)[i := cell\<lparr>c_sequence := tail + rg_mask ring + 1\<rparr>]\<rparr>)
        else ring_pop_loop ring (rg_tail ring))
     else if diff < 0 then Some (None, ring)
     else ring_pop_loop ring (rg_tail ring))"

definition nkit_ring_pop :: "nkit_ring \<Rightarrow> (ptr option \<times> nkit_ring) option" where
  "nkit_ring_pop ring = ring_pop_loop ring (rg_tail ring)"

subsection \<open>The queue a ring represents\<close>

text \<open>
  With \<open>t\<close> the number of items popped so far, the cells from \<open>t\<close> on hold the items, one turn ahead
  of their position; the others wait for the position they will serve next.
\<close>

definition ring_cell_ok :: "nat \<Rightarrow> ptr list \<Rightarrow> nat \<Rightarrow> nkit_cell \<Rightarrow> bool" where
  "ring_cell_ok t q j c \<longleftrightarrow> (if j < length q then c_sequence c = of_nat (t + j + 1) \<and> c_data c = q ! j
     else c_sequence c = of_nat (t + j))"

definition ring_at :: "nat \<Rightarrow> nat \<Rightarrow> nkit_ring \<Rightarrow> ptr list \<Rightarrow> bool" where
  "ring_at k t ring q \<longleftrightarrow> 0 < k \<and> k < 64 \<and> rg_capacity ring = 2 ^ k \<and> rg_mask ring = 2 ^ k - 1
     \<and> length (rg_cells ring) = 2 ^ k \<and> length q \<le> 2 ^ k
     \<and> rg_tail ring = of_nat t \<and> rg_head ring = of_nat (t + length q)
     \<and> (\<forall>j < 2 ^ k. ring_cell_ok t q j (rg_cells ring ! ((t + j) mod 2 ^ k)))"

definition ring_rep :: "nkit_ring \<Rightarrow> ptr list \<Rightarrow> bool" where
  "ring_rep ring q \<longleftrightarrow> (\<exists>k t. ring_at k t ring q)"

lemma ring_atD:
  assumes "ring_at k t ring q"
  shows "0 < k" "k < 64" "rg_capacity ring = 2 ^ k" "rg_mask ring = 2 ^ k - 1"
    "length (rg_cells ring) = 2 ^ k" "length q \<le> 2 ^ k"
    "rg_tail ring = of_nat t" "rg_head ring = of_nat (t + length q)"
    "\<And>j. j < 2 ^ k \<Longrightarrow> ring_cell_ok t q j (rg_cells ring ! ((t + j) mod 2 ^ k))"
  using assms unfolding ring_at_def by blast+

lemma unat_of_nat_and_mask:
  "k \<le> 64 \<Longrightarrow> unat (of_nat t AND (2 ^ k - 1) :: u64) = t mod 2 ^ k"
  using mod_mod_cancel [OF le_imp_power_dvd [of k 64 "2::nat"]] by (simp add: unat_and_exp_minus_1 unat_of_nat)

lemma ring_push_room:
  assumes "ring_at k t ring q" and "length q < 2 ^ k"
  shows "\<exists>ring'. nkit_ring_push ring x = Some (True, ring') \<and> ring_at k t ring' (q @ [x]) \<and>
     rg_arena ring' = rg_arena ring \<and> rg_addr ring' = rg_addr ring"
proof -
  note at = ring_atD [OF assms(1)]
  let ?l = "length q" and ?i = "(t + length q) mod 2 ^ k" and ?h = "rg_head ring"
  have i: "unat (?h AND rg_mask ring) = ?i"
    unfolding at(4,8) using at(2) by (intro unat_of_nat_and_mask) simp
  have "c_sequence (rg_cells ring ! ?i) = ?h"
    using at(9) [OF assms(2)] at(8) by (simp add: ring_cell_ok_def)
  then have push: "nkit_ring_push ring x = Some (True, ring\<lparr>rg_head := ?h + 1,
      rg_cells := (rg_cells ring)[?i := \<lparr>c_sequence = ?h + 1, c_data = x\<rparr>]\<rparr>)"
    unfolding nkit_ring_push_def using i by (subst ring_push_loop.simps) (simp add: Let_def)
  let ?cs = "(rg_cells ring)[?i := \<lparr>c_sequence = ?h + 1, c_data = x\<rparr>]"
  have "ring_cell_ok t (q @ [x]) j (?cs ! ((t + j) mod 2 ^ k))" if j: "j < 2 ^ k" for j
  proof (cases "j = ?l")
    case True
    then show ?thesis using at(5,8) by (simp add: ring_cell_ok_def nth_append add.commute)
  next
    case False
    then have "(t + j) mod 2 ^ k \<noteq> ?i" using slots_distinct [OF _ j assms(2)] by blast
    then show ?thesis using at(9) [OF j] False by (simp add: ring_cell_ok_def nth_append)
  qed
  then have "ring_at k t (ring\<lparr>rg_head := ?h + 1, rg_cells := ?cs\<rparr>) (q @ [x])"
    unfolding ring_at_def using at(1-8) assms(2) by (simp add: add.commute)
  with push show ?thesis by simp
qed

lemma ring_push_full:
  assumes "ring_at k t ring q" and "length q = 2 ^ k"
  shows "nkit_ring_push ring x = Some (False, ring)"
proof -
  note at = ring_atD [OF assms(1)]
  let ?i = "t mod 2 ^ k" and ?h = "rg_head ring"
  have i: "unat (?h AND rg_mask ring) = ?i"
    unfolding at(4,8) using at(2) assms(2) unat_of_nat_and_mask [of k "t + 2 ^ k"] by simp
  have n: "(1::nat) < 2 ^ k" "(2::nat) ^ k \<le> 2 ^ 63"
    using at(1,2) power_increasing [of k 63 "2::nat"] one_less_power [of "2::nat" k] by simp_all
  have "c_sequence (rg_cells ring ! ?i) = of_nat (t + 1)"
    using at(9) [of 0] assms(2) by (simp add: ring_cell_ok_def)
  then have "sint (c_sequence (rg_cells ring ! ?i) - ?h) = int (t + 1) - int (t + 2 ^ k)"
    using sint_diff_of_nat [of "t + 2 ^ k" "t + 1"] at(8) assms(2) n by simp
  then have "sint (c_sequence (rg_cells ring ! ?i) - ?h) < 0" using n by linarith
  then show ?thesis
    unfolding nkit_ring_push_def using i by (subst ring_push_loop.simps) (simp add: Let_def)
qed

lemma ring_pop_item:
  assumes "ring_at k t ring (x # q)"
  shows "\<exists>ring'. nkit_ring_pop ring = Some (Some x, ring') \<and> ring_at k (t + 1) ring' q \<and>
     rg_arena ring' = rg_arena ring \<and> rg_addr ring' = rg_addr ring"
proof -
  note at = ring_atD [OF assms]
  let ?i = "t mod 2 ^ k" and ?t = "rg_tail ring" and ?c = "rg_cells ring ! (t mod 2 ^ k)"
  have i: "unat (?t AND rg_mask ring) = ?i"
    unfolding at(4,7) using at(2) by (intro unat_of_nat_and_mask) simp
  have n: "0 < (2::nat) ^ k" by simp
  have c: "c_sequence ?c = ?t + 1" "c_data ?c = x"
    using at(9) [OF n] at(7) by (simp_all add: ring_cell_ok_def add.commute)
  have m: "?t + rg_mask ring + 1 = of_nat (t + 2 ^ k)" using at(4,7) by simp
  let ?cs = "(rg_cells ring)[?i := ?c\<lparr>c_sequence := of_nat (t + 2 ^ k)\<rparr>]"
  have pop: "nkit_ring_pop ring = Some (Some x, ring\<lparr>rg_tail := ?t + 1, rg_cells := ?cs\<rparr>)"
    unfolding nkit_ring_pop_def using i c m by (subst ring_pop_loop.simps) (simp add: Let_def)
  have "ring_cell_ok (t + 1) q j (?cs ! ((t + 1 + j) mod 2 ^ k))" if j: "j < 2 ^ k" for j
  proof (cases "j + 1 = 2 ^ k")
    case True
    then have "(t + 1 + j) mod 2 ^ k = ?i" by (metis add.assoc add.commute mod_add_self2)
    moreover have "\<not> j < length q" using at(6) True by simp
    moreover have "(of_nat (2 ^ k) :: u64) = of_nat (j + 1)" using True by simp
    ultimately show ?thesis using at(5) by (simp add: ring_cell_ok_def)
  next
    case False
    then have j1: "j + 1 < 2 ^ k" using j by simp
    then have "(t + (j + 1)) mod 2 ^ k \<noteq> ?i" using slots_distinct [of t "j + 1" "2 ^ k" 0] n by auto
    then show ?thesis using at(9) [OF j1] by (simp add: ring_cell_ok_def)
  qed
  then have "ring_at k (t + 1) (ring\<lparr>rg_tail := ?t + 1, rg_cells := ?cs\<rparr>) q"
    unfolding ring_at_def using at(1-8) by (simp add: add.commute)
  with pop show ?thesis by simp
qed

lemma ring_pop_empty:
  assumes "ring_at k t ring []"
  shows "nkit_ring_pop ring = Some (None, ring)"
proof -
  note at = ring_atD [OF assms]
  let ?i = "t mod 2 ^ k" and ?t = "rg_tail ring"
  have i: "unat (?t AND rg_mask ring) = ?i"
    unfolding at(4,7) using at(2) by (intro unat_of_nat_and_mask) simp
  have "c_sequence (rg_cells ring ! ?i) = of_nat t"
    using at(9) [of 0] by (simp add: ring_cell_ok_def)
  then have "sint (c_sequence (rg_cells ring ! ?i) - (?t + 1)) = - 1"
    using sint_diff_of_nat [of "t + 1" t] at(7) by (simp add: add.commute)
  then show ?thesis
    unfolding nkit_ring_pop_def using i by (subst ring_pop_loop.simps) (simp add: Let_def)
qed

lemma ring_push_arena: "nkit_ring_push r x = Some (b, r') \<Longrightarrow> rg_arena r' = rg_arena r"
proof -
  have "rg_arena r' = rg_arena r" if "ring_push_loop r x h = Some (b, r')" for h
    using that by (rule ring_push_loop.raw_induct
      [where P = "\<lambda>r x h (y :: bool \<times> nkit_ring). rg_arena (snd y) = rg_arena r", of r x h "(b, r')", simplified, rotated])
      (auto simp: Let_def split: if_splits)
  then show "nkit_ring_push r x = Some (b, r') \<Longrightarrow> rg_arena r' = rg_arena r"
    by (simp add: nkit_ring_push_def)
qed

interpretation rq: bounded_queue ring_rep "\<lambda>ring. unat (rg_capacity ring)" nkit_ring_push nkit_ring_pop
proof unfold_locales
  fix ring q x
  show "length q \<le> unat (rg_capacity ring)" if "ring_rep ring q"
    using that ring_atD(2,3,6) by (auto simp: ring_rep_def unat_exp)
  show "\<exists>ring'. nkit_ring_push ring x = Some (True, ring') \<and> ring_rep ring' (q @ [x]) \<and>
      unat (rg_capacity ring') = unat (rg_capacity ring)"
    if rep: "ring_rep ring q" and len: "length q < unat (rg_capacity ring)"
  proof -
    obtain k t where at: "ring_at k t ring q" using rep by (auto simp: ring_rep_def)
    have "length q < 2 ^ k" using len ring_atD(2,3) [OF at] by (simp add: unat_exp)
    then obtain r where "nkit_ring_push ring x = Some (True, r)" "ring_at k t r (q @ [x])"
      using ring_push_room [OF at] by blast
    then show ?thesis using ring_atD(3) [OF at] ring_atD(3) [of k t r "q @ [x]"] by (auto simp: ring_rep_def)
  qed
  show "nkit_ring_push ring x = Some (False, ring)" if rep: "ring_rep ring q" and len: "length q = unat (rg_capacity ring)"
  proof -
    obtain k t where at: "ring_at k t ring q" using rep by (auto simp: ring_rep_def)
    then show ?thesis using ring_push_full [OF at] len ring_atD(2,3) [OF at] by (simp add: unat_exp)
  qed
  show "\<exists>ring'. nkit_ring_pop ring = Some (Some x, ring') \<and> ring_rep ring' q \<and>
      unat (rg_capacity ring') = unat (rg_capacity ring)" if rep: "ring_rep ring (x # q)"
  proof -
    obtain k t where at: "ring_at k t ring (x # q)" using rep by (auto simp: ring_rep_def)
    then obtain r where "nkit_ring_pop ring = Some (Some x, r)" "ring_at k (t + 1) r q"
      using ring_pop_item [OF at] by blast
    then show ?thesis using ring_atD(3) [OF at] ring_atD(3) [of k "t + 1" r q] by (auto simp: ring_rep_def)
  qed
  show "nkit_ring_pop ring = Some (None, ring)" if "ring_rep ring []"
    using that ring_pop_empty by (auto simp: ring_rep_def)
qed

subsection \<open>Creation and destruction\<close>

definition ring_owns :: "nkit_ring \<Rightarrow> os_res multiset" where
  "ring_owns ring = (case rg_arena ring of None \<Rightarrow> {#} | Some a \<Rightarrow> arena_owns a)"

definition ring_valid :: "nkit_ring \<Rightarrow> bool" where
  "ring_valid ring \<longleftrightarrow> (\<exists>a. rg_arena ring = Some a \<and> arena_wf a)"

lemma ring_create_cases:
  assumes "mmap_ok w" and "nkit_ring_create node_id capacity w = (r, w')"
  obtains (bad) "r = None" "w' = w" "\<not> (\<exists>k. 0 < k \<and> k < 64 \<and> capacity = 2 ^ k)"
  | (no_mem) "r = None" "nkit_arena_create node_id (sizeof_ring + sizeof_cell * capacity) w = (None, w')"
  | (made) k a where "0 < k" "k < 64" "capacity = 2 ^ k"
      "nkit_arena_create node_id (sizeof_ring + sizeof_cell * capacity) w = (Some a, w')"
      "r = Some \<lparr>rg_addr = ar_base a, rg_head = 0, rg_tail = 0, rg_capacity = 2 ^ k, rg_mask = 2 ^ k - 1,
         rg_cells = map (\<lambda>i. \<lparr>c_sequence = of_nat i, c_data = NULL\<rparr>) [0..<2 ^ k],
         rg_arena = Some (a\<lparr>ar_used := align_up 6 (sizeof_ring + sizeof_cell * capacity)\<rparr>)\<rparr>"
proof (cases "capacity < 2 \<or> capacity AND (capacity - 1) \<noteq> 0")
  case True
  have "\<not> (\<exists>k. 0 < k \<and> k < 64 \<and> capacity = 2 ^ k)"
  proof
    assume "\<exists>k. 0 < k \<and> k < 64 \<and> capacity = 2 ^ k"
    then obtain k where k: "0 < k" "k < 64" "capacity = 2 ^ k" by blast
    then have "capacity AND (capacity - 1) = 0" using pow2_iff_and_pred [of capacity] by auto
    moreover have "2 \<le> unat capacity" using k power_increasing [of 1 k "2::nat"] by (simp add: unat_exp)
    ultimately show False using True by (simp add: word_less_nat_alt)
  qed
  then show ?thesis using bad True assms(2) by (simp add: nkit_ring_create_def)
next
  case False
  then have "capacity \<noteq> 0" "capacity \<noteq> 1" by (auto simp: word_less_nat_alt)
  then obtain k where k: "k < 64" "capacity = 2 ^ k" using pow2_iff_and_pred [of capacity] False by auto
  then have "0 < k" using \<open>capacity \<noteq> 1\<close> by (cases k) auto
  show ?thesis
  proof (cases "nkit_arena_create node_id (sizeof_ring + sizeof_cell * capacity) w")
    case (Pair h w1)
    show ?thesis
    proof (cases h)
      case None
      then show ?thesis using no_mem Pair False assms(2) by (simp add: nkit_ring_create_def Let_def)
    next
      case (Some a)
      note first = arena_first_alloc_rounded [OF assms(1) Pair [unfolded Some]]
      show ?thesis
        using made [of k a] k \<open>0 < k\<close> Pair Some False first(1,2) assms(2)
        by (auto simp: nkit_ring_create_def Let_def unat_exp)
    qed
  qed
qed

lemma nkit_ring_create_answer: "os_answer (snd (nkit_ring_create node_id capacity w)) = os_answer w"
  by (auto simp: nkit_ring_create_def Let_def case_prod_beta split: option.split)

lemma nkit_ring_free_answer [simp]: "os_answer (nkit_ring_free h w) = os_answer w"
  by (simp add: nkit_ring_free_def split: option.split)

lemma nkit_ring_free_fault: "os_fault w \<Longrightarrow> os_fault (nkit_ring_free h w)"
  by (simp add: nkit_ring_free_def nkit_arena_destroy_def os_simps os_prim_defs split: option.split)

interpretation ring: owned_object mmap_ok "nkit_ring_create node_id capacity"
  "\<lambda>r. nkit_ring_free (Some r)" ring_owns ring_valid for node_id capacity
proof unfold_locales
  fix w w' :: os and r :: nkit_ring
  let ?sz = "sizeof_ring + sizeof_cell * capacity"
  show "ledger w' = ledger w \<and> mmap_ok w'"
    if env: "mmap_ok w" and mk: "nkit_ring_create node_id capacity w = (None, w')"
    using env mk by (cases rule: ring_create_cases) (use env arena.create_None [OF env] in auto)
  show "ledger w' = (os_live w + ring_owns r, os_fault w) \<and> ring_valid r \<and> mmap_ok w'"
    if env: "mmap_ok w" and mk: "nkit_ring_create node_id capacity w = (Some r, w')"
    using env mk
  proof (cases rule: ring_create_cases)
    case (made k a)
    then show ?thesis
      using arena.create_Some [OF env made(4)] arena_first_alloc_rounded(4) [OF env made(4)]
      by (simp add: ring_owns_def ring_valid_def)
  qed simp_all
  show "ledger (nkit_ring_free (Some r) w) = (os_live w - ring_owns r, os_fault w)"
    if "ring_valid r" "ring_owns r \<subseteq># os_live w"
    using that arena.destroy_owned by (auto simp: nkit_ring_free_def ring_valid_def ring_owns_def)
  show "mmap_ok (nkit_ring_free (Some r) w)" if "mmap_ok w"
    using mmap_ok_cong [OF nkit_ring_free_answer [of "Some r" w]] that by simp
qed

lemma ring_create_at:
  assumes "mmap_ok w" and "nkit_ring_create node_id capacity w = (Some r, w')"
  shows "\<exists>k. k < 64 \<and> capacity = 2 ^ k \<and> ring_at k 0 r []" and "rg_capacity r = capacity"
proof -
  from assms obtain k a where k: "0 < k" "k < 64" "capacity = 2 ^ k"
    and r: "r = \<lparr>rg_addr = ar_base a, rg_head = 0, rg_tail = 0, rg_capacity = 2 ^ k, rg_mask = 2 ^ k - 1,
         rg_cells = map (\<lambda>i. \<lparr>c_sequence = of_nat i, c_data = NULL\<rparr>) [0..<2 ^ k],
         rg_arena = Some (a\<lparr>ar_used := align_up 6 (sizeof_ring + sizeof_cell * capacity)\<rparr>)\<rparr>"
    by (cases rule: ring_create_cases) auto
  then have "ring_at k 0 r []" by (simp add: ring_at_def ring_cell_ok_def)
  then show "\<exists>k. k < 64 \<and> capacity = 2 ^ k \<and> ring_at k 0 r []" using k by blast
  show "rg_capacity r = capacity" using k r by simp
qed

lemma ring_create_rep:
  assumes "mmap_ok w" and "nkit_ring_create node_id capacity w = (Some r, w')"
  shows "ring_rep r []" and "rg_capacity r = capacity"
  using ring_create_at [OF assms] unfolding ring_rep_def by blast+

lemma ring_create_arena:
  assumes "mmap_ok w" and "nkit_ring_create node_id capacity w = (Some r, w')"
  shows "\<exists>a k. rg_arena r = Some a \<and> capacity = 2 ^ k \<and> k < 64 \<and>
    ar_size a = align_up 21 (sizeof_ring + sizeof_cell * 2 ^ k) \<and>
    unat (sizeof_ring + sizeof_cell * 2 ^ k) \<le> unat (ar_size a) \<and> unat (ar_size a) < 2 ^ 63"
  using assms
proof (cases rule: ring_create_cases)
  case (made k a)
  note wf = nkit_arena_create_wf [OF assms(1) made(4)]
  show ?thesis
    using made wf nkit_arena_create_Some(3) [OF made(4)]
    by (intro exI [of _ "a\<lparr>ar_used := align_up 6 (sizeof_ring + sizeof_cell * capacity)\<rparr>"] exI [of _ k])
      (simp add: arena_wf_def)
qed simp_all

subsection \<open>Properties\<close>


definition demo_ring :: nkit_ring where
  "demo_ring = \<lparr>rg_addr = 2 ^ 40, rg_head = 0, rg_tail = 0, rg_capacity = 2, rg_mask = 1,
     rg_cells = [\<lparr>c_sequence = 0, c_data = NULL\<rparr>, \<lparr>c_sequence = 1, c_data = NULL\<rparr>],
     rg_arena = Some \<lparr>ar_addr = 4096, ar_base = 2 ^ 40, ar_size = 2097152, ar_used = 448, ar_node_id = 0,
       ar_use_huge = False\<rparr>\<rparr>"

lemma demo_ring: "nkit_ring_create 0 2 demo_os = (Some demo_ring, snd (nkit_ring_create 0 2 demo_os))"
  by (simp add: nkit_ring_create_def nkit_arena_create_def nkit_arena_alloc_def demo_os_def os_prim_defs
      os_alloc_def os_ask_def os_ask_int_def HUGE_PAGE_SIZE_def sizeof_arena_def MAP_FAILED_def
      sizeof_ring_def sizeof_cell_def demo_ring_def Let_def upt_rec)


text \<open>
  Creating a ring leaks nothing and \<open>nkit_ring_free\<close> gives everything back; a capacity that is
  not a power of two, or is less than 2, is refused without touching the platform.
\<close>

theorem ring_create_free_ledger:
  assumes "mmap_ok w"
  shows "(case nkit_ring_create node_id capacity w of
      (None, w') \<Rightarrow> ledger w' = ledger w
    | (Some r, w') \<Rightarrow> ledger w' = (os_live w + ring_owns r, os_fault w)
        \<and> ledger (nkit_ring_free (Some r) w') = ledger w
        \<and> (\<exists>k. 0 < k \<and> k < 64 \<and> capacity = 2 ^ k))"
proof (cases "nkit_ring_create node_id capacity w")
  case (Pair h w')
  show ?thesis
  proof (cases h)
    case (Some r)
    note mk = Pair [unfolded Some]
    from assms mk have "\<exists>k. 0 < k \<and> k < 64 \<and> capacity = 2 ^ k" by (cases rule: ring_create_cases) auto
    then show ?thesis using mk ring.create_Some [OF assms mk] ring.create_destroy [OF assms mk] by simp
  qed (use Pair ring.create_None [OF assms] in simp)
qed

theorem ring_create_free_ledger_witness:
  "ledger (nkit_ring_free (Some demo_ring) (snd (nkit_ring_create 0 2 demo_os))) = ({#}, False)"
  using ring_create_free_ledger [OF mmap_ok_demo_os, where node_id = 0 and capacity = 2]
  by (subst (asm) demo_ring) (simp add: ledger_def demo_os_def)

text \<open>
  The size computation of \<open>nkit_ring_create\<close>. Up to a capacity of \<open>2 ^ 59\<close> the arena of a ring
  holds the ring structure and every cell. From \<open>2 ^ 60\<close> on the product wraps around to 0: the call
  still succeeds, with an arena of one hugepage, and the cells it then initialises lie beyond it.
\<close>

theorem ring_create_size:
  assumes "mmap_ok w" and "nkit_ring_create node_id capacity w = (Some r, w')"
  shows "\<exists>a. rg_arena r = Some a \<and>
    (if unat capacity < 2 ^ 60
     then unat sizeof_ring + unat sizeof_cell * unat capacity \<le> unat (ar_size a)
     else unat (ar_size a) = 2 ^ 21)"
proof -
  obtain a k where a: "rg_arena r = Some a" "capacity = 2 ^ k" "k < 64"
    "ar_size a = align_up 21 (sizeof_ring + sizeof_cell * 2 ^ k)"
    "unat (sizeof_ring + sizeof_cell * 2 ^ k) \<le> unat (ar_size a)"
    using ring_create_arena [OF assms] by blast
  have c: "(sizeof_cell :: u64) = 2 ^ 4" by (simp add: sizeof_cell_def)
  have cells: "sizeof_cell * 2 ^ k = (2 ^ (k + 4) :: u64)" by (simp only: c power_add mult.commute)
  show ?thesis
  proof (cases "k < 60")
    case True
    then have u: "unat (2 ^ (k + 4) :: u64) = 2 ^ (k + 4)" by (intro unat_exp) simp
    have "(2::nat) ^ (k + 4) \<le> 2 ^ 63" using True by (intro power_increasing) simp_all
    then have "unat (sizeof_ring + 2 ^ (k + 4)) = unat sizeof_ring + 2 ^ (k + 4)"
      by (subst unat_add_lem [THEN iffD1]) (simp_all only: u, simp add: sizeof_ring_def)
    moreover have "unat capacity < 2 ^ 60" using a(2,3) True power_strict_increasing [of k 60 "2::nat"] by (simp add: unat_exp)
    moreover have "unat sizeof_cell * unat capacity = 2 ^ (k + 4)"
      using a(2,3) by (simp add: unat_exp sizeof_cell_def power_add)
    ultimately show ?thesis using a(1,5) cells by simp
  next
    case False
    then have z: "(2 ^ (k + 4) :: u64) = 0" unfolding exp_eq_zero_iff by simp
    have "ar_size a = align_up 21 sizeof_ring" by (simp only: a(4) cells z add_0_right)
    then have "unat (ar_size a) = 2 ^ 21" by (simp add: sizeof_ring_def align_up_def)
    moreover have "\<not> unat capacity < 2 ^ 60" using a(2,3) False power_increasing [of 60 k "2::nat"] by (simp add: unat_exp)
    ultimately show ?thesis using a(1) by simp
  qed
qed

lemma demo_ring_huge: "\<exists>r. nkit_ring_create 0 (2 ^ 60) demo_os = (Some r, snd (nkit_ring_create 0 (2 ^ 60) demo_os))"
  by (simp add: nkit_ring_create_def nkit_arena_create_def nkit_arena_alloc_def demo_os_def os_prim_defs
      os_alloc_def os_ask_def os_ask_int_def HUGE_PAGE_SIZE_def sizeof_arena_def MAP_FAILED_def
      sizeof_ring_def sizeof_cell_def Let_def)

theorem ring_create_size_witness:
  "\<exists>r w' a. nkit_ring_create 0 (2 ^ 60) demo_os = (Some r, w') \<and> rg_arena r = Some a \<and>
     unat (ar_size a) = 2 ^ 21"
proof -
  obtain r where r: "nkit_ring_create 0 (2 ^ 60) demo_os = (Some r, snd (nkit_ring_create 0 (2 ^ 60) demo_os))"
    using demo_ring_huge by blast
  from ring_create_size [OF mmap_ok_demo_os r] obtain a where "rg_arena r = Some a" "unat (ar_size a) = 2 ^ 21"
    by auto
  with r show ?thesis by blast
qed

end
