(* ===== verification/NK_Double.thy ===== *)
theory NK_Double
  imports Complex_Main "HOL-Library.Log_Nat"
begin

section \<open>Double precision numbers\<close>

text \<open>
  The two balancers compute a ratio of counters in type \<^verbatim>\<open>double\<close>. A double is a rational number, an
  infinity or not a number; conversion from an integer and division round the exact result to the
  nearest number with a significand of 53 bits, ties to even, with exponents down to that of the
  subnormal numbers and infinity from \<open>2 ^ 1024\<close> on (IEEE 754 binary64). The two zeros are one: the sign of a zero
  shows in a division by zero only, and the library divides by numbers of at least 1.
\<close>

datatype c_double = Fin rat | Inf bool \<comment> \<open>negative?\<close> | NaN

definition round_half_even :: "rat \<Rightarrow> int" where
  "round_half_even x = (let f = \<lfloor>x\<rfloor>; d = x - of_int f in
     if d < 1 / 2 then f else if d > 1 / 2 then f + 1 else if even f then f else f + 1)"

text \<open>The binary exponent of a positive number: \<open>2 powi e \<le> x < 2 powi (e + 1)\<close>.\<close>

definition bin_exp :: "rat \<Rightarrow> int" where
  "bin_exp x = (case quotient_of x of (a, b) \<Rightarrow>
     let k = bitlen a - bitlen b in if x < 2 powi k then k - 1 else k)"

definition dbl_round :: "rat \<Rightarrow> c_double" where
  "dbl_round x =
    (if x = 0 then Fin 0 else
     let e = max (bin_exp \<bar>x\<bar> - 52) (- 1074); r = of_int (round_half_even (x / 2 powi e)) * 2 powi e in
     if \<bar>r\<bar> \<ge> 2 ^ 1024 then Inf (r < 0) else Fin r)"

definition dbl_of_int :: "int \<Rightarrow> c_double" where
  "dbl_of_int n = dbl_round (of_int n)"

fun dbl_div :: "c_double \<Rightarrow> c_double \<Rightarrow> c_double" where
  "dbl_div (Fin x) (Fin y) = (if y = 0 then (if x = 0 then NaN else Inf (x < 0)) else dbl_round (x / y))"
| "dbl_div (Fin x) (Inf s) = Fin 0"
| "dbl_div (Inf s) (Fin y) = Inf (s \<noteq> (y < 0))"
| "dbl_div _ _ = NaN"

fun dbl_less :: "c_double \<Rightarrow> c_double \<Rightarrow> bool" where
  "dbl_less (Fin x) (Fin y) = (x < y)"
| "dbl_less (Fin x) (Inf s) = (\<not> s)"
| "dbl_less (Inf s) (Fin y) = s"
| "dbl_less (Inf s) (Inf t) = (s \<and> \<not> t)"
| "dbl_less _ _ = False"

definition dbl_le :: "c_double \<Rightarrow> c_double \<Rightarrow> bool" where
  "dbl_le a b \<longleftrightarrow> dbl_less a b \<or> (a = b \<and> a \<noteq> NaN)"

subsection \<open>Rounding\<close>

lemma round_half_even_near: "\<bar>of_int (round_half_even x) - x\<bar> \<le> 1 / 2"
proof -
  have "of_int \<lfloor>x\<rfloor> \<le> x" "x < of_int \<lfloor>x\<rfloor> + 1" by linarith+
  then show ?thesis by (auto simp: round_half_even_def Let_def)
qed

lemma round_half_even_int [simp]: "round_half_even (of_int n) = n"
  by (simp add: round_half_even_def)

lemma bitlen_bounds_rat:
  assumes "0 < a"
  shows "2 powi (bitlen a - 1) \<le> (of_int a :: rat)" and "(of_int a :: rat) < 2 powi bitlen a"
proof -
  have b: "0 < bitlen a" using assms bitlen_nonneg [of a] bitlen_eq_zero_iff [of a] by linarith
  have "2 ^ nat (bitlen a - 1) \<le> a \<and> a < 2 ^ nat (bitlen a)" using assms by (rule bitlen_bounds)
  then have "(of_int (2 ^ nat (bitlen a - 1)) :: rat) \<le> of_int a" "(of_int a :: rat) < of_int (2 ^ nat (bitlen a))"
    by (simp_all only: of_int_le_iff of_int_less_iff)
  then show "2 powi (bitlen a - 1) \<le> (of_int a :: rat)" "(of_int a :: rat) < 2 powi bitlen a"
    using b by (simp_all add: power_int_def)
qed

lemma bin_exp_bounds:
  assumes "0 < x"
  shows "2 powi bin_exp x \<le> x" and "x < 2 powi (bin_exp x + 1)"
proof -
  obtain a b where q: "quotient_of x = (a, b)" by fastforce
  have b: "0 < b" using quotient_of_denom_pos [OF q] .
  have x: "x = of_int a / of_int b" using quotient_of_div [OF q] .
  then have a: "0 < a" using assms b by (simp add: zero_less_divide_iff)
  let ?k = "bitlen a - bitlen b"
  have p: "(0::rat) < 2 powi i" for i :: int by (simp add: zero_less_power_int)
  have "x < 2 powi bitlen a / 2 powi (bitlen b - 1)"
    unfolding x using bitlen_bounds_rat [OF a] bitlen_bounds_rat [OF b] p b by (intro frac_less) (auto simp: a less_imp_le)
  also have "\<dots> = 2 powi (?k + 1)" by (simp add: power_int_diff [symmetric] algebra_simps)
  finally have hi: "x < 2 powi (?k + 1)" .
  have "2 powi (bitlen a - 1) / 2 powi bitlen b \<le> x"
    unfolding x using bitlen_bounds_rat [OF a] bitlen_bounds_rat [OF b] p b by (intro frac_le) (auto simp: a less_imp_le)
  moreover have "(2::rat) powi (bitlen a - 1) / 2 powi bitlen b = 2 powi (?k - 1)"
    by (simp add: power_int_diff [symmetric] algebra_simps)
  ultimately have lo: "2 powi (?k - 1) \<le> x" by simp
  show "2 powi bin_exp x \<le> x" "x < 2 powi (bin_exp x + 1)"
    using hi lo by (auto simp: bin_exp_def q Let_def)
qed
lemma two_powi_pos [simp]: "(0::rat) < 2 powi i"
  by (simp add: zero_less_power_int)

lemma two_powi_less: "(2::rat) powi i < 2 powi j \<longleftrightarrow> i < j"
proof
  assume less: "(2::rat) powi i < 2 powi j"
  show "i < j"
  proof (rule ccontr)
    assume "\<not> i < j"
    then have "(2::rat) powi j \<le> 2 powi i" by (intro power_int_increasing) simp_all
    with less show False by simp
  qed
qed (simp add: power_int_strict_increasing)

text \<open>The relative error of rounding, for numbers that are not subnormal and do not overflow.\<close>

lemma dbl_round_rel:
  assumes lo: "2 powi - 1022 \<le> \<bar>x\<bar>" and hi: "\<bar>x\<bar> < 2 ^ 1000"
  shows "\<exists>d. \<bar>d\<bar> \<le> 1 / 2 ^ 53 \<and> dbl_round x = Fin (x * (1 + d))"
proof -
  define b u r where "b = bin_exp \<bar>x\<bar>" and "u = (2::rat) powi (b - 52)" and "r = of_int (round_half_even (x / u)) * u"
  have x: "x \<noteq> 0" using lo two_powi_pos [of "- 1022"] by auto
  have be: "2 powi b \<le> \<bar>x\<bar>" "\<bar>x\<bar> < 2 powi (b + 1)" using bin_exp_bounds [of "\<bar>x\<bar>"] x by (simp_all add: b_def)
  have "(2::rat) powi - 1022 < 2 powi (b + 1)" using lo be(2) by linarith
  then have e: "max (b - 52) (- 1074) = b - 52" unfolding two_powi_less by simp
  have u: "0 < u" "u * 2 ^ 52 = 2 powi b" by (simp_all add: u_def power_int_diff)
  have "\<bar>of_int (round_half_even (x / u)) - x / u\<bar> * u \<le> 1 / 2 * u" using round_half_even_near [of "x / u"] u(1) by (intro mult_right_mono) simp_all
  moreover have "r - x = (of_int (round_half_even (x / u)) - x / u) * u" using u(1) by (simp add: r_def algebra_simps)
  ultimately have "\<bar>r - x\<bar> \<le> u / 2" using u(1) by (simp add: abs_mult)
  moreover have "u * 2 ^ 52 \<le> \<bar>x\<bar>" using u(2) be(1) by simp
  ultimately have near: "\<bar>r - x\<bar> \<le> \<bar>x\<bar> * (1 / 2 ^ 53)" by simp
  also have "\<dots> \<le> \<bar>x\<bar> * 1" by (intro mult_left_mono) simp_all
  finally have "\<bar>r\<bar> \<le> \<bar>x\<bar> * 2" by linarith
  also have "\<dots> < 2 ^ 1000 * 2" using hi by simp
  also have "\<dots> \<le> 2 ^ 1024" by simp
  finally have "dbl_round x = Fin r" using x e by (simp add: dbl_round_def b_def u_def r_def Let_def)
  moreover have "\<bar>(r - x) / x\<bar> \<le> 1 / 2 ^ 53" using near x by (simp add: abs_divide divide_le_eq mult.commute)
  moreover have "x * (1 + (r - x) / x) = r" using x by (simp add: field_simps)
  ultimately show ?thesis by metis
qed

lemma dbl_round_mid:
  assumes "1 / 2 ^ 100 \<le> \<bar>x\<bar>" and "\<bar>x\<bar> < 2 ^ 100"
  shows "\<exists>d. \<bar>d\<bar> \<le> 1 / 2 ^ 53 \<and> dbl_round x = Fin (x * (1 + d))"
proof (rule dbl_round_rel)
  have "(2::rat) powi - 1022 \<le> 2 powi - 100" by (intro power_int_increasing) simp_all
  also have "\<dots> = 1 / 2 ^ 100" by (simp only: power_int_minus power_int_numeral inverse_eq_divide)
  finally show "2 powi - 1022 \<le> \<bar>x\<bar>" using assms(1) by simp
  have "(2::rat) ^ 100 \<le> 2 ^ 1000" by (intro power_increasing) simp_all
  then show "\<bar>x\<bar> < 2 ^ 1000" using assms(2) by simp
qed

lemma dbl_round_int:
  assumes "\<bar>n\<bar> < 2 ^ 53"
  shows "dbl_of_int n = Fin (of_int n)"
proof (cases "n = 0")
  case False
  let ?x = "of_int n :: rat"
  define b where "b = bin_exp \<bar>?x\<bar>"
  have be: "2 powi b \<le> \<bar>?x\<bar>" "\<bar>?x\<bar> < 2 powi (b + 1)" using bin_exp_bounds [of "\<bar>?x\<bar>"] False by (simp_all add: b_def)
  have x53: "\<bar>?x\<bar> < 2 ^ 53" using assms by (metis of_int_abs of_int_less_iff of_int_numeral of_int_power)
  then have "(2::rat) powi b < 2 powi 53" using be(1) by (simp add: power_int_def)
  then have b1: "b < 53" by (simp only: two_powi_less)
  have "1 \<le> \<bar>?x\<bar>" using False by (metis of_int_1_le_iff of_int_abs zero_less_abs_iff int_one_le_iff_zero_less)
  then have "(2::rat) powi 0 < 2 powi (b + 1)" using be(2) by simp
  then have "0 \<le> b" unfolding two_powi_less by simp
  then have e: "max (b - 52) (- 1074) = b - 52" by simp
  have p: "(2::rat) powi (52 - b) = of_int (2 ^ nat (52 - b))" using b1 by (simp add: power_int_def)
  have "?x / 2 powi (b - 52) = of_int (n * 2 ^ nat (52 - b))"
  proof -
    have "(2::rat) powi (b - 52) * 2 powi (52 - b) = 1" by (simp add: power_int_add [symmetric])
    then have "?x / 2 powi (b - 52) = ?x * 2 powi (52 - b)" by (simp add: field_simps)
    then show ?thesis by (simp add: p)
  qed
  then have "of_int (round_half_even (?x / 2 powi (b - 52))) * 2 powi (b - 52) = ?x"
    by (metis less_numeral_extra(3) nonzero_eq_divide_eq round_half_even_int two_powi_pos)
  moreover have "\<not> (2 ^ 1024 \<le> \<bar>?x\<bar>)" using x53 by simp
  ultimately show ?thesis using False e by (simp add: dbl_of_int_def dbl_round_def b_def Let_def)
qed (simp add: dbl_of_int_def dbl_round_def)

end
