(* ===== verification/NK_Context.thy ===== *)
theory NK_Context
  imports NK_Ring NK_Double
begin

section \<open>The library context (\<^verbatim>\<open>src/internal.h\<close>, \<^verbatim>\<open>src/init.c\<close>)\<close>

text \<open>
  The global \<^verbatim>\<open>g_nkit_ctx\<close> is passed and returned explicitly. The array of mailboxes is the
  address \<^verbatim>\<open>calloc\<close> returned with the list of its entries, so an index beyond the entries that
  were allocated is visible; it is recorded as a fault.
\<close>

record nkit_mailbox =
  mb_addr :: ptr
  mb_ring :: "nkit_ring option"

record nkit_context =
  cx_topo :: ptr
  cx_num_nodes :: int
  cx_num_pus :: int
  cx_initialized :: bool
  cx_active_threads :: int
  cx_mailboxes :: "(ptr \<times> nkit_mailbox option list) option"
  cx_balancer_threshold_mpki :: c_double
  cx_numa_supported :: bool

definition g_nkit_ctx :: nkit_context where
  "g_nkit_ctx = \<lparr>cx_topo = NULL, cx_num_nodes = 0, cx_num_pus = 0, cx_initialized = False,
     cx_active_threads = 0, cx_mailboxes = None, cx_balancer_threshold_mpki = Fin 0,
     cx_numa_supported = False\<rparr>"

definition DEFAULT_MPKI :: c_double where
  "DEFAULT_MPKI = Fin 50"

definition sizeof_mailbox :: u64 where
  "sizeof_mailbox = 72"

fun init_mailboxes :: "bool \<Rightarrow> nat list \<Rightarrow> nkit_mailbox option list \<Rightarrow> os \<Rightarrow> nkit_mailbox option list \<times> os" where
  "init_mailboxes numa [] mbs w = (mbs, w)"
| "init_mailboxes numa (i # is) mbs w =
    (case (if numa then os_numa_alloc sizeof_mailbox (int i) w else os_malloc sizeof_mailbox w) of (p, w1) \<Rightarrow>
     if p = NULL then init_mailboxes numa is mbs w1 else
     case nkit_ring_create (int i) 4096 w1 of (ring, w2) \<Rightarrow>
     init_mailboxes numa is (mbs[i := Some \<lparr>mb_addr = p, mb_ring = ring\<rparr>]) w2)"

definition nkit_init :: "nkit_context \<Rightarrow> os \<Rightarrow> int \<times> nkit_context \<times> os" where
  "nkit_init c w =
    (if cx_initialized c then (0, c, w) else
     case os_ask_int Numa_available w of (avail, w1) \<Rightarrow>
     let c1 = c\<lparr>cx_numa_supported := \<not> avail < 0\<rparr> in
     if cx_initialized c1 then (0, c1, w1) else
     let c2 = c1\<lparr>cx_initialized := True\<rparr> in
     case os_ask_int (Hwloc_call Topology_init) w1 of (rc, w2) \<Rightarrow>
     if rc \<noteq> 0 then (- 1, c2\<lparr>cx_initialized := False\<rparr>, w2) else
     case os_topology w2 of (topo, w3) \<Rightarrow>
     let c3 = c2\<lparr>cx_topo := topo\<rparr>; w4 = os_do (Hwloc_call (Topology_set_flags topo)) w3 in
     case os_ask_int (Hwloc_call (Topology_load topo)) w4 of (rc2, w5) \<Rightarrow>
     if rc2 \<noteq> 0 then (- 1, c3\<lparr>cx_initialized := False\<rparr>, os_release (Topology topo) w5) else
     case os_calloc (word_of_int (cx_num_nodes c3)) 8 w5 of (arr, w6) \<Rightarrow>
     case (if arr = NULL then (None, w6) else
           case init_mailboxes (cx_numa_supported c3) [0..<nat (cx_num_nodes c3)]
                  (replicate (nat (cx_num_nodes c3)) None) w6 of (mbs, w7) \<Rightarrow> (Some (arr, mbs), w7))
       of (boxes, w7) \<Rightarrow>
     let c4 = c3\<lparr>cx_mailboxes := boxes, cx_balancer_threshold_mpki := DEFAULT_MPKI\<rparr> in
     case os_ask_int (Hwloc_call (Get_nbobjs topo HWLOC_OBJ_NUMANODE)) w7 of (nodes, w8) \<Rightarrow>
     case os_ask_int (Hwloc_call (Get_nbobjs topo HWLOC_OBJ_PU)) w8 of (pus, w9) \<Rightarrow>
     let c5 = c4\<lparr>cx_num_nodes := nodes, cx_num_pus := pus\<rparr> in
     (0, if cx_num_nodes c5 \<le> 0 then c5\<lparr>cx_num_nodes := 1\<rparr> else c5, w9))"

fun teardown_mailboxes :: "bool \<Rightarrow> nat list \<Rightarrow> nkit_mailbox option list \<Rightarrow> os \<Rightarrow> os" where
  "teardown_mailboxes numa [] mbs w = w"
| "teardown_mailboxes numa (i # is) mbs w =
    (if length mbs \<le> i then os_invalid w else
     case mbs ! i of None \<Rightarrow> teardown_mailboxes numa is mbs w
     | Some mb \<Rightarrow>
       let w1 = nkit_ring_free (mb_ring mb) w;
           w2 = (if numa then os_numa_free (mb_addr mb) sizeof_mailbox w1 else os_free (mb_addr mb) w1) in
       teardown_mailboxes numa is mbs w2)"

definition nkit_teardown :: "nkit_context \<Rightarrow> os \<Rightarrow> nkit_context \<times> os" where
  "nkit_teardown c w =
    (let w1 = (case cx_mailboxes c of None \<Rightarrow> w
               | Some (arr, mbs) \<Rightarrow>
                 os_free arr (teardown_mailboxes (cx_numa_supported c) [0..<nat (cx_num_nodes c)] mbs w)) in
     if cx_initialized c
     then (c\<lparr>cx_initialized := False, cx_topo := NULL\<rparr>, os_release (Topology (cx_topo c)) w1)
     else (c, w1))"

subsection \<open>What the mailboxes own\<close>

fun box_owns :: "bool \<Rightarrow> nkit_mailbox option \<Rightarrow> os_res multiset" where
  "box_owns numa None = {#}"
| "box_owns numa (Some mb) =
    add_mset (if numa then Numa (mb_addr mb) sizeof_mailbox else Heap (mb_addr mb))
      (case mb_ring mb of None \<Rightarrow> {#} | Some r \<Rightarrow> ring_owns r)"

fun box_ok :: "nkit_mailbox option \<Rightarrow> bool" where
  "box_ok None \<longleftrightarrow> True"
| "box_ok (Some mb) \<longleftrightarrow> mb_addr mb \<noteq> NULL \<and> (\<forall>r. mb_ring mb = Some r \<longrightarrow> ring_valid r \<and> ring_rep r [] \<and> rg_capacity r = 4096)"

lemma init_mailbox_alloc:
  assumes "(if numa then os_numa_alloc sizeof_mailbox i w else os_malloc sizeof_mailbox w) = (p, w1)"
  shows "ledger w1 = (os_live w + (if p = NULL then {#} else
      {#if numa then Numa p sizeof_mailbox else Heap p#}), os_fault w)" and "os_answer w1 = os_answer w"
proof -
  have p: "p = fst (if numa then os_numa_alloc sizeof_mailbox i w else os_malloc sizeof_mailbox w)"
    and w1: "w1 = snd (if numa then os_numa_alloc sizeof_mailbox i w else os_malloc sizeof_mailbox w)"
    using assms by (metis fst_conv, metis snd_conv)
  show "ledger w1 = (os_live w + (if p = NULL then {#} else
      {#if numa then Numa p sizeof_mailbox else Heap p#}), os_fault w)" "os_answer w1 = os_answer w"
    unfolding p w1 by (simp_all add: ledger_def os_prim_defs os_simps)
qed

lemma init_mailboxes_ok:
  assumes "mmap_ok w" and "distinct is" and "\<forall>i \<in> set is. i < length mbs \<and> mbs ! i = None"
    and "init_mailboxes numa is mbs w = (mbs', w')"
  shows "length mbs' = length mbs \<and> (\<forall>j. j \<notin> set is \<longrightarrow> mbs' ! j = mbs ! j) \<and> (\<forall>i \<in> set is. box_ok (mbs' ! i)) \<and>
    ledger w' = (os_live w + (\<Sum>i\<leftarrow>is. box_owns numa (mbs' ! i)), os_fault w) \<and> mmap_ok w' \<and> os_answer w' = os_answer w"
  using assms
proof (induction "is" arbitrary: mbs w)
  case (Cons i "is")
  obtain p w1 where al: "(if numa then os_numa_alloc sizeof_mailbox (int i) w else os_malloc sizeof_mailbox w) = (p, w1)"
    by fastforce
  note w1 = init_mailbox_alloc [OF al]
  have env: "mmap_ok w1" using mmap_ok_cong [OF w1(2)] Cons.prems(1) by simp
  show ?case
  proof (cases "p = NULL")
    case True
    then have "init_mailboxes numa is mbs w1 = (mbs', w')" using Cons.prems(4) al by simp
    from Cons.IH [OF env _ _ this] Cons.prems(2,3) w1 True show ?thesis by (auto simp: ledger_def)
  next
    case False
    obtain ring w2 where rc: "nkit_ring_create (int i) 4096 w1 = (ring, w2)" by fastforce
    let ?mb = "Some \<lparr>mb_addr = p, mb_ring = ring\<rparr>"
    have r: "ledger w2 = (os_live w1 + (case ring of None \<Rightarrow> {#} | Some r \<Rightarrow> ring_owns r), os_fault w1)"
      "mmap_ok w2" "box_ok ?mb" "os_answer w2 = os_answer w1"
      using rc ring.create_None [OF env] ring.create_Some [OF env] ring_create_rep [OF env] False
        nkit_ring_create_answer [of "int i" 4096 w1]
      by (cases ring; force simp: ledger_def)+
    have run: "init_mailboxes numa is (mbs[i := ?mb]) w2 = (mbs', w')" using Cons.prems(4) al rc False by simp
    have "\<forall>j \<in> set is. j < length (mbs[i := ?mb]) \<and> mbs[i := ?mb] ! j = None"
      using Cons.prems(2,3) by (auto simp: nth_list_update)
    from Cons.IH [OF r(2) _ this run] Cons.prems(2)
    have IH: "length mbs' = length mbs" "\<forall>j. j \<notin> set is \<longrightarrow> mbs' ! j = mbs[i := ?mb] ! j"
      "\<forall>i \<in> set is. box_ok (mbs' ! i)" "mmap_ok w'" "os_answer w' = os_answer w2"
      "ledger w' = (os_live w2 + (\<Sum>i\<leftarrow>is. box_owns numa (mbs' ! i)), os_fault w2)"
      by auto
    have "mbs' ! i = ?mb" using IH(2) Cons.prems(2,3) by simp
    then show ?thesis using IH r w1 False Cons.prems(2) by (auto simp: ledger_def nth_list_update)
  qed
qed (simp add: ledger_def)

lemma nkit_ring_free_ledger:
  assumes "\<forall>r. h = Some r \<longrightarrow> ring_valid r" and "(case h of None \<Rightarrow> {#} | Some r \<Rightarrow> ring_owns r) \<subseteq># os_live w"
  shows "ledger (nkit_ring_free h w) = (os_live w - (case h of None \<Rightarrow> {#} | Some r \<Rightarrow> ring_owns r), os_fault w)"
  using assms ring.destroy_owned by (cases h) (auto simp: nkit_ring_free_def ledger_def)

lemma teardown_mailboxes_ok:
  assumes "\<forall>i \<in> set is. i < length mbs \<and> box_ok (mbs ! i)"
    and "(\<Sum>i\<leftarrow>is. box_owns numa (mbs ! i)) \<subseteq># os_live w"
  shows "ledger (teardown_mailboxes numa is mbs w) = (os_live w - (\<Sum>i\<leftarrow>is. box_owns numa (mbs ! i)), os_fault w)"
  using assms
proof (induction "is" arbitrary: w)
  case (Cons i "is")
  obtain R where R: "os_live w = box_owns numa (mbs ! i) + (\<Sum>i\<leftarrow>is. box_owns numa (mbs ! i)) + R"
    using Cons.prems(2) by (auto simp: subset_mset.le_iff_add)
  show ?case
  proof (cases "mbs ! i")
    case None
    then show ?thesis using Cons.IH [of w] Cons.prems by simp
  next
    case (Some mb)
    have v: "mb_addr mb \<noteq> NULL" "\<forall>r. mb_ring mb = Some r \<longrightarrow> ring_valid r" using Cons.prems(1) Some by auto
    let ?w1 = "nkit_ring_free (mb_ring mb) w"
    let ?w2 = "if numa then os_numa_free (mb_addr mb) sizeof_mailbox ?w1 else os_free (mb_addr mb) ?w1"
    let ?o = "case mb_ring mb of None \<Rightarrow> {#} | Some r \<Rightarrow> ring_owns r"
    have "?o \<subseteq># os_live w" using R Some by simp
    note w1 = nkit_ring_free_ledger [OF v(2) this]
    have "ledger ?w2 = (os_live w - box_owns numa (mbs ! i), os_fault w)"
      using w1 v(1) R Some by (auto simp: ledger_def os_prim_defs os_simps)
    moreover from this have "(\<Sum>i\<leftarrow>is. box_owns numa (mbs ! i)) \<subseteq># os_live ?w2" using R by (simp add: ledger_def)
    ultimately show ?thesis using Cons.IH [of ?w2] Cons.prems(1) R Some by (simp add: ledger_def Let_def)
  qed
qed (simp add: ledger_def)

lemma teardown_mailboxes_fault: "os_fault w \<Longrightarrow> os_fault (teardown_mailboxes numa is mbs w)"
  by (induction numa "is" mbs w rule: teardown_mailboxes.induct)
    (auto simp: os_simps os_prim_defs nkit_ring_free_fault Let_def split: option.splits)

lemma teardown_mailboxes_out_of_bounds:
  assumes "i \<in> set is" and "length mbs \<le> i"
  shows "os_fault (teardown_mailboxes numa is mbs w)"
  using assms
  by (induction "is" arbitrary: w) (auto simp: os_simps Let_def split: option.splits)

lemma teardown_mailboxes_live: "x \<in># os_live (teardown_mailboxes numa is mbs w) \<Longrightarrow> x \<in># os_live w"
proof (induction "is" arbitrary: w)
  case (Cons i "is")
  have rel: "x \<in># os_live w" if "x \<in># os_live (os_release r w)" for r w
    using that by (simp add: os_simps in_diffD)
  have ring: "x \<in># os_live w" if "x \<in># os_live (nkit_ring_free h w)" for h w
    using that
    by (auto simp: nkit_ring_free_def nkit_arena_destroy_def os_munmap_def os_free_def split: option.splits if_splits
        dest!: rel)
  show ?case
  proof (cases "i < length mbs \<and> mbs ! i \<noteq> None")
    case True
    then obtain mb where mb: "mbs ! i = Some mb" by auto
    let ?w1 = "nkit_ring_free (mb_ring mb) w"
    let ?w2 = "if numa then os_numa_free (mb_addr mb) sizeof_mailbox ?w1 else os_free (mb_addr mb) ?w1"
    have "x \<in># os_live (teardown_mailboxes numa is mbs ?w2)" using Cons.prems True mb by (simp add: Let_def)
    then have "x \<in># os_live ?w2" by (rule Cons.IH)
    then have "x \<in># os_live ?w1" by (auto simp: os_numa_free_def os_free_def split: if_splits dest!: rel)
    then show ?thesis by (rule ring)
  next
    case False
    then have "x \<in># os_live w \<or> x \<in># os_live (teardown_mailboxes numa is mbs w)"
      using Cons.prems by (auto simp: os_simps split: if_splits)
    then show ?thesis using Cons.IH by blast
  qed
qed simp

lemma init_mailboxes_answer [simp]: "os_answer (snd (init_mailboxes numa is mbs w)) = os_answer w"
proof (induction "is" arbitrary: mbs w)
  case (Cons i "is")
  obtain p w1 where al: "(if numa then os_numa_alloc sizeof_mailbox (int i) w else os_malloc sizeof_mailbox w) = (p, w1)"
    by fastforce
  obtain r w2 where rc: "nkit_ring_create (int i) 4096 w1 = (r, w2)" by fastforce
  have "os_answer w2 = os_answer w1" using nkit_ring_create_answer [of "int i" 4096 w1] rc by simp
  then show ?case using al rc Cons.IH init_mailbox_alloc(2) [OF al] by simp
qed simp

subsection \<open>Initialisation\<close>

lemma nkit_init_cases:
  assumes "\<not> cx_initialized c" and "nkit_init c w = (rc, c', w')"
  obtains (failed) "rc = - 1" "\<not> cx_initialized c'" "ledger w' = ledger w" "cx_mailboxes c' = cx_mailboxes c"
  | (ready) arr w6 mbs w7 where "rc = 0" "cx_initialized c'" "0 < cx_num_nodes c'"
      "ledger w6 = (add_mset (Topology (cx_topo c')) (os_live w) + (if arr = NULL then {#} else {#Heap arr#}), os_fault w)"
      "os_answer w6 = os_answer w"
      "init_mailboxes (cx_numa_supported c') [0..<nat (cx_num_nodes c)] (replicate (nat (cx_num_nodes c)) None) w6 = (mbs, w7)"
      "cx_mailboxes c' = (if arr = NULL then None else Some (arr, mbs))"
      "ledger w' = ledger (if arr = NULL then w6 else w7)"
proof -
  obtain av w1 where s1: "os_ask_int Numa_available w = (av, w1)" by fastforce
  obtain rc1 w2 where s2: "os_ask_int (Hwloc_call Topology_init) w1 = (rc1, w2)" by fastforce
  obtain topo w3 where s3: "os_topology w2 = (topo, w3)" by fastforce
  let ?w4 = "os_do (Hwloc_call (Topology_set_flags topo)) w3"
  obtain rc2 w5 where s5: "os_ask_int (Hwloc_call (Topology_load topo)) ?w4 = (rc2, w5)" by fastforce
  obtain arr w6 where s6: "os_calloc (word_of_int (cx_num_nodes c)) 8 w5 = (arr, w6)" by fastforce
  obtain mbs w7 where s7: "init_mailboxes (\<not> av < 0) [0..<nat (cx_num_nodes c)] (replicate (nat (cx_num_nodes c)) None) w6 = (mbs, w7)"
    by fastforce
  have t: "topo = os_answer w2 (os_tick w2) (Hwloc_call Topology_handle)" "arr = os_answer w5 (os_tick w5) (Calloc (word_of_int (cx_num_nodes c)) 8)"
    using s3 s6 os_topology_simps(1) [of w2] os_alloc_simps(1) [of "Calloc (word_of_int (cx_num_nodes c)) 8" Heap NULL w5] by (simp_all add: os_calloc_def)
  have w: "w6 = snd (os_calloc (word_of_int (cx_num_nodes c)) 8 w5)" "w5 = snd (os_ask_int (Hwloc_call (Topology_load topo)) ?w4)"
    "w3 = snd (os_topology w2)" "w2 = snd (os_ask_int (Hwloc_call Topology_init) w1)" "w1 = snd (os_ask_int Numa_available w)"
    using s1 s2 s3 s5 s6 by simp_all
  have l1: "ledger w1 = ledger w" "os_answer w1 = os_answer w" by (simp_all add: w(5) ledger_def os_simps)
  have l2: "ledger w2 = ledger w1" "os_answer w2 = os_answer w1" by (simp_all add: w(4) ledger_def os_simps)
  have l3: "ledger w3 = (add_mset (Topology topo) (os_live w2), os_fault w2)" "os_answer w3 = os_answer w2"
    by (simp_all add: w(3) t(1) ledger_def os_simps)
  have l5: "ledger w5 = ledger w3" "os_answer w5 = os_answer w3" by (simp_all add: w(2) ledger_def os_simps)
  have l6: "ledger w6 = (os_live w5 + (if arr = NULL then {#} else {#Heap arr#}), os_fault w5)" "os_answer w6 = os_answer w5"
    by (simp_all add: w(1) t(2) os_calloc_def ledger_def os_simps)
  have l: "ledger w2 = ledger w" "ledger w5 = (add_mset (Topology topo) (os_live w), os_fault w)"
    "ledger w6 = (add_mset (Topology topo) (os_live w) + (if arr = NULL then {#} else {#Heap arr#}), os_fault w)"
    "os_answer w6 = os_answer w"
    using l1 l2 l3 l5 l6 by (simp_all add: ledger_def)
  consider "rc1 \<noteq> 0" | "rc1 = 0" "rc2 \<noteq> 0" | "rc1 = 0" "rc2 = 0" by blast
  then show ?thesis
  proof cases
    case 1
    then show ?thesis using failed assms s1 s2 l(1) by (auto simp: nkit_init_def)
  next
    case 2
    then show ?thesis
      using failed assms s1 s2 s3 s5 l(2)
      by (auto simp: nkit_init_def Let_def ledger_def os_simps)
  next
    case 3
    let ?w7 = "if arr = NULL then w6 else w7"
    obtain n w8 where s8: "os_ask_int (Hwloc_call (Get_nbobjs topo HWLOC_OBJ_NUMANODE)) ?w7 = (n, w8)" by fastforce
    obtain m w9 where s9: "os_ask_int (Hwloc_call (Get_nbobjs topo HWLOC_OBJ_PU)) w8 = (m, w9)" by fastforce
    have w9: "ledger w9 = ledger ?w7"
      using s8 s9 by (auto simp: os_ask_int_def os_ask_def ledger_def)
    have eq: "nkit_init c w = (0, c\<lparr>cx_numa_supported := \<not> av < 0, cx_initialized := True, cx_topo := topo,
        cx_mailboxes := if arr = NULL then None else Some (arr, mbs), cx_balancer_threshold_mpki := DEFAULT_MPKI,
        cx_num_nodes := if n \<le> 0 then 1 else n, cx_num_pus := m\<rparr>, w9)"
      using assms(1) 3 s1 s2 s3 s5 s6 s7 s8 s9 by (cases "arr = NULL"; cases "n \<le> 0") (simp_all add: nkit_init_def Let_def)
    show ?thesis
      by (rule ready [of w6 arr mbs w7]) (use eq assms(2) s7 l(3,4) w9 in \<open>auto simp: ledger_def\<close>)
  qed
qed

subsection \<open>Properties\<close>


lemma demo_init:
  assumes "\<not> cx_initialized c"
  shows "\<exists>c' w'. nkit_init c demo_os = (0, c', w') \<and> cx_num_nodes c' = 1 \<and> cx_mailboxes c' \<noteq> None"
  using assms
  by (simp add: nkit_init_def demo_os_def os_ask_int_def os_ask_def os_topology_def os_do_def os_calloc_def
      os_alloc_def Let_def case_prod_beta)


text \<open>A second teardown releases the mailbox array again, because the pointer to it is kept.\<close>

lemma teardown_twice_faults:
  assumes "nkit_teardown c w = (c1, w1)" and "cx_mailboxes c = Some (arr, mbs)" and "arr \<noteq> NULL"
    and "Heap arr \<notin># os_live w1"
  shows "os_fault (snd (nkit_teardown c1 w1))"
proof -
  have "cx_mailboxes c1 = Some (arr, mbs)" using assms(1,2) by (auto simp: nkit_teardown_def Let_def split: if_splits)
  moreover have "Heap arr \<notin># os_live (teardown_mailboxes numa is mbs w1)" for numa "is"
    using assms(4) teardown_mailboxes_live by blast
  ultimately show ?thesis using assms(3) by (simp add: nkit_teardown_def os_simps os_prim_defs Let_def)
qed

end
