(* ===== verification/NK_Affinity.thy ===== *)
theory NK_Affinity
  imports NK_Context
begin

section \<open>Thread affinity (\<^verbatim>\<open>src/sched/affinity.c\<close>)\<close>

text \<open>
  Results are those of the C functions; where the code sets \<^verbatim>\<open>errno\<close> itself, the value is an
  option beside the result. A \<^verbatim>\<open>cpu_set_t\<close> is the list of the CPUs put into it: \<^verbatim>\<open>CPU_SET\<close>
  ignores indices outside \<open>0 ..< 1024\<close>.
\<close>

datatype nkit_policy_type = NKIT_POLICY_BIND_NODE | NKIT_POLICY_STRICT_CPU

record nkit_thread_policy =
  po_type :: nkit_policy_type
  po_id :: int \<comment> \<open>the union of \<open>node_id\<close> and \<open>cpu_id\<close>\<close>

definition CPU_SETSIZE :: int where
  "CPU_SETSIZE = 1024"

definition EINVAL :: int where
  "EINVAL = 22"

definition cpu_set :: "int list \<Rightarrow> int list" where
  "cpu_set cpus = filter (\<lambda>i. 0 \<le> i \<and> i < CPU_SETSIZE) cpus"

text \<open>The CPU set a policy asks for, if there is one.\<close>

definition policy_cpus :: "nkit_context \<Rightarrow> nkit_thread_policy \<Rightarrow> os \<Rightarrow> hwloc_cpus option \<times> os" where
  "policy_cpus c policy w =
    (case po_type policy of
       NKIT_POLICY_BIND_NODE \<Rightarrow>
         (case os_ask (Hwloc_call (Get_numanode (cx_topo c) (po_id policy))) w of (node, w1) \<Rightarrow>
          if node = NULL then (None, w1) else
          case os_ask (Hwloc_call (Node_cpuset node)) w1 of (cpus, w2) \<Rightarrow>
          (if cpus = NULL then None else Some (Cpus_of cpus), w2))
     | NKIT_POLICY_STRICT_CPU \<Rightarrow> (Some (Cpu_only (po_id policy)), w))"

definition apply_policy :: "nkit_context \<Rightarrow> nkit_thread_policy \<Rightarrow> os \<Rightarrow> int \<times> os" where
  "apply_policy c policy w =
    (if cx_topo c = NULL then (- 1, w) else
     case os_bitmap w of (cpuset, w1) \<Rightarrow>
     case policy_cpus c policy w1 of
       (None, w2) \<Rightarrow> (- 1, os_free_bitmap cpuset w2)
     | (Some cpus, w2) \<Rightarrow>
       case os_ask_int (Hwloc_call (Set_cpubind (cx_topo c) cpus)) w2 of (rc, w3) \<Rightarrow>
       (if rc \<noteq> 0 then - 1 else 0, os_free_bitmap cpuset w3))"

record nkit_trampoline_args =
  ta_addr :: ptr
  ta_policy :: nkit_thread_policy
  ta_user_func :: ptr
  ta_user_arg :: ptr

definition sizeof_trampoline_args :: u64 where
  "sizeof_trampoline_args = 24"

text \<open>
  The body of a new thread. The user function is a parameter: what it does to the platform, given
  its address and its argument.
\<close>

definition nkit_thread_wrapper ::
  "(ptr \<Rightarrow> ptr \<Rightarrow> os \<Rightarrow> os) \<Rightarrow> nkit_context \<Rightarrow> nkit_trampoline_args \<Rightarrow> os \<Rightarrow> nkit_context \<times> os" where
  "nkit_thread_wrapper user c args w =
    (let w1 = snd (apply_policy c (ta_policy args) w);
         w2 = user (ta_user_func args) (ta_user_arg args) w1;
         w3 = os_free (ta_addr args) w2 in
     (c\<lparr>cx_active_threads := cx_active_threads c - 1\<rparr>, w3))"

text \<open>The third result is the argument block of the thread that was started, if one was.\<close>

definition nkit_thread_launch :: "nkit_context \<Rightarrow> nkit_thread_policy \<Rightarrow> ptr \<Rightarrow> ptr \<Rightarrow> os \<Rightarrow>
  int \<times> nkit_context \<times> nkit_trampoline_args option \<times> os" where
  "nkit_thread_launch c policy func arg w =
    (case os_malloc sizeof_trampoline_args w of (args, w1) \<Rightarrow>
     if args = NULL then (- 1, c, None, w1) else
     let c1 = c\<lparr>cx_active_threads := cx_active_threads c + 1\<rparr> in
     case os_ask_int (Thread_call (Pthread_create args)) w1 of (rc, w2) \<Rightarrow>
     if rc \<noteq> 0 then (- 1, c1\<lparr>cx_active_threads := cx_active_threads c1 - 1\<rparr>, None, os_free args w2)
     else (0, c1, Some \<lparr>ta_addr = args, ta_policy = policy, ta_user_func = func, ta_user_arg = arg\<rparr>, w2))"

definition nkit_bind_thread :: "nkit_context \<Rightarrow> int \<Rightarrow> os \<Rightarrow> int \<times> os" where
  "nkit_bind_thread c node_id w = apply_policy c \<lparr>po_type = NKIT_POLICY_BIND_NODE, po_id = node_id\<rparr> w"

definition nkit_unbind_thread :: "os \<Rightarrow> int \<times> os" where
  "nkit_unbind_thread w =
    (case os_ask_int (Thread_call Nprocessors_onln) w of (num_cpus, w1) \<Rightarrow>
     os_ask_int (Thread_call (Sched_setaffinity (cpu_set (map int [0..<nat num_cpus])))) w1)"

definition nkit_current_node :: "os \<Rightarrow> int \<times> os" where
  "nkit_current_node w =
    (case os_ask_int (Thread_call Getcpu) w of (rc, w1) \<Rightarrow>
     if rc = 0 then os_ask_i32 (Thread_call Getcpu_node) w1 else (- 1, w1))"

definition nkit_current_cpu :: "os \<Rightarrow> int \<times> os" where
  "nkit_current_cpu w =
    (case os_ask_int (Thread_call Getcpu) w of (rc, w1) \<Rightarrow>
     if rc = 0 then os_ask_i32 (Thread_call Getcpu_cpu) w1 else (- 1, w1))"

text \<open>The end of both pinning functions: bind the calling thread, pass the error code on.\<close>

definition setaffinity_self :: "int list \<Rightarrow> os \<Rightarrow> int \<times> int option \<times> os" where
  "setaffinity_self cpus w =
    (case os_ask (Thread_call Pthread_self) w of (self, w1) \<Rightarrow>
     case os_ask_int (Thread_call (Pthread_setaffinity self (cpu_set cpus))) w1 of (ret, w2) \<Rightarrow>
     if ret \<noteq> 0 then (- 1, Some ret, w2) else (0, None, w2))"

definition nkit_pin_thread_to_core :: "int \<Rightarrow> os \<Rightarrow> int \<times> int option \<times> os" where
  "nkit_pin_thread_to_core core_id w = setaffinity_self [core_id] w"

definition nkit_pin_thread_to_node :: "int \<Rightarrow> os \<Rightarrow> int \<times> int option \<times> os" where
  "nkit_pin_thread_to_node node_id w =
    (case os_ask_int Numa_available w of (avail, w1) \<Rightarrow>
     if avail < 0 then
       (if node_id \<noteq> 0 then (- 1, Some EINVAL, w1) else
        case os_ask_int (Thread_call Nprocessors_onln) w1 of (num_cpus, w2) \<Rightarrow>
        setaffinity_self (map int [0..<nat num_cpus]) w2)
     else
     case os_ask_int Numa_max_node w1 of (max_node, w2) \<Rightarrow>
     if node_id > max_node then (- 1, Some EINVAL, w2) else
     case os_mask w2 of (cpumask, w3) \<Rightarrow>
     case os_node_to_cpus node_id w3 of (rc, bits, w4) \<Rightarrow>
     if rc \<noteq> 0 then (- 1, None, os_free_mask cpumask w4) else
     case os_ask_int (Numa_call Num_configured_cpus) w4 of (num_cpus, w5) \<Rightarrow>
     case setaffinity_self (filter bits (map int [0..<nat num_cpus])) w5 of (ret, err, w6) \<Rightarrow>
     (ret, err, os_free_mask cpumask w6))"

definition nkit_get_current_core :: "os \<Rightarrow> int \<times> os" where
  "nkit_get_current_core w = os_ask_int (Thread_call Sched_getcpu) w"

definition nkit_get_current_node :: "os \<Rightarrow> int \<times> os" where
  "nkit_get_current_node w =
    (case os_ask_int (Thread_call Sched_getcpu) w of (cpu, w1) \<Rightarrow>
     if cpu < 0 then (- 1, w1) else
     case os_ask_int Numa_available w1 of (avail, w2) \<Rightarrow>
     if avail \<ge> 0 then os_ask_int (Numa_call (Node_of_cpu cpu)) w2 else (0, w2))"

subsection \<open>What the calls leave behind\<close>

lemma apply_policy_ledger: "ledger (snd (apply_policy c policy w)) = ledger w"
proof (cases "cx_topo c = NULL")
  case False
  obtain b w1 where 1: "os_bitmap w = (b, w1)" by fastforce
  have w1: "ledger w1 = (os_live w + (if b = NULL then {#} else {#Bitmap b#}), os_fault w)"
    using os_alloc_simps(1-3) [of "Hwloc_call Bitmap_alloc" Bitmap NULL w] 1 by (auto simp: os_bitmap_def ledger_def)
  obtain sel w2 where 2: "policy_cpus c policy w1 = (sel, w2)" by fastforce
  have "ledger (snd (policy_cpus c policy w1)) = ledger w1"
    by (simp add: policy_cpus_def case_prod_beta ledger_simps split: nkit_policy_type.split)
  then have w2: "ledger w2 = ledger w1" using 2 by simp
  have free: "ledger (os_free_bitmap b v) = ledger w" if "ledger v = ledger w2" for v
    using that w1 w2 by (auto simp: os_free_bitmap_def ledger_def os_simps)
  show ?thesis
    using False 1 2 free by (simp add: apply_policy_def case_prod_beta ledger_simps split: option.split)
qed (simp add: apply_policy_def)

lemma setaffinity_self_ledger: "ledger (snd (snd (setaffinity_self cpus w))) = ledger w"
  by (simp add: setaffinity_self_def case_prod_beta ledger_simps)

lemma pin_thread_to_node_ledger: "ledger (snd (snd (nkit_pin_thread_to_node node_id w))) = ledger w"
proof -
  obtain av w1 where 1: "os_ask_int Numa_available w = (av, w1)" by fastforce
  obtain np wp where p: "os_ask_int (Thread_call Nprocessors_onln) w1 = (np, wp)" by fastforce
  obtain mx w2 where 2: "os_ask_int Numa_max_node w1 = (mx, w2)" by fastforce
  obtain m w3 where 3: "os_mask w2 = (m, w3)" by fastforce
  obtain rc bits w4 where 4: "os_node_to_cpus node_id w3 = (rc, bits, w4)" by (metis prod_cases3)
  obtain n w5 where 5: "os_ask_int (Numa_call Num_configured_cpus) w4 = (n, w5)" by fastforce
  obtain ret err w6 where 6: "setaffinity_self (filter bits (map int [0..<nat n])) w5 = (ret, err, w6)" by (metis prod_cases3)
  have l: "ledger w1 = ledger w" "ledger w2 = ledger w1" "ledger w5 = ledger w4" "ledger w6 = ledger w5"
    using ledger_simps(2) [of Numa_available w] ledger_simps(2) [of Numa_max_node w1] 1 2 5 6
      ledger_simps(2) [of "Numa_call Num_configured_cpus" w4]
      setaffinity_self_ledger [of "filter bits (map int [0..<nat n])" w5] by simp_all
  have w3: "ledger w3 = (os_live w2 + (if m = NULL then {#} else {#Mask m#}), os_fault w2)"
    using os_alloc_simps(1-3) [of "Numa_call Allocate_mask" Mask NULL w2] 3 by (auto simp: os_mask_def ledger_def)
  have "ledger w4 = ledger w3" using 4 os_node_to_cpus_simps(2) [of node_id w3] by (simp add: ledger_simps)
  then have free: "ledger (os_free_mask m v) = ledger w" if "ledger v = ledger w4" for v
    using that w3 l(1,2) by (auto simp: os_free_mask_def ledger_def os_simps)
  have wp: "ledger wp = ledger w1" using ledger_simps(2) [of "Thread_call Nprocessors_onln" w1] p by simp
  show ?thesis
    using 1 2 3 4 5 6 p l wp free [of w4] free [of w6]
    by (simp add: nkit_pin_thread_to_node_def setaffinity_self_ledger)
qed

subsection \<open>Waiting for the launched threads\<close>

text \<open>
  \<open>nkit_thread_join_all\<close> polls the counter of active threads. The counter is shared by the threads
  that launch and by the threads that were launched; one step is one access to it or one phase of
  a launched thread: \<open>th_launching\<close> launches are between their increment and \<^verbatim>\<open>pthread_create\<close>,
  \<open>th_running\<close> threads have not finished the user function, \<open>th_leaving\<close> have and are about to
  decrement the counter.
\<close>

record thread_system =
  th_active :: int
  th_launching :: nat
  th_running :: nat
  th_leaving :: nat

inductive thread_step :: "thread_system \<Rightarrow> thread_system \<Rightarrow> bool" where
  launch_add: "thread_step s (s\<lparr>th_active := th_active s + 1, th_launching := th_launching s + 1\<rparr>)"
| launch_created: "0 < th_launching s \<Longrightarrow>
    thread_step s (s\<lparr>th_launching := th_launching s - 1, th_running := th_running s + 1\<rparr>)"
| launch_failed: "0 < th_launching s \<Longrightarrow>
    thread_step s (s\<lparr>th_launching := th_launching s - 1, th_active := th_active s - 1\<rparr>)"
| user_func_returns: "0 < th_running s \<Longrightarrow>
    thread_step s (s\<lparr>th_running := th_running s - 1, th_leaving := th_leaving s + 1\<rparr>)"
| wrapper_sub: "0 < th_leaving s \<Longrightarrow>
    thread_step s (s\<lparr>th_leaving := th_leaving s - 1, th_active := th_active s - 1\<rparr>)"

inductive thread_reach :: "thread_system \<Rightarrow> bool" where
  start: "thread_reach \<lparr>th_active = 0, th_launching = 0, th_running = 0, th_leaving = 0\<rparr>"
| step: "thread_reach s \<Longrightarrow> thread_step s s' \<Longrightarrow> thread_reach s'"

text \<open>The condition on which the polling loop ends.\<close>

definition join_all_returns :: "thread_system \<Rightarrow> bool" where
  "join_all_returns s \<longleftrightarrow> \<not> 0 < th_active s"

inductive_cases thread_stepE: "thread_step s s'"

lemma thread_active_counts:
  "thread_reach s \<Longrightarrow> th_active s = int (th_launching s + th_running s + th_leaving s)"
  by (induction rule: thread_reach.induct) (auto elim!: thread_stepE)

subsection \<open>Properties\<close>



text \<open>
  When \<open>nkit_thread_join_all\<close> returns, no launched thread is still running its user function
  or holding its argument block, and no launch is under way: in every interleaving the counter of
  active threads is at least the number of threads that have not finished.
\<close>

theorem join_all_waits:
  assumes "thread_reach s" and "join_all_returns s"
  shows "th_running s = 0 \<and> th_leaving s = 0 \<and> th_launching s = 0"
  using thread_active_counts [OF assms(1)] assms(2) by (simp add: join_all_returns_def)

theorem join_all_waits_witness:
  "\<exists>s. thread_reach s \<and> join_all_returns s \<and> th_running s = 0 \<and> th_leaving s = 0"
  using join_all_waits [OF thread_reach.start] thread_reach.start
  by (intro exI [of _ "\<lparr>th_active = 0, th_launching = 0, th_running = 0, th_leaving = 0\<rparr>"])
    (simp add: join_all_returns_def)

end
