(* ===== verification/NK_Messaging.thy ===== *)
theory NK_Messaging
  imports NK_Affinity
begin

section \<open>Messages between nodes (\<^verbatim>\<open>src/sched/messaging.c\<close>)\<close>

text \<open>
  A mailbox is reached through the context: \<open>mailbox_ring\<close> is \<^const>\<open>None\<close> where the C code would
  follow a null pointer or index outside the array, which is recorded as a fault. A handler may
  itself use the library, so it maps the context and the platform. \<^const>\<open>None\<close> as the result of a
  call stands for a call that never returns.
\<close>

definition mailbox_ring :: "nkit_context \<Rightarrow> nat \<Rightarrow> nkit_ring option" where
  "mailbox_ring c i =
    (case cx_mailboxes c of None \<Rightarrow> None
     | Some (arr, mbs) \<Rightarrow>
       if i < length mbs then (case mbs ! i of None \<Rightarrow> None | Some mb \<Rightarrow> mb_ring mb) else None)"

definition set_mailbox_ring :: "nkit_context \<Rightarrow> nat \<Rightarrow> nkit_ring \<Rightarrow> nkit_context" where
  "set_mailbox_ring c i ring =
    c\<lparr>cx_mailboxes := map_option (\<lambda>(arr, mbs).
        (arr, mbs[i := map_option (\<lambda>mb. mb\<lparr>mb_ring := Some ring\<rparr>) (mbs ! i)])) (cx_mailboxes c)\<rparr>"

definition nkit_send :: "nkit_context \<Rightarrow> int \<Rightarrow> ptr \<Rightarrow> os \<Rightarrow> (int \<times> nkit_context \<times> os) option" where
  "nkit_send c target_node data w =
    (if target_node < 0 \<or> target_node \<ge> cx_num_nodes c then Some (- 1, c, w) else
     case mailbox_ring c (nat target_node) of None \<Rightarrow> Some (0, c, os_invalid w)
     | Some ring \<Rightarrow>
       map_option (\<lambda>(ok, ring'). (if ok then 0 else - 2, set_mailbox_ring c (nat target_node) ring', w))
         (nkit_ring_push ring data))"

partial_function (option) process_loop ::
  "(ptr \<Rightarrow> nkit_context \<times> os \<Rightarrow> nkit_context \<times> os) option \<Rightarrow> u64 \<Rightarrow> nat \<Rightarrow> u64 \<Rightarrow> nkit_context \<Rightarrow> os \<Rightarrow>
   (u64 \<times> nkit_context \<times> os) option" where
  "process_loop handler limit i processed c w =
    (if \<not> (limit = 0 \<or> processed < limit) then Some (processed, c, w) else
     case mailbox_ring c i of None \<Rightarrow> Some (processed, c, os_invalid w)
     | Some ring \<Rightarrow>
       (case nkit_ring_pop ring of None \<Rightarrow> None
        | Some (None, ring') \<Rightarrow> Some (processed, set_mailbox_ring c i ring', w)
        | Some (Some data, ring') \<Rightarrow>
          (case (case handler of None \<Rightarrow> (set_mailbox_ring c i ring', w)
                 | Some h \<Rightarrow> h data (set_mailbox_ring c i ring', w)) of (c', w') \<Rightarrow>
           process_loop handler limit i (processed + 1) c' w')))"

definition nkit_process_local ::
  "(ptr \<Rightarrow> nkit_context \<times> os \<Rightarrow> nkit_context \<times> os) option \<Rightarrow> u64 \<Rightarrow> nkit_context \<Rightarrow> os \<Rightarrow>
   (u64 \<times> nkit_context \<times> os) option" where
  "nkit_process_local handler limit c w =
    (case nkit_current_node w of (current_node, w1) \<Rightarrow>
     if current_node < 0 \<or> current_node \<ge> cx_num_nodes c then Some (0, c, w1) else
     process_loop handler limit (nat current_node) 0 c w1)"

subsection \<open>Mailboxes as queues\<close>

definition mailbox_holds :: "nkit_context \<Rightarrow> nat \<Rightarrow> nat \<Rightarrow> ptr list \<Rightarrow> bool" where
  "mailbox_holds c i n q \<longleftrightarrow> (\<exists>ring. mailbox_ring c i = Some ring \<and> ring_rep ring q \<and> unat (rg_capacity ring) = n)"

lemma mailbox_ring_set:
  assumes "mailbox_ring c i = Some ring"
  shows "mailbox_ring (set_mailbox_ring c i ring') i = Some ring'"
    and "j \<noteq> i \<Longrightarrow> mailbox_ring (set_mailbox_ring c i ring') j = mailbox_ring c j"
  using assms
  by (auto simp: mailbox_ring_def set_mailbox_ring_def nth_list_update split: option.splits if_splits)

lemma set_mailbox_ring_frame [simp]:
  "cx_num_nodes (set_mailbox_ring c i ring) = cx_num_nodes c"
  by (simp add: set_mailbox_ring_def)

lemma send_ok:
  assumes "mailbox_holds c (nat t) n q" and "0 \<le> t" and "t < cx_num_nodes c" and "length q < n"
  shows "\<exists>c'. nkit_send c t data w = Some (0, c', w) \<and> mailbox_holds c' (nat t) n (q @ [data]) \<and>
     cx_num_nodes c' = cx_num_nodes c"
proof -
  obtain ring where r: "mailbox_ring c (nat t) = Some ring" "ring_rep ring q" "unat (rg_capacity ring) = n"
    using assms(1) by (auto simp: mailbox_holds_def)
  then obtain ring' where p: "nkit_ring_push ring data = Some (True, ring')" "ring_rep ring' (q @ [data])"
    "unat (rg_capacity ring') = n"
    using rq.push_ok [OF r(2), of data] assms(4) by auto
  then show ?thesis
    using assms(2,3) r mailbox_ring_set(1) [OF r(1)] by (simp add: nkit_send_def mailbox_holds_def)
qed

lemma send_full:
  assumes "mailbox_holds c (nat t) n q" and "0 \<le> t" and "t < cx_num_nodes c" and "length q = n"
  shows "\<exists>c'. nkit_send c t data w = Some (- 2, c', w) \<and> mailbox_holds c' (nat t) n q"
proof -
  obtain ring where r: "mailbox_ring c (nat t) = Some ring" "ring_rep ring q" "unat (rg_capacity ring) = n"
    using assms(1) by (auto simp: mailbox_holds_def)
  then have "nkit_ring_push ring data = Some (False, ring)" using rq.push_full assms(4) by simp
  then show ?thesis
    using assms(2,3) r mailbox_ring_set(1) [OF r(1)] by (simp add: nkit_send_def mailbox_holds_def)
qed

text \<open>A handler that only acts on the platform.\<close>

definition os_handler :: "(ptr \<Rightarrow> os \<Rightarrow> os) \<Rightarrow> ptr \<Rightarrow> nkit_context \<times> os \<Rightarrow> nkit_context \<times> os" where
  "os_handler h data = (\<lambda>(c, w). (c, h data w))"

definition batch :: "u64 \<Rightarrow> u64 \<Rightarrow> nat \<Rightarrow> nat" where
  "batch limit processed n = (if limit = 0 then n else min (unat limit - unat processed) n)"

lemma process_loop_ok:
  assumes "mailbox_holds c i n q" and "limit \<noteq> 0 \<Longrightarrow> processed \<le> limit" and "unat processed + length q < 2 ^ 64"
  shows "\<exists>c'. process_loop (Some (os_handler h)) limit i processed c w =
      Some (processed + of_nat (batch limit processed (length q)), c', fold h (take (batch limit processed (length q)) q) w) \<and>
    mailbox_holds c' i n (drop (batch limit processed (length q)) q) \<and> cx_num_nodes c' = cx_num_nodes c"
  using assms
proof (induction q arbitrary: c processed w)
  case Nil
  obtain ring where r: "mailbox_ring c i = Some ring" "ring_rep ring []" "unat (rg_capacity ring) = n"
    using Nil.prems(1) by (auto simp: mailbox_holds_def)
  have "nkit_ring_pop ring = Some (None, ring)" using rq.pop_empty [OF r(2)] .
  then show ?case using r mailbox_ring_set(1) [OF r(1)] Nil.prems(1)
    by (subst process_loop.simps) (simp add: batch_def mailbox_holds_def)
next
  case (Cons x q)
  obtain ring where r: "mailbox_ring c i = Some ring" "ring_rep ring (x # q)" "unat (rg_capacity ring) = n"
    using Cons.prems(1) by (auto simp: mailbox_holds_def)
  show ?case
  proof (cases "limit = 0 \<or> processed < limit")
    case True
    obtain ring' where p: "nkit_ring_pop ring = Some (Some x, ring')" "ring_rep ring' q"
      "unat (rg_capacity ring') = n" using rq.pop_ok [OF r(2)] r(3) by auto
    let ?c = "set_mailbox_ring c i ring'"
    have h: "mailbox_holds ?c i n q" using p mailbox_ring_set(1) [OF r(1)] by (simp add: mailbox_holds_def)
    have u: "unat (processed + 1) = unat processed + 1"
      using Cons.prems(3) by (subst unat_add_lem [THEN iffD1]) simp_all
    have "limit \<noteq> 0 \<Longrightarrow> processed + 1 \<le> limit" using True u by (auto simp: word_le_nat_alt word_less_nat_alt)
    moreover have "unat (processed + 1) + length q < 2 ^ 64" using Cons.prems(3) u by simp
    moreover have "batch limit processed (length (x # q)) = Suc (batch limit (processed + 1) (length q))"
      using True u by (auto simp: batch_def word_less_nat_alt min_def)
    moreover have "process_loop (Some (os_handler h)) limit i processed c w =
        process_loop (Some (os_handler h)) limit i (processed + 1) ?c (h x w)"
      using True r(1) p(1) by (subst process_loop.simps) (simp add: os_handler_def)
    ultimately show ?thesis using Cons.IH [OF h, of "processed + 1" "h x w"] by (simp add: add.assoc)
  next
    case False
    then have "batch limit processed (length (x # q)) = 0" using Cons.prems(2)
      by (auto simp: batch_def word_le_nat_alt word_less_nat_alt)
    then show ?thesis using False Cons.prems(1) by (subst process_loop.simps) simp
  qed
qed

fun send_all :: "nkit_context \<Rightarrow> int \<Rightarrow> ptr list \<Rightarrow> os \<Rightarrow> (int list \<times> nkit_context \<times> os) option" where
  "send_all c t [] w = Some ([], c, w)"
| "send_all c t (x # xs) w =
    (case nkit_send c t x w of None \<Rightarrow> None
     | Some (rc, c', w') \<Rightarrow> map_option (\<lambda>(rcs, r). (rc # rcs, r)) (send_all c' t xs w'))"

lemma send_all_ok:
  assumes "mailbox_holds c (nat t) n q" and "0 \<le> t" and "t < cx_num_nodes c" and "length q + length xs \<le> n"
  shows "\<exists>c'. send_all c t xs w = Some (replicate (length xs) 0, c', w) \<and> mailbox_holds c' (nat t) n (q @ xs) \<and>
     cx_num_nodes c' = cx_num_nodes c"
  using assms
proof (induction xs arbitrary: c q)
  case (Cons x xs)
  obtain c1 where c1: "nkit_send c t x w = Some (0, c1, w)" "mailbox_holds c1 (nat t) n (q @ [x])"
    "cx_num_nodes c1 = cx_num_nodes c"
    using send_ok [OF Cons.prems(1-3), of x w] Cons.prems(4) by auto
  obtain c' where "send_all c1 t xs w = Some (replicate (length xs) 0, c', w)"
    "mailbox_holds c' (nat t) n ((q @ [x]) @ xs)" "cx_num_nodes c' = cx_num_nodes c1"
    using Cons.IH [OF c1(2)] Cons.prems c1(3) by auto
  then show ?case using c1 by simp
qed simp

subsection \<open>Properties\<close>

text \<open>
  C24. Messages arrive: whatever messages are sent to a node whose mailbox is empty and has room for
  them, every send reports success, and \<open>nkit_process_local\<close> on that node then hands exactly the
  first \<open>limit\<close> of them (all of them when \<open>limit\<close> is 0) to the handler, in the order they were sent,
  returns their number and leaves the others in the mailbox.
\<close>

theorem messages_roundtrip:
  assumes "mailbox_holds c (nat t) n []" and "0 \<le> t" and "t < cx_num_nodes c" and "length xs \<le> n"
    and "nkit_current_node w = (t, w1)"
  shows "\<exists>c1 c2. send_all c t xs w = Some (replicate (length xs) 0, c1, w) \<and>
    nkit_process_local (Some (os_handler h)) limit c1 w =
      Some (of_nat (batch limit 0 (length xs)), c2, fold h (take (batch limit 0 (length xs)) xs) w1) \<and>
    mailbox_holds c2 (nat t) n (drop (batch limit 0 (length xs)) xs)"
proof -
  obtain c1 where c1: "send_all c t xs w = Some (replicate (length xs) 0, c1, w)" "mailbox_holds c1 (nat t) n xs"
    "cx_num_nodes c1 = cx_num_nodes c"
    using send_all_ok [OF assms(1-3), of xs w] assms(4) by auto
  obtain ring :: nkit_ring where "unat (rg_capacity ring) = n" using assms(1) unfolding mailbox_holds_def by blast
  then have "n < 2 ^ 64" using unat_less_exp_len [of "rg_capacity ring"] by simp
  then have "unat (0::u64) + length xs < 2 ^ 64" using assms(4) by simp
  from process_loop_ok [OF c1(2) _ this, where limit = limit and w = w1 and h = h]
  obtain c2 where "process_loop (Some (os_handler h)) limit (nat t) 0 c1 w1 =
      Some (of_nat (batch limit 0 (length xs)), c2, fold h (take (batch limit 0 (length xs)) xs) w1)"
    "mailbox_holds c2 (nat t) n (drop (batch limit 0 (length xs)) xs)" by auto
  then show ?thesis using c1 assms(2,3,5) by (auto simp: nkit_process_local_def)
qed

definition demo_mail :: "nkit_context" where
  "demo_mail = g_nkit_ctx\<lparr>cx_num_nodes := 1, cx_initialized := True,
     cx_mailboxes := Some (8192, [Some \<lparr>mb_addr = 65536, mb_ring = Some demo_ring\<rparr>])\<rparr>"

theorem messages_roundtrip_witness:
  "\<exists>c1 c2 w1. send_all demo_mail 0 [7, 8] demo_os = Some ([0, 0], c1, demo_os) \<and>
     nkit_process_local (Some (os_handler (\<lambda>d w. os_do (Thread_call (Usleep d)) w))) 0 c1 demo_os = Some (2, c2, w1) \<and>
     take 2 (os_trace w1) = [Thread_call (Usleep 8), Thread_call (Usleep 7)]"
proof -
  have h: "mailbox_holds demo_mail (nat 0) 2 []"
    using ring_create_rep [OF mmap_ok_demo_os demo_ring]
    by (simp add: mailbox_holds_def mailbox_ring_def demo_mail_def)
  have n: "nkit_current_node demo_os = (0, snd (nkit_current_node demo_os))"
    by (simp add: nkit_current_node_def demo_os_def os_ask_int_def os_ask_i32_def os_ask_def)
  let ?h = "\<lambda>d w. os_do (Thread_call (Usleep d)) w"
  from messages_roundtrip [OF h _ _ _ n, where xs = "[7, 8]" and h = ?h and limit = 0]
  show ?thesis by (auto simp: demo_mail_def batch_def os_simps)
qed

text \<open>
  C32. The first initialisation leaves the mailboxes unusable. The array is allocated with the number
  of nodes cached before the topology was read, which is 0 in a new process, while the number of
  nodes is set to at least 1 afterwards: every send to a valid node, and the teardown, then read
  outside the array (or through a null pointer when the allocation failed).
\<close>

theorem first_init_mailboxes:
  assumes "nkit_init g_nkit_ctx w = (0, c, w')"
  shows "0 < cx_num_nodes c \<and>
    (\<forall>t data. 0 \<le> t \<and> t < cx_num_nodes c \<longrightarrow> (\<exists>w''. nkit_send c t data w' = Some (0, c, w'') \<and> os_fault w'')) \<and>
    (cx_mailboxes c \<noteq> None \<longrightarrow> os_fault (snd (nkit_teardown c w')))"
proof -
  have z: "\<not> cx_initialized g_nkit_ctx" "cx_num_nodes g_nkit_ctx = 0" by (simp_all add: g_nkit_ctx_def)
  from z(1) assms obtain arr where n: "0 < cx_num_nodes c"
    and m: "cx_mailboxes c = (if arr = NULL then None else Some (arr, []))"
    by (cases rule: nkit_init_cases) (auto simp: z(2))
  have "mailbox_ring c i = None" for i using m by (simp add: mailbox_ring_def)
  then have s: "nkit_send c t data w' = Some (0, c, os_invalid w')" if "0 \<le> t" "t < cx_num_nodes c" for t data
    using that by (simp add: nkit_send_def)
  have "os_fault (teardown_mailboxes b [0..<nat (cx_num_nodes c)] [] v)" for b v
    using n by (intro teardown_mailboxes_out_of_bounds [of 0]) auto
  then show ?thesis using n m s by (auto simp: nkit_teardown_def Let_def os_simps os_free_def)
qed

theorem first_init_mailboxes_witness:
  "\<exists>c w' w''. nkit_init g_nkit_ctx demo_os = (0, c, w') \<and>
     nkit_send c 0 7 w' = Some (0, c, w'') \<and> os_fault w'' \<and> os_fault (snd (nkit_teardown c w'))"
proof -
  have "\<not> cx_initialized g_nkit_ctx" by (simp add: g_nkit_ctx_def)
  from demo_init [OF this] obtain c w' where i: "nkit_init g_nkit_ctx demo_os = (0, c, w')"
    "cx_num_nodes c = 1" "cx_mailboxes c \<noteq> None" by blast
  from first_init_mailboxes [OF i(1)] i show ?thesis by auto
qed

end
