(* ===== verification/NK_Topology.thy ===== *)
theory NK_Topology
  imports NK_Context
begin

section \<open>Topology queries (\<^verbatim>\<open>src/topology/query.c\<close>, \<^verbatim>\<open>src/topology/hwloc_backend.c\<close>)\<close>

text \<open>
  Every query is refused before initialisation; a node is looked up through hwloc, by
  \<open>get_hwloc_node\<close>, which returns \<^verbatim>\<open>NULL\<close> for an index out of range.
\<close>

definition get_hwloc_node :: "nkit_context \<Rightarrow> int \<Rightarrow> os \<Rightarrow> ptr \<times> os" where
  "get_hwloc_node c node_id w =
    (if cx_topo c = NULL then (NULL, w) else
     if node_id < 0 \<or> node_id \<ge> cx_num_nodes c then (NULL, w) else
     os_ask (Hwloc_call (Get_numanode (cx_topo c) node_id)) w)"

definition nkit_topo_num_nodes :: "nkit_context \<Rightarrow> int" where
  "nkit_topo_num_nodes c = (if \<not> cx_initialized c then - 1 else cx_num_nodes c)"

definition nkit_topo_num_cpus :: "nkit_context \<Rightarrow> int" where
  "nkit_topo_num_cpus c = (if \<not> cx_initialized c then - 1 else cx_num_pus c)"

definition nkit_topo_cpus_on_node :: "nkit_context \<Rightarrow> int \<Rightarrow> os \<Rightarrow> int \<times> os" where
  "nkit_topo_cpus_on_node c node_id w =
    (if \<not> cx_initialized c then (- 1, w) else
     case get_hwloc_node c node_id w of (node_obj, w1) \<Rightarrow>
     if node_obj = NULL then (- 1, w1) else
     case os_ask (Hwloc_call (Node_cpuset node_obj)) w1 of (cpuset, w2) \<Rightarrow>
     os_ask_int (Hwloc_call (Pus_inside (cx_topo c) cpuset)) w2)"

definition nkit_topo_distance :: "nkit_context \<Rightarrow> int \<Rightarrow> int \<Rightarrow> os \<Rightarrow> int \<times> os" where
  "nkit_topo_distance c from_node to_node w =
    (if \<not> cx_initialized c then (- 1, w) else
     case get_hwloc_node c from_node w of (obj_from, w1) \<Rightarrow>
     case get_hwloc_node c to_node w1 of (obj_to, w2) \<Rightarrow>
     if obj_from = NULL \<or> obj_to = NULL then (- 1, w2) else
     case (if cx_numa_supported c then os_ask_int (Numa_call (Distance from_node to_node)) w2 else (0, w2))
       of (d, w3) \<Rightarrow>
     (if 0 < d then d else if from_node = to_node then 10 else 20, w3))"

text \<open>The two output parameters may be null pointers; they are filled only where they are not.\<close>

definition nkit_topo_node_memory ::
  "nkit_context \<Rightarrow> int \<Rightarrow> bool \<Rightarrow> bool \<Rightarrow> os \<Rightarrow> int \<times> u64 option \<times> u64 option \<times> os" where
  "nkit_topo_node_memory c node_id want_total want_free w =
    (if \<not> cx_initialized c then (- 1, None, None, w) else
     case get_hwloc_node c node_id w of (node_obj, w1) \<Rightarrow>
     if node_obj = NULL then (- 1, None, None, w1) else
     case (if want_total then (case os_ask (Hwloc_call (Local_memory node_obj)) w1 of (m, w2) \<Rightarrow> (Some m, w2))
           else (None, w1)) of (total_bytes, w2) \<Rightarrow>
     case (if want_free then
             (if cx_numa_supported c
              then (case os_ask (Numa_call (Node_free node_id)) w2 of (f, w3) \<Rightarrow> (Some f, w3))
              else (case os_ask (Hwloc_call (Local_memory node_obj)) w2 of (m, w3) \<Rightarrow> (Some m, w3)))
           else (None, w2)) of (free_bytes, w3) \<Rightarrow>
     (0, total_bytes, free_bytes, w3))"

definition nkit_topo_is_numa :: "nkit_context \<Rightarrow> int" where
  "nkit_topo_is_numa c = (if \<not> cx_initialized c then 0 else if cx_numa_supported c then 1 else 0)"

subsection \<open>Properties\<close>

lemma get_hwloc_node_range:
  "fst (get_hwloc_node c n w) \<noteq> NULL \<Longrightarrow> cx_topo c \<noteq> NULL \<and> 0 \<le> n \<and> n < cx_num_nodes c"
  by (auto simp: get_hwloc_node_def split: if_splits)

lemma get_hwloc_node_ledger: "ledger (snd (get_hwloc_node c n w)) = ledger w"
  by (simp add: get_hwloc_node_def ledger_simps)

text \<open>
  The topology queries refuse what they must: before initialisation, or for a node index that is
  out of range, the distance, CPU and memory queries return -1 (and fill no output), and a distance
  that is returned for two known nodes is positive, 10 for a node to itself and 20 otherwise where
  the kernel gives none. No query acquires or releases anything.
\<close>

theorem topology_queries:
  "(\<not> cx_initialized c \<or> a < 0 \<or> cx_num_nodes c \<le> a \<or> cx_topo c = NULL \<longrightarrow>
      fst (nkit_topo_distance c a b w) = - 1 \<and> fst (nkit_topo_distance c b a w) = - 1 \<and>
      fst (nkit_topo_cpus_on_node c a w) = - 1 \<and> (\<exists>w'. nkit_topo_node_memory c a t f w = (- 1, None, None, w'))) \<and>
   (fst (nkit_topo_distance c a b w) = - 1 \<or> 0 < fst (nkit_topo_distance c a b w)) \<and>
   (\<not> cx_numa_supported c \<longrightarrow> fst (nkit_topo_distance c a b w) \<in> {- 1, if a = b then 10 else 20}) \<and>
   ledger (snd (nkit_topo_distance c a b w)) = ledger w"
proof -
  have n: "fst (get_hwloc_node c a v) = NULL" if "a < 0 \<or> cx_num_nodes c \<le> a \<or> cx_topo c = NULL" for v
    using that by (auto simp: get_hwloc_node_def)
  show ?thesis
    using n
    by (auto simp: nkit_topo_distance_def nkit_topo_cpus_on_node_def nkit_topo_node_memory_def case_prod_beta
        ledger_simps get_hwloc_node_ledger split: if_splits)
qed

theorem topology_queries_witness:
  "fst (nkit_topo_distance g_nkit_ctx 0 0 demo_os) = - 1 \<and>
   fst (nkit_topo_distance (g_nkit_ctx\<lparr>cx_initialized := True, cx_num_nodes := 1, cx_topo := 64\<rparr>) 0 0 demo_os) = 10"
proof -
  let ?c = "g_nkit_ctx\<lparr>cx_initialized := True, cx_num_nodes := 1, cx_topo := 64\<rparr>"
  have "\<not> cx_initialized g_nkit_ctx" "\<not> cx_numa_supported ?c" by (simp_all add: g_nkit_ctx_def)
  moreover have "fst (nkit_topo_distance ?c 0 0 demo_os) \<noteq> - 1"
    by (simp add: nkit_topo_distance_def get_hwloc_node_def g_nkit_ctx_def demo_os_def os_ask_def)
  ultimately show ?thesis
    using topology_queries [of "g_nkit_ctx" 0 0 demo_os] topology_queries [of ?c 0 0 demo_os] by simp
qed

end
