(* ===== verification/NK_Pcounter.thy ===== *)
theory NK_Pcounter
  imports NK_Affinity
begin

section \<open>Partitioned counters (\<^verbatim>\<open>src/sync/pcounter.c\<close>)\<close>

text \<open>
  One 64-bit slot per node, each with its address: \<open>pc_slot\<close> is the array behind \<open>pc_slots\<close>. A
  thread adds to the slot of the node it runs on; reading sums the slots. The slots hold
  \<^verbatim>\<open>int64_t\<close> values, which atomic operations wrap around.
\<close>

record nkit_pcounter =
  pc_addr :: ptr
  pc_slots :: ptr
  pc_slot :: "(ptr \<times> u64) list"
  pc_num_nodes :: int

definition sizeof_pcounter :: u64 where
  "sizeof_pcounter = 16"

definition sizeof_slot :: u64 where
  "sizeof_slot = 64"

definition free_slot :: "bool \<Rightarrow> ptr \<times> u64 \<Rightarrow> os \<Rightarrow> os" where
  "free_slot numa = (\<lambda>(p, _). if numa then os_numa_free p sizeof_slot else os_free p)"

fun pcounter_alloc_slots :: "bool \<Rightarrow> nat list \<Rightarrow> (ptr \<times> u64) list \<Rightarrow> os \<Rightarrow> (ptr \<times> u64) list option \<times> os" where
  "pcounter_alloc_slots numa [] slots w = (Some slots, w)"
| "pcounter_alloc_slots numa (i # is) slots w =
    (case (if numa then os_numa_alloc sizeof_slot (int i) w else os_aligned_alloc 64 sizeof_slot w) of (p, w1) \<Rightarrow>
     if p = NULL then (None, fold (free_slot numa) slots w1)
     else pcounter_alloc_slots numa is (slots @ [(p, 0)]) w1)"

definition nkit_pcounter_create :: "nkit_context \<Rightarrow> os \<Rightarrow> nkit_pcounter option \<times> os" where
  "nkit_pcounter_create c w =
    (let num_nodes = (if cx_num_nodes c \<le> 0 then 1 else cx_num_nodes c) in
     case os_malloc sizeof_pcounter w of (counter, w1) \<Rightarrow>
     if counter = NULL then (None, w1) else
     case os_calloc (word_of_int num_nodes) 8 w1 of (slots, w2) \<Rightarrow>
     if slots = NULL then (None, os_free counter w2) else
     case pcounter_alloc_slots (cx_numa_supported c) [0..<nat num_nodes] [] w2 of
       (None, w3) \<Rightarrow> (None, os_free counter (os_free slots w3))
     | (Some ss, w3) \<Rightarrow>
       (Some \<lparr>pc_addr = counter, pc_slots = slots, pc_slot = ss, pc_num_nodes = num_nodes\<rparr>, w3))"

definition nkit_pcounter_destroy :: "nkit_context \<Rightarrow> nkit_pcounter option \<Rightarrow> os \<Rightarrow> os" where
  "nkit_pcounter_destroy c h w =
    (case h of None \<Rightarrow> w
     | Some counter \<Rightarrow>
       os_free (pc_addr counter)
         (if pc_slots counter \<noteq> NULL
          then os_free (pc_slots counter) (fold (free_slot (cx_numa_supported c))
                 (take (nat (pc_num_nodes counter)) (pc_slot counter)) w)
          else w))"

definition nkit_pcounter_add :: "nkit_pcounter \<Rightarrow> u64 \<Rightarrow> os \<Rightarrow> nkit_pcounter \<times> os" where
  "nkit_pcounter_add counter v w =
    (case nkit_current_node w of (n, w1) \<Rightarrow>
     let node = nat (if n < 0 \<or> n \<ge> pc_num_nodes counter then 0 else n) in
     case pc_slot counter ! node of (p, x) \<Rightarrow>
     (counter\<lparr>pc_slot := (pc_slot counter)[node := (p, x + v)]\<rparr>, w1))"

definition nkit_pcounter_inc :: "nkit_pcounter \<Rightarrow> os \<Rightarrow> nkit_pcounter \<times> os" where
  "nkit_pcounter_inc counter w = nkit_pcounter_add counter 1 w"

definition nkit_pcounter_dec :: "nkit_pcounter \<Rightarrow> os \<Rightarrow> nkit_pcounter \<times> os" where
  "nkit_pcounter_dec counter w = nkit_pcounter_add counter (- 1) w"

definition nkit_pcounter_read :: "nkit_pcounter \<Rightarrow> u64" where
  "nkit_pcounter_read counter =
    fold (\<lambda>i sum. sum + snd (pc_slot counter ! i)) [0..<nat (pc_num_nodes counter)] 0"

definition nkit_pcounter_reset :: "nkit_pcounter \<Rightarrow> nkit_pcounter" where
  "nkit_pcounter_reset counter =
    counter\<lparr>pc_slot := fold (\<lambda>i ss. ss[i := (fst (ss ! i), 0)]) [0..<nat (pc_num_nodes counter)] (pc_slot counter)\<rparr>"

subsection \<open>Creation and destruction\<close>

definition slot_owns :: "bool \<Rightarrow> ptr \<times> u64 \<Rightarrow> os_res multiset" where
  "slot_owns numa s = {#if numa then Numa (fst s) sizeof_slot else Heap (fst s)#}"

definition pcounter_ok :: "nkit_pcounter \<Rightarrow> bool" where
  "pcounter_ok c \<longleftrightarrow> pc_addr c \<noteq> NULL \<and> pc_slots c \<noteq> NULL \<and> 0 < pc_num_nodes c \<and>
     length (pc_slot c) = nat (pc_num_nodes c) \<and> (\<forall>s \<in> set (pc_slot c). fst s \<noteq> NULL)"

definition pcounter_owns :: "bool \<Rightarrow> nkit_pcounter \<Rightarrow> os_res multiset" where
  "pcounter_owns numa c = {#Heap (pc_addr c), Heap (pc_slots c)#} + (\<Sum>s\<leftarrow>pc_slot c. slot_owns numa s)"

lemma free_slots_ledger:
  assumes "\<forall>s \<in> set ss. fst s \<noteq> NULL" and "(\<Sum>s\<leftarrow>ss. slot_owns numa s) \<subseteq># os_live w"
  shows "ledger (fold (free_slot numa) ss w) = (os_live w - (\<Sum>s\<leftarrow>ss. slot_owns numa s), os_fault w)"
  using assms
proof (induction ss arbitrary: w)
  case (Cons s ss)
  obtain R where R: "os_live w = slot_owns numa s + (\<Sum>s\<leftarrow>ss. slot_owns numa s) + R"
    using Cons.prems(2) by (auto simp: subset_mset.le_iff_add)
  let ?w = "free_slot numa s w"
  have w: "ledger ?w = (os_live w - slot_owns numa s, os_fault w)"
    using R Cons.prems(1) by (cases s) (auto simp: free_slot_def slot_owns_def os_numa_free_def os_free_def ledger_def os_simps)
  then have "(\<Sum>s\<leftarrow>ss. slot_owns numa s) \<subseteq># os_live ?w" using R by (simp add: ledger_def)
  from Cons.IH [OF _ this] Cons.prems(1) w R show ?case by (simp add: ledger_def)
qed (simp add: ledger_def)

lemma pcounter_alloc_slots_ok:
  assumes "\<forall>s \<in> set ss. fst s \<noteq> NULL" and "(\<Sum>s\<leftarrow>ss. slot_owns numa s) \<subseteq># os_live w"
    and "pcounter_alloc_slots numa is ss w = (r, w')"
  shows "case r of None \<Rightarrow> ledger w' = (os_live w - (\<Sum>s\<leftarrow>ss. slot_owns numa s), os_fault w)
    | Some ss' \<Rightarrow> ledger w' = (os_live w - (\<Sum>s\<leftarrow>ss. slot_owns numa s) + (\<Sum>s\<leftarrow>ss'. slot_owns numa s), os_fault w) \<and>
        length ss' = length ss + length is \<and> (\<forall>s \<in> set ss'. fst s \<noteq> NULL)"
  using assms
proof (induction "is" arbitrary: ss w)
  case Nil
  then show ?case by (auto simp: ledger_def)
next
  case (Cons i "is")
  obtain p w1 where al: "(if numa then os_numa_alloc sizeof_slot (int i) w else os_aligned_alloc 64 sizeof_slot w) = (p, w1)"
    by fastforce
  have w1: "ledger w1 = (os_live w + (if p = NULL then {#} else slot_owns numa (p, 0)), os_fault w)"
  proof -
    have "p = fst (if numa then os_numa_alloc sizeof_slot (int i) w else os_aligned_alloc 64 sizeof_slot w)"
      "w1 = snd (if numa then os_numa_alloc sizeof_slot (int i) w else os_aligned_alloc 64 sizeof_slot w)"
      using al by (metis fst_conv, metis snd_conv)
    then show ?thesis by (simp add: slot_owns_def os_prim_defs os_simps ledger_def)
  qed
  show ?case
  proof (cases "p = NULL")
    case True
    then have "r = None" "w' = fold (free_slot numa) ss w1" using Cons.prems(3) al by auto
    then show ?thesis using free_slots_ledger [OF Cons.prems(1), of numa w1] Cons.prems(2) w1 True
      by (simp add: ledger_def)
  next
    case False
    obtain R where R: "os_live w = (\<Sum>s\<leftarrow>ss. slot_owns numa s) + R" using Cons.prems(2) by (auto simp: subset_mset.le_iff_add)
    have "pcounter_alloc_slots numa is (ss @ [(p, 0)]) w1 = (r, w')" using Cons.prems(3) al False by simp
    from Cons.IH [OF _ _ this] show ?thesis
      using Cons.prems(1) False w1 R by (cases r) (auto simp: ledger_def)
  qed
qed

lemma os_free_owned:
  assumes "p \<noteq> NULL" and "Heap p \<in># os_live w"
  shows "ledger (os_free p w) = (os_live w - {#Heap p#}, os_fault w)"
  using assms by (simp add: os_free_def ledger_def os_simps)

lemma pcounter_alloc_slots_zero:
  "pcounter_alloc_slots numa is ss w = (Some ss', w') \<Longrightarrow> (\<And>s. s \<in> set ss \<Longrightarrow> snd s = 0) \<Longrightarrow> s \<in> set ss' \<Longrightarrow> snd s = 0"
  by (induction "is" arbitrary: ss w) (fastforce split: if_splits prod.splits)+

lemma pcounter_new_zero:
  "nkit_pcounter_create c w = (Some x, w') \<Longrightarrow> s \<in> set (pc_slot x) \<Longrightarrow> snd s = 0"
  by (auto simp: nkit_pcounter_create_def Let_def split: if_splits prod.splits option.splits
      dest: pcounter_alloc_slots_zero)

interpretation pcounter: owned_object "\<lambda>_. True" "nkit_pcounter_create c" "\<lambda>x. nkit_pcounter_destroy c (Some x)"
  "pcounter_owns (cx_numa_supported c)" pcounter_ok for c :: "nkit_context"
proof unfold_locales
  fix w w' :: os and x :: nkit_pcounter
  let ?n = "if cx_num_nodes c \<le> 0 then 1 else cx_num_nodes c" and ?numa = "cx_numa_supported c"
  obtain p w1 where 1: "os_malloc sizeof_pcounter w = (p, w1)" by fastforce
  obtain q w2 where 2: "os_calloc (word_of_int ?n) 8 w1 = (q, w2)" by fastforce
  obtain r w3 where 3: "pcounter_alloc_slots ?numa [0..<nat ?n] [] w2 = (r, w3)" by fastforce
  have w1: "ledger w1 = (os_live w + (if p = NULL then {#} else {#Heap p#}), os_fault w)"
    using os_alloc_simps(1-3) [of "Malloc sizeof_pcounter" Heap NULL w] 1 by (auto simp: os_malloc_def ledger_def)
  have w2: "ledger w2 = (os_live w1 + (if q = NULL then {#} else {#Heap q#}), os_fault w1)"
    using os_alloc_simps(1-3) [of "Calloc (word_of_int ?n) 8" Heap NULL w1] 2 by (auto simp: os_calloc_def ledger_def)
  have w3: "case r of None \<Rightarrow> ledger w3 = ledger w2
    | Some ss \<Rightarrow> ledger w3 = (os_live w2 + (\<Sum>s\<leftarrow>ss. slot_owns ?numa s), os_fault w2) \<and> length ss = nat ?n \<and>
        (\<forall>s \<in> set ss. fst s \<noteq> NULL)"
    using pcounter_alloc_slots_ok [OF _ _ 3] by (auto simp: ledger_def split: option.splits)
  have create: "nkit_pcounter_create c w = (if p = NULL then (None, w1) else if q = NULL then (None, os_free p w2) else
      case r of None \<Rightarrow> (None, os_free p (os_free q w3))
      | Some ss \<Rightarrow> (Some \<lparr>pc_addr = p, pc_slots = q, pc_slot = ss, pc_num_nodes = ?n\<rparr>, w3))"
    using 1 2 3 by (simp add: nkit_pcounter_create_def)
  show "ledger w' = ledger w \<and> True" if mk: "nkit_pcounter_create c w = (None, w')"
  proof -
    consider "p = NULL" "w' = w1" | "p \<noteq> NULL" "q = NULL" "w' = os_free p w2"
      | "p \<noteq> NULL" "q \<noteq> NULL" "r = None" "w' = os_free p (os_free q w3)"
      using create mk by (auto split: if_splits option.splits)
    then show ?thesis
      by cases (use w1 w2 w3 in \<open>simp_all add: ledger_def os_free_def os_simps\<close>)
  qed
  show "ledger w' = (os_live w + pcounter_owns ?numa x, os_fault w) \<and> pcounter_ok x \<and> True"
    if mk: "nkit_pcounter_create c w = (Some x, w')"
  proof -
    obtain ss where "p \<noteq> NULL" "q \<noteq> NULL" "r = Some ss" "w' = w3"
      "x = \<lparr>pc_addr = p, pc_slots = q, pc_slot = ss, pc_num_nodes = ?n\<rparr>"
      using create mk by (auto split: if_splits option.splits)
    then show ?thesis using w1 w2 w3 by (simp add: pcounter_owns_def pcounter_ok_def ledger_def)
  qed
  show "ledger (nkit_pcounter_destroy c (Some x) w) = (os_live w - pcounter_owns ?numa x, os_fault w)"
    if ok: "pcounter_ok x" and own: "pcounter_owns ?numa x \<subseteq># os_live w"
  proof -
    obtain R where R: "os_live w = pcounter_owns ?numa x + R" using own by (auto simp: subset_mset.le_iff_add)
    have "ledger (fold (free_slot ?numa) (pc_slot x) w) = (os_live w - (\<Sum>s\<leftarrow>pc_slot x. slot_owns ?numa s), os_fault w)"
      using ok R by (intro free_slots_ledger) (simp_all add: pcounter_ok_def pcounter_owns_def)
    then show ?thesis using ok R
      by (simp add: nkit_pcounter_destroy_def pcounter_ok_def pcounter_owns_def os_free_def ledger_def os_simps)
  qed
qed simp

subsection \<open>The value of a counter\<close>

definition pcounter_total :: "nkit_pcounter \<Rightarrow> u64" where
  "pcounter_total c = (\<Sum>s\<leftarrow>pc_slot c. snd s)"

lemma fold_add_nth: "fold (\<lambda>i a. a + f (xs ! i)) [0..<length xs] (a :: u64) = a + (\<Sum>x\<leftarrow>xs. f x)"
proof -
  have "fold (\<lambda>i a. a + f (xs ! i)) js a = a + (\<Sum>i\<leftarrow>js. f (xs ! i))" for js
    by (induction js arbitrary: a) (simp_all add: add.assoc)
  moreover have "map (\<lambda>i. f (xs ! i)) [0..<length xs] = map f xs"
    using map_nth [of xs] by (metis (no_types, lifting) map_map comp_apply map_cong)
  ultimately show ?thesis by simp
qed

lemma pcounter_read_total: "pcounter_ok c \<Longrightarrow> nkit_pcounter_read c = pcounter_total c"
  using fold_add_nth [of snd "pc_slot c" 0] by (simp add: nkit_pcounter_read_def pcounter_total_def pcounter_ok_def)

lemma sum_list_update_word:
  "i < length xs \<Longrightarrow> (\<Sum>x\<leftarrow>xs[i := y]. f x) = (\<Sum>x\<leftarrow>xs. f x) - f (xs ! i) + (f y :: u64)"
  by (induction xs arbitrary: i) (auto split: nat.split)

lemma pcounter_add_total:
  assumes "pcounter_ok c"
  shows "pcounter_ok (fst (nkit_pcounter_add c v w))"
    and "pcounter_total (fst (nkit_pcounter_add c v w)) = pcounter_total c + v"
    and "pcounter_owns b (fst (nkit_pcounter_add c v w)) = pcounter_owns b c"
proof -
  obtain n w1 where n: "nkit_current_node w = (n, w1)" by fastforce
  define i where "i = nat (if n < 0 \<or> n \<ge> pc_num_nodes c then 0 else n)"
  have i: "i < length (pc_slot c)" using assms by (auto simp: i_def pcounter_ok_def)
  obtain p x where s: "pc_slot c ! i = (p, x)" by fastforce
  have add: "fst (nkit_pcounter_add c v w) = c\<lparr>pc_slot := (pc_slot c)[i := (p, x + v)]\<rparr>"
    using n s by (simp add: nkit_pcounter_add_def i_def)
  have "p \<noteq> NULL" using assms s i nth_mem [OF i] by (auto simp: pcounter_ok_def)
  then show "pcounter_ok (fst (nkit_pcounter_add c v w))"
    unfolding add using assms by (auto simp: pcounter_ok_def dest!: set_update_subset_insert [THEN subsetD])
  show "pcounter_total (fst (nkit_pcounter_add c v w)) = pcounter_total c + v"
    unfolding add by (simp add: pcounter_total_def sum_list_update_word [OF i] s)
  have "map fst ((pc_slot c)[i := (p, x + v)]) = map fst (pc_slot c)"
    using s i by (simp add: map_update) (metis fst_conv list_update_id map_update)
  moreover have g: "slot_owns b = (\<lambda>p. {#if b then Numa p sizeof_slot else Heap p#}) \<circ> fst"
    by (simp add: slot_owns_def fun_eq_iff)
  ultimately have "map (slot_owns b) ((pc_slot c)[i := (p, x + v)]) = map (slot_owns b) (pc_slot c)"
    unfolding g by (simp only: map_map [symmetric])
  then show "pcounter_owns b (fst (nkit_pcounter_add c v w)) = pcounter_owns b c"
    unfolding add pcounter_owns_def by simp
qed

lemma pcounter_add_ledger: "ledger (snd (nkit_pcounter_add c v w)) = ledger w"
  by (simp add: nkit_pcounter_add_def nkit_current_node_def case_prod_beta ledger_simps Let_def)

lemma pcounter_reset_slots:
  "js = [0..<k] \<Longrightarrow> k \<le> length ss \<Longrightarrow>
   fold (\<lambda>i ss. ss[i := (fst (ss ! i), 0)]) js ss = map (\<lambda>s. (fst s, 0)) (take k ss) @ drop k ss"
proof (induction k arbitrary: js)
  case (Suc k)
  then have "fold (\<lambda>i ss. ss[i := (fst (ss ! i), 0)]) js ss =
      (map (\<lambda>s. (fst s, 0)) (take k ss) @ drop k ss)[k := (fst (ss ! k), 0)]"
    by (simp add: nth_append)
  also have "\<dots> = map (\<lambda>s. (fst s, 0)) (take (Suc k) ss) @ drop (Suc k) ss"
    using Suc.prems(2) by (simp add: list_update_append take_Suc_conv_app_nth Cons_nth_drop_Suc [symmetric])
  finally show ?case .
qed simp

lemma pcounter_reset_total:
  assumes "pcounter_ok c"
  shows "pcounter_ok (nkit_pcounter_reset c)" and "pcounter_total (nkit_pcounter_reset c) = 0"
proof -
  have r: "nkit_pcounter_reset c = c\<lparr>pc_slot := map (\<lambda>s. (fst s, 0)) (pc_slot c)\<rparr>"
    using assms pcounter_reset_slots [OF refl, of "length (pc_slot c)" "pc_slot c"]
    by (simp add: nkit_pcounter_reset_def pcounter_ok_def)
  show "pcounter_ok (nkit_pcounter_reset c)" unfolding r using assms by (auto simp: pcounter_ok_def)
  show "pcounter_total (nkit_pcounter_reset c) = 0" unfolding r by (simp add: pcounter_total_def comp_def)
qed

fun pcounter_run :: "nkit_pcounter \<Rightarrow> u64 list \<Rightarrow> os \<Rightarrow> nkit_pcounter \<times> os" where
  "pcounter_run c [] w = (c, w)"
| "pcounter_run c (v # vs) w = (case nkit_pcounter_add c v w of (c', w') \<Rightarrow> pcounter_run c' vs w')"

lemma pcounter_run_ok:
  assumes "pcounter_ok c" and "pcounter_run c vs w = (c', w')"
  shows "pcounter_ok c' \<and> pcounter_total c' = pcounter_total c + sum_list vs \<and>
    pcounter_owns b c' = pcounter_owns b c \<and> ledger w' = ledger w"
  using assms
proof (induction vs arbitrary: c w)
  case (Cons v vs)
  obtain c1 w1 where 1: "nkit_pcounter_add c v w = (c1, w1)" by fastforce
  then have "pcounter_run c1 vs w1 = (c', w')" using Cons.prems(2) by simp
  from Cons.IH [OF _ this] 1 pcounter_add_total [OF Cons.prems(1), where v = v and w = w] pcounter_add_ledger [of c v w]
  show ?case by (simp add: add.assoc)
qed auto

subsection \<open>A read among concurrent additions\<close>

text \<open>
  \<open>nkit_pcounter_read\<close> loads one slot after the other while other threads add to the slots with an
  atomic fetch-and-add. \<open>pc_interleave\<close> runs an interleaving of such steps: \<open>Pc_add n v\<close> is an
  addition to slot \<open>n\<close>, \<open>Pc_load\<close> the reader's next load, into its running sum.
\<close>

datatype pc_event = Pc_add nat u64 | Pc_load

fun pc_interleave :: "pc_event list \<Rightarrow> u64 list \<times> nat \<times> u64 \<Rightarrow> u64 list \<times> nat \<times> u64" where
  "pc_interleave [] st = st"
| "pc_interleave (Pc_add n v # es) (slots, i, acc) =
    pc_interleave es (if n < length slots then slots[n := slots ! n + v] else slots, i, acc)"
| "pc_interleave (Pc_load # es) (slots, i, acc) =
    pc_interleave es (if i < length slots then (slots, i + 1, acc + slots ! i) else (slots, i, acc))"

fun pc_added :: "pc_event list \<Rightarrow> nat" where
  "pc_added [] = 0"
| "pc_added (Pc_add n v # es) = unat v + pc_added es"
| "pc_added (Pc_load # es) = pc_added es"

definition pc_count :: "nat \<Rightarrow> u64 list \<Rightarrow> nat" where
  "pc_count i slots = (\<Sum>j<i. unat (slots ! j))"

text \<open>The reader's sum against what the slots it has passed held before and hold now.\<close>

definition pc_inv :: "u64 list \<Rightarrow> u64 list \<times> nat \<times> u64 \<Rightarrow> bool" where
  "pc_inv slots0 st = (case st of (slots, i, acc) \<Rightarrow> i \<le> length slots \<and> length slots = length slots0 \<and>
     (\<forall>j < length slots. unat (slots0 ! j) \<le> unat (slots ! j)) \<and>
     pc_count i slots0 \<le> unat acc \<and> unat acc \<le> pc_count i slots)"

lemma pc_count_mono:
  "(\<And>j. j < i \<Longrightarrow> unat (xs ! j) \<le> unat (ys ! j)) \<Longrightarrow> pc_count i xs \<le> pc_count i ys"
  unfolding pc_count_def by (intro sum_mono) simp

lemma pc_count_le: "j < i \<Longrightarrow> unat (xs ! j) \<le> pc_count i xs"
  unfolding pc_count_def by (intro member_le_sum) simp_all

lemma pc_count_prefix: "i \<le> k \<Longrightarrow> pc_count i xs \<le> pc_count k xs"
  unfolding pc_count_def by (intro sum_mono2) auto

lemma pc_count_update:
  assumes "n < i" and "i \<le> length xs" and "unat (xs ! n + v) = unat (xs ! n) + unat v"
  shows "pc_count i (xs[n := xs ! n + v]) = pc_count i xs + unat v"
proof -
  have "(\<Sum>j\<in>{..<i} - {n}. unat (xs[n := xs ! n + v] ! j)) = (\<Sum>j\<in>{..<i} - {n}. unat (xs ! j))"
    by (intro sum.cong) (auto simp: nth_list_update)
  then show ?thesis
    unfolding pc_count_def using assms by (simp add: sum.remove [of "{..<i}" n])
qed

lemma pc_interleave_inv:
  assumes "pc_inv slots0 (slots, i, acc)" and "pc_count (length slots) slots + pc_added es < 2 ^ 64"
    and "pc_interleave es (slots, i, acc) = (slots', i', acc')"
  shows "pc_inv slots0 (slots', i', acc')"
  using assms
proof (induction es arbitrary: slots i acc)
  case (Cons e es)
  note inv = Cons.prems(1) [unfolded pc_inv_def prod.case]
  show ?case
  proof (cases e)
    case (Pc_add n v)
    show ?thesis
    proof (cases "n < length slots")
      case True
      have u: "unat (slots ! n + v) = unat (slots ! n) + unat v"
        using pc_count_le [OF True, of slots] Cons.prems(2) Pc_add by (subst unat_add_lem [THEN iffD1]) simp_all
      let ?s = "slots[n := slots ! n + v]"
      have up: "unat (slots ! j) \<le> unat (?s ! j)" if "j < length slots" for j
        using that u by (cases "j = n") simp_all
      have "pc_count i slots \<le> pc_count i ?s" using up inv by (intro pc_count_mono) simp
      then have "pc_inv slots0 (?s, i, acc)"
        unfolding pc_inv_def prod.case using inv le_trans [OF _ up] by (auto intro: le_trans)
      moreover have "pc_count (length ?s) ?s + pc_added es < 2 ^ 64"
        using pc_count_update [OF True _ u] Cons.prems(2) Pc_add by simp
      ultimately show ?thesis using Cons.IH [of ?s i acc] Cons.prems(3) Pc_add True by simp
    next
      case False
      then show ?thesis using Cons.IH [OF Cons.prems(1)] Cons.prems(2,3) Pc_add by simp
    qed
  next
    case Pc_load
    show ?thesis
    proof (cases "i < length slots")
      case True
      have c: "pc_count (i + 1) xs = pc_count i xs + unat (xs ! i)" for xs by (simp add: pc_count_def)
      have "pc_count (i + 1) slots \<le> pc_count (length slots) slots" using True by (intro pc_count_prefix) simp
      then have "unat (acc + slots ! i) = unat acc + unat (slots ! i)"
        using inv Cons.prems(2) c [of slots] by (subst unat_add_lem [THEN iffD1]) simp_all
      then have "pc_inv slots0 (slots, i + 1, acc + slots ! i)"
        unfolding pc_inv_def prod.case c using inv True by (auto intro: add_mono)
      then show ?thesis using Cons.IH [of slots "i + 1"] Cons.prems(2,3) Pc_load True by simp
    next
      case False
      then show ?thesis using Cons.IH [OF Cons.prems(1)] Cons.prems(2,3) Pc_load by simp
    qed
  qed
qed simp

subsection \<open>Properties\<close>

text \<open>
  C25. A partitioned counter counts exactly: after any sequence of additions, from whatever nodes the
  adding threads run on, the value read is the sum of what was added (modulo \<open>2 ^ 64\<close>); a reset
  sets it to 0; and destroying the counter gives back everything its creation took.
\<close>

theorem pcounter_exact:
  assumes "nkit_pcounter_create c w = (Some x, w1)" and "pcounter_run x vs w1 = (x', w2)"
  shows "nkit_pcounter_read x' = sum_list vs \<and> nkit_pcounter_read (nkit_pcounter_reset x') = 0 \<and>
    ledger (nkit_pcounter_destroy c (Some x') w2) = ledger w"
proof -
  note cr = pcounter.create_Some [OF TrueI assms(1)]
  have ok: "pcounter_ok x" and own: "ledger w1 = (os_live w + pcounter_owns (cx_numa_supported c) x, os_fault w)"
    using cr by auto
  have "map snd (pc_slot x) = map (\<lambda>_. 0) (pc_slot x)"
    using pcounter_new_zero [OF assms(1)] by (intro map_cong) auto
  then have z: "pcounter_total x = 0" unfolding pcounter_total_def by (simp only: sum_list_0)
  note r = pcounter_run_ok [OF ok assms(2), of "cx_numa_supported c"]
  then have "ledger (nkit_pcounter_destroy c (Some x') w2) = ledger w"
    using pcounter.destroy_owned [of x' c w2] own by (simp add: ledger_def)
  then show ?thesis using r z pcounter_read_total pcounter_reset_total by simp
qed

definition demo_pcounter :: nkit_pcounter where
  "demo_pcounter = \<lparr>pc_addr = 4096, pc_slots = 8192, pc_slot = [(16384, 0)], pc_num_nodes = 1\<rparr>"

lemma demo_pcounter: "nkit_pcounter_create g_nkit_ctx demo_os =
    (Some demo_pcounter, snd (nkit_pcounter_create g_nkit_ctx demo_os))"
  by (simp add: nkit_pcounter_create_def g_nkit_ctx_def demo_os_def os_prim_defs os_alloc_def os_ask_def
      demo_pcounter_def)

theorem pcounter_exact_witness:
  "\<exists>x' w2. pcounter_run demo_pcounter [3, - 1] (snd (nkit_pcounter_create g_nkit_ctx demo_os)) = (x', w2) \<and>
     nkit_pcounter_read x' = 2 \<and> ledger (nkit_pcounter_destroy g_nkit_ctx (Some x') w2) = ({#}, False)"
proof -
  obtain x' w2 where r: "pcounter_run demo_pcounter [3, - 1]
      (snd (nkit_pcounter_create g_nkit_ctx demo_os)) = (x', w2)" by fastforce
  from pcounter_exact [OF demo_pcounter r] r show ?thesis by (simp add: ledger_def demo_os_def)
qed



end
