(* ===== verification/NK_Slab.thy ===== *)
theory NK_Slab
  imports NK_Ring
begin

section \<open>The slab allocator (\<^verbatim>\<open>src/memory/slab.c\<close>)\<close>

text \<open>
  A slab carves one arena into equal slots and keeps the addresses of the free ones in a ring
  buffer. \<open>sl_addr\<close> is the address of the descriptor, which lives in the arena. The result
  \<^const>\<open>None\<close> of an operation stands for a call that never returns, as for the ring.
\<close>

record nkit_slab =
  sl_addr :: ptr
  sl_arena :: "nkit_arena option"
  sl_freelist :: "nkit_ring option"
  sl_base :: ptr
  sl_obj_size :: u64
  sl_capacity :: u64

definition SLAB_ALIGN :: u64 where
  "SLAB_ALIGN = 64"

definition sizeof_slab :: u64 where
  "sizeof_slab = 40"

text \<open>The loop that fills the free-list, over the indices that are left.\<close>

fun slab_populate :: "ptr \<Rightarrow> u64 \<Rightarrow> nat list \<Rightarrow> nkit_ring \<Rightarrow> nkit_ring option" where
  "slab_populate base aligned [] ring = Some ring"
| "slab_populate base aligned (i # is) ring =
    (case nkit_ring_push ring (base + of_nat i * aligned) of None \<Rightarrow> None
     | Some (_, ring') \<Rightarrow> slab_populate base aligned is ring')"

definition nkit_slab_create :: "int \<Rightarrow> u64 \<Rightarrow> u64 \<Rightarrow> os \<Rightarrow> (nkit_slab option \<times> os) option" where
  "nkit_slab_create node_id obj_size capacity w =
    (if capacity < 2 \<or> capacity AND (capacity - 1) \<noteq> 0 then Some (None, w) else
     if obj_size = 0 then Some (None, w) else
     let aligned = (obj_size + SLAB_ALIGN - 1) AND NOT (SLAB_ALIGN - 1);
         data_bytes = aligned * capacity;
         total_bytes = sizeof_slab + data_bytes in
     case nkit_arena_create node_id total_bytes w of
       (None, w1) \<Rightarrow> Some (None, w1)
     | (Some a, w1) \<Rightarrow>
       case nkit_arena_alloc (Some a) sizeof_slab of (slab, arena1) \<Rightarrow>
       if slab = NULL then Some (None, nkit_arena_destroy arena1 w1) else
       case nkit_arena_alloc arena1 data_bytes of (base, arena2) \<Rightarrow>
       if base = NULL then Some (None, nkit_arena_destroy arena2 w1) else
       case nkit_ring_create node_id capacity w1 of
         (None, w2) \<Rightarrow> Some (None, nkit_arena_destroy arena2 w2)
       | (Some ring, w2) \<Rightarrow>
         map_option (\<lambda>ring'. (Some \<lparr>sl_addr = slab, sl_arena = arena2, sl_freelist = Some ring', sl_base = base,
             sl_obj_size = aligned, sl_capacity = capacity\<rparr>, w2))
           (slab_populate base aligned [0..<unat capacity] ring))"

definition nkit_slab_alloc :: "nkit_slab option \<Rightarrow> (ptr \<times> nkit_slab option) option" where
  "nkit_slab_alloc h =
    (case h of None \<Rightarrow> Some (NULL, None)
     | Some slab \<Rightarrow>
       case nkit_ring_pop (the (sl_freelist slab)) of
         None \<Rightarrow> None
       | Some (Some p, ring) \<Rightarrow> Some (p, Some (slab\<lparr>sl_freelist := Some ring\<rparr>))
       | Some (None, ring) \<Rightarrow> Some (NULL, Some (slab\<lparr>sl_freelist := Some ring\<rparr>)))"

definition nkit_slab_free :: "nkit_slab option \<Rightarrow> ptr \<Rightarrow> nkit_slab option option" where
  "nkit_slab_free h p =
    (case h of None \<Rightarrow> Some None
     | Some slab \<Rightarrow>
       if p = NULL then Some (Some slab) else
       map_option (\<lambda>(_, ring). Some (slab\<lparr>sl_freelist := Some ring\<rparr>))
         (nkit_ring_push (the (sl_freelist slab)) p))"

definition nkit_slab_destroy :: "nkit_slab option \<Rightarrow> os \<Rightarrow> os" where
  "nkit_slab_destroy h w =
    (case h of None \<Rightarrow> w
     | Some slab \<Rightarrow>
       let w1 = (if sl_freelist slab \<noteq> None then nkit_ring_free (sl_freelist slab) w else w) in
       if sl_arena slab \<noteq> None then nkit_arena_destroy (sl_arena slab) w1 else w1)"

definition nkit_slab_available :: "nkit_slab option \<Rightarrow> u64" where
  "nkit_slab_available h =
    (case h of None \<Rightarrow> 0
     | Some slab \<Rightarrow>
       let ring = the (sl_freelist slab); head = rg_head ring; tail = rg_tail ring in
       if head \<ge> tail then head - tail else 0)"

definition nkit_slab_capacity :: "nkit_slab option \<Rightarrow> u64" where
  "nkit_slab_capacity h = (case h of None \<Rightarrow> 0 | Some slab \<Rightarrow> sl_capacity slab)"

subsection \<open>Creation and destruction\<close>

definition slab_slots :: "ptr \<Rightarrow> u64 \<Rightarrow> nat \<Rightarrow> ptr list" where
  "slab_slots base aligned n = map (\<lambda>i. base + of_nat i * aligned) [0..<n]"

lemma slab_align_eq: "(obj_size + SLAB_ALIGN - 1) AND NOT (SLAB_ALIGN - 1) = align_up 6 obj_size"
  by (simp add: SLAB_ALIGN_def align_up_def add.commute)

lemma ring_pop_arena: "nkit_ring_pop r = Some (x, r') \<Longrightarrow> rg_arena r' = rg_arena r"
proof -
  have "rg_arena r' = rg_arena r" if "ring_pop_loop r t = Some (x, r')" for t
    using that by (rule ring_pop_loop.raw_induct
      [where P = "\<lambda>r t (y :: ptr option \<times> nkit_ring). rg_arena (snd y) = rg_arena r", of r t "(x, r')", simplified, rotated])
      (auto simp: Let_def split: if_splits)
  then show "nkit_ring_pop r = Some (x, r') \<Longrightarrow> rg_arena r' = rg_arena r"
    by (simp add: nkit_ring_pop_def)
qed

lemma slab_populate_ok:
  assumes "ring_rep r q" and "length q + length is \<le> unat (rg_capacity r)"
  shows "\<exists>r'. slab_populate base aligned is r = Some r' \<and>
    ring_rep r' (q @ map (\<lambda>i. base + of_nat i * aligned) is) \<and>
    unat (rg_capacity r') = unat (rg_capacity r) \<and> rg_arena r' = rg_arena r"
  using assms
proof (induction "is" arbitrary: r q)
  case (Cons i "is")
  then have "length q < unat (rg_capacity r)" by simp
  from rq.push_ok [OF Cons.prems(1) this, of "base + of_nat i * aligned"]
  obtain r1 where r1: "nkit_ring_push r (base + of_nat i * aligned) = Some (True, r1)"
    "ring_rep r1 (q @ [base + of_nat i * aligned])" "unat (rg_capacity r1) = unat (rg_capacity r)" by blast
  then have "length (q @ [base + of_nat i * aligned]) + length is \<le> unat (rg_capacity r1)"
    using Cons.prems(2) by simp
  from Cons.IH [OF r1(2) this] show ?case using r1 ring_push_arena [OF r1(1)] by simp
qed simp

lemma slab_arena_blocks:
  assumes "mmap_ok w" and "nkit_arena_create node_id (sizeof_slab + d) w = (Some a, w')" and "2 ^ 6 dvd unat d"
  shows "nkit_arena_alloc (Some a) sizeof_slab = (ar_base a, Some (a\<lparr>ar_used := 64\<rparr>))"
    and "nkit_arena_alloc (Some (a\<lparr>ar_used := 64\<rparr>)) d = (ar_base a + 64, Some (a\<lparr>ar_used := 64 + d\<rparr>))"
    and "arena_wf (a\<lparr>ar_used := 64 + d\<rparr>)" and "ar_base a \<noteq> NULL" and "ar_base a + 64 \<noteq> NULL"
    and "64 + unat d \<le> unat (ar_size a)" and "unat (ar_base a + 64) = unat (ar_base a) + 64"
proof -
  note wf = nkit_arena_create_wf [OF assms(1,2)]
  have sz: "unat (ar_size a) < 2 ^ 63" "unat (ar_base a) + unat (ar_size a) < 2 ^ 63"
    and al: "2 ^ 6 dvd unat (ar_size a)" and u: "ar_used a = 0"
    using wf(1) nkit_arena_create_Some(4) [OF assms(2)] by (auto simp: arena_wf_def intro: power_le_dvd [of 2 21])
  obtain q where q: "unat d = 64 * q" using assms(3) by auto
  obtain s where s: "unat (ar_size a) = 64 * s" using al by auto
  have "unat d + 40 < 2 ^ 64" using unat_less_exp_len [of d] q by simp
  then have "unat (sizeof_slab + d) = 40 + unat d"
    by (subst unat_add_lem [THEN iffD1]) (simp_all add: sizeof_slab_def)
  then have "q < s" using wf(2) q s by simp
  then show le: "64 + unat d \<le> unat (ar_size a)" unfolding q s by simp
  have ud: "unat (64 + d) = 64 + unat d" using le sz by (subst unat_add_lem [THEN iffD1]) simp_all
  have ad: "align_up 6 d = d" using align_up_dvd [of 6 d] assms(3) by simp
  show "nkit_arena_alloc (Some a) sizeof_slab = (ar_base a, Some (a\<lparr>ar_used := 64\<rparr>))"
    using le u by (simp add: nkit_arena_alloc_def sizeof_slab_def word_less_nat_alt)
  show "nkit_arena_alloc (Some (a\<lparr>ar_used := 64\<rparr>)) d = (ar_base a + 64, Some (a\<lparr>ar_used := 64 + d\<rparr>))"
    using le ud by (simp add: nkit_arena_alloc_Some ad)
  show "arena_wf (a\<lparr>ar_used := 64 + d\<rparr>)" using wf(1) le ud assms(3) by (simp add: arena_wf_def q)
  show "ar_base a \<noteq> NULL" using wf(1) by (simp add: arena_wf_def)
  show b: "unat (ar_base a + 64) = unat (ar_base a) + 64"
    using sz le by (subst unat_add_lem [THEN iffD1]) simp_all
  then show "ar_base a + 64 \<noteq> NULL" by (metis add_gr_0 less_numeral_extra(3) unat_0 zero_less_numeral)
qed

lemma dvd_unat_mult:
  fixes x y :: u64
  assumes "2 ^ k dvd unat x" and "k \<le> 64"
  shows "2 ^ k dvd unat (x * y)"
proof -
  have "(2::nat) ^ k dvd 2 ^ 64" using assms(2) by (rule le_imp_power_dvd)
  moreover have "2 ^ k dvd unat x * unat y" using assms(1) by simp
  ultimately show ?thesis by (simp add: unat_word_ariths dvd_mod)
qed

lemma slab_create_cases:
  assumes "mmap_ok w" and "nkit_slab_create node_id obj_size capacity w = x"
  defines "d \<equiv> align_up 6 obj_size * capacity"
  obtains (bad) "x = Some (None, w)" "(capacity < 2 \<or> capacity AND (capacity - 1) \<noteq> 0) \<or> obj_size = 0"
  | (no_mem) w' where "x = Some (None, w')" "nkit_arena_create node_id (sizeof_slab + d) w = (None, w')"
  | (no_ring) a w1 w2 where "nkit_arena_create node_id (sizeof_slab + d) w = (Some a, w1)"
      "nkit_ring_create node_id capacity w1 = (None, w2)"
      "x = Some (None, nkit_arena_destroy (Some (a\<lparr>ar_used := 64 + d\<rparr>)) w2)"
  | (made) a w1 r w2 r' where "obj_size \<noteq> 0"
      "nkit_arena_create node_id (sizeof_slab + d) w = (Some a, w1)"
      "nkit_ring_create node_id capacity w1 = (Some r, w2)"
      "ring_rep r' (slab_slots (ar_base a + 64) (align_up 6 obj_size) (unat capacity))"
      "rg_capacity r' = capacity" "rg_arena r' = rg_arena r"
      "x = Some (Some \<lparr>sl_addr = ar_base a, sl_arena = Some (a\<lparr>ar_used := 64 + d\<rparr>),
         sl_freelist = Some r', sl_base = ar_base a + 64, sl_obj_size = align_up 6 obj_size,
         sl_capacity = capacity\<rparr>, w2)"
proof (cases "(capacity < 2 \<or> capacity AND (capacity - 1) \<noteq> 0) \<or> obj_size = 0")
  case True
  then show ?thesis using bad assms(2) by (auto simp: nkit_slab_create_def)
next
  case False
  note create = assms(2) [unfolded nkit_slab_create_def slab_align_eq Let_def, folded d_def]
  have d: "2 ^ 6 dvd unat d" unfolding d_def using dvd_align_up [of 6 obj_size] by (intro dvd_unat_mult) simp_all
  show ?thesis
  proof (cases "nkit_arena_create node_id (sizeof_slab + d) w")
    case ar: (Pair h w1)
    show ?thesis
    proof (cases h)
      case None
      then show ?thesis using no_mem ar create False by auto
    next
      case (Some a)
      note mk = ar [unfolded Some]
      note blk = slab_arena_blocks [OF assms(1) mk d]
      have env: "mmap_ok w1" using arena.create_Some [OF assms(1) mk] by simp
      show ?thesis
      proof (cases "nkit_ring_create node_id capacity w1")
        case rc: (Pair g w2)
        show ?thesis
        proof (cases g)
          case None
          then show ?thesis using no_ring mk rc create False blk by auto
        next
          case (Some r)
          note rmk = rc [unfolded Some]
          note rep = ring_create_rep [OF env rmk]
          obtain r' where r': "slab_populate (ar_base a + 64) (align_up 6 obj_size) [0..<unat capacity] r = Some r'"
            "ring_rep r' (slab_slots (ar_base a + 64) (align_up 6 obj_size) (unat capacity))"
            "unat (rg_capacity r') = unat (rg_capacity r)" "rg_arena r' = rg_arena r"
            using slab_populate_ok [OF rep(1), of "[0..<unat capacity]"] rep(2) by (auto simp: slab_slots_def)
          have "rg_capacity r' = capacity" using r'(3) rep(2) by (simp add: word_unat_eq_iff)
          from made [OF _ mk rmk r'(2) this r'(4)] show ?thesis
            using r'(1) mk rmk create False blk by auto
        qed
      qed
    qed
  qed
qed

definition slab_owns :: "nkit_slab \<Rightarrow> os_res multiset" where
  "slab_owns s = (case sl_arena s of None \<Rightarrow> {#} | Some a \<Rightarrow> arena_owns a) +
     (case sl_freelist s of None \<Rightarrow> {#} | Some r \<Rightarrow> ring_owns r)"

definition slab_valid :: "nkit_slab \<Rightarrow> bool" where
  "slab_valid s \<longleftrightarrow> (\<exists>a. sl_arena s = Some a \<and> arena_wf a) \<and> (\<exists>r. sl_freelist s = Some r \<and> ring_valid r)"

lemma slab_create_returns:
  assumes "mmap_ok w"
  shows "\<exists>h w'. nkit_slab_create node_id obj_size capacity w = Some (h, w')"
  using assms refl by (cases rule: slab_create_cases) blast+

lemma nkit_slab_destroy_answer [simp]: "os_answer (nkit_slab_destroy h w) = os_answer w"
  by (simp add: nkit_slab_destroy_def Let_def split: option.split)

interpretation slab: owned_object mmap_ok "\<lambda>w. the (nkit_slab_create node_id obj_size capacity w)"
  "\<lambda>s. nkit_slab_destroy (Some s)" slab_owns slab_valid for node_id obj_size capacity
proof unfold_locales
  fix w w' :: os and s :: nkit_slab
  let ?d = "align_up 6 obj_size * capacity" and ?c = "nkit_slab_create node_id obj_size capacity w"
  have d: "2 ^ 6 dvd unat ?d" using dvd_align_up [of 6 obj_size] by (intro dvd_unat_mult) simp_all
  show "ledger w' = ledger w \<and> mmap_ok w'" if env: "mmap_ok w" and mk: "the ?c = (None, w')"
    using env refl [of ?c]
  proof (cases rule: slab_create_cases)
    case (no_ring a w1 w2)
    note a = arena.create_Some [OF env no_ring(1)]
    have w2: "ledger w2 = ledger w1" "mmap_ok w2" using ring.create_None [OF _ no_ring(2)] a by auto
    have "ledger (nkit_arena_destroy (Some (a\<lparr>ar_used := 64 + ?d\<rparr>)) w2) =
        (os_live w2 - arena_owns a, os_fault w2)"
      using arena.destroy_owned [OF slab_arena_blocks(3) [OF env no_ring(1) d], of w2] a w2
      by (simp add: ledger_def)
    then show ?thesis using mk no_ring(3) a w2 arena.destroy_env [OF w2(2)] by (auto simp: ledger_def)
  qed (use env mk arena.create_None [OF env] in auto)
  show "ledger w' = (os_live w + slab_owns s, os_fault w) \<and> slab_valid s \<and> mmap_ok w'"
    if env: "mmap_ok w" and mk: "the ?c = (Some s, w')"
    using env refl [of ?c]
  proof (cases rule: slab_create_cases)
    case (made a w1 r w2 r')
    note a = arena.create_Some [OF env made(2)]
    then have r: "ledger w2 = (os_live w1 + ring_owns r, os_fault w1)" "ring_valid r" "mmap_ok w2"
      using ring.create_Some [OF _ made(3)] by auto
    have s: "s = \<lparr>sl_addr = ar_base a, sl_arena = Some (a\<lparr>ar_used := 64 + ?d\<rparr>), sl_freelist = Some r',
         sl_base = ar_base a + 64, sl_obj_size = align_up 6 obj_size, sl_capacity = capacity\<rparr>" "w' = w2"
      using mk made(7) by simp_all
    have "ring_owns r' = ring_owns r" "ring_valid r'"
      using made(6) r(2) by (simp_all add: ring_owns_def ring_valid_def)
    then show ?thesis using s a r slab_arena_blocks(3) [OF env made(2) d]
      by (simp add: slab_owns_def slab_valid_def ledger_def)
  qed (use mk in auto)
  show "ledger (nkit_slab_destroy (Some s) w) = (os_live w - slab_owns s, os_fault w)"
    if valid: "slab_valid s" and own: "slab_owns s \<subseteq># os_live w"
  proof -
    obtain a r where a: "sl_arena s = Some a" "arena_wf a" and r: "sl_freelist s = Some r" "ring_valid r"
      using valid by (auto simp: slab_valid_def)
    obtain R where R: "os_live w = arena_owns a + ring_owns r + R"
      using own a(1) r(1) by (auto simp: slab_owns_def subset_mset.le_iff_add)
    have w1: "ledger (nkit_ring_free (Some r) w) = (os_live w - ring_owns r, os_fault w)"
      using ring.destroy_owned [OF r(2), of w] R by simp
    then have "arena_owns a \<subseteq># os_live (nkit_ring_free (Some r) w)" using R by (simp add: ledger_def)
    from arena.destroy_owned [OF a(2) this] w1 show ?thesis
      using a(1) r(1) R by (simp add: nkit_slab_destroy_def slab_owns_def ledger_def)
  qed
  show "mmap_ok (nkit_slab_destroy (Some s) w)" if "mmap_ok w"
    using mmap_ok_cong [OF nkit_slab_destroy_answer [of "Some s" w]] that by simp
qed

subsection \<open>The slots a client holds\<close>

text \<open>
  Every slot is either in the free-list or held by the client: \<open>held\<close> lists the addresses that
  were handed out and not given back.
\<close>

definition slab_layout :: "nkit_slab \<Rightarrow> bool" where
  "slab_layout s \<longleftrightarrow> (\<exists>a. sl_arena s = Some a \<and> 0 < unat (sl_base s) \<and>
     2 ^ 6 dvd unat (sl_base s) \<and> 2 ^ 6 dvd unat (sl_obj_size s) \<and> 0 < unat (sl_obj_size s) \<and>
     unat (ar_base a) \<le> unat (sl_base s) \<and>
     unat (sl_base s) + unat (sl_capacity s) * unat (sl_obj_size s) \<le> unat (ar_base a) + unat (ar_size a) \<and>
     unat (ar_base a) + unat (ar_size a) < 2 ^ 63)"

abbreviation slots_of :: "nkit_slab \<Rightarrow> ptr list" where
  "slots_of s \<equiv> slab_slots (sl_base s) (sl_obj_size s) (unat (sl_capacity s))"

definition slab_wf :: "nkit_slab \<Rightarrow> ptr list \<Rightarrow> bool" where
  "slab_wf s held \<longleftrightarrow> slab_valid s \<and> slab_layout s \<and>
     (\<exists>r free. sl_freelist s = Some r \<and> ring_rep r free \<and> rg_capacity r = sl_capacity s \<and>
        mset free + mset held = mset (slots_of s))"

definition slab_frame :: "nkit_slab \<Rightarrow> nkit_slab \<Rightarrow> bool" where
  "slab_frame s s' \<longleftrightarrow> (\<exists>r r'. sl_freelist s = Some r \<and> s' = s\<lparr>sl_freelist := Some r'\<rparr> \<and> rg_arena r' = rg_arena r)"

lemma slab_frameD:
  assumes "slab_frame s s'"
  shows "sl_addr s' = sl_addr s" "sl_arena s' = sl_arena s" "sl_base s' = sl_base s"
    "sl_obj_size s' = sl_obj_size s" "sl_capacity s' = sl_capacity s" "slab_owns s' = slab_owns s"
    "slab_valid s' = slab_valid s" "slab_layout s' = slab_layout s"
proof -
  obtain r r' where r: "sl_freelist s = Some r" "s' = s\<lparr>sl_freelist := Some r'\<rparr>" "rg_arena r' = rg_arena r"
    using assms by (auto simp: slab_frame_def)
  then show "sl_addr s' = sl_addr s" "sl_arena s' = sl_arena s" "sl_base s' = sl_base s"
    "sl_obj_size s' = sl_obj_size s" "sl_capacity s' = sl_capacity s" "slab_owns s' = slab_owns s"
    "slab_valid s' = slab_valid s" "slab_layout s' = slab_layout s"
    by (simp_all add: slab_owns_def slab_valid_def slab_layout_def ring_owns_def ring_valid_def)
qed

lemma unat_slot:
  assumes "slab_layout s" and "i < unat (sl_capacity s)"
  shows "unat (sl_base s + of_nat i * sl_obj_size s) = unat (sl_base s) + i * unat (sl_obj_size s)"
proof -
  let ?o = "unat (sl_obj_size s)"
  have b: "unat (sl_base s) + unat (sl_capacity s) * ?o < 2 ^ 64" "0 < ?o"
    using assms(1) by (auto simp: slab_layout_def)
  have "(i + 1) * ?o \<le> unat (sl_capacity s) * ?o" using assms(2) by (intro mult_le_mono1) simp
  then have m: "unat (sl_base s) + i * ?o < 2 ^ 64" using b by simp
  have i: "unat (of_nat i :: u64) = i"
    using assms(2) unat_less_exp_len [of "sl_capacity s"] by (simp add: unat_of_nat)
  have "unat (of_nat i * sl_obj_size s) = i * ?o" using m i by (subst unat_mult_lem [THEN iffD1]) simp_all
  then show ?thesis using m by (subst unat_add_lem [THEN iffD1]) simp_all
qed

lemma slot_cases:
  assumes "slab_layout s" and "p \<in> set (slots_of s)"
  obtains i where "i < unat (sl_capacity s)" "unat p = unat (sl_base s) + i * unat (sl_obj_size s)"
  using assms unat_slot by (auto simp: slab_slots_def)

lemma distinct_slots:
  assumes "slab_layout s"
  shows "distinct (slots_of s)"
proof -
  have o: "0 < unat (sl_obj_size s)" using assms by (auto simp: slab_layout_def)
  have "inj_on (\<lambda>i. sl_base s + of_nat i * sl_obj_size s) {0..<unat (sl_capacity s)}"
  proof (rule inj_onI)
    fix i j
    assume i: "i \<in> {0..<unat (sl_capacity s)}" and j: "j \<in> {0..<unat (sl_capacity s)}"
      and eq: "sl_base s + of_nat i * sl_obj_size s = sl_base s + of_nat j * sl_obj_size s"
    have "i < unat (sl_capacity s)" "j < unat (sl_capacity s)" using i j by simp_all
    note u = unat_slot [OF assms this(1)] unat_slot [OF assms this(2)]
    have "unat (sl_base s) + i * unat (sl_obj_size s) = unat (sl_base s) + j * unat (sl_obj_size s)"
      unfolding u [symmetric] eq by (rule refl)
    then show "i = j" using o by simp
  qed
  then show ?thesis by (simp add: slab_slots_def distinct_map)
qed

lemma slot_block:
  assumes "slab_layout s" and "p \<in> set (slots_of s)"
  shows "p \<noteq> NULL" and "2 ^ 6 dvd unat p"
    and "sl_arena s = Some a \<Longrightarrow> block_addrs (p, sl_obj_size s) \<subseteq> block_addrs (ar_base a, ar_size a)"
proof -
  obtain i where i: "i < unat (sl_capacity s)" "unat p = unat (sl_base s) + i * unat (sl_obj_size s)"
    using slot_cases [OF assms] .
  have "(i + 1) * unat (sl_obj_size s) \<le> unat (sl_capacity s) * unat (sl_obj_size s)"
    using i(1) by (intro mult_le_mono1) simp
  then show "block_addrs (p, sl_obj_size s) \<subseteq> block_addrs (ar_base a, ar_size a)" if "sl_arena s = Some a"
    using assms(1) i(2) that by (auto simp: slab_layout_def block_addrs_def)
  show "p \<noteq> NULL" "2 ^ 6 dvd unat p" using assms(1) i(2) by (auto simp: slab_layout_def)
qed

lemma slots_disjoint:
  assumes "slab_layout s" and "p \<in> set (slots_of s)" and "q \<in> set (slots_of s)" and "p \<noteq> q"
  shows "block_addrs (p, sl_obj_size s) \<inter> block_addrs (q, sl_obj_size s) = {}"
proof -
  let ?o = "unat (sl_obj_size s)"
  obtain i where i: "unat p = unat (sl_base s) + i * ?o" using slot_cases [OF assms(1,2)] .
  obtain j where j: "unat q = unat (sl_base s) + j * ?o" using slot_cases [OF assms(1,3)] .
  have "i \<noteq> j" using assms(4) i j by (auto simp: word_unat_eq_iff)
  then consider "(i + 1) * ?o \<le> j * ?o" | "(j + 1) * ?o \<le> i * ?o"
    by (metis Suc_eq_plus1 Suc_leI linorder_neqE_nat mult_le_mono1)
  then show ?thesis by cases (auto simp: i j block_addrs_def)
qed

lemma slab_wf_held:
  assumes "slab_wf s held"
  shows "set held \<subseteq> set (slots_of s)" "distinct held" "length held \<le> unat (sl_capacity s)"
proof -
  have l: "slab_layout s" using assms by (simp add: slab_wf_def)
  obtain free where free: "mset free + mset held = mset (slots_of s)" using assms by (auto simp: slab_wf_def)
  then have m: "mset (free @ held) = mset (slots_of s)" by simp
  from mset_eq_setD [OF m] show "set held \<subseteq> set (slots_of s)" by auto
  from mset_eq_imp_distinct_iff [OF m] distinct_slots [OF l] show "distinct held" by simp
  from mset_eq_length [OF m] show "length held \<le> unat (sl_capacity s)" by (simp add: slab_slots_def)
qed

lemma slab_held_blocks:
  assumes "slab_wf s held"
  shows "blocks_disjoint (map (\<lambda>p. (p, sl_obj_size s)) held)"
proof -
  have l: "slab_layout s" using assms by (simp add: slab_wf_def)
  note h = slab_wf_held [OF assms]
  show ?thesis unfolding blocks_disjoint_def sorted_wrt_map
    by (rule sorted_wrt_distinctI [OF h(2)]) (use h(1) slots_disjoint [OF l] in blast)
qed

subsection \<open>Allocation and release\<close>

lemma slab_wf_free_length:
  assumes "slab_layout s" and "mset free + mset held = mset (slots_of s)"
  shows "length free + length held = unat (sl_capacity s)"
  using mset_eq_length [of "free @ held" "slots_of s"] assms(2) by (simp add: slab_slots_def)

lemma slab_alloc_ok:
  assumes "slab_wf s held" and "length held < unat (sl_capacity s)"
  shows "\<exists>p s'. nkit_slab_alloc (Some s) = Some (p, Some s') \<and> p \<in> set (slots_of s) \<and> p \<noteq> NULL \<and>
    p \<notin> set held \<and> slab_wf s' (p # held) \<and> slab_frame s s'"
proof -
  obtain r free where r: "sl_freelist s = Some r" "ring_rep r free" "rg_capacity r = sl_capacity s"
    "mset free + mset held = mset (slots_of s)" and l: "slab_layout s" "slab_valid s"
    using assms(1) by (auto simp: slab_wf_def)
  have "free \<noteq> []" using slab_wf_free_length [OF l(1) r(4)] assms(2) by auto
  then obtain p q where free: "free = p # q" by (cases free) auto
  from rq.pop_ok [OF r(2) [unfolded free]] obtain r' where r': "nkit_ring_pop r = Some (Some p, r')"
    "ring_rep r' q" "unat (rg_capacity r') = unat (rg_capacity r)" by blast
  let ?s = "s\<lparr>sl_freelist := Some r'\<rparr>"
  have fr: "slab_frame s ?s" using r(1) ring_pop_arena [OF r'(1)] by (auto simp: slab_frame_def)
  have "slab_wf ?s (p # held)"
    unfolding slab_wf_def using slab_frameD [OF fr] l r(3,4) r'(2,3) free
    by (auto simp: word_unat_eq_iff)
  moreover have "p \<in> set (slots_of s)" using mset_eq_setD [of "free @ held" "slots_of s"] r(4) free by auto
  moreover have "p \<notin> set held" using slab_wf_held(2) [OF \<open>slab_wf ?s (p # held)\<close>] by simp
  ultimately show ?thesis
    using slot_block(1) [OF l(1)] fr r(1) r'(1) by (intro exI [of _ p] exI [of _ ?s]) (simp add: nkit_slab_alloc_def)
qed

lemma slab_alloc_full:
  assumes "slab_wf s held" and "length held = unat (sl_capacity s)"
  shows "nkit_slab_alloc (Some s) = Some (NULL, Some s)"
proof -
  obtain r free where r: "sl_freelist s = Some r" "ring_rep r free"
    "mset free + mset held = mset (slots_of s)" and l: "slab_layout s"
    using assms(1) by (auto simp: slab_wf_def)
  have "free = []" using slab_wf_free_length [OF l(1) r(3)] assms(2) by auto
  then have "nkit_ring_pop r = Some (None, r)" using rq.pop_empty r(2) by simp
  moreover have "s\<lparr>sl_freelist := Some r\<rparr> = s" using r(1) by (cases s) simp
  ultimately show ?thesis using r(1) by (simp add: nkit_slab_alloc_def)
qed

lemma slab_free_ok:
  assumes "slab_wf s (hs @ p # hs')"
  shows "\<exists>s'. nkit_slab_free (Some s) p = Some (Some s') \<and> slab_wf s' (hs @ hs') \<and> slab_frame s s'"
proof -
  obtain r free where r: "sl_freelist s = Some r" "ring_rep r free" "rg_capacity r = sl_capacity s"
    "mset free + mset (hs @ p # hs') = mset (slots_of s)" and l: "slab_layout s" "slab_valid s"
    using assms(1) by (auto simp: slab_wf_def)
  have "length free < unat (rg_capacity r)" using slab_wf_free_length [OF l(1) r(4)] r(3) by simp
  from rq.push_ok [OF r(2) this] obtain r' where r': "nkit_ring_push r p = Some (True, r')"
    "ring_rep r' (free @ [p])" "unat (rg_capacity r') = unat (rg_capacity r)" by blast
  let ?s = "s\<lparr>sl_freelist := Some r'\<rparr>"
  have fr: "slab_frame s ?s" using r(1) ring_push_arena [OF r'(1)] by (auto simp: slab_frame_def)
  have "mset (free @ [p]) + mset (hs @ hs') = mset (slots_of s)" using r(4) by simp
  then have "slab_wf ?s (hs @ hs')"
    unfolding slab_wf_def using slab_frameD [OF fr] l r(3) r'(2,3)
    by (auto simp: word_unat_eq_iff simp del: mset_append)
  moreover have "p \<noteq> NULL" using slot_block(1) [OF l(1)] slab_wf_held(1) [OF assms] by auto
  ultimately show ?thesis using fr r(1) r'(1) by (intro exI [of _ ?s]) (simp add: nkit_slab_free_def)
qed

text \<open>A client that allocates and gives back slots it holds, by their position in \<open>held\<close>.\<close>

datatype slab_op = Slab_alloc | Slab_free nat

fun slab_run :: "nkit_slab option \<Rightarrow> ptr list \<Rightarrow> slab_op list \<Rightarrow> (ptr list \<times> nkit_slab option) option" where
  "slab_run h held [] = Some (held, h)"
| "slab_run h held (Slab_alloc # ops) =
    (case nkit_slab_alloc h of None \<Rightarrow> None
     | Some (p, h') \<Rightarrow> slab_run h' (if p = NULL then held else p # held) ops)"
| "slab_run h held (Slab_free i # ops) =
    (if i < length held then
       (case nkit_slab_free h (held ! i) of None \<Rightarrow> None
        | Some h' \<Rightarrow> slab_run h' (take i held @ drop (Suc i) held) ops)
     else slab_run h held ops)"

lemma slab_frame_trans: "slab_frame s t \<Longrightarrow> slab_frame t u \<Longrightarrow> slab_frame s u"
  by (auto simp: slab_frame_def)

lemma slab_frame_refl: "slab_valid s \<Longrightarrow> slab_frame s s"
  by (cases s) (auto simp: slab_frame_def slab_valid_def)

lemma slab_run_wf:
  assumes "slab_wf s held"
  shows "\<exists>held' s'. slab_run (Some s) held ops = Some (held', Some s') \<and> slab_wf s' held' \<and> slab_frame s s'"
  using assms
proof (induction ops arbitrary: s held)
  case Nil
  then show ?case using slab_frame_refl by (auto simp: slab_wf_def)
next
  case (Cons op ops)
  have valid: "slab_valid s" using Cons.prems by (simp add: slab_wf_def)
  have step: ?case if "slab_run (Some s) held (op # ops) = slab_run (Some s1) h1 ops" "slab_wf s1 h1" "slab_frame s s1"
    for s1 h1 using Cons.IH [OF that(2)] that(1) slab_frame_trans [OF that(3)] by auto
  show ?case
  proof (cases op)
    case Slab_alloc
    show ?thesis
    proof (cases "length held < unat (sl_capacity s)")
      case True
      obtain p s1 where a: "nkit_slab_alloc (Some s) = Some (p, Some s1)" "p \<noteq> NULL"
        "slab_wf s1 (p # held)" "slab_frame s s1"
        using slab_alloc_ok [OF Cons.prems True] by blast
      then show ?thesis using step [OF _ a(3,4)] Slab_alloc by simp
    next
      case False
      then have "nkit_slab_alloc (Some s) = Some (NULL, Some s)"
        using slab_alloc_full [OF Cons.prems] slab_wf_held(3) [OF Cons.prems] by simp
      then show ?thesis using step [OF _ Cons.prems slab_frame_refl [OF valid]] Slab_alloc by simp
    qed
  next
    case (Slab_free i)
    show ?thesis
    proof (cases "i < length held")
      case True
      then have "held = take i held @ held ! i # drop (Suc i) held" by (rule id_take_nth_drop)
      with Cons.prems have "slab_wf s (take i held @ held ! i # drop (Suc i) held)" by simp
      from slab_free_ok [OF this] obtain s1 where f: "nkit_slab_free (Some s) (held ! i) = Some (Some s1)"
        "slab_wf s1 (take i held @ drop (Suc i) held)" "slab_frame s s1" by blast
      then show ?thesis using step [OF _ f(2,3)] True Slab_free by simp
    next
      case False
      then show ?thesis using step [OF _ Cons.prems slab_frame_refl [OF valid]] Slab_free by simp
    qed
  qed
qed

lemma slab_create_wf:
  assumes "mmap_ok w" and "nkit_slab_create node_id obj_size capacity w = Some (Some s, w')"
    and "unat obj_size \<le> 2 ^ 64 - 64" and "unat (align_up 6 obj_size) * unat capacity < 2 ^ 64"
  shows "slab_wf s []" and "sl_capacity s = capacity" and "sl_obj_size s = align_up 6 obj_size"
proof -
  let ?d = "align_up 6 obj_size * capacity"
  have d: "2 ^ 6 dvd unat ?d" using dvd_align_up [of 6 obj_size] by (intro dvd_unat_mult) simp_all
  have ud: "unat ?d = unat (align_up 6 obj_size) * unat capacity"
    using assms(4) by (subst unat_mult_lem [THEN iffD1]) simp_all
  from assms(1,2) have "slab_wf s [] \<and> sl_capacity s = capacity \<and> sl_obj_size s = align_up 6 obj_size"
  proof (cases rule: slab_create_cases)
    case (made a w1 r w2 r')
    note blk = slab_arena_blocks [OF assms(1) made(2) d]
    have "0 < unat obj_size" using made(1) by (simp add: unat_gt_0)
    then have o: "0 < unat (align_up 6 obj_size)" using align_up_bounds(1) [of 6 obj_size] assms(3) by simp
    have s: "s = \<lparr>sl_addr = ar_base a, sl_arena = Some (a\<lparr>ar_used := 64 + ?d\<rparr>), sl_freelist = Some r',
         sl_base = ar_base a + 64, sl_obj_size = align_up 6 obj_size, sl_capacity = capacity\<rparr>"
      using made(7) by simp
    have "2 ^ 6 dvd unat (ar_base a)"
      using blk(3) by (auto simp: arena_wf_def intro: power_le_dvd split: if_splits)
    then have "2 ^ 6 dvd unat (ar_base a + 64)" unfolding blk(7) by simp
    moreover have "unat (ar_base a + 64) + unat capacity * unat (align_up 6 obj_size) \<le> unat (ar_base a) + unat (ar_size a)"
      using blk(6,7) ud by (simp only: mult.commute)
    moreover have "unat (ar_base a) + unat (ar_size a) < 2 ^ 63" using blk(3) by (simp add: arena_wf_def)
    moreover have "unat (ar_base a) \<le> unat (ar_base a + 64)" "0 < unat (ar_base a + 64)" unfolding blk(7) by simp_all
    ultimately have "slab_layout s" unfolding slab_layout_def using s o dvd_align_up [of 6 obj_size] by simp
    moreover have "slab_valid s" using slab.create_Some [OF assms(1), of node_id obj_size capacity s w'] assms(2) by simp
    ultimately show ?thesis using s made(4,5) by (auto simp: slab_wf_def)
  qed simp_all
  then show "slab_wf s []" "sl_capacity s = capacity" "sl_obj_size s = align_up 6 obj_size" by auto
qed

subsection \<open>Properties\<close>

text \<open>
  C9. Slots of a slab never overlap. Whatever sequence of allocations and of releases of held slots
  a client performs on a new slab (whose total size does not exceed the address space), every call
  returns, the slots the client holds are distinct, aligned to a cache line, inside the slab's
  arena and pairwise disjoint, and an allocation fails exactly when all \<open>capacity\<close> slots are held.
\<close>

theorem slab_run_safe:
  assumes "mmap_ok w" and "nkit_slab_create node_id obj_size capacity w = Some (Some s, w')"
    and "unat obj_size \<le> 2 ^ 64 - 64" and "unat (align_up 6 obj_size) * unat capacity < 2 ^ 64"
  shows "\<exists>held s' a. slab_run (Some s) [] ops = Some (held, Some s') \<and> sl_arena s' = Some a \<and>
    distinct held \<and> blocks_disjoint (map (\<lambda>p. (p, align_up 6 obj_size)) held) \<and>
    (\<forall>p \<in> set held. 64 dvd unat p \<and>
       block_addrs (p, align_up 6 obj_size) \<subseteq> block_addrs (ar_base a, ar_size a)) \<and>
    ((\<exists>s''. nkit_slab_alloc (Some s') = Some (NULL, s'')) \<longleftrightarrow> length held = unat capacity)"
proof -
  note c = slab_create_wf [OF assms]
  obtain held s' where run: "slab_run (Some s) [] ops = Some (held, Some s')" "slab_wf s' held" "slab_frame s s'"
    using slab_run_wf [OF c(1)] by blast
  note fr = slab_frameD [OF run(3)]
  obtain a where a: "sl_arena s' = Some a" using run(2) by (auto simp: slab_wf_def slab_valid_def)
  have l: "slab_layout s'" using run(2) by (simp add: slab_wf_def)
  note held = slab_wf_held [OF run(2)]
  have "(\<exists>s''. nkit_slab_alloc (Some s') = Some (NULL, s'')) \<longleftrightarrow> length held = unat capacity"
  proof (cases "length held < unat capacity")
    case True
    then obtain p s'' where "nkit_slab_alloc (Some s') = Some (p, Some s'')" "p \<noteq> NULL"
      using slab_alloc_ok [OF run(2)] fr(5) c(2) by auto
    then show ?thesis using True by simp
  next
    case False
    then show ?thesis using slab_alloc_full [OF run(2)] held(3) fr(5) c(2) by simp
  qed
  moreover have "\<forall>p \<in> set held. 64 dvd unat p \<and>
      block_addrs (p, align_up 6 obj_size) \<subseteq> block_addrs (ar_base a, ar_size a)"
    using held(1) slot_block(2,3) [OF l _ ] a fr(4) c(3) by fastforce
  ultimately show ?thesis using run(1) a held(2) slab_held_blocks [OF run(2)] fr(4) c(3) by auto
qed

definition demo_slab :: nkit_slab where
  "demo_slab = \<lparr>sl_addr = 2 ^ 40, sl_arena = Some \<lparr>ar_addr = 4096, ar_base = 2 ^ 40, ar_size = 2097152,
       ar_used = 320, ar_node_id = 0, ar_use_huge = False\<rparr>,
     sl_freelist = Some (demo_ring\<lparr>rg_head := 2, rg_cells := [\<lparr>c_sequence = 1, c_data = 2 ^ 40 + 64\<rparr>,
       \<lparr>c_sequence = 2, c_data = 2 ^ 40 + 192\<rparr>]\<rparr>),
     sl_base = 2 ^ 40 + 64, sl_obj_size = 128, sl_capacity = 2\<rparr>"

lemmas demo_create_simps = nkit_arena_create_def nkit_arena_alloc_def nkit_ring_create_def demo_os_def os_prim_defs
  os_alloc_def os_ask_def os_ask_int_def HUGE_PAGE_SIZE_def sizeof_arena_def MAP_FAILED_def
  sizeof_ring_def sizeof_cell_def Let_def upt_rec

lemma demo_slab: "nkit_slab_create 0 100 2 demo_os =
   Some (Some demo_slab, snd (the (nkit_slab_create 0 100 2 demo_os)))"
  by (simp add: nkit_slab_create_def demo_create_simps demo_slab_def demo_ring_def SLAB_ALIGN_def sizeof_slab_def
      nkit_ring_push_def ring_push_loop.simps)

theorem slab_run_safe_witness:
  "\<exists>held s'. slab_run (Some demo_slab) [] [Slab_alloc, Slab_alloc, Slab_free 1, Slab_alloc] = Some (held, Some s') \<and>
     blocks_disjoint (map (\<lambda>p. (p, 128)) held) \<and>
     ((\<exists>s''. nkit_slab_alloc (Some s') = Some (NULL, s'')) \<longleftrightarrow> length held = 2)"
proof -
  have "align_up 6 (100 :: u64) = 128" by (simp add: align_up_def)
  then show ?thesis
    using slab_run_safe [OF mmap_ok_demo_os demo_slab, of "[Slab_alloc, Slab_alloc, Slab_free 1, Slab_alloc]"]
    by simp blast
qed

text \<open>
  \<open>nkit_slab_create\<close> and \<open>nkit_slab_destroy\<close> pair up: creation always returns, on every failure
  path (no arena, no ring) it has released what it had acquired, and destroying a slab, whatever its
  client did with it, gives back the arena of the objects and the arena of the free-list, once each.
\<close>

theorem slab_create_destroy_ledger:
  assumes "mmap_ok w"
  shows "\<exists>h w'. nkit_slab_create node_id obj_size capacity w = Some (h, w') \<and>
    (case h of None \<Rightarrow> ledger w' = ledger w
     | Some s \<Rightarrow> ledger w' = (os_live w + slab_owns s, os_fault w) \<and>
         (\<forall>s'. slab_frame s s' \<longrightarrow> ledger (nkit_slab_destroy (Some s') w') = ledger w))"
proof -
  obtain h w' where mk: "nkit_slab_create node_id obj_size capacity w = Some (h, w')"
    using slab_create_returns [OF assms] by blast
  show ?thesis
  proof (cases h)
    case None
    then show ?thesis using slab.create_None [OF assms, of node_id obj_size capacity w'] mk by simp
  next
    case (Some s)
    then have c: "ledger w' = (os_live w + slab_owns s, os_fault w)" "slab_valid s"
      using slab.create_Some [OF assms, of node_id obj_size capacity s w'] mk by simp_all
    have "ledger (nkit_slab_destroy (Some s') w') = ledger w" if "slab_frame s s'" for s'
      using slab.destroy_owned [of s' w'] slab_frameD(6,7) [OF that] c by (simp add: ledger_def)
    then show ?thesis using mk Some c by simp
  qed
qed

theorem slab_create_destroy_ledger_witness:
  "ledger (nkit_slab_destroy (Some demo_slab) (snd (the (nkit_slab_create 0 100 2 demo_os)))) = ({#}, False)"
proof -
  from slab_create_destroy_ledger [OF mmap_ok_demo_os, of 0 100 2]
  have "\<forall>s'. slab_frame demo_slab s' \<longrightarrow>
      ledger (nkit_slab_destroy (Some s') (snd (the (nkit_slab_create 0 100 2 demo_os)))) = ledger demo_os"
    by (subst (asm) demo_slab) auto
  moreover have "slab_frame demo_slab demo_slab" by (auto simp: slab_frame_def demo_slab_def)
  ultimately show ?thesis by (simp add: ledger_def demo_os_def)
qed

text \<open>
  The size computation of \<open>nkit_slab_create\<close> is not checked for overflow: when
  \<open>aligned * capacity\<close> reaches \<open>2 ^ 64\<close> the slab is still created, but its arena is smaller than
  the slots it hands out.
\<close>

theorem slab_create_overflow:
  assumes "mmap_ok w" and "nkit_slab_create node_id obj_size capacity w = Some (Some s, w')"
    and "2 ^ 64 \<le> unat (align_up 6 obj_size) * unat capacity"
  shows "\<exists>a. sl_arena s = Some a \<and> unat (ar_size a) < unat (sl_obj_size s) * unat (sl_capacity s)"
  using assms(1,2)
proof (cases rule: slab_create_cases)
  case (made a w1 r w2 r')
  have "unat (ar_size a) < 2 ^ 64" using unat_less_exp_len [of "ar_size a"] by simp
  then show ?thesis using made(7) assms(3) by simp
qed simp_all

theorem slab_create_overflow_witness:
  "\<exists>s w' a. nkit_slab_create 0 (2 ^ 63) 2 demo_os = Some (Some s, w') \<and> sl_arena s = Some a \<and>
     unat (ar_size a) < unat (sl_obj_size s) * unat (sl_capacity s)"
proof -
  have "\<exists>s w'. nkit_slab_create 0 (2 ^ 63) 2 demo_os = Some (Some s, w')"
    by (simp add: nkit_slab_create_def demo_create_simps SLAB_ALIGN_def sizeof_slab_def
      nkit_ring_push_def ring_push_loop.simps)
  then obtain s w' where mk: "nkit_slab_create 0 (2 ^ 63) 2 demo_os = Some (Some s, w')" by blast
  have "2 ^ 64 \<le> unat (align_up 6 (2 ^ 63 :: u64)) * unat (2 :: u64)" by (simp add: align_up_def)
  from slab_create_overflow [OF mmap_ok_demo_os mk this] mk show ?thesis by blast
qed

end
