(* ===== verification/NK_Mempool.thy ===== *)
theory NK_Mempool
  imports NK_Slab NK_Affinity
begin

section \<open>The memory pool (\<^verbatim>\<open>src/memory/pool.c\<close>)\<close>

text \<open>
  The pool holds, for every node and size class, a pointer to a slab. Slabs are objects in memory:
  \<open>mm_slabs\<close> maps their addresses to them, and \<open>mm_header\<close> is the memory word in front of every
  block, where the pool keeps the address of the slab the block came from. A pointer that is
  followed is never null where the code has checked it.
\<close>

record mempool_mem =
  mm_slabs :: "ptr \<rightharpoonup> nkit_slab"
  mm_header :: "ptr \<Rightarrow> ptr"

record nkit_mempool_node =
  mn_logical_node_id :: int
  mn_slabs :: "ptr list"

record nkit_mempool =
  mp_addr :: ptr
  mp_num_nodes :: int
  mp_nodes :: "nkit_mempool_node list"

definition NUM_SIZE_CLASSES :: nat where
  "NUM_SIZE_CLASSES = 10"

definition MAX_NODES :: nat where
  "MAX_NODES = 64"

definition SIZE_CLASSES :: "u64 list" where
  "SIZE_CLASSES = [32, 64, 128, 256, 512, 1024, 2048, 4096, 8192, 16384]"

definition INITIAL_CAPACITY_PER_SLAB :: u64 where
  "INITIAL_CAPACITY_PER_SLAB = 1024"

definition sizeof_mempool :: u64 where
  "sizeof_mempool = 5640"

definition sizeof_header :: u64 where
  "sizeof_header = 8"

text \<open>A pointer to a slab as a handle, and a call on the slab behind a pointer.\<close>

definition slab_handle :: "mempool_mem \<Rightarrow> ptr \<Rightarrow> nkit_slab option" where
  "slab_handle m p = (if p = NULL then None else Some (the (mm_slabs m p)))"

definition mem_slab_alloc :: "mempool_mem \<Rightarrow> ptr \<Rightarrow> (ptr \<times> mempool_mem) option" where
  "mem_slab_alloc m p =
    map_option (\<lambda>(q, h). (q, if p = NULL then m else m\<lparr>mm_slabs := (mm_slabs m)(p := h)\<rparr>))
      (nkit_slab_alloc (slab_handle m p))"

definition mem_slab_free :: "mempool_mem \<Rightarrow> ptr \<Rightarrow> ptr \<Rightarrow> mempool_mem option" where
  "mem_slab_free m p q =
    map_option (\<lambda>h. if p = NULL then m else m\<lparr>mm_slabs := (mm_slabs m)(p := h)\<rparr>)
      (nkit_slab_free (slab_handle m p) q)"

definition pool_slab :: "nkit_mempool \<Rightarrow> nat \<Rightarrow> nat \<Rightarrow> ptr" where
  "pool_slab pool node sc = mn_slabs (mp_nodes pool ! node) ! sc"

definition mempool_zero :: "ptr \<Rightarrow> int \<Rightarrow> nkit_mempool" where
  "mempool_zero p n = \<lparr>mp_addr = p, mp_num_nodes = n,
     mp_nodes = replicate MAX_NODES \<lparr>mn_logical_node_id = 0, mn_slabs = replicate NUM_SIZE_CLASSES NULL\<rparr>\<rparr>"

definition nkit_mempool_destroy :: "nkit_mempool option \<Rightarrow> mempool_mem \<Rightarrow> os \<Rightarrow> os" where
  "nkit_mempool_destroy h m w =
    (case h of None \<Rightarrow> w
     | Some pool \<Rightarrow>
       os_free (mp_addr pool)
         (fold (\<lambda>(node, sc) w. if pool_slab pool node sc \<noteq> NULL
                  then nkit_slab_destroy (slab_handle m (pool_slab pool node sc)) w else w)
           (List.product [0..<nat (mp_num_nodes pool)] [0..<NUM_SIZE_CLASSES]) w))"

definition set_pool_slab :: "nkit_mempool \<Rightarrow> nat \<Rightarrow> nat \<Rightarrow> ptr \<Rightarrow> nkit_mempool" where
  "set_pool_slab pool node sc p =
    pool\<lparr>mp_nodes := (mp_nodes pool)[node :=
      (mp_nodes pool ! node)\<lparr>mn_slabs := (mn_slabs (mp_nodes pool ! node))[sc := p]\<rparr>]\<rparr>"

text \<open>The inner loop of the constructor; the flag says whether it went to its end.\<close>

fun mempool_fill_node :: "nat \<Rightarrow> nat list \<Rightarrow> nkit_mempool \<Rightarrow> mempool_mem \<Rightarrow> os \<Rightarrow>
  (bool \<times> nkit_mempool \<times> mempool_mem \<times> os) option" where
  "mempool_fill_node node [] pool m w = Some (True, pool, m, w)"
| "mempool_fill_node node (sc # scs) pool m w =
    (case nkit_slab_create (int node) (sizeof_header + SIZE_CLASSES ! sc) INITIAL_CAPACITY_PER_SLAB w of
       None \<Rightarrow> None
     | Some (None, w1) \<Rightarrow> Some (False, pool, m, w1)
     | Some (Some s, w1) \<Rightarrow>
       mempool_fill_node node scs (set_pool_slab pool node sc (sl_addr s))
         (m\<lparr>mm_slabs := (mm_slabs m)(sl_addr s \<mapsto> s)\<rparr>) w1)"

fun mempool_fill :: "nat list \<Rightarrow> nkit_mempool \<Rightarrow> mempool_mem \<Rightarrow> os \<Rightarrow>
  (bool \<times> nkit_mempool \<times> mempool_mem \<times> os) option" where
  "mempool_fill [] pool m w = Some (True, pool, m, w)"
| "mempool_fill (node # nodes) pool m w =
    (case mempool_fill_node node [0..<NUM_SIZE_CLASSES]
        (pool\<lparr>mp_nodes := (mp_nodes pool)[node := (mp_nodes pool ! node)\<lparr>mn_logical_node_id := int node\<rparr>]\<rparr>) m w of
       None \<Rightarrow> None
     | Some (False, r) \<Rightarrow> Some (False, r)
     | Some (True, pool', m', w') \<Rightarrow> mempool_fill nodes pool' m' w')"

definition nkit_mempool_create :: "nkit_context \<Rightarrow> mempool_mem \<Rightarrow> os \<Rightarrow> (nkit_mempool option \<times> mempool_mem \<times> os) option" where
  "nkit_mempool_create c m w =
    (if \<not> cx_initialized c then Some (None, m, w) else
     case os_malloc sizeof_mempool w of (p, w1) \<Rightarrow>
     if p = NULL then Some (None, m, w1) else
     let num_nodes = (if cx_num_nodes c > int MAX_NODES then int MAX_NODES else cx_num_nodes c) in
     case mempool_fill [0..<nat num_nodes] (mempool_zero p num_nodes) m w1 of
       None \<Rightarrow> None
     | Some (ok, pool, m', w2) \<Rightarrow>
       if ok then Some (Some pool, m', w2)
       else Some (None, m', nkit_mempool_destroy (Some pool) m' w2))"

text \<open>The search for a size class, and for a block on the other nodes.\<close>

fun find_class :: "u64 \<Rightarrow> nat list \<Rightarrow> nat option" where
  "find_class sz [] = None"
| "find_class sz (i # is) = (if sz \<le> SIZE_CLASSES ! i then Some i else find_class sz is)"

fun mempool_fallback :: "nkit_mempool \<Rightarrow> nat \<Rightarrow> nat \<Rightarrow> nat list \<Rightarrow> ptr \<Rightarrow> mempool_mem \<Rightarrow> (ptr \<times> ptr \<times> mempool_mem) option" where
  "mempool_fallback pool sc cur [] target m = Some (target, NULL, m)"
| "mempool_fallback pool sc cur (n # ns) target m =
    (if n = cur then mempool_fallback pool sc cur ns target m else
     let target' = pool_slab pool n sc in
     case mem_slab_alloc m target' of None \<Rightarrow> None
     | Some (raw, m') \<Rightarrow>
       if raw \<noteq> NULL then Some (target', raw, m') else mempool_fallback pool sc cur ns target' m')"

definition nkit_mempool_alloc :: "nkit_mempool option \<Rightarrow> u64 \<Rightarrow> mempool_mem \<Rightarrow> os \<Rightarrow> (ptr \<times> mempool_mem \<times> os) option" where
  "nkit_mempool_alloc h sz m w =
    (case h of None \<Rightarrow> Some (NULL, m, w)
     | Some pool \<Rightarrow>
       if sz = 0 then Some (NULL, m, w) else
       if sz > SIZE_CLASSES ! (NUM_SIZE_CLASSES - 1) then Some (NULL, m, w) else
       case nkit_get_current_node w of (n, w1) \<Rightarrow>
       let current_node = nat (if n < 0 \<or> n \<ge> mp_num_nodes pool then 0 else n) in
       case find_class sz [0..<NUM_SIZE_CLASSES] of None \<Rightarrow> Some (NULL, m, w1)
       | Some sc \<Rightarrow>
         let target = pool_slab pool current_node sc in
         case (case mem_slab_alloc m target of None \<Rightarrow> None
               | Some (raw, m1) \<Rightarrow>
                 if raw = NULL then mempool_fallback pool sc current_node [0..<nat (mp_num_nodes pool)] target m1
                 else Some (target, raw, m1)) of
           None \<Rightarrow> None
         | Some (target', raw, m2) \<Rightarrow>
           if raw = NULL then Some (NULL, m2, w1) else
           Some (raw + sizeof_header, m2\<lparr>mm_header := (mm_header m2)(raw := target')\<rparr>, w1))"

definition nkit_mempool_free :: "nkit_mempool option \<Rightarrow> ptr \<Rightarrow> mempool_mem \<Rightarrow> mempool_mem option" where
  "nkit_mempool_free h p m =
    (case h of None \<Rightarrow> Some m
     | Some pool \<Rightarrow>
       if p = NULL then Some m else
       let header = p - sizeof_header in
       if mm_header m header \<noteq> NULL then mem_slab_free m (mm_header m header) header else Some m)"

subsection \<open>Creation\<close>

text \<open>
  What a run of the loops of the constructor adds: \<open>kss\<close> pairs the node and size class of every
  slab it made with the slab. Nothing is assumed here about the addresses of the slabs.
\<close>

definition class_size :: "nat \<Rightarrow> u64" where
  "class_size sc = align_up 6 (sizeof_header + SIZE_CLASSES ! sc)"

definition fresh_slab :: "nat \<Rightarrow> nkit_slab \<Rightarrow> bool" where
  "fresh_slab sc s \<longleftrightarrow> slab_wf s [] \<and> sl_capacity s = 1024 \<and> sl_obj_size s = class_size sc \<and>
     (\<exists>a. sl_arena s = Some a \<and> sl_addr s = ar_base a)"

definition pool_shape :: "nkit_mempool \<Rightarrow> bool" where
  "pool_shape pool \<longleftrightarrow> mp_addr pool \<noteq> NULL \<and> mp_num_nodes pool \<le> int MAX_NODES \<and> length (mp_nodes pool) = MAX_NODES \<and>
     (\<forall>nd \<in> set (mp_nodes pool). length (mn_slabs nd) = NUM_SIZE_CLASSES)"

definition pool_keys :: "nkit_mempool \<Rightarrow> (nat \<times> nat) list" where
  "pool_keys pool = List.product [0..<nat (mp_num_nodes pool)] [0..<NUM_SIZE_CLASSES]"

definition filled :: "nkit_mempool \<Rightarrow> mempool_mem \<Rightarrow> os \<Rightarrow> ((nat \<times> nat) \<times> nkit_slab) list \<Rightarrow>
    nkit_mempool \<Rightarrow> mempool_mem \<Rightarrow> os \<Rightarrow> bool" where
  "filled pool m w kss pool' m' w' \<longleftrightarrow>
     pool_shape pool' \<and> mp_addr pool' = mp_addr pool \<and> mp_num_nodes pool' = mp_num_nodes pool \<and>
     (\<forall>n < MAX_NODES. \<forall>sc < NUM_SIZE_CLASSES. pool_slab pool' n sc =
        (case map_of (rev kss) (n, sc) of None \<Rightarrow> pool_slab pool n sc | Some s \<Rightarrow> sl_addr s)) \<and>
     mm_slabs m' = fold (\<lambda>s h. h(sl_addr s \<mapsto> s)) (map snd kss) (mm_slabs m) \<and> mm_header m' = mm_header m \<and>
     ledger w' = (os_live w + (\<Sum>ks\<leftarrow>kss. slab_owns (snd ks)), os_fault w) \<and> mmap_ok w' \<and>
     (\<forall>(k, s) \<in> set kss. fresh_slab (snd k) s)"

lemma filled_refl: "pool_shape pool \<Longrightarrow> mmap_ok w \<Longrightarrow> filled pool m w [] pool m w"
  by (simp add: filled_def ledger_def)

lemma filled_trans:
  assumes "filled pool m w ks1 pool1 m1 w1" and "filled pool1 m1 w1 ks2 pool2 m2 w2"
  shows "filled pool m w (ks1 @ ks2) pool2 m2 w2"
  using assms unfolding filled_def by (auto simp: ledger_def map_add_def split: option.splits)

lemma SIZE_CLASSES_bounds:
  assumes "sc < NUM_SIZE_CLASSES"
  shows "unat (SIZE_CLASSES ! sc) \<le> 16384" and "0 < unat (SIZE_CLASSES ! sc)"
    and "unat (sizeof_header + SIZE_CLASSES ! sc) = 8 + unat (SIZE_CLASSES ! sc)"
proof -
  have "\<forall>sc \<in> set [0..<10]. unat (SIZE_CLASSES ! sc) \<le> 16384 \<and> 0 < unat (SIZE_CLASSES ! sc)"
    unfolding SIZE_CLASSES_def by (simp add: upt_rec)
  then show b: "unat (SIZE_CLASSES ! sc) \<le> 16384" "0 < unat (SIZE_CLASSES ! sc)"
    using assms by (simp_all add: NUM_SIZE_CLASSES_def)
  show "unat (sizeof_header + SIZE_CLASSES ! sc) = 8 + unat (SIZE_CLASSES ! sc)"
    using b by (subst unat_add_lem [THEN iffD1]) (simp_all add: sizeof_header_def)
qed

lemma class_size_bounds:
  assumes "sc < NUM_SIZE_CLASSES"
  shows "unat (SIZE_CLASSES ! sc) + 8 \<le> unat (class_size sc)" and "unat (class_size sc) < 2 ^ 15"
  using SIZE_CLASSES_bounds [OF assms] align_up_bounds [of 6 "sizeof_header + SIZE_CLASSES ! sc"]
  unfolding class_size_def by simp_all

lemma mempool_slab_create:
  assumes "mmap_ok w" and "sc < NUM_SIZE_CLASSES"
    and "nkit_slab_create node (sizeof_header + SIZE_CLASSES ! sc) INITIAL_CAPACITY_PER_SLAB w = Some (Some s, w')"
  shows "fresh_slab sc s" and "ledger w' = (os_live w + slab_owns s, os_fault w)" and "mmap_ok w'"
proof -
  note b = SIZE_CLASSES_bounds [OF assms(2)] and cs = class_size_bounds [OF assms(2)]
  have lim: "unat (sizeof_header + SIZE_CLASSES ! sc) \<le> 2 ^ 64 - 64"
    "unat (align_up 6 (sizeof_header + SIZE_CLASSES ! sc)) * unat INITIAL_CAPACITY_PER_SLAB < 2 ^ 64"
    using b cs(2) by (simp_all add: class_size_def INITIAL_CAPACITY_PER_SLAB_def)
  note wf = slab_create_wf [OF assms(1,3) lim]
  have "\<exists>a. sl_arena s = Some a \<and> sl_addr s = ar_base a"
    using assms(1,3) by (cases rule: slab_create_cases) auto
  with wf show "fresh_slab sc s" by (simp add: fresh_slab_def class_size_def INITIAL_CAPACITY_PER_SLAB_def)
  show "ledger w' = (os_live w + slab_owns s, os_fault w)" "mmap_ok w'"
    using slab.create_Some [OF assms(1), of node "sizeof_header + SIZE_CLASSES ! sc" INITIAL_CAPACITY_PER_SLAB s w']
      assms(3) by simp_all
qed

lemma pool_slab_set:
  assumes "pool_shape pool" and "node < MAX_NODES" and "sc < NUM_SIZE_CLASSES"
  shows "pool_shape (set_pool_slab pool node sc p)"
    and "pool_slab (set_pool_slab pool node sc p) n c = (if (n, c) = (node, sc) then p else pool_slab pool n c)"
    and "mp_num_nodes (set_pool_slab pool node sc p) = mp_num_nodes pool"
    and "mp_addr (set_pool_slab pool node sc p) = mp_addr pool"
  using assms
  by (auto simp: set_pool_slab_def pool_slab_def pool_shape_def nth_list_update dest!: set_update_subset_insert [THEN subsetD])

lemma filled_one:
  assumes "pool_shape pool" and "node < MAX_NODES" and "sc < NUM_SIZE_CLASSES" and "mmap_ok w'"
    and "fresh_slab sc s" and "ledger w' = (os_live w + slab_owns s, os_fault w)"
  shows "filled pool m w [((node, sc), s)] (set_pool_slab pool node sc (sl_addr s))
    (m\<lparr>mm_slabs := (mm_slabs m)(sl_addr s \<mapsto> s)\<rparr>) w'"
  using assms(4-6) pool_slab_set [OF assms(1-3)] by (simp add: filled_def)

lemma mempool_fill_node_ok:
  assumes "pool_shape pool" and "mmap_ok w" and "node < MAX_NODES" and "\<forall>sc \<in> set scs. sc < NUM_SIZE_CLASSES"
  shows "\<exists>ok pool' m' w' kss rest. mempool_fill_node node scs pool m w = Some (ok, pool', m', w') \<and>
    filled pool m w kss pool' m' w' \<and> map fst kss @ rest = map (Pair node) scs \<and> (ok \<longrightarrow> rest = [])"
  using assms
proof (induction scs arbitrary: pool m w)
  case Nil
  then show ?case using filled_refl by fastforce
next
  case (Cons sc scs)
  have sc: "sc < NUM_SIZE_CLASSES" using Cons.prems by simp
  obtain h w1 where mk: "nkit_slab_create (int node) (sizeof_header + SIZE_CLASSES ! sc) INITIAL_CAPACITY_PER_SLAB w = Some (h, w1)"
    using slab_create_returns [OF Cons.prems(2)] by blast
  show ?case
  proof (cases h)
    case None
    have "ledger w1 = ledger w" "mmap_ok w1"
      using slab.create_None [OF Cons.prems(2), of "int node" "sizeof_header + SIZE_CLASSES ! sc" INITIAL_CAPACITY_PER_SLAB w1]
        mk None by simp_all
    then have "filled pool m w [] pool m w1" using Cons.prems(1) by (simp add: filled_def ledger_def)
    then show ?thesis using mk None by fastforce
  next
    case (Some s)
    note s = mempool_slab_create [OF Cons.prems(2) sc mk [unfolded Some]]
    let ?pool = "set_pool_slab pool node sc (sl_addr s)" and ?m = "m\<lparr>mm_slabs := (mm_slabs m)(sl_addr s \<mapsto> s)\<rparr>"
    note one = filled_one [OF Cons.prems(1,3) sc s(3,1,2), of m]
    obtain ok pool' m' w' kss rest where run: "mempool_fill_node node scs ?pool ?m w1 = Some (ok, pool', m', w')"
      "filled ?pool ?m w1 kss pool' m' w'" "map fst kss @ rest = map (Pair node) scs" "ok \<longrightarrow> rest = []"
      using Cons.IH [of ?pool w1 ?m] pool_slab_set(1) [OF Cons.prems(1,3) sc] s(3) Cons.prems(3,4) by auto
    from run(1,3,4) filled_trans [OF one run(2)] mk Some show ?thesis
      by (intro exI [of _ ok] exI [of _ pool'] exI [of _ m'] exI [of _ w'] exI [of _ "((node, sc), s) # kss"] exI [of _ rest]) simp
  qed
qed

lemma filled_node_id:
  assumes "node < length (mp_nodes pool)"
    and "filled (pool\<lparr>mp_nodes := (mp_nodes pool)[node := (mp_nodes pool ! node)\<lparr>mn_logical_node_id := i\<rparr>]\<rparr>) m w kss pool' m' w'"
  shows "filled pool m w kss pool' m' w'"
proof -
  have "pool_slab (pool\<lparr>mp_nodes := (mp_nodes pool)[node := (mp_nodes pool ! node)\<lparr>mn_logical_node_id := i\<rparr>]\<rparr>) n sc
      = pool_slab pool n sc" for n sc
    using assms(1) by (cases "n = node") (simp_all add: pool_slab_def)
  then show ?thesis using assms(2) by (simp add: filled_def cong: option.case_cong)
qed

lemma mempool_fill_ok:
  assumes "pool_shape pool" and "mmap_ok w" and "\<forall>node \<in> set nodes. node < MAX_NODES"
  shows "\<exists>ok pool' m' w' kss rest. mempool_fill nodes pool m w = Some (ok, pool', m', w') \<and>
    filled pool m w kss pool' m' w' \<and> map fst kss @ rest = List.product nodes [0..<NUM_SIZE_CLASSES] \<and> (ok \<longrightarrow> rest = [])"
  using assms
proof (induction nodes arbitrary: pool m w)
  case Nil
  then show ?case using filled_refl by fastforce
next
  case (Cons node nodes)
  let ?p = "pool\<lparr>mp_nodes := (mp_nodes pool)[node := (mp_nodes pool ! node)\<lparr>mn_logical_node_id := int node\<rparr>]\<rparr>"
  have n: "node < MAX_NODES" "node < length (mp_nodes pool)" using Cons.prems by (simp_all add: pool_shape_def)
  have "pool_shape ?p" using Cons.prems(1) n(2)
    by (auto simp: pool_shape_def dest!: set_update_subset_insert [THEN subsetD])
  from mempool_fill_node_ok [OF this Cons.prems(2) n(1), of "[0..<NUM_SIZE_CLASSES]" m]
  obtain ok pool1 m1 w1 ks1 rest1 where run1: "mempool_fill_node node [0..<NUM_SIZE_CLASSES] ?p m w = Some (ok, pool1, m1, w1)"
    "filled ?p m w ks1 pool1 m1 w1" "map fst ks1 @ rest1 = map (Pair node) [0..<NUM_SIZE_CLASSES]" "ok \<longrightarrow> rest1 = []"
    by auto
  note f1 = filled_node_id [OF n(2) run1(2)]
  show ?case
  proof (cases ok)
    case False
    then show ?thesis using run1(1,3) f1
      by (intro exI [of _ False] exI [of _ pool1] exI [of _ m1] exI [of _ w1] exI [of _ ks1]
          exI [of _ "rest1 @ List.product nodes [0..<NUM_SIZE_CLASSES]"]) (simp flip: append_assoc)
  next
    case True
    have "pool_shape pool1" "mmap_ok w1" using f1 by (simp_all add: filled_def)
    from Cons.IH [OF this, of m1] Cons.prems(3)
    obtain ok2 pool' m' w' kss rest where run: "mempool_fill nodes pool1 m1 w1 = Some (ok2, pool', m', w')"
      "filled pool1 m1 w1 kss pool' m' w'" "map fst kss @ rest = List.product nodes [0..<NUM_SIZE_CLASSES]" "ok2 \<longrightarrow> rest = []"
      by auto
    from run(1,3,4) run1(1,3,4) True filled_trans [OF f1 run(2)] show ?thesis
      by (intro exI [of _ ok2] exI [of _ pool'] exI [of _ m'] exI [of _ w'] exI [of _ "ks1 @ kss"] exI [of _ rest]) simp
  qed
qed

subsection \<open>Destruction\<close>

text \<open>The slabs a pool points to, and what the pool owns.\<close>

definition pool_ptr :: "nkit_mempool \<Rightarrow> nat \<times> nat \<Rightarrow> ptr" where
  "pool_ptr pool k = pool_slab pool (fst k) (snd k)"

definition pool_slabs :: "nkit_mempool \<Rightarrow> mempool_mem \<Rightarrow> nkit_slab list" where
  "pool_slabs pool m = map (\<lambda>k. the (mm_slabs m (pool_ptr pool k))) (filter (\<lambda>k. pool_ptr pool k \<noteq> NULL) (pool_keys pool))"

definition mempool_owns :: "nkit_mempool \<Rightarrow> mempool_mem \<Rightarrow> os_res multiset" where
  "mempool_owns pool m = add_mset (Heap (mp_addr pool)) (\<Sum>s\<leftarrow>pool_slabs pool m. slab_owns s)"

lemma mempool_destroy_fold:
  "nkit_mempool_destroy (Some pool) m w =
    os_free (mp_addr pool) (fold (\<lambda>s. nkit_slab_destroy (Some s)) (pool_slabs pool m) w)"
proof -
  have "fold (\<lambda>(node, sc) w. if pool_slab pool node sc \<noteq> NULL
          then nkit_slab_destroy (slab_handle m (pool_slab pool node sc)) w else w) ks w =
      fold (\<lambda>s. nkit_slab_destroy (Some s))
        (map (\<lambda>k. the (mm_slabs m (pool_ptr pool k))) (filter (\<lambda>k. pool_ptr pool k \<noteq> NULL) ks)) w" for ks
    by (induction ks arbitrary: w) (auto simp: pool_ptr_def slab_handle_def)
  then show ?thesis by (simp add: nkit_mempool_destroy_def pool_slabs_def pool_keys_def)
qed

lemma mempool_destroy_owned:
  assumes "mp_addr pool \<noteq> NULL" and "\<forall>s \<in> set (pool_slabs pool m). slab_valid s"
    and "mempool_owns pool m \<subseteq># os_live w"
  shows "ledger (nkit_mempool_destroy (Some pool) m w) = (os_live w - mempool_owns pool m, os_fault w)"
proof -
  let ?o = "\<Sum>s\<leftarrow>pool_slabs pool m. slab_owns s"
  let ?w = "fold (\<lambda>s. nkit_slab_destroy (Some s)) (pool_slabs pool m) w"
  obtain R where R: "os_live w = add_mset (Heap (mp_addr pool)) ?o + R"
    using assms(3) by (auto simp: mempool_owns_def subset_mset.le_iff_add)
  then have "?o \<subseteq># os_live w" by (simp add: subset_mset.add_increasing2)
  from slab.destroy_all [OF assms(2) this] have "os_live ?w = os_live w - ?o" "os_fault ?w = os_fault w"
    by (simp_all add: ledger_def)
  then show ?thesis using assms(1) R
    by (simp add: mempool_destroy_fold mempool_owns_def ledger_def os_free_def os_simps)
qed

subsection \<open>Disjoint mappings\<close>

text \<open>
  What the pool relies on, beyond \<^const>\<open>mmap_ok\<close>: mappings that are live at the same time do not
  overlap. Then the slabs of a pool have different addresses, so that following a slab pointer
  finds the slab that was stored there.
\<close>

definition maps_disjoint :: "os_res multiset \<Rightarrow> bool" where
  "maps_disjoint live \<longleftrightarrow> (\<forall>p n q k. {#Mapping p n, Mapping q k#} \<subseteq># live \<longrightarrow>
     block_addrs (p, n) \<inter> block_addrs (q, k) = {})"

definition slab_region :: "nkit_slab \<Rightarrow> nat set" where
  "slab_region s = (case sl_arena s of None \<Rightarrow> {} | Some a \<Rightarrow> block_addrs (ar_base a, ar_size a))"

lemma fresh_slab_addr:
  assumes "fresh_slab sc s"
  shows "sl_addr s \<noteq> NULL" and "unat (sl_addr s) \<in> slab_region s" and "slab_valid s"
proof -
  obtain a where a: "sl_arena s = Some a" "sl_addr s = ar_base a" "arena_wf a"
    using assms by (auto simp: fresh_slab_def slab_wf_def slab_valid_def)
  then show "sl_addr s \<noteq> NULL" "unat (sl_addr s) \<in> slab_region s"
    by (simp_all add: arena_wf_def slab_region_def block_addrs_def unat_gt_0)
  show "slab_valid s" using assms by (simp add: fresh_slab_def slab_wf_def)
qed

lemma regions_disjoint:
  assumes "maps_disjoint live" and "(\<Sum>ks\<leftarrow>kss. slab_owns (snd ks)) \<subseteq># live"
  shows "sorted_wrt (\<lambda>x y. slab_region (snd x) \<inter> slab_region (snd y) = {}) kss"
  using assms(2)
proof (induction kss)
  case (Cons x kss)
  let ?o = "\<Sum>ks\<leftarrow>kss. slab_owns (snd ks)"
  have sub: "slab_owns (snd x) + ?o \<subseteq># live" using Cons.prems by simp
  have "slab_region (snd x) \<inter> slab_region (snd y) = {}" if "y \<in> set kss" for y
  proof (cases "sl_arena (snd x)"; cases "sl_arena (snd y)")
    fix a b
    assume a: "sl_arena (snd x) = Some a" and b: "sl_arena (snd y) = Some b"
    have "Mapping (ar_base b) (ar_size b) \<in># slab_owns (snd y)" using b by (simp add: slab_owns_def arena_owns_def)
    then have "Mapping (ar_base b) (ar_size b) \<in># ?o" using that by (induction kss) auto
    then have "{#Mapping (ar_base b) (ar_size b)#} \<subseteq># ?o" by simp
    moreover have "{#Mapping (ar_base a) (ar_size a)#} \<subseteq># slab_owns (snd x)"
      using a by (simp add: slab_owns_def arena_owns_def)
    ultimately have "{#Mapping (ar_base a) (ar_size a), Mapping (ar_base b) (ar_size b)#} \<subseteq># live"
      using subset_mset.order_trans [OF subset_mset.add_mono sub] by (metis add_mset_add_single union_commute)
    then have "block_addrs (ar_base a, ar_size a) \<inter> block_addrs (ar_base b, ar_size b) = {}"
      using assms(1) unfolding maps_disjoint_def by blast
    then show ?thesis using a b by (simp add: slab_region_def)
  qed (simp_all add: slab_region_def)
  moreover have "?o \<subseteq># live" using subset_mset.order_trans [OF mset_subset_eq_add_right sub] .
  ultimately show ?case using Cons.IH by simp
qed simp

text \<open>The slabs the constructor stored, when the mappings are disjoint.\<close>

lemma fold_upd_other: "p \<notin> f ` set ss \<Longrightarrow> fold (\<lambda>s h. h(f s \<mapsto> s)) ss h p = h p"
  by (induction ss arbitrary: h) simp_all

lemma fold_upd_in: "distinct (map f ss) \<Longrightarrow> s \<in> set ss \<Longrightarrow> fold (\<lambda>s h. h(f s \<mapsto> s)) ss h (f s) = Some s"
  by (induction ss arbitrary: h) (auto simp: fold_upd_other)

lemma sorted_wrtD: "sorted_wrt P xs \<Longrightarrow> x \<in> set xs \<Longrightarrow> y \<in> set xs \<Longrightarrow> x \<noteq> y \<Longrightarrow> P x y \<or> P y x"
  by (induction xs) auto

lemma filled_fresh: "filled pool m w kss pool' m' w' \<Longrightarrow> x \<in> set kss \<Longrightarrow> fresh_slab (snd (fst x)) (snd x)"
  by (cases x) (auto simp: filled_def)

lemma filled_slabs:
  assumes "filled pool m w kss pool' m' w'" and "maps_disjoint (os_live w')"
  shows "distinct (map (\<lambda>ks. sl_addr (snd ks)) kss)" and "(k, s) \<in> set kss \<Longrightarrow> mm_slabs m' (sl_addr s) = Some s"
    and "(k, s) \<in> set kss \<Longrightarrow> (k', s') \<in> set kss \<Longrightarrow> k \<noteq> k' \<Longrightarrow> slab_region s \<inter> slab_region s' = {}"
proof -
  have live: "os_live w' = os_live w + (\<Sum>ks\<leftarrow>kss. slab_owns (snd ks))" using assms(1) by (simp add: filled_def ledger_def)
  have rd: "sorted_wrt (\<lambda>x y. slab_region (snd x) \<inter> slab_region (snd y) = {}) kss"
    by (rule regions_disjoint [OF assms(2)]) (simp add: live)
  have addr: "unat (sl_addr (snd x)) \<in> slab_region (snd x)" if "x \<in> set kss" for x
    using fresh_slab_addr(2) [OF filled_fresh [OF assms(1) that]] .
  have "sorted_wrt (\<lambda>x y. sl_addr (snd x) \<noteq> sl_addr (snd y)) kss"
    using rd by (rule sorted_wrt_mono_rel [rotated]) (use addr in \<open>metis disjoint_iff\<close>)
  then show d: "distinct (map (\<lambda>ks. sl_addr (snd ks)) kss)" by (induction kss) auto
  show "mm_slabs m' (sl_addr s) = Some s" if "(k, s) \<in> set kss"
  proof -
    have "distinct (map sl_addr (map snd kss))" using d by (simp add: comp_def)
    from fold_upd_in [OF this, of s "mm_slabs m"] show ?thesis
      using assms(1) that by (force simp: filled_def)
  qed
  show "slab_region s \<inter> slab_region s' = {}" if "(k, s) \<in> set kss" "(k', s') \<in> set kss" "k \<noteq> k'"
    using sorted_wrtD [OF rd that(1,2)] that(3) by auto
qed

lemma mempool_zero_null:
  "n < MAX_NODES \<Longrightarrow> sc < NUM_SIZE_CLASSES \<Longrightarrow> pool_slab (mempool_zero p N) n sc = NULL"
  by (simp add: pool_slab_def mempool_zero_def)

lemma pool_keys_bounds:
  "pool_shape pool \<Longrightarrow> k \<in> set (pool_keys pool) \<Longrightarrow> fst k < MAX_NODES \<and> snd k < NUM_SIZE_CLASSES"
  by (auto simp: pool_keys_def pool_shape_def)

lemma map_of_rev_distinct: "distinct (map fst xs) \<Longrightarrow> map_of (rev xs) = map_of xs"
  by (simp add: map_of_inject_set rev_map [symmetric])

lemma filled_zero_slabs:
  assumes "filled (mempool_zero p N) m w kss pool m' w'" and "maps_disjoint (os_live w')"
    and "map fst kss @ rest = pool_keys pool"
  shows "pool_slabs pool m' = map snd kss" and "(k, s) \<in> set kss \<Longrightarrow> pool_ptr pool k = sl_addr s"
proof -
  have shape: "pool_shape pool" using assms(1) by (simp add: filled_def)
  have d: "distinct (map fst kss @ rest)" unfolding assms(3) pool_keys_def by (rule distinct_product) simp_all
  have ptr: "pool_ptr pool k = (case map_of kss k of None \<Rightarrow> NULL | Some s \<Rightarrow> sl_addr s)" if "k \<in> set (pool_keys pool)" for k
    using assms(1) pool_keys_bounds [OF shape that] mempool_zero_null d
    by (auto simp: filled_def pool_ptr_def map_of_rev_distinct split: option.splits)
  have in_keys: "k \<in> set (pool_keys pool)" if "(k, s) \<in> set kss" for k s
    using that unfolding assms(3) [symmetric] by force
  show ptr': "pool_ptr pool k = sl_addr s" if "(k, s) \<in> set kss" for k s
    using ptr [OF in_keys [OF that]] that d by simp
  have "filter (\<lambda>k. pool_ptr pool k \<noteq> NULL) (map fst kss) = map fst kss"
    using ptr' fresh_slab_addr(1) assms(1) by (intro filter_True) (fastforce simp: filled_def)
  moreover have "filter (\<lambda>k. pool_ptr pool k \<noteq> NULL) rest = []"
    using ptr d unfolding filter_empty_conv assms(3) [symmetric] by (auto simp: map_of_eq_None_iff split: option.splits)
  ultimately have "filter (\<lambda>k. pool_ptr pool k \<noteq> NULL) (pool_keys pool) = map fst kss"
    unfolding assms(3) [symmetric] by simp
  moreover have "the (mm_slabs m' (pool_ptr pool (fst x))) = snd x" if "x \<in> set kss" for x
    using filled_slabs(2) [OF assms(1,2), of "fst x" "snd x"] ptr' [of "fst x" "snd x"] that by simp
  ultimately show "pool_slabs pool m' = map snd kss" unfolding pool_slabs_def by simp
qed

subsection \<open>The blocks a client holds\<close>

text \<open>
  \<open>held\<close> lists the blocks that were handed out and not given back, as the pointer the client got
  and the size it asked for. A block belongs to the slab its header names. What each slab owns,
  \<open>own\<close>, does not change.
\<close>

definition owned :: "mempool_mem \<Rightarrow> ptr \<Rightarrow> (ptr \<times> u64) list \<Rightarrow> ptr list" where
  "owned m a held = map (\<lambda>b. fst b - sizeof_header) (filter (\<lambda>b. mm_header m (fst b - sizeof_header) = a) held)"

definition key_slab :: "nkit_mempool \<Rightarrow> mempool_mem \<Rightarrow> nat \<times> nat \<Rightarrow> nkit_slab" where
  "key_slab pool m k = the (mm_slabs m (pool_ptr pool k))"

definition key_ok :: "(nat \<times> nat \<Rightarrow> os_res multiset) \<Rightarrow> nkit_mempool \<Rightarrow> mempool_mem \<Rightarrow> (ptr \<times> u64) list \<Rightarrow> nat \<times> nat \<Rightarrow> bool" where
  "key_ok own pool m held k \<longleftrightarrow> pool_ptr pool k \<noteq> NULL \<and> mm_slabs m (pool_ptr pool k) = Some (key_slab pool m k) \<and>
     slab_wf (key_slab pool m k) (owned m (pool_ptr pool k) held) \<and>
     sl_capacity (key_slab pool m k) = 1024 \<and> sl_obj_size (key_slab pool m k) = class_size (snd k) \<and>
     slab_owns (key_slab pool m k) = own k"

definition block_ok :: "nkit_mempool \<Rightarrow> mempool_mem \<Rightarrow> ptr \<times> u64 \<Rightarrow> nat \<times> nat \<Rightarrow> bool" where
  "block_ok pool m b k \<longleftrightarrow> mm_header m (fst b - sizeof_header) = pool_ptr pool k \<and> snd b \<noteq> 0 \<and> snd b \<le> SIZE_CLASSES ! snd k"

definition mempool_wf :: "(nat \<times> nat \<Rightarrow> os_res multiset) \<Rightarrow> nkit_mempool \<Rightarrow> mempool_mem \<Rightarrow> (ptr \<times> u64) list \<Rightarrow> bool" where
  "mempool_wf own pool m held \<longleftrightarrow> pool_shape pool \<and> distinct (map fst held) \<and> inj_on (pool_ptr pool) (set (pool_keys pool)) \<and>
     (\<forall>k \<in> set (pool_keys pool). key_ok own pool m held k) \<and>
     (\<forall>k \<in> set (pool_keys pool). \<forall>k' \<in> set (pool_keys pool). k \<noteq> k' \<longrightarrow>
        slab_region (key_slab pool m k) \<inter> slab_region (key_slab pool m k') = {}) \<and>
     (\<forall>b \<in> set held. \<exists>k \<in> set (pool_keys pool). block_ok pool m b k)"

lemma held_slot:
  assumes "mempool_wf own pool m held" and "k \<in> set (pool_keys pool)" and "b \<in> set held"
    and "mm_header m (fst b - sizeof_header) = pool_ptr pool k"
  shows "fst b - sizeof_header \<in> set (slots_of (key_slab pool m k))"
proof -
  have "slab_wf (key_slab pool m k) (owned m (pool_ptr pool k) held)"
    using assms(1,2) by (simp add: mempool_wf_def key_ok_def)
  from slab_wf_held(1) [OF this] show ?thesis using assms(3,4) by (auto simp: owned_def)
qed

lemma slot_region:
  assumes "slab_layout s" and "p \<in> set (slots_of s)"
  shows "block_addrs (p, sl_obj_size s) \<subseteq> slab_region s"
  using slot_block(3) [OF assms] assms(1) by (auto simp: slab_layout_def slab_region_def)

text \<open>The block of a client lies in its slot, after the header.\<close>

lemma held_block:
  assumes "mempool_wf own pool m held" and "k \<in> set (pool_keys pool)" and "b \<in> set held" and "block_ok pool m b k"
  shows "block_addrs b \<subseteq> block_addrs (fst b - sizeof_header, sl_obj_size (key_slab pool m k))"
    and "block_addrs b \<subseteq> slab_region (key_slab pool m k)" and "unat (fst b) mod 64 = 8"
proof -
  let ?s = "key_slab pool m k" and ?r = "fst b - sizeof_header"
  have ok: "key_ok own pool m held k" and shape: "pool_shape pool" using assms(1,2) by (simp_all add: mempool_wf_def)
  then have l: "slab_layout ?s" by (simp add: key_ok_def slab_wf_def)
  have slot: "?r \<in> set (slots_of ?s)" using held_slot [OF assms(1-3)] assms(4) by (simp add: block_ok_def)
  obtain a where a: "unat ?r + unat (sl_obj_size ?s) \<le> unat (ar_base a) + unat (ar_size a)" "sl_arena ?s = Some a"
    using slot_block(3) [OF l slot] l
    by (cases "sl_arena ?s") (auto simp: slab_layout_def block_addrs_def atLeastLessThan_subset_iff)
  have o: "sl_obj_size ?s = class_size (snd k)" using ok by (simp add: key_ok_def)
  have b: "unat (SIZE_CLASSES ! snd k) + 8 \<le> unat (sl_obj_size ?s)"
    using class_size_bounds(1) [of "snd k"] pool_keys_bounds [OF shape assms(2)] o by simp
  then have "unat ?r + 8 < 2 ^ 64" using a l by (simp add: slab_layout_def)
  then have "unat (?r + sizeof_header) = unat ?r + 8"
    by (subst unat_add_lem [THEN iffD1]) (simp_all add: sizeof_header_def)
  then have u: "unat (fst b) = unat ?r + 8" by simp
  have "unat (snd b) \<le> unat (SIZE_CLASSES ! snd k)" using assms(4) by (simp add: block_ok_def word_le_nat_alt)
  then show sub: "block_addrs b \<subseteq> block_addrs (?r, sl_obj_size ?s)"
    using u b by (auto simp: block_addrs_def)
  show "block_addrs b \<subseteq> slab_region ?s" using sub slot_region [OF l slot] by blast
  show "unat (fst b) mod 64 = 8" using slot_block(2) [OF l slot] u by (auto simp: mod_eq_0_iff_dvd [symmetric] mod_add_eq [symmetric])
qed

lemma held_blocks_disjoint:
  assumes "mempool_wf own pool m held"
  shows "blocks_disjoint held"
proof -
  have "distinct held" using assms by (simp add: mempool_wf_def distinct_map)
  moreover have "block_addrs b \<inter> block_addrs c = {}" if bc: "b \<in> set held" "c \<in> set held" "b \<noteq> c" for b c
  proof -
    obtain k k' where k: "k \<in> set (pool_keys pool)" "block_ok pool m b k" and k': "k' \<in> set (pool_keys pool)" "block_ok pool m c k'"
      using assms bc(1,2) unfolding mempool_wf_def by meson
    note b = held_block [OF assms k(1) bc(1) k(2)] and c = held_block [OF assms k'(1) bc(2) k'(2)]
    show ?thesis
    proof (cases "k = k'")
      case False
      then have "slab_region (key_slab pool m k) \<inter> slab_region (key_slab pool m k') = {}"
        using assms k(1) k'(1) by (simp add: mempool_wf_def)
      then show ?thesis using b(2) c(2) by blast
    next
      case True
      have "inj_on fst (set held)" using assms by (simp add: mempool_wf_def distinct_map)
      then have ne: "fst b - sizeof_header \<noteq> fst c - sizeof_header" using bc by (auto simp: inj_on_def)
      have "slab_layout (key_slab pool m k)" using assms k(1) by (auto simp: mempool_wf_def key_ok_def slab_wf_def)
      from slots_disjoint [OF this held_slot [OF assms k(1) bc(1)] held_slot [OF assms k(1) bc(2)] ne]
      have "block_addrs (fst b - sizeof_header, sl_obj_size (key_slab pool m k)) \<inter>
          block_addrs (fst c - sizeof_header, sl_obj_size (key_slab pool m k)) = {}"
        using k(2) k'(2) True by (simp add: block_ok_def)
      then show ?thesis using b(1) c(1) True by blast
    qed
  qed
  ultimately show ?thesis unfolding blocks_disjoint_def by (rule sorted_wrt_distinctI)
qed

subsection \<open>Allocation and release\<close>

text \<open>An update of the slab behind one key, with or without a change of the blocks held there.\<close>

lemma mempool_wf_update:
  assumes wf: "mempool_wf own pool m held" and k: "k \<in> set (pool_keys pool)"
    and fr: "slab_frame (key_slab pool m k) s'" and m': "mm_slabs m' = (mm_slabs m)(pool_ptr pool k \<mapsto> s')"
    and s': "slab_wf s' (owned m' (pool_ptr pool k) held')"
    and other: "\<And>k'. k' \<in> set (pool_keys pool) \<Longrightarrow> k' \<noteq> k \<Longrightarrow> owned m' (pool_ptr pool k') held' = owned m (pool_ptr pool k') held"
    and held: "distinct (map fst held')" "\<forall>b \<in> set held'. \<exists>k \<in> set (pool_keys pool). block_ok pool m' b k"
  shows "mempool_wf own pool m' held'"
proof -
  have inj: "inj_on (pool_ptr pool) (set (pool_keys pool))" using wf by (simp add: mempool_wf_def)
  have slab: "key_slab pool m' j = (if j = k then s' else key_slab pool m j)" if "j \<in> set (pool_keys pool)" for j
    using that k inj by (auto simp: key_slab_def m' inj_on_def)
  have ptr: "pool_ptr pool j \<noteq> pool_ptr pool k" if "j \<in> set (pool_keys pool)" "j \<noteq> k" for j
    using that k inj by (auto simp: inj_on_def)
  have old: "key_ok own pool m held j" if "j \<in> set (pool_keys pool)" for j using wf that by (simp add: mempool_wf_def)
  have region: "slab_region (key_slab pool m' j) = slab_region (key_slab pool m j)" if "j \<in> set (pool_keys pool)" for j
    using slab [OF that] slab_frameD(2) [OF fr] by (simp add: slab_region_def)
  have "key_ok own pool m' held' j" if j: "j \<in> set (pool_keys pool)" for j
  proof (cases "j = k")
    case True
    then show ?thesis using slab [OF j] s' old [OF k] slab_frameD(4-6) [OF fr] by (simp add: key_ok_def m')
  next
    case False
    then show ?thesis using slab [OF j] old [OF j] ptr [OF j] other [OF j] by (simp add: key_ok_def m')
  qed
  then show ?thesis using wf held region by (simp add: mempool_wf_def)
qed

lemma mem_slab_alloc_full:
  assumes "mempool_wf own pool m held" and "k \<in> set (pool_keys pool)" and "length (owned m (pool_ptr pool k) held) = 1024"
  shows "mem_slab_alloc m (pool_ptr pool k) = Some (NULL, m)"
proof -
  have ok: "key_ok own pool m held k" using assms by (simp add: mempool_wf_def)
  then have "nkit_slab_alloc (Some (key_slab pool m k)) = Some (NULL, Some (key_slab pool m k))"
    using assms(3) by (intro slab_alloc_full [where held = "owned m (pool_ptr pool k) held"]) (simp_all add: key_ok_def)
  then show ?thesis using ok by (simp add: mem_slab_alloc_def slab_handle_def key_ok_def fun_upd_idem)
qed

lemma raw_not_held:
  assumes wf: "mempool_wf own pool m held" and k: "k \<in> set (pool_keys pool)"
    and raw: "raw \<in> set (slots_of (key_slab pool m k))" "raw \<notin> set (owned m (pool_ptr pool k) held)"
  shows "raw \<notin> (\<lambda>b. fst b - sizeof_header) ` set held"
proof
  assume "raw \<in> (\<lambda>b. fst b - sizeof_header) ` set held"
  then obtain b where b: "b \<in> set held" "raw = fst b - sizeof_header" by blast
  obtain j where j: "j \<in> set (pool_keys pool)" "block_ok pool m b j" using wf b(1) by (auto simp: mempool_wf_def)
  have lay: "slab_layout (key_slab pool m i)" "0 < unat (sl_obj_size (key_slab pool m i))" if "i \<in> set (pool_keys pool)" for i
    using wf that by (auto simp: mempool_wf_def key_ok_def slab_wf_def slab_layout_def)
  show False
  proof (cases "j = k")
    case True
    then show False using j(2) b raw(2) by (auto simp: owned_def block_ok_def)
  next
    case False
    have slot: "raw \<in> set (slots_of (key_slab pool m j))"
      using held_slot [OF wf j(1) b(1)] j(2) b(2) by (simp add: block_ok_def)
    have "unat raw \<in> slab_region (key_slab pool m i)" if "i \<in> set (pool_keys pool)" "raw \<in> set (slots_of (key_slab pool m i))" for i
      using slot_region [OF lay(1) [OF that(1)] that(2)] lay(2) [OF that(1)] by (auto simp: block_addrs_def)
    then have "unat raw \<in> slab_region (key_slab pool m k) \<inter> slab_region (key_slab pool m j)" using j(1) k raw(1) slot by blast
    moreover have "slab_region (key_slab pool m k) \<inter> slab_region (key_slab pool m j) = {}"
      using wf k j(1) False by (simp add: mempool_wf_def)
    ultimately show False by blast
  qed
qed

lemma mem_slab_alloc_ok:
  assumes wf: "mempool_wf own pool m held" and k: "k \<in> set (pool_keys pool)"
    and room: "length (owned m (pool_ptr pool k) held) < 1024"
    and sz: "sz \<noteq> 0" "sz \<le> SIZE_CLASSES ! snd k"
  shows "\<exists>raw m'. mem_slab_alloc m (pool_ptr pool k) = Some (raw, m') \<and> raw \<noteq> NULL \<and> mm_header m' = mm_header m \<and>
    mempool_wf own pool (m'\<lparr>mm_header := (mm_header m')(raw := pool_ptr pool k)\<rparr>) ((raw + sizeof_header, sz) # held)"
proof -
  let ?p = "pool_ptr pool k" and ?s = "key_slab pool m k"
  have ok: "key_ok own pool m held k" using wf k by (simp add: mempool_wf_def)
  then have "slab_wf ?s (owned m ?p held)" "length (owned m ?p held) < unat (sl_capacity ?s)"
    using room by (simp_all add: key_ok_def)
  from slab_alloc_ok [OF this] obtain raw s' where a: "nkit_slab_alloc (Some ?s) = Some (raw, Some s')"
    "raw \<in> set (slots_of ?s)" "raw \<noteq> NULL" "raw \<notin> set (owned m ?p held)" "slab_wf s' (raw # owned m ?p held)" "slab_frame ?s s'"
    by blast
  note new = raw_not_held [OF wf k a(2,4)]
  let ?m = "m\<lparr>mm_slabs := (mm_slabs m)(?p \<mapsto> s')\<rparr>" and ?b = "(raw + sizeof_header, sz)"
  let ?m' = "?m\<lparr>mm_header := (mm_header m)(raw := ?p)\<rparr>"
  have same: "mm_header ?m' (fst b - sizeof_header) = mm_header m (fst b - sizeof_header)" if "b \<in> set held" for b
    using new that by auto
  have own_eq: "owned ?m' q (?b # held) = (if q = ?p then raw # owned m q held else owned m q held)" for q
    using same by (auto simp: owned_def cong: filter_cong)
  have "mempool_wf own pool ?m' (?b # held)"
  proof (rule mempool_wf_update [OF wf k a(6)])
    show "owned ?m' (pool_ptr pool k') (?b # held) = owned m (pool_ptr pool k') held"
      if "k' \<in> set (pool_keys pool)" "k' \<noteq> k" for k'
      unfolding own_eq using that k wf by (auto simp: mempool_wf_def inj_on_def)
    show "distinct (map fst (?b # held))" using wf new by (force simp: mempool_wf_def)
    show "\<forall>b \<in> set (?b # held). \<exists>k \<in> set (pool_keys pool). block_ok pool ?m' b k"
      using wf same sz k by (auto simp: mempool_wf_def block_ok_def)
  qed (simp_all add: own_eq a(5))
  moreover have "mem_slab_alloc m ?p = Some (raw, ?m)"
    using ok a(1) by (simp add: mem_slab_alloc_def slab_handle_def key_ok_def)
  ultimately show ?thesis using a(3) by (intro exI [of _ raw] exI [of _ ?m]) simp
qed

text \<open>A size class is exhausted when every slot of it is held, on every node.\<close>

definition class_full :: "nkit_mempool \<Rightarrow> mempool_mem \<Rightarrow> (ptr \<times> u64) list \<Rightarrow> nat \<Rightarrow> nat \<Rightarrow> bool" where
  "class_full pool m held sc n \<longleftrightarrow> length (owned m (pool_slab pool n sc) held) = 1024"

lemma pool_keys_iff: "(n, sc) \<in> set (pool_keys pool) \<longleftrightarrow> n < nat (mp_num_nodes pool) \<and> sc < NUM_SIZE_CLASSES"
  by (auto simp: pool_keys_def)

lemma pool_ptr_pair: "pool_ptr pool (n, sc) = pool_slab pool n sc"
  by (simp add: pool_ptr_def)

lemma owned_le:
  assumes "mempool_wf own pool m held" and "k \<in> set (pool_keys pool)"
  shows "length (owned m (pool_ptr pool k) held) \<le> 1024"
proof -
  have ok: "key_ok own pool m held k" using assms by (simp add: mempool_wf_def)
  then show ?thesis using slab_wf_held(3) [of "key_slab pool m k" "owned m (pool_ptr pool k) held"]
    by (simp add: key_ok_def)
qed

lemma slab_of_class:
  assumes wf: "mempool_wf own pool m held" and k: "n < nat (mp_num_nodes pool)" "sc < NUM_SIZE_CLASSES"
    and sz: "sz \<noteq> 0" "sz \<le> SIZE_CLASSES ! sc"
  obtains (exhausted) "class_full pool m held sc n" "mem_slab_alloc m (pool_slab pool n sc) = Some (NULL, m)"
  | (given) raw m' where "\<not> class_full pool m held sc n" "mem_slab_alloc m (pool_slab pool n sc) = Some (raw, m')" "raw \<noteq> NULL"
    "mempool_wf own pool (m'\<lparr>mm_header := (mm_header m')(raw := pool_slab pool n sc)\<rparr>) ((raw + sizeof_header, sz) # held)"
proof (cases "class_full pool m held sc n")
  case True
  then show ?thesis using mem_slab_alloc_full [OF wf, of "(n, sc)"] k exhausted
    by (simp add: pool_keys_iff pool_ptr_pair class_full_def)
next
  case False
  then have "length (owned m (pool_slab pool n sc) held) < 1024"
    using owned_le [OF wf, of "(n, sc)"] k by (simp add: pool_keys_iff pool_ptr_pair class_full_def)
  then show ?thesis using mem_slab_alloc_ok [OF wf, of "(n, sc)" sz] k sz given False
    by (auto simp: pool_keys_iff pool_ptr_pair)
qed

lemma mempool_fallback_ok:
  assumes wf: "mempool_wf own pool m held" and ns: "\<forall>n \<in> set ns. n < nat (mp_num_nodes pool)" and sc: "sc < NUM_SIZE_CLASSES"
    and sz: "sz \<noteq> 0" "sz \<le> SIZE_CLASSES ! sc"
  shows "\<exists>t raw m'. mempool_fallback pool sc cur ns target m = Some (t, raw, m') \<and>
    (if \<forall>n \<in> set ns. n \<noteq> cur \<longrightarrow> class_full pool m held sc n then raw = NULL \<and> m' = m
     else raw \<noteq> NULL \<and> mempool_wf own pool (m'\<lparr>mm_header := (mm_header m')(raw := t)\<rparr>) ((raw + sizeof_header, sz) # held))"
  using ns
proof (induction ns arbitrary: target)
  case (Cons n ns)
  then have n: "n < nat (mp_num_nodes pool)" and ns: "\<forall>n \<in> set ns. n < nat (mp_num_nodes pool)" by simp_all
  show ?case
  proof (cases "n = cur")
    case True
    then show ?thesis using Cons.IH [OF ns, of target] by simp
  next
    case False
    from wf n sc sz show ?thesis
    proof (cases rule: slab_of_class)
      case exhausted
      then show ?thesis using Cons.IH [OF ns, of "pool_slab pool n sc"] False by (simp add: Let_def)
    next
      case (given raw m')
      then show ?thesis using False by (simp add: Let_def)
    qed
  qed
qed simp

lemma find_class_ok:
  assumes "sz \<le> 16384"
  shows "\<exists>sc < NUM_SIZE_CLASSES. find_class sz [0..<NUM_SIZE_CLASSES] = Some sc \<and> sz \<le> SIZE_CLASSES ! sc \<and>
    (\<forall>i < sc. SIZE_CLASSES ! i < sz)"
proof -
  have *: "\<exists>i \<in> set is. find_class sz is = Some i \<and> sz \<le> SIZE_CLASSES ! i \<and> (\<forall>j \<in> set is. j < i \<longrightarrow> SIZE_CLASSES ! j < sz)"
    if "sorted_wrt (<) is" "\<exists>i \<in> set is. sz \<le> SIZE_CLASSES ! i" for "is"
    using that by (induction "is") (auto simp: not_le dest: order_less_asym)
  have "\<exists>i \<in> set [0..<NUM_SIZE_CLASSES]. sz \<le> SIZE_CLASSES ! i"
    using assms by (intro bexI [of _ 9]) (simp_all add: NUM_SIZE_CLASSES_def SIZE_CLASSES_def)
  from * [OF _ this] have "\<exists>i \<in> set [0..<NUM_SIZE_CLASSES]. find_class sz [0..<NUM_SIZE_CLASSES] = Some i \<and> sz \<le> SIZE_CLASSES ! i \<and>
      (\<forall>j \<in> set [0..<NUM_SIZE_CLASSES]. j < i \<longrightarrow> SIZE_CLASSES ! j < sz)"
    using sorted_upt by (simp add: strict_sorted_iff)
  then show ?thesis by (auto intro: order_less_trans)
qed

lemma get_current_node_os: "ledger (snd (nkit_get_current_node w)) = ledger w"
  "os_answer (snd (nkit_get_current_node w)) = os_answer w"
  by (auto simp: nkit_get_current_node_def ledger_def os_ask_int_def os_ask_i32_def os_ask_def Let_def split: prod.splits)

lemma mempool_alloc_ok:
  assumes wf: "mempool_wf own pool m held" and pos: "0 < mp_num_nodes pool" and sz: "sz \<noteq> 0" "sz \<le> 16384"
  shows "\<exists>p m' w' sc. nkit_mempool_alloc (Some pool) sz m w = Some (p, m', w') \<and> ledger w' = ledger w \<and>
    find_class sz [0..<NUM_SIZE_CLASSES] = Some sc \<and>
    (if \<forall>n < nat (mp_num_nodes pool). class_full pool m held sc n then p = NULL \<and> m' = m
     else p \<noteq> NULL \<and> mempool_wf own pool m' ((p, sz) # held))"
proof -
  obtain sc where sc: "sc < NUM_SIZE_CLASSES" "find_class sz [0..<NUM_SIZE_CLASSES] = Some sc" "sz \<le> SIZE_CLASSES ! sc"
    using find_class_ok [OF sz(2)] by blast
  obtain n w1 where cur: "nkit_get_current_node w = (n, w1)" by fastforce
  then have w1: "ledger w1 = ledger w" using get_current_node_os(1) [of w] by simp
  define c where "c = nat (if n < 0 \<or> n \<ge> mp_num_nodes pool then 0 else n)"
  have c: "c < nat (mp_num_nodes pool)" using pos by (auto simp: c_def)
  have lim: "\<not> SIZE_CLASSES ! (NUM_SIZE_CLASSES - 1) < sz" using sz(2) by (simp add: SIZE_CLASSES_def NUM_SIZE_CLASSES_def)
  have run: "nkit_mempool_alloc (Some pool) sz m w =
      (case (case mem_slab_alloc m (pool_slab pool c sc) of None \<Rightarrow> None
             | Some (raw, m1) \<Rightarrow>
               if raw = NULL then mempool_fallback pool sc c [0..<nat (mp_num_nodes pool)] (pool_slab pool c sc) m1
               else Some (pool_slab pool c sc, raw, m1)) of
         None \<Rightarrow> None
       | Some (target', raw, m2) \<Rightarrow>
         if raw = NULL then Some (NULL, m2, w1) else
         Some (raw + sizeof_header, m2\<lparr>mm_header := (mm_header m2)(raw := target')\<rparr>, w1))"
    using sz(1) lim
    by (simp only: nkit_mempool_alloc_def option.case prod.case if_False cur sc(2) Let_def c_def [symmetric])
  have nonnull: "p \<noteq> NULL" if wf': "mempool_wf own pool m' ((p, sz) # held)" for p m'
  proof
    assume "p = NULL"
    obtain k where "k \<in> set (pool_keys pool)" "block_ok pool m' (p, sz) k" using wf' by (auto simp: mempool_wf_def)
    from held_block(3) [OF wf' this(1) _ this(2)] show False using \<open>p = NULL\<close> by simp
  qed
  from wf c sc(1) sz(1) sc(3) show ?thesis
  proof (cases rule: slab_of_class)
    case exhausted
    from mempool_fallback_ok [OF wf _ sc(1) sz(1) sc(3), of "[0..<nat (mp_num_nodes pool)]" c "pool_slab pool c sc"]
    obtain t raw m' where fb: "mempool_fallback pool sc c [0..<nat (mp_num_nodes pool)] (pool_slab pool c sc) m = Some (t, raw, m')"
      "if \<forall>n \<in> set [0..<nat (mp_num_nodes pool)]. n \<noteq> c \<longrightarrow> class_full pool m held sc n then raw = NULL \<and> m' = m
       else raw \<noteq> NULL \<and> mempool_wf own pool (m'\<lparr>mm_header := (mm_header m')(raw := t)\<rparr>) ((raw + sizeof_header, sz) # held)"
      by auto
    have "(\<forall>n \<in> set [0..<nat (mp_num_nodes pool)]. n \<noteq> c \<longrightarrow> class_full pool m held sc n) \<longleftrightarrow>
        (\<forall>n < nat (mp_num_nodes pool). class_full pool m held sc n)" using exhausted(1) by auto
    with fb(2) show ?thesis unfolding run using fb(1) exhausted w1 sc(2) nonnull
      by (auto split: if_splits)
  next
    case (given raw m')
    then show ?thesis unfolding run using w1 sc(2) c nonnull by auto
  qed
qed

lemma mempool_free_ok:
  assumes wf: "mempool_wf own pool m (hs @ b # hs')"
  shows "\<exists>m'. nkit_mempool_free (Some pool) (fst b) m = Some m' \<and> mempool_wf own pool m' (hs @ hs')"
proof -
  let ?r = "fst b - sizeof_header"
  obtain k where k: "k \<in> set (pool_keys pool)" "block_ok pool m b k" using wf by (auto simp: mempool_wf_def)
  let ?p = "pool_ptr pool k" and ?s = "key_slab pool m k"
  have ok: "key_ok own pool m (hs @ b # hs') k" using wf k(1) by (simp add: mempool_wf_def)
  have hd: "mm_header m ?r = ?p" using k(2) by (simp add: block_ok_def)
  have own_eq: "owned m q (hs @ b # hs') = owned m q hs @ (if q = ?p then [?r] else []) @ owned m q hs'" for q
    using hd by (auto simp: owned_def)
  have app: "owned m q (hs @ hs') = owned m q hs @ owned m q hs'" for q by (simp add: owned_def)
  have "slab_wf ?s (owned m ?p hs @ ?r # owned m ?p hs')" using ok by (simp add: key_ok_def own_eq)
  from slab_free_ok [OF this] obtain s' where s': "nkit_slab_free (Some ?s) ?r = Some (Some s')"
    "slab_wf s' (owned m ?p hs @ owned m ?p hs')" "slab_frame ?s s'" by blast
  let ?m = "m\<lparr>mm_slabs := (mm_slabs m)(?p \<mapsto> s')\<rparr>"
  have same: "owned ?m q h = owned m q h" for q h by (simp add: owned_def)
  have "mempool_wf own pool ?m (hs @ hs')"
  proof (rule mempool_wf_update [OF wf k(1) s'(3)])
    show "owned ?m (pool_ptr pool k') (hs @ hs') = owned m (pool_ptr pool k') (hs @ b # hs')"
      if "k' \<in> set (pool_keys pool)" "k' \<noteq> k" for k'
      using that k(1) wf by (auto simp: same own_eq app mempool_wf_def inj_on_def)
    show "\<forall>c \<in> set (hs @ hs'). \<exists>k \<in> set (pool_keys pool). block_ok pool ?m c k"
      using wf by (auto simp: mempool_wf_def block_ok_def)
  qed (use s'(2) wf in \<open>auto simp: same app mempool_wf_def\<close>)
  moreover have "fst b \<noteq> NULL" using held_block(3) [OF wf k(1) _ k(2)] by auto
  ultimately show ?thesis using ok s'(1) hd
    by (intro exI [of _ ?m]) (simp add: nkit_mempool_free_def mem_slab_free_def slab_handle_def key_ok_def Let_def)
qed

text \<open>A client that allocates and gives back blocks it holds, by their position in \<open>held\<close>.\<close>

datatype mempool_op = Mp_alloc u64 | Mp_free nat

fun mempool_run :: "nkit_mempool \<Rightarrow> mempool_op list \<Rightarrow> (ptr \<times> u64) list \<Rightarrow> mempool_mem \<Rightarrow> os \<Rightarrow>
    ((ptr \<times> u64) list \<times> mempool_mem \<times> os) option" where
  "mempool_run pool [] held m w = Some (held, m, w)"
| "mempool_run pool (Mp_alloc sz # ops) held m w =
    (case nkit_mempool_alloc (Some pool) sz m w of None \<Rightarrow> None
     | Some (p, m', w') \<Rightarrow> mempool_run pool ops (if p = NULL then held else (p, sz) # held) m' w')"
| "mempool_run pool (Mp_free i # ops) held m w =
    (if i < length held then
       (case nkit_mempool_free (Some pool) (fst (held ! i)) m of None \<Rightarrow> None
        | Some m' \<Rightarrow> mempool_run pool ops (take i held @ drop (Suc i) held) m' w)
     else mempool_run pool ops held m w)"

lemma mempool_alloc_refused:
  assumes "sz = 0 \<or> 16384 < sz"
  shows "nkit_mempool_alloc (Some pool) sz m w = Some (NULL, m, w)"
  using assms by (auto simp: nkit_mempool_alloc_def SIZE_CLASSES_def NUM_SIZE_CLASSES_def)

lemma mempool_run_wf:
  assumes "mempool_wf own pool m held" and "0 < mp_num_nodes pool"
  shows "\<exists>held' m' w'. mempool_run pool ops held m w = Some (held', m', w') \<and> mempool_wf own pool m' held' \<and> ledger w' = ledger w"
  using assms(1)
proof (induction ops arbitrary: held m w)
  case (Cons op ops)
  show ?case
  proof (cases op)
    case (Mp_alloc sz)
    show ?thesis
    proof (cases "sz = 0 \<or> 16384 < sz")
      case True
      then show ?thesis using mempool_alloc_refused [OF True, of pool m w] Cons.IH [OF Cons.prems] Mp_alloc by simp
    next
      case False
      then have "sz \<noteq> 0" "sz \<le> 16384" by (simp_all add: not_less)
      from mempool_alloc_ok [OF Cons.prems assms(2) this, of w]
      obtain p m1 w1 where a: "nkit_mempool_alloc (Some pool) sz m w = Some (p, m1, w1)" "ledger w1 = ledger w"
        "mempool_wf own pool m1 (if p = NULL then held else (p, sz) # held)"
        using Cons.prems by (auto split: if_splits)
      then show ?thesis using Cons.IH [OF a(3), of w1] Mp_alloc by simp
    qed
  next
    case (Mp_free i)
    show ?thesis
    proof (cases "i < length held")
      case True
      then have "mempool_wf own pool m (take i held @ held ! i # drop (Suc i) held)"
        using Cons.prems by (simp flip: id_take_nth_drop)
      from mempool_free_ok [OF this] obtain m1 where "nkit_mempool_free (Some pool) (fst (held ! i)) m = Some m1"
        "mempool_wf own pool m1 (take i held @ drop (Suc i) held)" by blast
      then show ?thesis using Cons.IH [of m1 "take i held @ drop (Suc i) held" w] True Mp_free by simp
    next
      case False
      then show ?thesis using Cons.IH [OF Cons.prems] Mp_free by simp
    qed
  qed
qed simp

lemma mempool_created_wf:
  assumes "filled (mempool_zero p N) m w kss pool m' w'" and "maps_disjoint (os_live w')"
    and "map fst kss = pool_keys pool" and "p \<noteq> NULL"
  shows "mempool_wf (\<lambda>k. slab_owns (the (map_of kss k))) pool m' []"
proof -
  have z: "map fst kss @ [] = pool_keys pool" using assms(3) by simp
  have shape: "pool_shape pool" using assms(1) by (simp add: filled_def)
  have d: "distinct (map fst kss)" unfolding assms(3) pool_keys_def by (rule distinct_product) simp_all
  have key: "\<exists>s. (k, s) \<in> set kss" if "k \<in> set (pool_keys pool)" for k
    using that unfolding assms(3) [symmetric] by auto
  have slab: "key_slab pool m' k = s" "mm_slabs m' (pool_ptr pool k) = Some s" "pool_ptr pool k = sl_addr s"
    if "(k, s) \<in> set kss" for k s
    using filled_slabs(2) [OF assms(1,2) that] filled_zero_slabs(2) [OF assms(1,2) z that]
    by (simp_all add: key_slab_def)
  have ptr: "map (pool_ptr pool) (pool_keys pool) = map (\<lambda>ks. sl_addr (snd ks)) kss"
    unfolding assms(3) [symmetric] using slab(3) by (auto simp: comp_def)
  have inj: "inj_on (pool_ptr pool) (set (pool_keys pool))"
    using filled_slabs(1) [OF assms(1,2)] unfolding ptr [symmetric] by (simp add: distinct_map)
  have "key_ok (\<lambda>k. slab_owns (the (map_of kss k))) pool m' [] k" if k: "k \<in> set (pool_keys pool)" for k
  proof -
    obtain s where s: "(k, s) \<in> set kss" using key [OF k] by blast
    have "fresh_slab (snd k) s" using filled_fresh [OF assms(1) s] by simp
    then show ?thesis using slab [OF s] fresh_slab_addr(1) d s by (simp add: key_ok_def owned_def fresh_slab_def)
  qed
  moreover have "slab_region (key_slab pool m' k) \<inter> slab_region (key_slab pool m' k') = {}"
    if k: "k \<in> set (pool_keys pool)" "k' \<in> set (pool_keys pool)" "k \<noteq> k'" for k k'
  proof -
    obtain s s' where s: "(k, s) \<in> set kss" "(k', s') \<in> set kss" using key k(1,2) by blast
    show ?thesis using filled_slabs(3) [OF assms(1,2) s k(3)] slab(1) [OF s(1)] slab(1) [OF s(2)] by simp
  qed
  ultimately show ?thesis using shape inj by (simp add: mempool_wf_def)
qed

lemma mempool_wf_owns:
  assumes "mempool_wf own pool m held"
  shows "mempool_owns pool m = add_mset (Heap (mp_addr pool)) (\<Sum>k\<leftarrow>pool_keys pool. own k)"
    and "\<forall>s \<in> set (pool_slabs pool m). slab_valid s"
proof -
  have "key_ok own pool m held k" if "k \<in> set (pool_keys pool)" for k using assms that by (simp add: mempool_wf_def)
  then have k: "pool_ptr pool k \<noteq> NULL \<and> slab_owns (key_slab pool m k) = own k \<and> slab_valid (key_slab pool m k)"
    if "k \<in> set (pool_keys pool)" for k using that by (auto simp: key_ok_def slab_wf_def)
  then have "filter (\<lambda>k. pool_ptr pool k \<noteq> NULL) (pool_keys pool) = pool_keys pool" by (intro filter_True) blast
  then have slabs: "pool_slabs pool m = map (key_slab pool m) (pool_keys pool)"
    unfolding pool_slabs_def by (simp add: key_slab_def)
  show "mempool_owns pool m = add_mset (Heap (mp_addr pool)) (\<Sum>k\<leftarrow>pool_keys pool. own k)"
    unfolding mempool_owns_def slabs using k by (simp add: comp_def cong: map_cong)
  show "\<forall>s \<in> set (pool_slabs pool m). slab_valid s" unfolding slabs using k by auto
qed

lemma mempool_block_live:
  assumes wf: "mempool_wf own pool m held" and b: "b \<in> set held" and live: "mempool_owns pool m \<subseteq># live"
  shows "unat (fst b) mod 64 = 8 \<and> (\<exists>p n. Mapping p n \<in># live \<and> block_addrs b \<subseteq> block_addrs (p, n))"
proof -
  obtain k where k: "k \<in> set (pool_keys pool)" "block_ok pool m b k" using wf b by (auto simp: mempool_wf_def)
  note hb = held_block [OF wf k(1) b k(2)]
  let ?s = "key_slab pool m k"
  have ks: "key_ok own pool m held k" using wf k(1) by (simp add: mempool_wf_def)
  then obtain a where a: "sl_arena ?s = Some a" by (auto simp: key_ok_def slab_wf_def slab_valid_def)
  have "Mapping (ar_base a) (ar_size a) \<in># slab_owns ?s" using a by (simp add: slab_owns_def arena_owns_def)
  moreover have "?s \<in> set (pool_slabs pool m)" using ks k(1) by (force simp: pool_slabs_def key_slab_def key_ok_def)
  ultimately have "Mapping (ar_base a) (ar_size a) \<in># live"
    using mset_subset_eqD [OF live] unfolding mempool_owns_def by (auto simp: set_mset_sum_list)
  then show ?thesis using hb(2,3) a by (auto simp: slab_region_def)
qed

lemma mempool_room:
  assumes wf: "mempool_wf own pool m held" and pos: "0 < mp_num_nodes pool"
    and sz: "length held < 1024 \<and> sz \<noteq> 0 \<and> sz \<le> 16384"
  shows "\<exists>p m' v'. nkit_mempool_alloc (Some pool) sz m v = Some (p, m', v') \<and> p \<noteq> NULL"
proof -
  have "length (owned m a held) \<le> length held" for a by (simp add: owned_def)
  then have "\<not> class_full pool m held sc 0" for sc using sz by (simp add: class_full_def) (metis leD)
  then have "\<not> (\<forall>n < nat (mp_num_nodes pool). class_full pool m held sc n)" for sc
    using pos by (auto intro!: exI [of _ 0])
  then show ?thesis using mempool_alloc_ok [OF wf pos, of sz v] sz by auto
qed

subsection \<open>Properties\<close>

lemma mempool_create_filled:
  assumes "mmap_ok w" and "cx_initialized c" and "os_malloc sizeof_mempool w = (p, w1)" and "p \<noteq> NULL"
  defines "N \<equiv> if cx_num_nodes c > int MAX_NODES then int MAX_NODES else cx_num_nodes c"
  obtains ok pool m' w2 kss rest where "mempool_fill [0..<nat N] (mempool_zero p N) m w1 = Some (ok, pool, m', w2)"
    "filled (mempool_zero p N) m w1 kss pool m' w2" "map fst kss @ rest = pool_keys pool" "ok \<longrightarrow> rest = []"
    "mp_addr pool = p" "mp_num_nodes pool = N" "ledger w1 = (add_mset (Heap p) (os_live w), os_fault w)"
    "nkit_mempool_create c m w = (if ok then Some (Some pool, m', w2) else Some (None, m', nkit_mempool_destroy (Some pool) m' w2))"
proof -
  have "os_answer w1 = os_answer w" "ledger w1 = (add_mset (Heap p) (os_live w), os_fault w)"
    using os_alloc_simps(1-4) [of "Malloc sizeof_mempool" Heap NULL w] assms(3,4) by (simp_all add: os_malloc_def ledger_def)
  then have w1: "mmap_ok w1" "ledger w1 = (add_mset (Heap p) (os_live w), os_fault w)"
    using mmap_ok_cong [of w1 w] assms(1) by simp_all
  have shape: "pool_shape (mempool_zero p N)"
    using assms(4) by (simp add: pool_shape_def mempool_zero_def N_def)
  have N: "\<forall>node \<in> set [0..<nat N]. node < MAX_NODES" by (auto simp: N_def)
  from mempool_fill_ok [OF shape w1(1) N, of m] obtain ok pool m' w2 kss rest
    where f: "mempool_fill [0..<nat N] (mempool_zero p N) m w1 = Some (ok, pool, m', w2)"
    "filled (mempool_zero p N) m w1 kss pool m' w2" "map fst kss @ rest = List.product [0..<nat N] [0..<NUM_SIZE_CLASSES]" "ok \<longrightarrow> rest = []"
    by blast
  have "mp_addr pool = p" "mp_num_nodes pool = N" using f(2) by (simp_all add: filled_def mempool_zero_def)
  then show ?thesis using that f w1 assms(2-4) by (simp add: nkit_mempool_create_def pool_keys_def N_def)
qed


text \<open>A platform without hugepages that gives every mapping a range of addresses of its own.\<close>

definition fresh_answer :: "nat \<Rightarrow> os_call \<Rightarrow> u64" where
  "fresh_answer n c = (case c of
     Mmap len huge \<Rightarrow> if huge \<or> len = 0 \<or> 2 ^ 32 < len \<or> 2 ^ 20 \<le> n then MAP_FAILED else 2 ^ 40 + of_nat n * 2 ^ 32
   | Malloc n \<Rightarrow> 4096 | _ \<Rightarrow> 0)"

definition fresh_os :: os where
  "fresh_os = \<lparr>os_answer = fresh_answer, os_tick = 0, os_live = {#}, os_fault = False, os_trace = []\<rparr>"

definition fresh_inv :: "os \<Rightarrow> bool" where
  "fresh_inv w \<longleftrightarrow> os_answer w = fresh_answer \<and> maps_disjoint (os_live w) \<and>
     (\<forall>p n. Mapping p n \<in># os_live w \<longrightarrow> unat p + unat n \<le> 2 ^ 40 + os_tick w * 2 ^ 32)"

lemma unat_fresh:
  assumes "n < 2 ^ 20"
  shows "unat (2 ^ 40 + of_nat n * 2 ^ 32 :: u64) = 2 ^ 40 + n * 2 ^ 32"
proof -
  have "(2 ^ 40 + of_nat n * 2 ^ 32 :: u64) = of_nat (2 ^ 40 + n * 2 ^ 32)" by simp
  then show ?thesis using assms by (simp only: unat_of_nat) simp
qed

lemma mmap_ok_fresh: "os_answer w = fresh_answer \<Longrightarrow> mmap_ok w"
proof -
  have "p = MAP_FAILED \<or> (len \<noteq> 0 \<and> p \<noteq> NULL \<and> (if huge then 2 ^ 21 else 2 ^ 12) dvd unat p \<and> unat p + unat len < 2 ^ 63)"
    if "p = fresh_answer n (Mmap len huge)" for p n len huge
  proof (cases "huge \<or> len = 0 \<or> 2 ^ 32 < len \<or> 2 ^ 20 \<le> n")
    case False
    then have p: "unat p = 2 ^ 40 + n * 2 ^ 32" "n < 2 ^ 20" "unat len \<le> 2 ^ 32"
      using that unat_fresh [of n] by (simp_all add: fresh_answer_def not_less word_le_nat_alt word_less_nat_alt)
    moreover have "(2::nat) ^ 12 dvd 2 ^ 40 + n * 2 ^ 32" by (intro dvd_add dvd_mult) (simp_all add: le_imp_power_dvd)
    moreover have "p \<noteq> NULL" using p(1) by auto
    ultimately show ?thesis using False by simp
  qed (use that in \<open>simp add: fresh_answer_def\<close>)
  then show "os_answer w = fresh_answer \<Longrightarrow> mmap_ok w" by (simp add: mmap_ok_def Let_def)
qed

lemma maps_disjoint_add:
  assumes "maps_disjoint live" and "\<forall>p n. Mapping p n \<in># live \<longrightarrow> unat p + unat n \<le> unat q"
  shows "maps_disjoint (add_mset (Mapping q k) live)"
  unfolding maps_disjoint_def
proof (intro allI impI)
  fix p n p' n'
  assume sub: "{#Mapping p n, Mapping p' n'#} \<subseteq># add_mset (Mapping q k) live"
  have d: "block_addrs (q, k) \<inter> block_addrs (r, j) = {}" if "Mapping r j \<in># live" for r j
    using assms(2) that by (fastforce simp: block_addrs_def)
  consider "Mapping p n = Mapping q k" "Mapping p' n' \<in># live" | "Mapping p' n' = Mapping q k" "Mapping p n \<in># live"
    | "{#Mapping p n, Mapping p' n'#} \<subseteq># live"
  proof (cases "Mapping p n = Mapping q k")
    case True
    then have "{#Mapping p' n'#} \<subseteq># live" using sub by simp
    then show ?thesis using that(1) True by simp
  next
    case False
    show ?thesis
    proof (cases "Mapping p' n' = Mapping q k")
      case True
      then have "{#Mapping p n#} \<subseteq># live" using sub by (simp add: add_mset_commute [of "Mapping p n"])
      then show ?thesis using that(2) True by simp
    next
      case F: False
      have "{#Mapping p n, Mapping p' n'#} \<subseteq># live"
        using sub False F by (intro mset_subset_eqI) (use mset_subset_eq_count [OF sub] in \<open>metis (mono_tags) count_add_mset count_empty add_mset_add_single zero_le\<close>)
      then show ?thesis using that(3) by simp
    qed
  qed
  then show "block_addrs (p, n) \<inter> block_addrs (p', n') = {}"
    using d assms(1) by cases (auto simp: maps_disjoint_def)
qed

lemma maps_disjoint_heap:
  assumes "maps_disjoint live"
  shows "maps_disjoint (add_mset (Heap h) live)"
proof -
  have "{#Mapping p n, Mapping q k#} \<subseteq># live" if sub: "{#Mapping p n, Mapping q k#} \<subseteq># add_mset (Heap h) live" for p n q k
  proof (rule mset_subset_eqI)
    fix r
    show "count {#Mapping p n, Mapping q k#} r \<le> count live r"
      using mset_subset_eq_count [OF sub, of r] by (cases "r = Heap h") simp_all
  qed
  then show ?thesis using assms unfolding maps_disjoint_def by blast
qed

lemma fresh_arena:
  assumes "fresh_inv w" and "os_tick w + 4 \<le> 2 ^ 20" and "sz \<noteq> 0" and "unat sz \<le> 2 ^ 31"
  shows "\<exists>a w'. nkit_arena_create node_id sz w = (Some a, w') \<and> fresh_inv w' \<and> os_tick w' = os_tick w + 4"
proof -
  let ?n = "align_up 21 sz" and ?t = "Suc (Suc (os_tick w))"
  define B :: u64 where "B = 2 ^ 40 + of_nat ?t * 2 ^ 32"
  have n: "unat sz \<le> unat ?n" "unat ?n < unat sz + 2 ^ 21" using assms(4) align_up_bounds [of 21 sz] by simp_all
  then have len: "?n \<noteq> 0" "unat ?n \<le> 2 ^ 32" using assms(3,4) by (auto simp: unat_gt_0 unat_eq_0)
  have b: "unat B = 2 ^ 40 + ?t * 2 ^ 32" unfolding B_def using assms(2) by (intro unat_fresh) simp
  moreover have "unat (- 1 :: u64) = 2 ^ 64 - 1" by (simp only: unsigned_minus_1_eq_mask mask_eq_exp_minus_1) simp
  ultimately have nb: "B \<noteq> MAP_FAILED" unfolding MAP_FAILED_def using assms(2) by auto
  have ans: "os_answer w = fresh_answer" using assms(1) by (simp add: fresh_inv_def)
  have mm: "fresh_answer ?t (Mmap ?n False) = B" "fresh_answer j (Mmap k True) = MAP_FAILED"
    "fresh_answer j (Malloc k) = 4096" "fresh_answer j (Mbind q k md s) = 0" for j q k md s
    using len assms(2) by (simp_all add: fresh_answer_def word_less_nat_alt B_def)
  obtain a w' where c: "nkit_arena_create node_id sz w = (Some a, w')"
    and live: "os_live w' = add_mset (Mapping B ?n) (add_mset (Heap 4096) (os_live w))"
    and t: "os_tick w' = os_tick w + 4" "os_answer w' = fresh_answer"
    using assms(3) nb by (auto simp: nkit_arena_create_def huge_align_eq os_simps os_prim_defs Let_def case_prod_beta ans mm)
  have below: "unat p + unat k \<le> unat B" if "Mapping p k \<in># os_live w" for p k
  proof -
    have "unat p + unat k \<le> 2 ^ 40 + os_tick w * 2 ^ 32" using assms(1) that by (simp add: fresh_inv_def)
    then show ?thesis unfolding b by simp
  qed
  then have old: "\<forall>p k. Mapping p k \<in># add_mset (Heap 4096) (os_live w) \<longrightarrow> unat p + unat k \<le> unat B" by simp
  have "maps_disjoint (add_mset (Heap 4096) (os_live w))"
    using assms(1) maps_disjoint_heap by (simp add: fresh_inv_def)
  from maps_disjoint_add [OF this old] have "maps_disjoint (os_live w')" unfolding live .
  moreover have "unat p + unat k \<le> 2 ^ 40 + os_tick w' * 2 ^ 32" if "Mapping p k \<in># os_live w'" for p k
  proof -
    consider "p = B" "k = ?n" | "Mapping p k \<in># os_live w" using \<open>Mapping p k \<in># os_live w'\<close> unfolding live by auto
    then show ?thesis using below [of p k] b len(2) t(1) by cases auto
  qed
  ultimately have "fresh_inv w'" using t(2) by (simp add: fresh_inv_def)
  then show ?thesis using c t by blast
qed

lemma fresh_slab_create:
  assumes "fresh_inv w" and "os_tick w + 8 \<le> 2 ^ 20" and "sc < NUM_SIZE_CLASSES"
  shows "\<exists>s w'. nkit_slab_create node_id (sizeof_header + SIZE_CLASSES ! sc) INITIAL_CAPACITY_PER_SLAB w = Some (Some s, w') \<and>
    fresh_inv w' \<and> os_tick w' = os_tick w + 8"
proof -
  let ?o = "sizeof_header + SIZE_CLASSES ! sc" and ?c = INITIAL_CAPACITY_PER_SLAB
  note b = SIZE_CLASSES_bounds [OF assms(3)] and cs = class_size_bounds [OF assms(3)]
  have d: "unat (align_up 6 ?o * ?c) = unat (class_size sc) * 1024"
    using cs(2) unfolding class_size_def INITIAL_CAPACITY_PER_SLAB_def by (subst unat_mult_lem [THEN iffD1]) simp_all
  have u: "unat (sizeof_slab + align_up 6 ?o * ?c) = 40 + unat (class_size sc) * 1024"
    using cs(2) d by (subst unat_add_lem [THEN iffD1]) (simp_all add: sizeof_slab_def)
  then have sz: "sizeof_slab + align_up 6 ?o * ?c \<noteq> 0" "unat (sizeof_slab + align_up 6 ?o * ?c) \<le> 2 ^ 31"
    using cs(2) by auto
  obtain a w1 where a: "nkit_arena_create node_id (sizeof_slab + align_up 6 ?o * ?c) w = (Some a, w1)" "fresh_inv w1"
    "os_tick w1 = os_tick w + 4" using fresh_arena [OF assms(1) _ sz, of node_id] assms(2) by auto
  have rsz: "sizeof_ring + sizeof_cell * ?c \<noteq> 0" "unat (sizeof_ring + sizeof_cell * ?c) \<le> 2 ^ 31"
    by (simp_all add: sizeof_ring_def sizeof_cell_def INITIAL_CAPACITY_PER_SLAB_def)
  obtain a2 w2 where a2: "nkit_arena_create node_id (sizeof_ring + sizeof_cell * ?c) w1 = (Some a2, w2)" "fresh_inv w2"
    "os_tick w2 = os_tick w + 8" using fresh_arena [OF a(2) _ rsz, of node_id] assms(2) a(3) by auto
  have env: "mmap_ok w" "mmap_ok w1" using assms(1) a(2) mmap_ok_fresh by (simp_all add: fresh_inv_def)
  have "?o \<noteq> 0" using b(3) by (metis add_is_0 unat_0 zero_neq_numeral)
  then have good: "\<not> ((?c < 2 \<or> ?c AND (?c - 1) \<noteq> 0) \<or> ?o = 0)" by (simp add: INITIAL_CAPACITY_PER_SLAB_def)
  obtain g w3 where rc: "nkit_ring_create node_id ?c w1 = (g, w3)" by fastforce
  have "?c = 2 ^ 10" by (simp add: INITIAL_CAPACITY_PER_SLAB_def)
  then have pow: "\<exists>k. 0 < k \<and> k < 64 \<and> ?c = 2 ^ k" by (intro exI [of _ 10]) simp
  from env(2) rc have g: "\<exists>r. g = Some r \<and> w3 = w2"
  proof (cases rule: ring_create_cases)
    case bad
    then show ?thesis using pow by blast
  qed (use a2(1) in auto)
  from env(1) refl [of "nkit_slab_create node_id ?o ?c w"] show ?thesis
  proof (cases rule: slab_create_cases)
    case bad
    then show ?thesis using good by blast
  qed (use a rc g a2(2,3) in auto)
qed

lemma fresh_fill_node:
  assumes "fresh_inv w" and "os_tick w + 8 * length scs \<le> 2 ^ 20" and "\<forall>sc \<in> set scs. sc < NUM_SIZE_CLASSES"
  shows "\<exists>pool' m' w'. mempool_fill_node node scs pool m w = Some (True, pool', m', w') \<and> fresh_inv w'"
  using assms
proof (induction scs arbitrary: pool m w)
  case (Cons sc scs)
  obtain s w1 where s: "nkit_slab_create (int node) (sizeof_header + SIZE_CLASSES ! sc) INITIAL_CAPACITY_PER_SLAB w = Some (Some s, w1)"
    "fresh_inv w1" "os_tick w1 = os_tick w + 8"
    using fresh_slab_create [OF Cons.prems(1), of sc "int node"] Cons.prems(2,3) by auto
  then show ?case using Cons.IH [OF s(2)] Cons.prems(2,3) by simp
qed simp

definition demo_ctx :: "nkit_context" where
  "demo_ctx = g_nkit_ctx\<lparr>cx_initialized := True, cx_num_nodes := 1\<rparr>"

definition demo_mem :: mempool_mem where
  "demo_mem = \<lparr>mm_slabs = Map.empty, mm_header = (\<lambda>_. NULL)\<rparr>"

lemma fresh_mempool_create:
  "\<exists>pool m' w'. nkit_mempool_create demo_ctx demo_mem fresh_os = Some (Some pool, m', w') \<and> maps_disjoint (os_live w')"
proof -
  have m: "fst (os_malloc sizeof_mempool fresh_os) = 4096" by (simp add: os_malloc_def os_simps fresh_os_def fresh_answer_def)
  have "maps_disjoint {#Heap 4096#}" using maps_disjoint_heap [of "{#}" 4096] by (simp add: maps_disjoint_def)
  then have w1: "fresh_inv (snd (os_malloc sizeof_mempool fresh_os))" "os_tick (snd (os_malloc sizeof_mempool fresh_os)) = 1"
    by (simp_all add: fresh_inv_def os_malloc_def os_simps fresh_os_def fresh_answer_def)
  define pool where "pool = (mempool_zero 4096 1)\<lparr>mp_nodes := (mp_nodes (mempool_zero 4096 1))
    [0 := (mp_nodes (mempool_zero 4096 1) ! 0)\<lparr>mn_logical_node_id := int 0\<rparr>]\<rparr>"
  obtain pool' m' w' where "mempool_fill_node 0 [0..<NUM_SIZE_CLASSES] pool demo_mem (snd (os_malloc sizeof_mempool fresh_os))
      = Some (True, pool', m', w')" "fresh_inv w'"
    using fresh_fill_node [OF w1(1), where scs = "[0..<NUM_SIZE_CLASSES]" and node = 0 and m = demo_mem and pool = pool] w1(2)
    by (auto simp: NUM_SIZE_CLASSES_def)
  then have "mempool_fill [0..<nat 1] (mempool_zero 4096 1) demo_mem (snd (os_malloc sizeof_mempool fresh_os))
      = Some (True, pool', m', w')" "fresh_inv w'"
    by (simp_all add: pool_def upt_rec)
  then show ?thesis using m
    by (simp add: nkit_mempool_create_def demo_ctx_def case_prod_beta MAX_NODES_def fresh_inv_def)
qed


text \<open>
  \<open>nkit_mempool_create\<close> always returns. When it fails it has released every slab it had made
  and its own descriptor, in whichever step it failed; when it succeeds the pool owns exactly what
  was acquired. The mappings that are live when the loops end are assumed to be disjoint.
\<close>
theorem mempool_create_ledger:
  assumes "mmap_ok w"
    and "N = (if cx_num_nodes c > int MAX_NODES then int MAX_NODES else cx_num_nodes c)"
    and "\<And>p w1 ok pool m2 w2. os_malloc sizeof_mempool w = (p, w1) \<Longrightarrow>
      mempool_fill [0..<nat N] (mempool_zero p N) m w1 = Some (ok, pool, m2, w2) \<Longrightarrow> maps_disjoint (os_live w2)"
  shows "\<exists>h m' w'. nkit_mempool_create c m w = Some (h, m', w') \<and>
    (case h of None \<Rightarrow> ledger w' = ledger w
     | Some pool \<Rightarrow> ledger w' = (os_live w + mempool_owns pool m', os_fault w))"
proof -
  obtain p w1 where 1: "os_malloc sizeof_mempool w = (p, w1)" by fastforce
  let ?N = "if cx_num_nodes c > int MAX_NODES then int MAX_NODES else cx_num_nodes c"
  show ?thesis
  proof (cases "cx_initialized c \<and> p \<noteq> NULL")
    case True
    then have init: "cx_initialized c" "p \<noteq> NULL" by simp_all
    obtain ok q m2 w2 kss rest where fill: "mempool_fill [0..<nat ?N] (mempool_zero p ?N) m w1 = Some (ok, q, m2, w2)"
      and f: "filled (mempool_zero p ?N) m w1 kss q m2 w2" "map fst kss @ rest = pool_keys q" "ok \<longrightarrow> rest = []" "mp_addr q = p"
      "mp_num_nodes q = ?N" "ledger w1 = (add_mset (Heap p) (os_live w), os_fault w)"
      "nkit_mempool_create c m w = (if ok then Some (Some q, m2, w2) else Some (None, m2, nkit_mempool_destroy (Some q) m2 w2))"
      by (rule mempool_create_filled [OF assms(1) init(1) 1 init(2), where m = m])
    have slabs: "pool_slabs q m2 = map snd kss" by (rule filled_zero_slabs(1) [OF f(1) assms(3) [unfolded assms(2), OF 1 fill] f(2)])
    have owns: "os_live w2 = os_live w + mempool_owns q m2" "os_fault w2 = os_fault w"
      using f(1,4,6) by (simp_all add: filled_def ledger_def mempool_owns_def slabs comp_def)
    have valid: "\<forall>s \<in> set (pool_slabs q m2). slab_valid s"
      unfolding slabs using fresh_slab_addr(3) [OF filled_fresh [OF f(1)]] by auto
    have "mp_addr q \<noteq> NULL" using f(4) init(2) by simp
    from mempool_destroy_owned [OF this valid, of w2] owns
    have "ledger (nkit_mempool_destroy (Some q) m2 w2) = ledger w" by (simp add: ledger_def)
    then show ?thesis using f(7) owns by (cases ok) (simp_all add: ledger_def)
  next
    case False
    have "ledger w1 = ledger w" if "p = NULL"
      using os_alloc_simps(1-3) [of "Malloc sizeof_mempool" Heap NULL w] 1 that by (simp add: os_malloc_def ledger_def)
    then show ?thesis using False 1 by (auto simp: nkit_mempool_create_def)
  qed
qed

definition no_map_os :: os where
  "no_map_os = fresh_os\<lparr>os_answer := (\<lambda>n c. case c of Mmap len huge \<Rightarrow> MAP_FAILED | _ \<Rightarrow> fresh_answer n c)\<rparr>"

lemma no_map_slab:
  assumes "os_answer w = os_answer no_map_os"
  shows "\<exists>w'. nkit_slab_create n sz k w = Some (None, w') \<and> os_live w' = os_live w"
proof -
  define total where "total = sizeof_slab + ((sz + SLAB_ALIGN - 1) AND NOT (SLAB_ALIGN - 1)) * k"
  have "\<exists>w'. nkit_arena_create n total w = (None, w') \<and> os_live w' = os_live w"
    using assms by (auto simp: nkit_arena_create_def os_prim_defs os_simps Let_def case_prod_beta no_map_os_def fresh_answer_def)
  then show ?thesis by (auto simp: nkit_slab_create_def Let_def total_def)
qed

lemma no_map_fill:
  assumes "os_answer w = os_answer no_map_os"
  shows "\<exists>pool' w'. mempool_fill [0..<nat 1] pool m w = Some (False, pool', m, w') \<and> os_live w' = os_live w"
proof -
  obtain w' where "nkit_slab_create 0 (sizeof_header + SIZE_CLASSES ! 0) INITIAL_CAPACITY_PER_SLAB w = Some (None, w')"
    "os_live w' = os_live w" using no_map_slab [OF assms] by blast
  then show ?thesis by (simp add: upt_rec [of 0] NUM_SIZE_CLASSES_def)
qed

theorem mempool_create_ledger_witness:
  "\<exists>h m' w'. nkit_mempool_create demo_ctx demo_mem no_map_os = Some (h, m', w') \<and>
    (case h of None \<Rightarrow> ledger w' = ({#}, False)
     | Some pool \<Rightarrow> ledger w' = (mempool_owns pool m', False))"
proof -
  have 1: "mmap_ok no_map_os" by (simp add: mmap_ok_def no_map_os_def)
  have 2: "1 = (if cx_num_nodes demo_ctx > int MAX_NODES then int MAX_NODES else cx_num_nodes demo_ctx)"
    by (simp add: demo_ctx_def MAX_NODES_def)
  have 3: "maps_disjoint (os_live w2)" if m: "os_malloc sizeof_mempool no_map_os = (p, w1)"
    and f: "mempool_fill [0..<nat 1] (mempool_zero p 1) demo_mem w1 = Some (ok, pool, m2, w2)" for p w1 ok pool m2 w2
  proof -
    have w1: "os_answer w1 = os_answer no_map_os" "os_live w1 = {#Heap p#}"
      using m os_alloc_simps(1-4) [of "Malloc sizeof_mempool" Heap NULL no_map_os]
      by (auto simp: os_malloc_def no_map_os_def fresh_os_def fresh_answer_def)
    have "os_live w2 = os_live w1"
      using f no_map_fill [OF w1(1), of "mempool_zero p 1" demo_mem] by auto
    then show ?thesis using w1(2) maps_disjoint_heap [of "{#}" p] by (simp add: maps_disjoint_def)
  qed
  have "os_live no_map_os = {#}" "os_fault no_map_os = False" by (simp_all add: no_map_os_def fresh_os_def)
  moreover have "\<exists>h m' w'. nkit_mempool_create demo_ctx demo_mem no_map_os = Some (h, m', w') \<and>
      (case h of None \<Rightarrow> ledger w' = ledger no_map_os
       | Some pool \<Rightarrow> ledger w' = (os_live no_map_os + mempool_owns pool m', os_fault no_map_os))"
    by (rule mempool_create_ledger [OF 1 2]) (rule 3)
  ultimately show ?thesis by (simp add: ledger_def cong: option.case_cong)
qed

end
