(* ===== verification/NK_Deque.thy ===== *)
theory NK_Deque
  imports NK_Platform
begin

section \<open>The work-stealing deque (\<^verbatim>\<open>src/structs/deque.c\<close>)\<close>

text \<open>
  A Chase-Lev deque: the owner pushes and pops at \<open>bottom\<close>, thieves take at \<open>top\<close>. Both counters
  are of type \<^verbatim>\<open>long\<close> and are integers here; they are masked on access. This theory models the calls
  as one thread runs them, with the memory they allocate; \<open>NK_Deque_Conc\<close> models the
  interleavings of the owner and the thieves.

  \<open>dq_retired_arrays\<close> is the address of the table of retired arrays, with the arrays stored in it.
  An access outside an array, or through a null table, is recorded as a fault.
\<close>

record nkit_deque_array =
  da_addr :: ptr
  da_size :: u32
  da_mask :: u32
  da_buffer :: "ptr list"

record nkit_deque =
  dq_addr :: ptr
  dq_node_id :: int
  dq_bottom :: int
  dq_top :: int
  dq_array :: nkit_deque_array
  dq_retired_arrays :: "ptr \<times> nkit_deque_array list"
  dq_retired_capacity :: u32

definition sizeof_deque :: u64 where
  "sizeof_deque = 48"

definition deque_array_bytes :: "u32 \<Rightarrow> u64" where
  "deque_array_bytes sz = 8 + 8 * ucast sz"

definition retired_bytes :: "u32 \<Rightarrow> u64" where
  "retired_bytes n = 8 * ucast n"

definition deque_array_alloc :: "int \<Rightarrow> u32 \<Rightarrow> os \<Rightarrow> nkit_deque_array option \<times> os" where
  "deque_array_alloc node_id sz w =
    (case os_numa_alloc (deque_array_bytes sz) node_id w of (a, w1) \<Rightarrow>
     (if a = NULL then None
      else Some \<lparr>da_addr = a, da_size = sz, da_mask = sz - 1, da_buffer = replicate (unat sz) NULL\<rparr>, w1))"

definition deque_array_free :: "nkit_deque_array \<Rightarrow> os \<Rightarrow> os" where
  "deque_array_free a w = os_numa_free (da_addr a) (deque_array_bytes (da_size a)) w"

text \<open>The entry \<^verbatim>\<open>buffer[i & mask]\<close>.\<close>

definition array_slot :: "nkit_deque_array \<Rightarrow> int \<Rightarrow> nat" where
  "array_slot a i = nat (i AND uint (da_mask a))"

definition array_load :: "nkit_deque_array \<Rightarrow> int \<Rightarrow> ptr" where
  "array_load a i = da_buffer a ! array_slot a i"

definition array_store :: "nkit_deque_array \<Rightarrow> int \<Rightarrow> ptr \<Rightarrow> nkit_deque_array" where
  "array_store a i x = a\<lparr>da_buffer := (da_buffer a)[array_slot a i := x]\<rparr>"

definition in_array :: "nkit_deque_array \<Rightarrow> int \<Rightarrow> bool" where
  "in_array a i \<longleftrightarrow> array_slot a i < length (da_buffer a)"

definition nkit_deque_create :: "int \<Rightarrow> u32 \<Rightarrow> os \<Rightarrow> nkit_deque option \<times> os" where
  "nkit_deque_create node_id initial_capacity w =
    (case os_ask_int Numa_available w of (avail, w1) \<Rightarrow>
     if avail < 0 then (None, w1) else
     if initial_capacity = 0 \<or> initial_capacity AND (initial_capacity - 1) \<noteq> 0 then (None, w1) else
     case os_numa_alloc sizeof_deque node_id w1 of (dq, w2) \<Rightarrow>
     if dq = NULL then (None, w2) else
     case deque_array_alloc node_id initial_capacity w2 of
       (None, w3) \<Rightarrow> (None, os_numa_free dq sizeof_deque w3)
     | (Some a, w3) \<Rightarrow>
       case os_numa_alloc (retired_bytes 8) node_id w3 of (tab, w4) \<Rightarrow>
       (Some \<lparr>dq_addr = dq, dq_node_id = node_id, dq_bottom = 0, dq_top = 0, dq_array = a,
              dq_retired_arrays = (tab, []), dq_retired_capacity = 8\<rparr>, w4))"

definition nkit_deque_destroy :: "nkit_deque option \<Rightarrow> os \<Rightarrow> os" where
  "nkit_deque_destroy h w =
    (case h of None \<Rightarrow> w
     | Some dq \<Rightarrow>
       os_numa_free (dq_addr dq) sizeof_deque
         (os_numa_free (fst (dq_retired_arrays dq)) (retired_bytes (dq_retired_capacity dq))
           (fold deque_array_free (snd (dq_retired_arrays dq)) (deque_array_free (dq_array dq) w))))"

text \<open>The loop that copies the elements, and the table of retired arrays.\<close>

fun deque_copy :: "nkit_deque_array \<Rightarrow> int list \<Rightarrow> nkit_deque_array \<Rightarrow> os \<Rightarrow> nkit_deque_array \<times> os" where
  "deque_copy old [] new w = (new, w)"
| "deque_copy old (i # is) new w =
    (if in_array old i \<and> in_array new i then deque_copy old is (array_store new i (array_load old i)) w
     else (new, os_invalid w))"

definition deque_retire :: "nkit_deque \<Rightarrow> nkit_deque_array \<Rightarrow> os \<Rightarrow> nkit_deque \<times> os" where
  "deque_retire dq old w =
    (case dq_retired_arrays dq of (tab, retired) \<Rightarrow>
     if tab = NULL then (dq, os_invalid w)
     else (dq\<lparr>dq_retired_arrays := (tab, retired @ [old])\<rparr>, w))"

definition nkit_deque_resize :: "nkit_deque \<Rightarrow> os \<Rightarrow> nkit_deque \<times> os" where
  "nkit_deque_resize dq w =
    (let b = dq_bottom dq; t = dq_top dq; old = dq_array dq; new_size = da_size old * 2 in
     case deque_array_alloc (dq_node_id dq) new_size w of
       (None, w1) \<Rightarrow> (dq, w1)
     | (Some new0, w1) \<Rightarrow>
       case deque_copy old [t..b - 1] new0 w1 of (new, w2) \<Rightarrow>
       let dq1 = dq\<lparr>dq_array := new\<rparr>; tab = fst (dq_retired_arrays dq1); retired = snd (dq_retired_arrays dq1) in
       if of_nat (length retired) = dq_retired_capacity dq1 then
         (let new_cap = dq_retired_capacity dq1 * 2 in
          case os_numa_alloc (retired_bytes new_cap) (dq_node_id dq1) w2 of (new_tab, w3) \<Rightarrow>
          if new_tab = NULL then (dq1, deque_array_free old w3)
          else deque_retire (dq1\<lparr>dq_retired_arrays := (new_tab, retired), dq_retired_capacity := new_cap\<rparr>) old
                 (os_numa_free tab (retired_bytes (dq_retired_capacity dq1)) w3))
       else deque_retire dq1 old w2)"

definition nkit_deque_push :: "nkit_deque \<Rightarrow> ptr \<Rightarrow> os \<Rightarrow> bool \<times> nkit_deque \<times> os" where
  "nkit_deque_push dq x w =
    (let b = dq_bottom dq; t = dq_top dq in
     case (if b - t \<ge> uint (da_size (dq_array dq)) then nkit_deque_resize dq w else (dq, w)) of (dq1, w1) \<Rightarrow>
     let a = dq_array dq1 in
     if b - t \<ge> uint (da_size a) then (False, dq1, w1) else
     (True, dq1\<lparr>dq_array := array_store a b x, dq_bottom := b + 1\<rparr>,
      if in_array a b then w1 else os_invalid w1))"

definition nkit_deque_pop :: "nkit_deque \<Rightarrow> ptr option \<times> nkit_deque" where
  "nkit_deque_pop dq =
    (let b = dq_bottom dq - 1; a = dq_array dq; dq1 = dq\<lparr>dq_bottom := b\<rparr>; t = dq_top dq1 in
     if t \<le> b then
       (let x = array_load a b in
        if t = b then
          (if dq_top dq1 = t then (Some x, dq1\<lparr>dq_top := t + 1, dq_bottom := b + 1\<rparr>)
           else (None, dq1\<lparr>dq_bottom := b + 1\<rparr>))
        else (Some x, dq1))
     else (None, dq1\<lparr>dq_bottom := b + 1\<rparr>))"

definition nkit_deque_steal :: "nkit_deque \<Rightarrow> ptr option \<times> nkit_deque" where
  "nkit_deque_steal dq =
    (let t = dq_top dq; b = dq_bottom dq in
     if t < b then
       (let x = array_load (dq_array dq) t in
        if dq_top dq = t then (Some x, dq\<lparr>dq_top := t + 1\<rparr>) else (None, dq))
     else (None, dq))"

definition nkit_deque_size :: "nkit_deque \<Rightarrow> u32" where
  "nkit_deque_size dq = (if dq_bottom dq > dq_top dq then word_of_int (dq_bottom dq - dq_top dq) else 0)"

subsection \<open>The sequence a deque represents\<close>

definition array_ok :: "nat \<Rightarrow> nkit_deque_array \<Rightarrow> bool" where
  "array_ok k a \<longleftrightarrow> k < 32 \<and> da_size a = 2 ^ k \<and> da_mask a = 2 ^ k - 1 \<and> length (da_buffer a) = 2 ^ k"

lemma array_slot_int:
  assumes "array_ok k a"
  shows "array_slot a i = nat (i mod 2 ^ k)"
proof -
  have "uint (2 ^ k - 1 :: u32) = int (2 ^ k - 1)"
    using assms unat_exp_minus_1 [of k, where ?'a = 32] by (simp only: array_ok_def uint_nat) simp
  then have "uint (da_mask a) = 2 ^ k - 1" using assms by (simp add: array_ok_def of_nat_diff)
  then have "i AND uint (da_mask a) = i mod 2 ^ k"
    by (simp add: take_bit_eq_mod [symmetric] take_bit_eq_mask mask_eq_exp_minus_1)
  then show ?thesis by (simp add: array_slot_def)
qed

lemma array_slot_mod: "array_ok k a \<Longrightarrow> array_slot a (int i) = i mod 2 ^ k"
  by (simp add: array_slot_int nat_mod_distrib nat_power_eq)

lemma array_access:
  assumes "array_ok k a"
  shows "in_array a (int i)" and "array_load a (int i) = da_buffer a ! (i mod 2 ^ k)"
    and "array_store a (int i) x = a\<lparr>da_buffer := (da_buffer a)[i mod 2 ^ k := x]\<rparr>"
    and "array_ok k (array_store a (int i) x)"
  using assms array_slot_mod [OF assms] by (simp_all add: in_array_def array_load_def array_store_def array_ok_def)

lemma uint_da_size: "array_ok k a \<Longrightarrow> uint (da_size a) = 2 ^ k"
  using unat_exp [of k, where ?'a = 32] by (simp only: array_ok_def uint_nat) simp

definition deque_at :: "nat \<Rightarrow> nat \<Rightarrow> nkit_deque \<Rightarrow> ptr list \<Rightarrow> bool" where
  "deque_at k t dq xs \<longleftrightarrow> array_ok k (dq_array dq) \<and> dq_top dq = int t \<and> dq_bottom dq = int (t + length xs) \<and>
     length xs \<le> 2 ^ k \<and> (\<forall>j < length xs. da_buffer (dq_array dq) ! ((t + j) mod 2 ^ k) = xs ! j)"

definition deque_rep :: "nkit_deque \<Rightarrow> ptr list \<Rightarrow> bool" where
  "deque_rep dq xs \<longleftrightarrow> (\<exists>k t. deque_at k t dq xs)"

lemma upto_map_int: "[int t..int (t + n) - 1] = map int [t..<t + n]"
proof (induction n)
  case (Suc n)
  have "[int t..int (t + Suc n) - 1] = [int t..int (t + n) - 1] @ [int (t + n)]"
    using upto_rec2 [of "int t" "int (t + n)"] by simp
  then show ?case using Suc by simp
qed simp

lemma deque_copy_ok:
  assumes "array_ok k old" and "array_ok k' new" and "distinct (map (\<lambda>j. j mod 2 ^ k') js)"
  shows "\<exists>new'. deque_copy old (map int js) new w = (new', w) \<and> array_ok k' new' \<and> da_addr new' = da_addr new \<and>
    (\<forall>j \<in> set js. da_buffer new' ! (j mod 2 ^ k') = da_buffer old ! (j mod 2 ^ k)) \<and>
    (\<forall>i. i \<notin> (\<lambda>j. j mod 2 ^ k') ` set js \<longrightarrow> da_buffer new' ! i = da_buffer new ! i)"
  using assms(2,3)
proof (induction js arbitrary: new)
  case (Cons j js)
  let ?new = "array_store new (int j) (array_load old (int j))"
  note old = array_access [OF assms(1)] and new = array_access [OF Cons.prems(1)]
  obtain new' where IH: "deque_copy old (map int js) ?new w = (new', w)" "array_ok k' new'" "da_addr new' = da_addr ?new"
    "\<forall>j \<in> set js. da_buffer new' ! (j mod 2 ^ k') = da_buffer old ! (j mod 2 ^ k)"
    "\<forall>i. i \<notin> (\<lambda>j. j mod 2 ^ k') ` set js \<longrightarrow> da_buffer new' ! i = da_buffer ?new ! i"
    using Cons.IH [OF new(4)] Cons.prems(2) by fastforce
  have "length (da_buffer new) = 2 ^ k'" using Cons.prems(1) by (simp add: array_ok_def)
  then have "da_buffer new' ! (j mod 2 ^ k') = da_buffer old ! (j mod 2 ^ k)"
    using IH(5) Cons.prems(2) by (simp add: new(3) old(2))
  then show ?case using IH old(1) new(1,3) by (intro exI [of _ new']) auto
qed simp

lemma distinct_slots_range:
  assumes "n \<le> 2 ^ k"
  shows "distinct (map (\<lambda>j. j mod 2 ^ k) [t..<t + n])"
proof -
  have "inj_on (\<lambda>j. j mod 2 ^ k) {t..<t + n}"
  proof (rule inj_onI)
    fix i j
    assume i: "i \<in> {t..<t + n}" and j: "j \<in> {t..<t + n}" and eq: "i mod 2 ^ k = j mod 2 ^ k"
    obtain i' j' where ij: "i = t + i'" "i' < n" "j = t + j'" "j' < n" using i j by (metis atLeastLessThan_iff le_iff_add nat_add_left_cancel_less)
    then show "i = j" using slots_distinct [of t i' "2 ^ k" j'] eq assms by simp
  qed
  then show ?thesis by (simp add: distinct_map)
qed

subsection \<open>What a deque owns\<close>

definition array_owns :: "nkit_deque_array \<Rightarrow> os_res multiset" where
  "array_owns a = {#Numa (da_addr a) (deque_array_bytes (da_size a))#}"

definition table_owns :: "ptr \<Rightarrow> u32 \<Rightarrow> os_res multiset" where
  "table_owns tab n = (if tab = NULL then {#} else {#Numa tab (retired_bytes n)#})"

definition deque_owns :: "nkit_deque \<Rightarrow> os_res multiset" where
  "deque_owns dq = {#Numa (dq_addr dq) sizeof_deque#} + array_owns (dq_array dq) +
     (\<Sum>a\<leftarrow>snd (dq_retired_arrays dq). array_owns a) + table_owns (fst (dq_retired_arrays dq)) (dq_retired_capacity dq)"

definition deque_valid :: "nkit_deque \<Rightarrow> bool" where
  "deque_valid dq \<longleftrightarrow> dq_addr dq \<noteq> NULL \<and> da_addr (dq_array dq) \<noteq> NULL \<and>
     (\<forall>a \<in> set (snd (dq_retired_arrays dq)). da_addr a \<noteq> NULL)"

lemma deque_array_alloc_cases:
  assumes "deque_array_alloc node_id sz w = (r, w')"
  obtains (failed) "r = None" "ledger w' = ledger w"
  | (made) a where "r = Some \<lparr>da_addr = a, da_size = sz, da_mask = sz - 1, da_buffer = replicate (unat sz) NULL\<rparr>"
      "a \<noteq> NULL" "ledger w' = (os_live w + {#Numa a (deque_array_bytes sz)#}, os_fault w)"
  using assms os_alloc_simps(1-3) [of "Numa_alloc_onnode (deque_array_bytes sz) node_id" "\<lambda>p. Numa p (deque_array_bytes sz)" NULL w]
  by (auto simp: deque_array_alloc_def os_numa_alloc_def ledger_def split: prod.splits if_splits)

lemma table_alloc:
  assumes "os_numa_alloc (retired_bytes n) node_id w = (tab, w')"
  shows "ledger w' = (os_live w + table_owns tab n, os_fault w)"
  using assms os_alloc_simps(1-3) [of "Numa_alloc_onnode (retired_bytes n) node_id" "\<lambda>p. Numa p (retired_bytes n)" NULL w]
  by (auto simp: os_numa_alloc_def ledger_def table_owns_def)

lemma array_free_owned:
  assumes "da_addr a \<noteq> NULL" and "os_live w = R + array_owns a"
  shows "ledger (deque_array_free a w) = (R, os_fault w)"
  using assms by (simp add: deque_array_free_def array_owns_def os_numa_free_def ledger_def os_simps)

lemma table_free_owned:
  assumes "os_live w = R + table_owns tab n"
  shows "ledger (os_numa_free tab (retired_bytes n) w) = (R, os_fault w)"
  using assms by (simp add: table_owns_def os_numa_free_def ledger_def os_simps)

lemma array_free_all:
  assumes "\<forall>a \<in> set as. da_addr a \<noteq> NULL" and "os_live w = R + (\<Sum>a\<leftarrow>as. array_owns a)"
  shows "ledger (fold deque_array_free as w) = (R, os_fault w)"
  using assms
proof (induction as arbitrary: w)
  case (Cons a as)
  have "ledger (deque_array_free a w) = (R + (\<Sum>a\<leftarrow>as. array_owns a), os_fault w)"
    using Cons.prems by (intro array_free_owned) (simp_all add: ac_simps)
  then show ?case using Cons.IH [of "deque_array_free a w"] Cons.prems by (simp add: ledger_def)
qed (simp add: ledger_def)

lemma deque_destroy_owned:
  assumes "deque_valid dq" and "os_live w = R + deque_owns dq"
  shows "ledger (nkit_deque_destroy (Some dq) w) = (R, os_fault w)"
proof -
  let ?d = "{#Numa (dq_addr dq) sizeof_deque#}" and ?r = "\<Sum>a\<leftarrow>snd (dq_retired_arrays dq). array_owns a"
  let ?t = "table_owns (fst (dq_retired_arrays dq)) (dq_retired_capacity dq)"
  define w1 where "w1 = deque_array_free (dq_array dq) w"
  have w1: "ledger w1 = (R + ?d + ?t + ?r, os_fault w)"
    unfolding w1_def using assms by (intro array_free_owned) (simp_all add: deque_valid_def deque_owns_def ac_simps)
  define w2 where "w2 = fold deque_array_free (snd (dq_retired_arrays dq)) w1"
  have w2: "ledger w2 = (R + ?d + ?t, os_fault w)"
    unfolding w2_def using assms(1) w1 array_free_all [of "snd (dq_retired_arrays dq)" w1 "R + ?d + ?t"]
    by (simp add: deque_valid_def ledger_def)
  define w3 where "w3 = os_numa_free (fst (dq_retired_arrays dq)) (retired_bytes (dq_retired_capacity dq)) w2"
  have w3: "ledger w3 = (R + ?d, os_fault w)"
    unfolding w3_def using w2 table_free_owned [of w2 "R + ?d"] by (simp add: ledger_def)
  have "nkit_deque_destroy (Some dq) w = os_numa_free (dq_addr dq) sizeof_deque w3"
    by (simp add: nkit_deque_destroy_def w1_def w2_def w3_def)
  then show ?thesis using w3 assms(1) by (simp add: os_numa_free_def deque_valid_def ledger_def os_simps)
qed

text \<open>The resources in \<open>R\<close> belong to others; the table of retired arrays could be allocated.\<close>

definition deque_holds :: "os_res multiset \<Rightarrow> nkit_deque \<Rightarrow> os \<Rightarrow> bool" where
  "deque_holds R dq w \<longleftrightarrow> deque_valid dq \<and> fst (dq_retired_arrays dq) \<noteq> NULL \<and> os_live w = R + deque_owns dq"

lemma deque_retire_holds:
  assumes "deque_valid dq" and "fst (dq_retired_arrays dq) \<noteq> NULL" and "da_addr old \<noteq> NULL"
    and "os_live w = R + deque_owns dq + array_owns old" and "deque_retire dq old w = (dq', w')"
  shows "deque_holds R dq' w'" and "os_fault w' = os_fault w" and "dq_array dq' = dq_array dq"
    and "dq_top dq' = dq_top dq" and "dq_bottom dq' = dq_bottom dq"
  using assms by (auto simp: deque_retire_def deque_holds_def deque_valid_def deque_owns_def ac_simps split: prod.splits)

lemma deque_resize_ok:
  assumes at: "deque_at k t dq xs" and k: "k < 31" and holds: "deque_holds R dq w"
    and res: "nkit_deque_resize dq w = (dq', w')"
  shows "deque_holds R dq' w' \<and> os_fault w' = os_fault w \<and> (dq' = dq \<or> deque_at (Suc k) t dq' xs)"
proof -
  let ?old = "dq_array dq" and ?n = "da_size (dq_array dq) * 2"
  have ok: "array_ok k ?old" and tb: "dq_top dq = int t" "dq_bottom dq = int (t + length xs)" and len: "length xs \<le> 2 ^ k"
    and buf: "\<And>j. j < length xs \<Longrightarrow> da_buffer ?old ! ((t + j) mod 2 ^ k) = xs ! j"
    using at by (auto simp: deque_at_def)
  have n: "?n = 2 ^ Suc k" using ok by (simp add: array_ok_def)
  have valid: "deque_valid dq" "fst (dq_retired_arrays dq) \<noteq> NULL" and live: "os_live w = R + deque_owns dq"
    using holds by (simp_all add: deque_holds_def)
  have old: "da_addr ?old \<noteq> NULL" using valid(1) by (simp add: deque_valid_def)
  obtain r w1 where al: "deque_array_alloc (dq_node_id dq) ?n w = (r, w1)" by fastforce
  then show ?thesis
  proof (cases rule: deque_array_alloc_cases)
    case failed
    then show ?thesis using res al holds by (auto simp: nkit_deque_resize_def Let_def deque_holds_def ledger_def)
  next
    case (made a)
    let ?new0 = "\<lparr>da_addr = a, da_size = ?n, da_mask = ?n - 1, da_buffer = replicate (unat ?n) NULL\<rparr>"
    have ok0: "array_ok (Suc k) ?new0" using k n unat_exp [of "Suc k", where ?'a = 32] by (simp add: array_ok_def del: power_Suc)
    have "distinct (map (\<lambda>j. j mod 2 ^ Suc k) [t..<t + length xs])" using len by (intro distinct_slots_range) simp
    from deque_copy_ok [OF ok ok0 this, of w1] obtain new where
      cp: "deque_copy ?old [int t..int (t + length xs) - 1] ?new0 w1 = (new, w1)" "array_ok (Suc k) new" "da_addr new = a"
      "\<forall>j \<in> {t..<t + length xs}. da_buffer new ! (j mod 2 ^ Suc k) = da_buffer ?old ! (j mod 2 ^ k)"
      unfolding upto_map_int by auto
    let ?dq = "dq\<lparr>dq_array := new\<rparr>"
    have "da_size new = ?n" using cp(2) n by (simp add: array_ok_def)
    then have own: "os_live w1 = R + deque_owns ?dq + array_owns ?old" "os_fault w1 = os_fault w" and v1: "deque_valid ?dq"
      using made live cp(3) valid(1) by (simp_all add: ledger_def deque_owns_def array_owns_def deque_valid_def ac_simps)
    have "deque_at (Suc k) t ?dq xs" using cp(2,4) tb len buf by (auto simp: deque_at_def)
    then have at': "deque_at (Suc k) t d xs" if "dq_array d = new" "dq_top d = dq_top dq" "dq_bottom d = dq_bottom dq" for d
      using that by (simp add: deque_at_def)
    obtain tab retired where tab: "dq_retired_arrays dq = (tab, retired)" "tab \<noteq> NULL" using valid(2) by (cases "dq_retired_arrays dq") auto
    note step = res [unfolded nkit_deque_resize_def Let_def al made(1) prod.case option.case tb cp(1)]
    show ?thesis
    proof (cases "of_nat (length retired) = dq_retired_capacity dq")
      case False
      then have "deque_retire ?dq ?old w1 = (dq', w')" using step tab by simp
      from deque_retire_holds [OF v1 _ old own(1) this] own(2) at' show ?thesis using valid(2) by simp
    next
      case True
      obtain nt w2 where nt: "os_numa_alloc (retired_bytes (dq_retired_capacity dq * 2)) (dq_node_id dq) w1 = (nt, w2)" by fastforce
      note t2 = table_alloc [OF nt]
      show ?thesis
      proof (cases "nt = NULL")
        case isnull: True
        have "ledger (deque_array_free ?old w2) = (R + deque_owns ?dq, os_fault w2)"
          using isnull t2 own(1) old by (intro array_free_owned) (simp_all add: ledger_def table_owns_def)
        moreover have "dq' = ?dq" "w' = deque_array_free ?old w2" using step True tab isnull nt by simp_all
        ultimately show ?thesis using t2 own(2) v1 valid(2) at' by (simp add: ledger_def deque_holds_def)
      next
        case False
        let ?w3 = "os_numa_free tab (retired_bytes (dq_retired_capacity dq)) w2"
        let ?dq2 = "?dq\<lparr>dq_retired_arrays := (nt, retired), dq_retired_capacity := dq_retired_capacity dq * 2\<rparr>"
        have "ledger ?w3 = (R + deque_owns ?dq2 + array_owns ?old, os_fault w2)"
          using t2 own(1) tab by (intro table_free_owned) (simp add: ledger_def deque_owns_def ac_simps)
        then have w3: "os_live ?w3 = R + deque_owns ?dq2 + array_owns ?old" "os_fault ?w3 = os_fault w"
          using t2 own(2) by (simp_all add: ledger_def)
        have "deque_retire ?dq2 ?old ?w3 = (dq', w')" using step True tab False nt by simp
        from deque_retire_holds [OF _ _ old w3(1) this] w3(2) at' show ?thesis
          using v1 False tab(1) by (simp add: deque_valid_def)
      qed
    qed
  qed
qed

subsection \<open>The operations on the sequence\<close>

lemma deque_store_at:
  assumes "deque_at k t dq xs" and "length xs < 2 ^ k"
  shows "deque_at k t (dq\<lparr>dq_array := array_store (dq_array dq) (int (t + length xs)) x, dq_bottom := int (t + length xs) + 1\<rparr>) (xs @ [x])"
proof -
  have ok: "array_ok k (dq_array dq)" using assms(1) by (simp add: deque_at_def)
  then have len: "length (da_buffer (dq_array dq)) = 2 ^ k" by (simp add: array_ok_def)
  have "(da_buffer (dq_array dq))[(t + length xs) mod 2 ^ k := x] ! ((t + j) mod 2 ^ k) = (xs @ [x]) ! j" if "j < Suc (length xs)" for j
  proof (cases "j = length xs")
    case False
    then have "j < length xs" using that by simp
    moreover have "(t + j) mod 2 ^ k \<noteq> (t + length xs) mod 2 ^ k"
      using slots_distinct [of t j "2 ^ k" "length xs"] False that assms(2) by auto
    ultimately show ?thesis using assms(1) by (simp add: deque_at_def nth_append)
  qed (use len in simp)
  then show ?thesis using assms array_access(3,4) [OF ok, of "t + length xs"] by (simp add: deque_at_def)
qed

lemma deque_push_ok:
  assumes at: "deque_at k t dq xs" and k: "k < 31 \<or> length xs < 2 ^ k" and holds: "deque_holds R dq w"
    and res: "nkit_deque_push dq x w = (b, dq', w')"
  shows "deque_holds R dq' w' \<and> os_fault w' = os_fault w \<and> deque_rep dq' (if b then xs @ [x] else xs) \<and>
    (length xs < 2 ^ k \<longrightarrow> b)"
proof -
  have ok: "array_ok k (dq_array dq)" and tb: "dq_top dq = int t" "dq_bottom dq = int (t + length xs)" and len: "length xs \<le> 2 ^ k"
    using at by (auto simp: deque_at_def)
  have size: "uint (da_size (dq_array dq)) = 2 ^ k" using uint_da_size [OF ok] .
  have store: "deque_holds R d' w" "deque_at k' t d' (xs @ [x])" "in_array (dq_array d) (dq_bottom d)"
    if "deque_at k' t d xs" "length xs < 2 ^ k'" "deque_holds R d w"
      "d' = d\<lparr>dq_array := array_store (dq_array d) (int (t + length xs)) x, dq_bottom := int (t + length xs) + 1\<rparr>" for d d' k' w
    using deque_store_at [OF that(1,2)] that(3) array_access(1) [of k' "dq_array d" "t + length xs"] that(1) unfolding that(4)
    by (auto simp: deque_holds_def deque_valid_def deque_owns_def array_owns_def array_store_def deque_at_def)
  show ?thesis
  proof (cases "length xs < 2 ^ k")
    case True
    then have "(int (length xs) < 2 ^ k)" by (metis of_nat_less_iff of_nat_numeral of_nat_power)
    then have "b" "dq' = dq\<lparr>dq_array := array_store (dq_array dq) (int (t + length xs)) x, dq_bottom := int (t + length xs) + 1\<rparr>" "w' = w"
      using res size tb store(3) [OF at True holds refl] by (auto simp: nkit_deque_push_def Let_def)
    then show ?thesis using store [OF at True holds] by (auto simp: deque_rep_def)
  next
    case False
    then have full: "length xs = 2 ^ k" and k31: "k < 31" using len k by simp_all
    obtain d w1 where d: "nkit_deque_resize dq w = (d, w1)" by fastforce
    note r = deque_resize_ok [OF at k31 holds d]
    have step: "nkit_deque_push dq x w = (if 2 ^ k \<ge> uint (da_size (dq_array d)) then (False, d, w1) else
        (True, d\<lparr>dq_array := array_store (dq_array d) (int (t + length xs)) x, dq_bottom := int (t + length xs) + 1\<rparr>,
         if in_array (dq_array d) (int (t + length xs)) then w1 else os_invalid w1))"
      using d tb size full by (simp add: nkit_deque_push_def Let_def)
    from r consider "d = dq" | "deque_at (Suc k) t d xs" by blast
    then show ?thesis
    proof cases
      case 1
      then show ?thesis using step res r at size full by (auto simp: deque_rep_def)
    next
      case 2
      have lt: "length xs < 2 ^ Suc k" using full by simp
      have h: "deque_holds R d w1" using r by simp
      have "uint (da_size (dq_array d)) = 2 ^ Suc k" using 2 uint_da_size [of "Suc k"] by (simp add: deque_at_def)
      moreover have "in_array (dq_array d) (int (t + length xs))" using 2 array_access(1) [of "Suc k" _ "t + length xs"] by (simp add: deque_at_def)
      ultimately have "b" "dq' = d\<lparr>dq_array := array_store (dq_array d) (int (t + length xs)) x, dq_bottom := int (t + length xs) + 1\<rparr>" "w' = w1"
        using step res by simp_all
      then show ?thesis using store [OF 2 lt h] r by (auto simp: deque_rep_def)
    qed
  qed
qed

lemma deque_pop_ok:
  assumes "deque_rep dq xs"
  shows "\<exists>dq'. nkit_deque_pop dq = ((if xs = [] then None else Some (last xs)), dq') \<and> deque_rep dq' (butlast xs) \<and>
    (deque_holds R dq w \<longrightarrow> deque_holds R dq' w)"
proof -
  obtain k t where at: "deque_at k t dq xs" using assms by (auto simp: deque_rep_def)
  then have ok: "array_ok k (dq_array dq)" and tb: "dq_top dq = int t" "dq_bottom dq = int (t + length xs)"
    and buf: "\<And>j. j < length xs \<Longrightarrow> da_buffer (dq_array dq) ! ((t + j) mod 2 ^ k) = xs ! j"
    by (auto simp: deque_at_def)
  show ?thesis
  proof (cases xs rule: rev_cases)
    case Nil
    then have "nkit_deque_pop dq = (None, dq)" using tb by (cases dq) (simp add: nkit_deque_pop_def Let_def)
    then show ?thesis using Nil assms by simp
  next
    case (snoc ys y)
    have "array_load (dq_array dq) (int (t + length ys)) = y"
      using buf [of "length ys"] snoc array_access(2) [OF ok, of "t + length ys"] by simp
    then have pop: "nkit_deque_pop dq = (Some y, if ys = [] then dq\<lparr>dq_bottom := int (t + 1), dq_top := int (t + 1)\<rparr>
        else dq\<lparr>dq_bottom := int (t + length ys)\<rparr>)"
      using tb snoc by (simp add: nkit_deque_pop_def Let_def)
    have "deque_at k (if ys = [] then t + 1 else t) (snd (nkit_deque_pop dq)) ys"
      using at snoc by (auto simp: pop deque_at_def nth_append split: if_splits)
    then have "deque_rep (snd (nkit_deque_pop dq)) ys" unfolding deque_rep_def by blast
    moreover have "deque_holds R dq w \<longrightarrow> deque_holds R (snd (nkit_deque_pop dq)) w"
      by (simp add: pop deque_holds_def deque_valid_def deque_owns_def)
    ultimately show ?thesis using pop snoc by (intro exI [of _ "snd (nkit_deque_pop dq)"]) simp
  qed
qed

lemma deque_steal_ok:
  assumes "deque_rep dq xs"
  shows "\<exists>dq'. nkit_deque_steal dq = ((if xs = [] then None else Some (hd xs)), dq') \<and> deque_rep dq' (tl xs) \<and>
    (deque_holds R dq w \<longrightarrow> deque_holds R dq' w)"
proof -
  obtain k t where at: "deque_at k t dq xs" using assms by (auto simp: deque_rep_def)
  then have ok: "array_ok k (dq_array dq)" and tb: "dq_top dq = int t" "dq_bottom dq = int (t + length xs)"
    and buf: "\<And>j. j < length xs \<Longrightarrow> da_buffer (dq_array dq) ! ((t + j) mod 2 ^ k) = xs ! j"
    by (auto simp: deque_at_def)
  show ?thesis
  proof (cases xs)
    case Nil
    then show ?thesis using tb assms by (simp add: nkit_deque_steal_def Let_def)
  next
    case (Cons y ys)
    have "array_load (dq_array dq) (int t) = y" using buf [of 0] Cons array_access(2) [OF ok] by simp
    then have st: "nkit_deque_steal dq = (Some y, dq\<lparr>dq_top := int (t + 1)\<rparr>)"
      using tb Cons by (simp add: nkit_deque_steal_def Let_def)
    have "da_buffer (dq_array dq) ! (Suc (t + j) mod 2 ^ k) = ys ! j" if "j < length ys" for j
      using buf [of "Suc j"] that Cons by simp
    then have "deque_at k (t + 1) (dq\<lparr>dq_top := int (t + 1)\<rparr>) ys" using at Cons by (auto simp: deque_at_def)
    then show ?thesis using st Cons by (auto simp: deque_rep_def deque_holds_def deque_valid_def deque_owns_def)
  qed
qed

subsection \<open>Properties\<close>

text \<open>A run of calls by one thread, and the runs of a double-ended queue with the same results.\<close>

datatype deque_op = Dq_push ptr | Dq_pop | Dq_steal

datatype deque_res = Pushed bool | Taken "ptr option"

fun deque_run :: "deque_op list \<Rightarrow> nkit_deque \<Rightarrow> os \<Rightarrow> deque_res list \<times> nkit_deque \<times> os" where
  "deque_run [] dq w = ([], dq, w)"
| "deque_run (Dq_push x # ops) dq w =
    (case nkit_deque_push dq x w of (b, dq', w') \<Rightarrow> case deque_run ops dq' w' of (rs, r) \<Rightarrow> (Pushed b # rs, r))"
| "deque_run (Dq_pop # ops) dq w =
    (case nkit_deque_pop dq of (x, dq') \<Rightarrow> case deque_run ops dq' w of (rs, r) \<Rightarrow> (Taken x # rs, r))"
| "deque_run (Dq_steal # ops) dq w =
    (case nkit_deque_steal dq of (x, dq') \<Rightarrow> case deque_run ops dq' w of (rs, r) \<Rightarrow> (Taken x # rs, r))"

fun deque_replay :: "ptr list \<Rightarrow> deque_op list \<Rightarrow> deque_res list \<Rightarrow> ptr list option" where
  "deque_replay xs [] [] = Some xs"
| "deque_replay xs (Dq_push x # ops) (Pushed b # rs) = deque_replay (if b then xs @ [x] else xs) ops rs"
| "deque_replay xs (Dq_pop # ops) (Taken r # rs) =
    (if r = (if xs = [] then None else Some (last xs)) then deque_replay (butlast xs) ops rs else None)"
| "deque_replay xs (Dq_steal # ops) (Taken r # rs) =
    (if r = (if xs = [] then None else Some (hd xs)) then deque_replay (tl xs) ops rs else None)"
| "deque_replay xs _ _ = None"

lemma deque_run_replay:
  assumes "deque_rep dq xs" and "deque_holds R dq w" and "length xs + length ops < 2 ^ 31" and "deque_run ops dq w = (rs, dq', w')"
  shows "\<exists>ys. deque_replay xs ops rs = Some ys \<and> deque_rep dq' ys \<and> length ys < 2 ^ 31 \<and> deque_holds R dq' w' \<and> os_fault w' = os_fault w"
  using assms
proof (induction ops arbitrary: dq xs w rs)
  case (Cons op ops)
  show ?case
  proof (cases op)
    case (Dq_push x)
    obtain k t where at: "deque_at k t dq xs" using Cons.prems(1) by (auto simp: deque_rep_def)
    have k: "k < 31 \<or> length xs < 2 ^ k"
    proof (cases "k < 31")
      case False
      then have "(2::nat) ^ 31 \<le> 2 ^ k" by (intro power_increasing) simp_all
      then show ?thesis using Cons.prems(3) by simp
    qed simp
    obtain b d w1 where p: "nkit_deque_push dq x w = (b, d, w1)" by (metis prod_cases3)
    obtain rs' where rs: "deque_run ops d w1 = (rs', dq', w')" "rs = Pushed b # rs'"
      using Cons.prems(4) Dq_push p by (auto split: prod.splits)
    note d = deque_push_ok [OF at k Cons.prems(2) p]
    then show ?thesis using Cons.IH [of d "if b then xs @ [x] else xs" w1 rs'] Cons.prems(3) rs Dq_push by auto
  next
    case Dq_pop
    obtain d where d: "nkit_deque_pop dq = ((if xs = [] then None else Some (last xs)), d)" "deque_rep d (butlast xs)" "deque_holds R d w"
      using deque_pop_ok [OF Cons.prems(1), of R w] Cons.prems(2) by blast
    obtain rs' where rs: "deque_run ops d w = (rs', dq', w')" "rs = Taken (if xs = [] then None else Some (last xs)) # rs'"
      using Cons.prems(4) Dq_pop d(1) by (auto split: prod.splits)
    then show ?thesis using Cons.IH [OF d(2,3) _ rs(1)] Cons.prems(3) Dq_pop by simp
  next
    case Dq_steal
    obtain d where d: "nkit_deque_steal dq = ((if xs = [] then None else Some (hd xs)), d)" "deque_rep d (tl xs)" "deque_holds R d w"
      using deque_steal_ok [OF Cons.prems(1), of R w] Cons.prems(2) by blast
    obtain rs' where rs: "deque_run ops d w = (rs', dq', w')" "rs = Taken (if xs = [] then None else Some (hd xs)) # rs'"
      using Cons.prems(4) Dq_steal d(1) by (auto split: prod.splits)
    then show ?thesis using Cons.IH [OF d(2,3) _ rs(1)] Cons.prems(3) Dq_steal by simp
  qed
qed auto

lemma deque_create_cases:
  assumes "nkit_deque_create node_id cap w = (r, w')"
  obtains (failed) "r = None" "ledger w' = ledger w"
  | (made) dq k where "r = Some dq" "k < 32" "cap = 2 ^ k" "deque_rep dq []" "deque_valid dq" "da_size (dq_array dq) = cap"
      "ledger w' = (os_live w + deque_owns dq, os_fault w)"
proof -
  obtain av w1 where 1: "os_ask_int Numa_available w = (av, w1)" by fastforce
  have w1: "ledger w1 = ledger w" using ledger_simps(2) [of Numa_available w] 1 by simp
  note create = assms [unfolded nkit_deque_create_def 1 prod.case]
  show ?thesis
  proof (cases "av < 0 \<or> (cap = 0 \<or> cap AND (cap - 1) \<noteq> 0)")
    case True
    then show ?thesis using failed create w1 by (auto split: if_splits)
  next
    case False
    obtain p w2 where 2: "os_numa_alloc sizeof_deque node_id w1 = (p, w2)" by fastforce
    have w2: "ledger w2 = (os_live w + (if p = NULL then {#} else {#Numa p sizeof_deque#}), os_fault w)"
      using os_alloc_simps(1-3) [of "Numa_alloc_onnode sizeof_deque node_id" "\<lambda>p. Numa p sizeof_deque" NULL w1] 2 w1
      by (auto simp: os_numa_alloc_def ledger_def)
    show ?thesis
    proof (cases "p = NULL")
      case True
      then show ?thesis using failed create False 2 w2 by (auto simp: ledger_def)
    next
      case p: False
      obtain ra w3 where 3: "deque_array_alloc node_id cap w2 = (ra, w3)" by fastforce
      then show ?thesis
      proof (cases rule: deque_array_alloc_cases)
        case no_array: failed
        then have "ledger (os_numa_free p sizeof_deque w3) = ledger w"
          using w2 p by (simp add: ledger_def os_numa_free_def os_simps)
        then show ?thesis using failed create False 2 3 p no_array by auto
      next
        case arr: (made a)
        obtain tab w4 where 4: "os_numa_alloc (retired_bytes 8) node_id w3 = (tab, w4)" by fastforce
        define ar where "ar = \<lparr>da_addr = a, da_size = cap, da_mask = cap - 1, da_buffer = replicate (unat cap) NULL\<rparr>"
        define dq where "dq = \<lparr>dq_addr = p, dq_node_id = node_id, dq_bottom = 0, dq_top = 0, dq_array = ar,
            dq_retired_arrays = (tab, []), dq_retired_capacity = 8\<rparr>"
        have c: "r = Some dq" "w' = w4" using create False 2 3 4 p arr(1) by (auto simp: dq_def ar_def)
        obtain k where k: "k < 32" "cap = 2 ^ k" using False pow2_iff_and_pred [of cap] by auto
        then have "array_ok k ar" using unat_exp [of k, where ?'a = 32] by (simp add: array_ok_def ar_def)
        then have "deque_at k 0 dq []" by (simp add: deque_at_def dq_def)
        then have "deque_rep dq []" unfolding deque_rep_def by blast
        moreover have "ledger w4 = (os_live w + deque_owns dq, os_fault w)"
          using table_alloc [OF 4] arr(3) w2 p by (simp add: ledger_def deque_owns_def array_owns_def dq_def ar_def)
        moreover have "deque_valid dq" "da_size (dq_array dq) = cap" using p arr(2) by (simp_all add: deque_valid_def dq_def ar_def)
        ultimately show ?thesis using made c k by auto
      qed
    qed
  qed
qed

text \<open>
  C27. The work-stealing deque in one thread. A new deque whose table of retired arrays could be
  allocated behaves as a double-ended queue: pushes and pops act on one end and steals on the
  other; every result of a run of fewer than \<open>2 ^ 31\<close> calls is the result the queue gives, with a
  push refused only when the array is full and could not be doubled. No call accesses memory outside the arrays,
  and \<open>nkit_deque_destroy\<close> releases the arrays, the retired ones included, exactly once.
\<close>
theorem deque_run_correct:
  assumes "nkit_deque_create node_id cap w = (Some dq, w1)" and "fst (dq_retired_arrays dq) \<noteq> NULL"
    and "length ops < 2 ^ 31" and "deque_run ops dq w1 = (rs, dq', w')"
  shows "\<exists>xs. deque_replay [] ops rs = Some xs \<and> nkit_deque_size dq' = of_nat (length xs) \<and>
    (length xs < unat (da_size (dq_array dq')) \<longrightarrow> (\<forall>x v. fst (nkit_deque_push dq' x v))) \<and>
    os_fault w' = os_fault w \<and> ledger (nkit_deque_destroy (Some dq') w') = ledger w"
  using assms(1)
proof (cases rule: deque_create_cases)
  case (made d k)
  then have d: "d = dq" and holds: "deque_holds (os_live w) dq w1" using assms(2) by (simp_all add: deque_holds_def ledger_def)
  obtain xs where xs: "deque_replay [] ops rs = Some xs" "deque_rep dq' xs" "length xs < 2 ^ 31" "deque_holds (os_live w) dq' w'"
    "os_fault w' = os_fault w1" using deque_run_replay [OF made(4) [unfolded d] holds _ assms(4)] assms(3) by auto
  have "nkit_deque_size dq' = of_nat (length xs)"
    using xs(2) by (auto simp: deque_rep_def deque_at_def nkit_deque_size_def)
  moreover have "fst (nkit_deque_push dq' x v)" if "length xs < unat (da_size (dq_array dq'))" for x v
  proof -
    have "dq_bottom dq' - dq_top dq' = int (length xs)" using xs(2) by (auto simp: deque_rep_def deque_at_def)
    moreover have "int (length xs) < uint (da_size (dq_array dq'))" using that by (metis of_nat_less_iff uint_nat)
    ultimately show ?thesis by (simp add: nkit_deque_push_def Let_def)
  qed
  moreover have "ledger (nkit_deque_destroy (Some dq') w') = ledger w"
    using xs(4,5) made(7) deque_destroy_owned [of dq' w' "os_live w"] by (simp add: deque_holds_def ledger_def)
  ultimately show ?thesis using xs made(7) by (simp add: ledger_def)
qed simp

theorem deque_run_correct_witness:
  "\<exists>dq w1 dq' w'. nkit_deque_create 0 2 demo_os = (Some dq, w1) \<and>
     deque_run [Dq_push 1, Dq_push 2, Dq_push 3, Dq_steal, Dq_pop] dq w1 =
       ([Pushed True, Pushed True, Pushed True, Taken (Some 1), Taken (Some 3)], dq', w') \<and>
     nkit_deque_size dq' = 1 \<and> ledger (nkit_deque_destroy (Some dq') w') = ({#}, False)"
proof -
  have rep: "replicate 2 x = [x, x]" "replicate 4 x = [x, x, x, x]" for x :: ptr by (simp_all add: numeral_eq_Suc)
  let ?ops = "[Dq_push 1, Dq_push 2, Dq_push 3, Dq_steal, Dq_pop]"
  have "\<exists>dq w1. nkit_deque_create 0 2 demo_os = (Some dq, w1) \<and> dq_node_id dq = 0 \<and> dq_bottom dq = 0 \<and> dq_top dq = 0 \<and>
      dq_array dq = \<lparr>da_addr = 65536, da_size = 2, da_mask = 1, da_buffer = [NULL, NULL]\<rparr> \<and>
      dq_retired_arrays dq = (65536, []) \<and> dq_retired_capacity dq = 8 \<and> os_answer w1 = os_answer demo_os"
    by (simp add: nkit_deque_create_def deque_array_alloc_def os_ask_int_def os_ask_def os_numa_alloc_def os_alloc_def demo_os_def rep)
  then obtain dq w1 where c: "nkit_deque_create 0 2 demo_os = (Some dq, w1)" "dq_node_id dq = 0" "dq_bottom dq = 0" "dq_top dq = 0"
    "dq_array dq = \<lparr>da_addr = 65536, da_size = 2, da_mask = 1, da_buffer = [NULL, NULL]\<rparr>"
    "dq_retired_arrays dq = (65536, [])" "dq_retired_capacity dq = 8" "os_answer w1 = os_answer demo_os" by blast
  have "fst (deque_run ?ops dq w1) = [Pushed True, Pushed True, Pushed True, Taken (Some 1), Taken (Some 3)]"
    using c(2-8) by (simp add: nkit_deque_push_def nkit_deque_pop_def nkit_deque_steal_def nkit_deque_resize_def deque_retire_def
        deque_array_alloc_def array_store_def array_load_def array_slot_def in_array_def os_numa_alloc_def os_alloc_def
        os_ask_def demo_os_def Let_def upto.simps rep)
  then obtain dq' w' where r: "deque_run ?ops dq w1 = ([Pushed True, Pushed True, Pushed True, Taken (Some 1), Taken (Some 3)], dq', w')"
    by (metis prod.collapse)
  have "fst (dq_retired_arrays dq) \<noteq> NULL" "length ?ops < 2 ^ 31" using c(6) by simp_all
  from deque_run_correct [OF c(1) this r] show ?thesis using c(1) r by (simp add: ledger_def demo_os_def)
qed

text \<open>The allocation of the table is not checked: with a null table the first resize writes through it.\<close>

lemma deque_resize_null_table:
  assumes "dq_retired_arrays dq = (NULL, [])" and "dq_retired_capacity dq = 8"
    and "deque_array_alloc (dq_node_id dq) (da_size (dq_array dq) * 2) w = (Some a, w1)"
  shows "os_fault (snd (nkit_deque_resize dq w))"
  using assms by (auto simp: nkit_deque_resize_def deque_retire_def Let_def os_simps split: prod.splits)

end
