(* ===== verification/NK_Deque_Conc.thy ===== *)
theory NK_Deque_Conc
  imports NK_Deque NK_Mutex
begin

section \<open>The work-stealing deque under concurrency (\<^verbatim>\<open>src/structs/deque.c\<close>)\<close>

text \<open>
  One step per access to shared memory: \<open>bottom\<close>, \<open>top\<close>, the array pointer and the entries of
  the arrays. Arrays are named by their position in \<open>ds_arrays\<close>; a resize appends one, and the
  entries it copies are read in the step that publishes the new array, since only the owner
  writes entries. \<open>ds_freed\<close> holds the arrays that were freed because the table of retired arrays
  could not grow; an entry read from a freed array is arbitrary. \<open>ds_pushed\<close> and \<open>ds_taken\<close> record
  the items whose push, pop or steal took effect.
\<close>

datatype deque_pc =
    Dq_idle
  | Push_top int ptr
  | Push_array int int ptr
  | Resize_bottom int int ptr
  | Resize_top int int ptr int
  | Resize_publish int int ptr int int
  | Push_recheck int int ptr
  | Push_store int nat ptr
  | Push_publish int ptr
  | Pop_array int
  | Pop_bottom int nat
  | Pop_top int nat
  | Pop_load int nat int
  | Pop_cas int int ptr
  | Pop_restore int
  | Steal_bottom int
  | Steal_array int
  | Steal_load int nat
  | Steal_cas int ptr

record deque_sys =
  ds_top :: int
  ds_bottom :: int
  ds_arrays :: "nkit_deque_array list"
  ds_cur :: nat
  ds_freed :: "nat set"
  ds_pc :: "nat \<Rightarrow> deque_pc"
  ds_pushed :: "ptr list"
  ds_taken :: "ptr list"

abbreviation cur_array :: "deque_sys \<Rightarrow> nkit_deque_array" where
  "cur_array s \<equiv> ds_arrays s ! ds_cur s"

definition ds_go :: "nat \<Rightarrow> deque_pc \<Rightarrow> deque_sys \<Rightarrow> deque_sys" where
  "ds_go i p s = s\<lparr>ds_pc := (ds_pc s)(i := p)\<rparr>"

definition deque_fresh_array :: "ptr \<Rightarrow> u32 \<Rightarrow> nkit_deque_array" where
  "deque_fresh_array p sz = \<lparr>da_addr = p, da_size = sz, da_mask = sz - 1, da_buffer = replicate (unat sz) NULL\<rparr>"

definition copy_items :: "nkit_deque_array \<Rightarrow> int list \<Rightarrow> nkit_deque_array \<Rightarrow> nkit_deque_array" where
  "copy_items old is new = fold (\<lambda>i a. array_store a i (array_load old i)) is new"

definition deque_publish :: "ptr \<Rightarrow> int \<Rightarrow> int \<Rightarrow> deque_sys \<Rightarrow> deque_sys" where
  "deque_publish p b t s =
    s\<lparr>ds_arrays := ds_arrays s @ [copy_items (cur_array s) [t..b - 1] (deque_fresh_array p (da_size (cur_array s) * 2))],
      ds_cur := length (ds_arrays s)\<rparr>"

inductive nkit_deque_push_step :: "nat \<Rightarrow> deque_sys \<Rightarrow> deque_sys \<Rightarrow> bool" where
  push_bottom: "ds_pc s i = Dq_idle \<Longrightarrow> nkit_deque_push_step i s (ds_go i (Push_top (ds_bottom s) x) s)"
| push_top: "ds_pc s i = Push_top b x \<Longrightarrow> nkit_deque_push_step i s (ds_go i (Push_array b (ds_top s) x) s)"
| push_array: "ds_pc s i = Push_array b t x \<Longrightarrow> nkit_deque_push_step i s
    (ds_go i (if b - t \<ge> uint (da_size (cur_array s)) then Resize_bottom b t x else Push_store b (ds_cur s) x) s)"
| resize_bottom: "ds_pc s i = Resize_bottom b t x \<Longrightarrow> nkit_deque_push_step i s (ds_go i (Resize_top b t x (ds_bottom s)) s)"
| resize_top: "ds_pc s i = Resize_top b t x rb \<Longrightarrow> nkit_deque_push_step i s (ds_go i (Resize_publish b t x rb (ds_top s)) s)"
| resize_failed: "ds_pc s i = Resize_publish b t x rb rt \<Longrightarrow> nkit_deque_push_step i s (ds_go i (Push_recheck b t x) s)"
| resize_retired: "ds_pc s i = Resize_publish b t x rb rt \<Longrightarrow>
    nkit_deque_push_step i s (ds_go i (Push_recheck b t x) (deque_publish p rb rt s))"
| resize_freed: "ds_pc s i = Resize_publish b t x rb rt \<Longrightarrow>
    nkit_deque_push_step i s (ds_go i (Push_recheck b t x) (deque_publish p rb rt (s\<lparr>ds_freed := insert (ds_cur s) (ds_freed s)\<rparr>)))"
| push_recheck: "ds_pc s i = Push_recheck b t x \<Longrightarrow> nkit_deque_push_step i s
    (ds_go i (if b - t \<ge> uint (da_size (cur_array s)) then Dq_idle else Push_store b (ds_cur s) x) s)"
| push_store: "ds_pc s i = Push_store b a x \<Longrightarrow> nkit_deque_push_step i s
    (ds_go i (Push_publish b x) (s\<lparr>ds_arrays := (ds_arrays s)[a := array_store (ds_arrays s ! a) b x]\<rparr>))"
| push_publish: "ds_pc s i = Push_publish b x \<Longrightarrow> nkit_deque_push_step i s
    (ds_go i Dq_idle (s\<lparr>ds_bottom := b + 1, ds_pushed := ds_pushed s @ [x]\<rparr>))"

inductive nkit_deque_pop_step :: "nat \<Rightarrow> deque_sys \<Rightarrow> deque_sys \<Rightarrow> bool" where
  pop_begin: "ds_pc s i = Dq_idle \<Longrightarrow> nkit_deque_pop_step i s (ds_go i (Pop_array (ds_bottom s - 1)) s)"
| pop_array: "ds_pc s i = Pop_array b \<Longrightarrow> nkit_deque_pop_step i s (ds_go i (Pop_bottom b (ds_cur s)) s)"
| pop_bottom: "ds_pc s i = Pop_bottom b a \<Longrightarrow> nkit_deque_pop_step i s (ds_go i (Pop_top b a) (s\<lparr>ds_bottom := b\<rparr>))"
| pop_top: "ds_pc s i = Pop_top b a \<Longrightarrow> nkit_deque_pop_step i s
    (ds_go i (if ds_top s \<le> b then Pop_load b a (ds_top s) else Pop_restore b) s)"
| pop_last: "ds_pc s i = Pop_load b a t \<Longrightarrow> t = b \<Longrightarrow> nkit_deque_pop_step i s
    (ds_go i (Pop_cas b t (array_load (ds_arrays s ! a) b)) s)"
| pop_take: "ds_pc s i = Pop_load b a t \<Longrightarrow> t \<noteq> b \<Longrightarrow> nkit_deque_pop_step i s
    (ds_go i Dq_idle (s\<lparr>ds_taken := ds_taken s @ [array_load (ds_arrays s ! a) b]\<rparr>))"
| pop_cas_won: "ds_pc s i = Pop_cas b t x \<Longrightarrow> ds_top s = t \<Longrightarrow> nkit_deque_pop_step i s
    (ds_go i (Pop_restore b) (s\<lparr>ds_top := t + 1, ds_taken := ds_taken s @ [x]\<rparr>))"
| pop_cas_lost: "ds_pc s i = Pop_cas b t x \<Longrightarrow> ds_top s \<noteq> t \<Longrightarrow> nkit_deque_pop_step i s (ds_go i (Pop_restore b) s)"
| pop_restore: "ds_pc s i = Pop_restore b \<Longrightarrow> nkit_deque_pop_step i s (ds_go i Dq_idle (s\<lparr>ds_bottom := b + 1\<rparr>))"

inductive nkit_deque_steal_step :: "nat \<Rightarrow> deque_sys \<Rightarrow> deque_sys \<Rightarrow> bool" where
  steal_top: "ds_pc s i = Dq_idle \<Longrightarrow> nkit_deque_steal_step i s (ds_go i (Steal_bottom (ds_top s)) s)"
| steal_bottom: "ds_pc s i = Steal_bottom t \<Longrightarrow> nkit_deque_steal_step i s
    (ds_go i (if t < ds_bottom s then Steal_array t else Dq_idle) s)"
| steal_array: "ds_pc s i = Steal_array t \<Longrightarrow> nkit_deque_steal_step i s (ds_go i (Steal_load t (ds_cur s)) s)"
| steal_load: "ds_pc s i = Steal_load t a \<Longrightarrow> a \<notin> ds_freed s \<Longrightarrow> nkit_deque_steal_step i s
    (ds_go i (Steal_cas t (array_load (ds_arrays s ! a) t)) s)"
| steal_load_freed: "ds_pc s i = Steal_load t a \<Longrightarrow> a \<in> ds_freed s \<Longrightarrow> nkit_deque_steal_step i s (ds_go i (Steal_cas t x) s)"
| steal_won: "ds_pc s i = Steal_cas t x \<Longrightarrow> ds_top s = t \<Longrightarrow> nkit_deque_steal_step i s
    (ds_go i Dq_idle (s\<lparr>ds_top := t + 1, ds_taken := ds_taken s @ [x]\<rparr>))"
| steal_lost: "ds_pc s i = Steal_cas t x \<Longrightarrow> ds_top s \<noteq> t \<Longrightarrow> nkit_deque_steal_step i s (ds_go i Dq_idle s)"

text \<open>The threads in \<open>owners\<close> push and pop; every thread may steal.\<close>

definition deque_step :: "nat set \<Rightarrow> nat \<Rightarrow> deque_sys \<Rightarrow> deque_sys \<Rightarrow> bool" where
  "deque_step owners i s s' \<longleftrightarrow>
     i \<in> owners \<and> (nkit_deque_push_step i s s' \<or> nkit_deque_pop_step i s s') \<or> nkit_deque_steal_step i s s'"

definition deque_init :: "u32 \<Rightarrow> deque_sys \<Rightarrow> bool" where
  "deque_init cap s \<longleftrightarrow> (\<exists>p. s = \<lparr>ds_top = 0, ds_bottom = 0, ds_arrays = [deque_fresh_array p cap], ds_cur = 0, ds_freed = {},
     ds_pc = (\<lambda>_. Dq_idle), ds_pushed = [], ds_taken = []\<rparr>)"

subsection \<open>Entries of an array\<close>

lemma mod_neq_of_near:
  fixes i j n :: int
  assumes "i < j" and "j < i + n"
  shows "i mod n \<noteq> j mod n"
proof
  assume "i mod n = j mod n"
  then have "n dvd j - i" by (metis mod_eq_dvd_iff)
  then show False using assms zdvd_imp_le [of n "j - i"] by simp
qed

lemma array_load_store:
  assumes "array_ok k a"
  shows "array_load (array_store a j x) i = (if i mod 2 ^ k = j mod 2 ^ k then x else array_load a i)"
    and "array_ok k (array_store a j x)"
proof -
  have "nat (j mod 2 ^ k) < 2 ^ k" by (simp add: nat_less_iff)
  moreover have "array_slot (array_store a j x) i = array_slot a i" by (simp add: array_slot_def array_store_def)
  moreover have "i mod 2 ^ k = j mod 2 ^ k" if "nat (i mod 2 ^ k) = nat (j mod 2 ^ k)" using that by (simp add: eq_nat_nat_iff)
  ultimately show "array_load (array_store a j x) i = (if i mod 2 ^ k = j mod 2 ^ k then x else array_load a i)"
    using assms array_slot_int [OF assms] by (auto simp: array_load_def array_store_def array_ok_def nth_list_update)
  show "array_ok k (array_store a j x)" using assms by (simp add: array_store_def array_ok_def)
qed

lemma array_ok_fresh: "k < 32 \<Longrightarrow> array_ok k (deque_fresh_array p (2 ^ k))"
  using unat_exp [of k, where ?'a = 32] by (simp add: array_ok_def deque_fresh_array_def)

lemma copy_items_ok:
  assumes "array_ok k' new" and "distinct (map (\<lambda>i. i mod 2 ^ k') is)"
  shows "array_ok k' (copy_items old is new)" and "\<forall>i \<in> set is. array_load (copy_items old is new) i = array_load old i"
proof -
  have "array_ok k' (copy_items old is new) \<and>
      (\<forall>i. i mod 2 ^ k' \<notin> (\<lambda>i. i mod 2 ^ k') ` set is \<longrightarrow> array_load (copy_items old is new) i = array_load new i) \<and>
      (\<forall>i \<in> set is. array_load (copy_items old is new) i = array_load old i)"
    using assms
  proof (induction "is" arbitrary: new)
    case (Cons j "is")
    let ?new = "array_store new j (array_load old j)"
    note st = array_load_store [OF Cons.prems(1), of j "array_load old j"]
    have c: "copy_items old (j # is) new = copy_items old is ?new" by (simp add: copy_items_def)
    from Cons.IH [OF st(2)] Cons.prems(2) have IH: "array_ok k' (copy_items old is ?new)"
      "\<And>i. i mod 2 ^ k' \<notin> (\<lambda>i. i mod 2 ^ k') ` set is \<Longrightarrow> array_load (copy_items old is ?new) i = array_load ?new i"
      "\<forall>i \<in> set is. array_load (copy_items old is ?new) i = array_load old i" by auto
    have "array_load (copy_items old is ?new) j = array_load old j"
      using IH(2) [of j] Cons.prems(2) st(1) by simp
    then show ?case unfolding c using IH st(1) by auto
  qed (simp add: copy_items_def)
  then show "array_ok k' (copy_items old is new)" "\<forall>i \<in> set is. array_load (copy_items old is new) i = array_load old i" by blast+
qed

lemma distinct_upto_mod:
  fixes b t :: int
  assumes "b - t \<le> 2 ^ k"
  shows "distinct (map (\<lambda>i. i mod 2 ^ k) [t..b - 1])"
proof -
  have "inj_on (\<lambda>i. i mod 2 ^ k) {t..b - 1}"
  proof (rule linorder_inj_onI)
    fix i j
    assume "i < j" "i \<in> {t..b - 1}" "j \<in> {t..b - 1}"
    then show "i mod 2 ^ k \<noteq> j mod 2 ^ k" using assms by (intro mod_neq_of_near) auto
  qed auto
  then show ?thesis by (simp add: distinct_map)
qed

lemma publish_entries:
  fixes p :: ptr
  assumes "array_ok k a" and "k < 31" and "b - t \<le> 2 ^ k"
  defines "a' \<equiv> copy_items a [t..b - 1] (deque_fresh_array p (da_size a * 2))"
  shows "array_ok (Suc k) a'" and "t \<le> i \<Longrightarrow> i < b \<Longrightarrow> array_load a' i = array_load a i"
proof -
  have "da_size a * 2 = 2 ^ Suc k" using assms(1) by (simp add: array_ok_def)
  then have new: "array_ok (Suc k) (deque_fresh_array p (da_size a * 2))" using array_ok_fresh [of "Suc k" p] assms(2) by simp
  have "distinct (map (\<lambda>i. i mod 2 ^ Suc k) [t..b - 1])" by (intro distinct_upto_mod order_trans [OF assms(3)]) simp
  from copy_items_ok [OF new this, of a] show "array_ok (Suc k) a'" "t \<le> i \<Longrightarrow> i < b \<Longrightarrow> array_load a' i = array_load a i"
    by (auto simp: a'_def)
qed

subsection \<open>The invariant\<close>

text \<open>
  \<open>lbottom\<close> is the end of the part of the deque that is not yet claimed: between the store of
  \<open>bottom\<close> and the load of \<open>top\<close> in a pop, the last item still belongs to the deque. \<open>claimed\<close> is the
  item a pop has won and not yet returned.
\<close>

fun lbottom :: "deque_pc \<Rightarrow> int \<Rightarrow> int" where
  "lbottom (Pop_top b a) B = b + 1"
| "lbottom (Pop_load b a t) B = (if t = b then b + 1 else b)"
| "lbottom (Pop_cas b t x) B = b + 1"
| "lbottom (Pop_restore b) B = b + 1"
| "lbottom _ B = B"

fun claimed :: "deque_pc \<Rightarrow> nkit_deque_array \<Rightarrow> ptr multiset" where
  "claimed (Pop_load b a t) A = (if t < b then {#array_load A b#} else {#})"
| "claimed _ A = {#}"

fun is_thief :: "deque_pc \<Rightarrow> bool" where
  "is_thief Dq_idle \<longleftrightarrow> True"
| "is_thief (Steal_bottom t) \<longleftrightarrow> True"
| "is_thief (Steal_array t) \<longleftrightarrow> True"
| "is_thief (Steal_load t a) \<longleftrightarrow> True"
| "is_thief (Steal_cas t x) \<longleftrightarrow> True"
| "is_thief _ \<longleftrightarrow> False"

fun owner_ok :: "nat \<Rightarrow> deque_sys \<Rightarrow> deque_pc \<Rightarrow> bool" where
  "owner_ok k s (Push_top b x) \<longleftrightarrow> ds_bottom s = b"
| "owner_ok k s (Push_array b t x) \<longleftrightarrow> ds_bottom s = b \<and> 0 \<le> t \<and> t \<le> ds_top s"
| "owner_ok k s (Resize_bottom b t x) \<longleftrightarrow> ds_bottom s = b \<and> 0 \<le> t \<and> t \<le> ds_top s \<and> 2 ^ k \<le> b - t"
| "owner_ok k s (Resize_top b t x rb) \<longleftrightarrow> ds_bottom s = b \<and> 0 \<le> t \<and> t \<le> ds_top s \<and> 2 ^ k \<le> b - t \<and> rb = b"
| "owner_ok k s (Resize_publish b t x rb rt) \<longleftrightarrow> ds_bottom s = b \<and> 0 \<le> t \<and> t \<le> ds_top s \<and> 2 ^ k \<le> b - t \<and> rb = b
     \<and> rt \<le> ds_top s \<and> b - rt \<le> 2 ^ k"
| "owner_ok k s (Push_recheck b t x) \<longleftrightarrow> ds_bottom s = b \<and> t \<le> ds_top s"
| "owner_ok k s (Push_store b a x) \<longleftrightarrow> ds_bottom s = b \<and> a = ds_cur s \<and> b - ds_top s < 2 ^ k"
| "owner_ok k s (Push_publish b x) \<longleftrightarrow> ds_bottom s = b \<and> b - ds_top s < 2 ^ k \<and> array_load (cur_array s) b = x"
| "owner_ok k s (Pop_array b) \<longleftrightarrow> ds_bottom s = b + 1"
| "owner_ok k s (Pop_bottom b a) \<longleftrightarrow> ds_bottom s = b + 1 \<and> a = ds_cur s"
| "owner_ok k s (Pop_top b a) \<longleftrightarrow> ds_bottom s = b \<and> a = ds_cur s"
| "owner_ok k s (Pop_load b a t) \<longleftrightarrow> ds_bottom s = b \<and> a = ds_cur s \<and> t \<le> b \<and> t \<le> ds_top s"
| "owner_ok k s (Pop_cas b t x) \<longleftrightarrow> ds_bottom s = b \<and> t = b \<and> t \<le> ds_top s \<and> array_load (cur_array s) b = x"
| "owner_ok k s (Pop_restore b) \<longleftrightarrow> ds_bottom s = b \<and> ds_top s = b + 1"
| "owner_ok k s _ \<longleftrightarrow> True"

fun thief_ok :: "int \<Rightarrow> deque_sys \<Rightarrow> deque_pc \<Rightarrow> bool" where
  "thief_ok L s (Steal_bottom t) \<longleftrightarrow> t \<le> ds_top s"
| "thief_ok L s (Steal_array t) \<longleftrightarrow> t \<le> ds_top s \<and> (t = ds_top s \<longrightarrow> t < L)"
| "thief_ok L s (Steal_load t a) \<longleftrightarrow> t \<le> ds_top s \<and> a < length (ds_arrays s) \<and>
     (t = ds_top s \<longrightarrow> t < L \<and> array_load (ds_arrays s ! a) t = array_load (cur_array s) t)"
| "thief_ok L s (Steal_cas t x) \<longleftrightarrow> t \<le> ds_top s \<and> (t = ds_top s \<longrightarrow> t < L \<and> x = array_load (cur_array s) t)"
| "thief_ok L s _ \<longleftrightarrow> True"

abbreviation ds_items :: "int \<Rightarrow> deque_sys \<Rightarrow> ptr list" where
  "ds_items L s \<equiv> map (array_load (cur_array s)) [ds_top s..L - 1]"

definition deque_inv :: "nat \<Rightarrow> nat \<Rightarrow> deque_sys \<Rightarrow> bool" where
  "deque_inv z k s \<longleftrightarrow> (let L = lbottom (ds_pc s z) (ds_bottom s) in
     ds_cur s < length (ds_arrays s) \<and> array_ok k (cur_array s) \<and>
     0 \<le> ds_top s \<and> ds_top s \<le> L \<and> L - ds_top s \<le> 2 ^ k \<and> L \<le> int (length (ds_pushed s)) \<and>
     mset (ds_pushed s) = mset (ds_taken s) + mset (ds_items L s) + claimed (ds_pc s z) (cur_array s) \<and>
     owner_ok k s (ds_pc s z) \<and> (\<forall>j. thief_ok L s (ds_pc s j)) \<and> (\<forall>j. j \<noteq> z \<longrightarrow> is_thief (ds_pc s j)))"

lemma is_thief_simps:
  assumes "is_thief pc"
  shows "lbottom pc B = B" and "claimed pc A = {#}" and "owner_ok k s pc"
  using assms by (cases pc; simp)+

lemma deque_inv_init: "deque_init (2 ^ k) s \<Longrightarrow> k < 32 \<Longrightarrow> deque_inv z k s"
  by (auto simp: deque_init_def deque_inv_def array_ok_fresh)

lemma bottom_le_lbottom: "owner_ok k s pc \<Longrightarrow> ds_bottom s \<le> lbottom pc (ds_bottom s)"
  by (cases pc) auto

lemma ds_go_simps [simp]:
  "ds_top (ds_go i q s) = ds_top s" "ds_bottom (ds_go i q s) = ds_bottom s" "ds_arrays (ds_go i q s) = ds_arrays s"
  "ds_cur (ds_go i q s) = ds_cur s" "ds_freed (ds_go i q s) = ds_freed s" "ds_pushed (ds_go i q s) = ds_pushed s"
  "ds_taken (ds_go i q s) = ds_taken s" "ds_pc (ds_go i q s) = (ds_pc s)(i := q)"
  by (simp_all add: ds_go_def)

lemma ok_go [simp]: "owner_ok k (ds_go i q s) pc = owner_ok k s pc" "thief_ok L (ds_go i q s) pc = thief_ok L s pc"
  by (cases pc; simp)+

text \<open>A step of the owner that only moves its program counter, and such a step of a thief.\<close>

lemma owner_local:
  assumes inv: "deque_inv z k s" and q: "owner_ok k s q" "lbottom q (ds_bottom s) = lbottom (ds_pc s z) (ds_bottom s)"
    "claimed q (cur_array s) = claimed (ds_pc s z) (cur_array s)" "thief_ok (lbottom q (ds_bottom s)) s q"
  shows "deque_inv z k (ds_go z q s)"
  using assms by (auto simp: deque_inv_def Let_def)

lemma thief_local:
  assumes inv: "deque_inv z k s" and p: "is_thief (ds_pc s i)"
    and q: "is_thief q" "thief_ok (lbottom (ds_pc s z) (ds_bottom s)) s q"
  shows "deque_inv z k (ds_go i q s)"
proof (cases "i = z")
  case True
  then show ?thesis using owner_local [OF inv, of q] q is_thief_simps [OF p] is_thief_simps [OF q(1)] by simp
next
  case False
  then show ?thesis using inv q by (auto simp: deque_inv_def Let_def)
qed

lemma thief_ok_top:
  assumes "thief_ok L s pc" and "ds_arrays s' = ds_arrays s" and "ds_cur s' = ds_cur s" and "ds_top s' = ds_top s + 1"
  shows "thief_ok L' s' pc"
  using assms by (cases pc) auto

lemma owner_ok_top:
  assumes "owner_ok k s pc" and "ds_top s < lbottom pc (ds_bottom s)" and "ds_arrays s' = ds_arrays s" and "ds_cur s' = ds_cur s"
    and "ds_top s' = ds_top s + 1" and "ds_bottom s' = ds_bottom s"
  shows "owner_ok k s' pc"
  using assms by (cases pc) auto

lemma steal_inv:
  assumes inv: "deque_inv z k s" and freed: "ds_freed s = {}" and step: "nkit_deque_steal_step i s s'"
  shows "deque_inv z k s'"
proof -
  let ?L = "lbottom (ds_pc s z) (ds_bottom s)"
  have ok: "thief_ok ?L s (ds_pc s j)" for j using inv by (simp add: deque_inv_def Let_def)
  have own: "owner_ok k s (ds_pc s z)" using inv by (simp add: deque_inv_def Let_def)
  from step show ?thesis
  proof cases
    case steal_top
    then show ?thesis using thief_local [OF inv, of i "Steal_bottom (ds_top s)"] by simp
  next
    case (steal_bottom t)
    then show ?thesis using thief_local [OF inv, of i] ok [of i] bottom_le_lbottom [OF own] by simp
  next
    case (steal_array t)
    then show ?thesis using thief_local [OF inv, of i "Steal_load t (ds_cur s)"] ok [of i] inv
      by (simp add: deque_inv_def Let_def)
  next
    case (steal_load t a)
    then show ?thesis using thief_local [OF inv, of i "Steal_cas t (array_load (ds_arrays s ! a) t)"] ok [of i] by auto
  next
    case (steal_won t x)
    let ?s = "ds_go i Dq_idle (s\<lparr>ds_top := t + 1, ds_taken := ds_taken s @ [x]\<rparr>)"
    have t: "t < ?L" "x = array_load (cur_array s) t" using ok [of i] steal_won by auto
    have pcz: "lbottom (ds_pc ?s z) (ds_bottom ?s) = ?L" "claimed (ds_pc ?s z) (cur_array s) = claimed (ds_pc s z) (cur_array s)"
      using steal_won(2) by (cases "i = z"; simp)+
    have own': "owner_ok k ?s (ds_pc ?s z)" using owner_ok_top [OF own, of ?s] t(1) steal_won(3) by (cases "i = z") simp_all
    have th: "thief_ok ?L ?s (ds_pc ?s j)" for j using thief_ok_top [OF ok, of ?s] steal_won(3) by (cases "i = j") simp_all
    have "[ds_top s..?L - 1] = t # [t + 1..?L - 1]" using t(1) steal_won(3) upto_rec1 [of t "?L - 1"] by simp
    then have "mset (ds_pushed ?s) = mset (ds_taken ?s) + mset (ds_items ?L ?s) + claimed (ds_pc ?s z) (cur_array ?s)"
      using inv pcz(2) t(2) by (simp add: deque_inv_def Let_def)
    then show ?thesis unfolding steal_won(1) using inv pcz own' th t(1) steal_won(3)
      unfolding deque_inv_def pcz(1) Let_def by simp
  next
    case (steal_lost t x)
    then show ?thesis using thief_local [OF inv, of i Dq_idle] by simp
  qed (use freed in simp)
qed

lemma deque_invD:
  assumes "deque_inv z k s"
  shows "ds_cur s < length (ds_arrays s)" "array_ok k (cur_array s)" "0 \<le> ds_top s"
    "ds_top s \<le> lbottom (ds_pc s z) (ds_bottom s)" "lbottom (ds_pc s z) (ds_bottom s) - ds_top s \<le> 2 ^ k"
    "lbottom (ds_pc s z) (ds_bottom s) \<le> int (length (ds_pushed s))"
    "mset (ds_pushed s) = mset (ds_taken s) + mset (ds_items (lbottom (ds_pc s z) (ds_bottom s)) s) + claimed (ds_pc s z) (cur_array s)"
    "owner_ok k s (ds_pc s z)" "thief_ok (lbottom (ds_pc s z) (ds_bottom s)) s (ds_pc s j)" "j \<noteq> z \<Longrightarrow> is_thief (ds_pc s j)"
  using assms by (simp_all add: deque_inv_def Let_def)

text \<open>A change of the arrays that keeps the items of the deque, and what thieves may still read.\<close>

lemma thief_ok_arrays:
  assumes "thief_ok L s pc" and "ds_top s' = ds_top s" and "length (ds_arrays s) \<le> length (ds_arrays s')"
    and "\<And>a. a < length (ds_arrays s) \<Longrightarrow> ds_top s < L \<Longrightarrow>
      array_load (ds_arrays s' ! a) (ds_top s) = array_load (ds_arrays s ! a) (ds_top s)"
    and "ds_top s < L \<Longrightarrow> array_load (cur_array s') (ds_top s) = array_load (cur_array s) (ds_top s)"
  shows "thief_ok L s' pc"
  using assms by (cases pc) auto

lemma push_publish_inv:
  assumes inv: "deque_inv z k s" and pc: "ds_pc s z = Resize_publish b t x rb rt" and few: "length (ds_pushed s) < 2 ^ 31"
  shows "deque_inv z (Suc k) (ds_go z (Push_recheck b t x) (deque_publish p rb rt s))"
proof -
  note D = deque_invD [OF inv]
  let ?s = "ds_go z (Push_recheck b t x) (deque_publish p rb rt s)"
  have o: "ds_bottom s = b" "0 \<le> t" "t \<le> ds_top s" "2 ^ k \<le> b - t" "rb = b" "rt \<le> ds_top s" "b - rt \<le> 2 ^ k"
    using D(8) pc by simp_all
  have L: "lbottom (ds_pc s z) (ds_bottom s) = b" using pc o(1) by simp
  have "(2::int) ^ k < 2 ^ 31" using o(2,4) D(6) few L by simp
  then have k: "k < 31" by (rule power_less_imp_less_exp [rotated]) simp
  have cur: "cur_array ?s = copy_items (cur_array s) [rt..b - 1] (deque_fresh_array p (da_size (cur_array s) * 2))"
    using o(5) by (simp add: deque_publish_def)
  note new = publish_entries [OF D(2) k o(7), where p = p, folded cur]
  have items: "ds_items b ?s = ds_items b s"
    using new(2) o(6) unfolding cur [symmetric] by (simp add: deque_publish_def)
  have "thief_ok b ?s (ds_pc s j)" for j
  proof (rule thief_ok_arrays [OF D(9) [of j, unfolded L]])
    show "array_load (cur_array ?s) (ds_top s) = array_load (cur_array s) (ds_top s)" if "ds_top s < b"
      using new(2) o(6) that by simp
  qed (simp_all add: deque_publish_def nth_append)
  moreover have "b - ds_top s \<le> 2 ^ Suc k" by (rule order_trans [OF D(5) [unfolded L]]) simp
  moreover have "mset (ds_pushed ?s) = mset (ds_taken ?s) + mset (ds_items b ?s)"
    unfolding items using D(7) L pc by (simp add: deque_publish_def)
  ultimately show ?thesis
    unfolding deque_inv_def Let_def using D(3,4,6,10) L o(1,3) new(1) by (auto simp: deque_publish_def)
qed

lemma push_store_inv:
  assumes inv: "deque_inv z k s" and pc: "ds_pc s z = Push_store b a x"
  shows "deque_inv z k (ds_go z (Push_publish b x) (s\<lparr>ds_arrays := (ds_arrays s)[a := array_store (ds_arrays s ! a) b x]\<rparr>))"
proof -
  note D = deque_invD [OF inv]
  let ?s = "ds_go z (Push_publish b x) (s\<lparr>ds_arrays := (ds_arrays s)[a := array_store (ds_arrays s ! a) b x]\<rparr>)"
  have o: "ds_bottom s = b" "a = ds_cur s" "b - ds_top s < 2 ^ k" using D(8) pc by simp_all
  have L: "lbottom (ds_pc s z) (ds_bottom s) = b" using pc o(1) by simp
  have cur: "cur_array ?s = array_store (cur_array s) b x" using o(2) D(1) by simp
  note st = array_load_store [OF D(2), of b x]
  have old: "array_load (array_store (cur_array s) b x) i = array_load (cur_array s) i" if "ds_top s \<le> i" "i < b" for i
    using st(1) mod_neq_of_near [of i b "2 ^ k"] that o(3) by simp
  have items: "ds_items b ?s = ds_items b s" using old unfolding cur by simp
  have "thief_ok b ?s (ds_pc s j)" for j
  proof (rule thief_ok_arrays [OF D(9) [of j, unfolded L]])
    show "array_load (cur_array ?s) (ds_top s) = array_load (cur_array s) (ds_top s)" if "ds_top s < b"
      unfolding cur using old that by simp
    show "array_load (ds_arrays ?s ! i) (ds_top s) = array_load (ds_arrays s ! i) (ds_top s)"
      if "i < length (ds_arrays s)" "ds_top s < b" for i
      using old that o(2) by (cases "i = a") simp_all
  qed simp_all
  moreover have "mset (ds_pushed ?s) = mset (ds_taken ?s) + mset (ds_items b ?s)"
    unfolding items using D(7) L pc by simp
  ultimately show ?thesis
    unfolding deque_inv_def Let_def using D(1,3-6,10) L o st cur by auto
qed

lemma push_done_inv:
  assumes inv: "deque_inv z k s" and pc: "ds_pc s z = Push_publish b x"
  shows "deque_inv z k (ds_go z Dq_idle (s\<lparr>ds_bottom := b + 1, ds_pushed := ds_pushed s @ [x]\<rparr>))"
proof -
  note D = deque_invD [OF inv]
  let ?s = "ds_go z Dq_idle (s\<lparr>ds_bottom := b + 1, ds_pushed := ds_pushed s @ [x]\<rparr>)"
  have o: "ds_bottom s = b" "b - ds_top s < 2 ^ k" "array_load (cur_array s) b = x" using D(8) pc by simp_all
  have L: "lbottom (ds_pc s z) (ds_bottom s) = b" using pc o(1) by simp
  have "[ds_top s..b] = [ds_top s..b - 1] @ [b]" using D(4) L upto_rec2 [of "ds_top s" b] by simp
  then have "mset (ds_pushed ?s) = mset (ds_taken ?s) + mset (ds_items (b + 1) ?s)" using D(7) L o(3) pc by simp
  moreover have "thief_ok (b + 1) ?s (ds_pc s j)" for j
    using D(9) [of j, unfolded L] by (cases "ds_pc s j") auto
  ultimately show ?thesis unfolding deque_inv_def Let_def using D(1-6,10) L o by auto
qed

lemma push_inv:
  assumes inv: "deque_inv z k s" and few: "length (ds_pushed s) < 2 ^ 31" and freed: "ds_freed s' = {}"
    and step: "nkit_deque_push_step z s s'"
  shows "\<exists>k'. deque_inv z k' s'"
proof -
  note D = deque_invD [OF inv]
  have size: "uint (da_size (cur_array s)) = 2 ^ k" using uint_da_size [OF D(2)] .
  have move: "\<exists>k'. deque_inv z k' (ds_go z q s)" if "owner_ok k s q" "lbottom q (ds_bottom s) = lbottom (ds_pc s z) (ds_bottom s)"
    "claimed q (cur_array s) = claimed (ds_pc s z) (cur_array s)" "thief_ok (lbottom q (ds_bottom s)) s q" for q
    using owner_local [OF inv that] by blast
  from step show ?thesis
  proof cases
    case (push_array b t x)
    then show ?thesis unfolding push_array(1) using D(8) size by (intro move) auto
  next
    case (push_recheck b t x)
    then show ?thesis unfolding push_recheck(1) using D(8) size by (intro move) auto
  next
    case (resize_top b t x rb)
    then show ?thesis unfolding resize_top(1) using D(5,8) by (intro move) auto
  next
    case (resize_retired b t x rb rt p)
    then show ?thesis using push_publish_inv [OF inv _ few] by blast
  next
    case (push_store b a x)
    then show ?thesis using push_store_inv [OF inv] by blast
  next
    case (push_publish b x)
    then show ?thesis using push_done_inv [OF inv] by blast
  next
    case (resize_freed b t x rb rt p)
    then show ?thesis using freed by (simp add: deque_publish_def)
  qed (use move D(3,8) in auto)
qed

lemma pop_bottom_inv:
  assumes inv: "deque_inv z k s" and pc: "ds_pc s z = Pop_bottom b a"
  shows "deque_inv z k (ds_go z (Pop_top b a) (s\<lparr>ds_bottom := b\<rparr>))"
proof -
  note D = deque_invD [OF inv]
  have o: "ds_bottom s = b + 1" "a = ds_cur s" using D(8) pc by simp_all
  have "thief_ok (b + 1) (s\<lparr>ds_bottom := b\<rparr>) (ds_pc s j)" for j
    using D(9) [of j] pc o(1) by (cases "ds_pc s j") auto
  then show ?thesis unfolding deque_inv_def Let_def using D(1-7,10) o pc by auto
qed

text \<open>The load of \<open>top\<close> decides: an item that is not the last one is claimed by it.\<close>

lemma pop_claim_inv:
  assumes inv: "deque_inv z k s" and pc: "ds_pc s z = Pop_top b a" and lt: "ds_top s < b"
  shows "deque_inv z k (ds_go z (Pop_load b a (ds_top s)) s)"
proof -
  note D = deque_invD [OF inv]
  let ?s = "ds_go z (Pop_load b a (ds_top s)) s"
  have o: "ds_bottom s = b" "a = ds_cur s" using D(8) pc by simp_all
  have "[ds_top s..b] = [ds_top s..b - 1] @ [b]" using lt upto_rec2 [of "ds_top s" b] by simp
  then have "mset (ds_pushed ?s) = mset (ds_taken ?s) + mset (ds_items b ?s) + {#array_load (cur_array s) b#}"
    using D(7) pc by simp
  moreover have "thief_ok b s (ds_pc s j)" for j
    using D(9) [of j] pc lt by (cases "ds_pc s j") auto
  ultimately show ?thesis unfolding deque_inv_def Let_def using D(1-6,10) o pc lt by auto
qed

lemma pop_take_inv:
  assumes inv: "deque_inv z k s" and pc: "ds_pc s z = Pop_load b a t" and ne: "t \<noteq> b"
  shows "deque_inv z k (ds_go z Dq_idle (s\<lparr>ds_taken := ds_taken s @ [array_load (ds_arrays s ! a) b]\<rparr>))"
proof -
  note D = deque_invD [OF inv]
  have o: "ds_bottom s = b" "a = ds_cur s" "t < b" using D(8) pc ne by simp_all
  have "thief_ok b (s\<lparr>ds_taken := ds_taken s @ [array_load (ds_arrays s ! a) b]\<rparr>) (ds_pc s j)" for j
    using D(9) [of j] pc ne by (cases "ds_pc s j") auto
  then show ?thesis unfolding deque_inv_def Let_def using D(1-7,10) o pc by auto
qed

lemma pop_won_inv:
  assumes inv: "deque_inv z k s" and pc: "ds_pc s z = Pop_cas b t x" and top: "ds_top s = t"
  shows "deque_inv z k (ds_go z (Pop_restore b) (s\<lparr>ds_top := t + 1, ds_taken := ds_taken s @ [x]\<rparr>))"
proof -
  note D = deque_invD [OF inv]
  let ?s = "s\<lparr>ds_top := t + 1, ds_taken := ds_taken s @ [x]\<rparr>"
  have o: "ds_bottom s = b" "t = b" "array_load (cur_array s) b = x" using D(8) pc by simp_all
  have "thief_ok (b + 1) ?s (ds_pc s j)" for j
    using thief_ok_top [OF D(9), of ?s] top by simp
  moreover have "mset (ds_pushed s) = mset (ds_taken s) + {#x#}" using D(7) pc o top by simp
  ultimately show ?thesis unfolding deque_inv_def Let_def using D(1-6,10) o pc top by auto
qed

lemma pop_restore_inv:
  assumes inv: "deque_inv z k s" and pc: "ds_pc s z = Pop_restore b"
  shows "deque_inv z k (ds_go z Dq_idle (s\<lparr>ds_bottom := b + 1\<rparr>))"
proof -
  note D = deque_invD [OF inv]
  have o: "ds_bottom s = b" "ds_top s = b + 1" using D(8) pc by simp_all
  have "thief_ok (b + 1) (s\<lparr>ds_bottom := b + 1\<rparr>) (ds_pc s j)" for j
    using D(9) [of j] pc by (cases "ds_pc s j") auto
  then show ?thesis unfolding deque_inv_def Let_def using D(1-7,10) o pc by auto
qed

lemma pop_inv:
  assumes inv: "deque_inv z k s" and step: "nkit_deque_pop_step z s s'"
  shows "deque_inv z k s'"
proof -
  note D = deque_invD [OF inv]
  from step show ?thesis
  proof cases
    case pop_begin
    then show ?thesis using owner_local [OF inv] D(8) by simp
  next
    case (pop_array b)
    then show ?thesis using owner_local [OF inv] D(8) by simp
  next
    case (pop_top b a)
    then show ?thesis using pop_claim_inv [OF inv pop_top(2)] owner_local [OF inv] D(4,8)
      by (cases "ds_top s" b rule: linorder_cases) auto
  next
    case (pop_last b a t)
    then show ?thesis using owner_local [OF inv] D(8) by simp
  next
    case (pop_cas_lost b t x)
    then show ?thesis using owner_local [OF inv, of "Pop_restore b"] D(4,8) by simp
  qed (use pop_bottom_inv [OF inv] pop_take_inv [OF inv] pop_won_inv [OF inv] pop_restore_inv [OF inv] in auto)
qed

lemma deque_step_mono:
  assumes "deque_step owners i s s'"
  shows "ds_freed s \<subseteq> ds_freed s'" and "length (ds_pushed s) \<le> length (ds_pushed s')"
  using assms unfolding deque_step_def
  by (auto elim!: nkit_deque_push_step.cases nkit_deque_pop_step.cases nkit_deque_steal_step.cases simp: deque_publish_def)

abbreviation deque_reach :: "nat set \<Rightarrow> u32 \<Rightarrow> deque_sys \<Rightarrow> bool" where
  "deque_reach owners cap \<equiv> reach (deque_init cap) (deque_step owners)"

lemma deque_step_inv:
  assumes "deque_inv z k s" and "deque_step {z} i s s'" and "ds_freed s' = {}" and "length (ds_pushed s') < 2 ^ 31"
  shows "\<exists>k'. deque_inv z k' s'"
proof -
  have s: "ds_freed s = {}" "length (ds_pushed s) < 2 ^ 31" using deque_step_mono [OF assms(2)] assms(3,4) by auto
  show ?thesis using assms(2) push_inv [OF assms(1) s(2) assms(3)] pop_inv [OF assms(1)] steal_inv [OF assms(1) s(1)]
    unfolding deque_step_def by blast
qed

lemma deque_reach_inv:
  assumes "deque_reach {z} (2 ^ k) s" and "k < 32" and "ds_freed s = {}" and "length (ds_pushed s) < 2 ^ 31"
  shows "\<exists>k'. deque_inv z k' s"
proof -
  have "ds_freed s = {} \<and> length (ds_pushed s) < 2 ^ 31 \<longrightarrow> (\<exists>k'. deque_inv z k' s)"
    using assms(1)
  proof (rule reach_invariant)
    show "ds_freed s = {} \<and> length (ds_pushed s) < 2 ^ 31 \<longrightarrow> (\<exists>k'. deque_inv z k' s)" if "deque_init (2 ^ k) s" for s
      using deque_inv_init [OF that assms(2)] by blast
    show "ds_freed s' = {} \<and> length (ds_pushed s') < 2 ^ 31 \<longrightarrow> (\<exists>k'. deque_inv z k' s')"
      if IH: "ds_freed s = {} \<and> length (ds_pushed s) < 2 ^ 31 \<longrightarrow> (\<exists>k'. deque_inv z k' s)" and step: "deque_step {z} i s s'" for i s s'
    proof
      assume s': "ds_freed s' = {} \<and> length (ds_pushed s') < 2 ^ 31"
      then have "ds_freed s = {} \<and> length (ds_pushed s) < 2 ^ 31" using deque_step_mono [OF step] by auto
      then show "\<exists>k'. deque_inv z k' s'" using IH deque_step_inv [OF _ step] s' by blast
    qed
  qed
  then show ?thesis using assms(3,4) by blast
qed

subsection \<open>Properties\<close>

text \<open>
  C3. With one owner and any number of thieves, in every interleaving of their accesses to
  shared memory, resizes included, no item is taken more often than it was pushed, and when no call
  is under way every item that was pushed was either taken or is still in the deque. This
  holds as long as no old array had to be freed early and fewer than \<open>2 ^ 31\<close> items were pushed.
\<close>
theorem deque_exactly_once:
  assumes "deque_reach {z} (2 ^ k) s" and "k < 32" and "ds_freed s = {}" and "length (ds_pushed s) < 2 ^ 31"
  shows "mset (ds_taken s) \<subseteq># mset (ds_pushed s) \<and>
    ((\<forall>i. ds_pc s i = Dq_idle) \<longrightarrow> mset (ds_pushed s) = mset (ds_taken s) +
       mset (map (array_load (cur_array s)) [ds_top s..ds_bottom s - 1]))"
proof -
  obtain k' where inv: "deque_inv z k' s" using deque_reach_inv [OF assms] by blast
  note D = deque_invD(7) [OF inv]
  have "mset (ds_taken s) \<subseteq># mset (ds_pushed s)" unfolding D by (simp add: add.assoc)
  moreover have "mset (ds_pushed s) = mset (ds_taken s) + mset (ds_items (ds_bottom s) s)" if "\<forall>i. ds_pc s i = Dq_idle"
    using D that by simp
  ultimately show ?thesis by blast
qed

text \<open>Two threads at a deque of two entries, for evaluation.\<close>

definition ds_two :: "int \<Rightarrow> int \<Rightarrow> ptr list \<Rightarrow> deque_pc \<Rightarrow> deque_pc \<Rightarrow> ptr list \<Rightarrow> ptr list \<Rightarrow> deque_sys" where
  "ds_two t b buf p q pu ta = \<lparr>ds_top = t, ds_bottom = b,
     ds_arrays = [\<lparr>da_addr = 4096, da_size = 2, da_mask = 1, da_buffer = buf\<rparr>], ds_cur = 0, ds_freed = {},
     ds_pc = (\<lambda>_. Dq_idle)(0 := p, 1 := q), ds_pushed = pu, ds_taken = ta\<rparr>"

lemma ds_two_simps:
  "ds_pc (ds_two t b buf p q pu ta) 0 = p" "ds_pc (ds_two t b buf p q pu ta) (Suc 0) = q"
  "ds_top (ds_two t b buf p q pu ta) = t" "ds_bottom (ds_two t b buf p q pu ta) = b" "ds_cur (ds_two t b buf p q pu ta) = 0"
  "ds_arrays (ds_two t b buf p q pu ta) = [\<lparr>da_addr = 4096, da_size = 2, da_mask = 1, da_buffer = buf\<rparr>]"
  "ds_go 0 p' (ds_two t b buf p q pu ta) = ds_two t b buf p' q pu ta"
  "ds_go (Suc 0) q' (ds_two t b buf p q pu ta) = ds_two t b buf p q' pu ta"
  "(ds_two t b buf p q pu ta)\<lparr>ds_bottom := b'\<rparr> = ds_two t b' buf p q pu ta"
  "(ds_two t b buf p q pu ta)\<lparr>ds_pushed := pu'\<rparr> = ds_two t b buf p q pu' ta"
  "(ds_two t b buf p q pu ta)\<lparr>ds_taken := ta'\<rparr> = ds_two t b buf p q pu ta'"
  "(ds_two t b buf p q pu ta)\<lparr>ds_arrays := [\<lparr>da_addr = 4096, da_size = 2, da_mask = 1, da_buffer = buf'\<rparr>]\<rparr> = ds_two t b buf' p q pu ta"
  "ds_pushed (ds_two t b buf p q pu ta) = pu" "ds_taken (ds_two t b buf p q pu ta) = ta" "ds_freed (ds_two t b buf p q pu ta) = {}"
  by (auto simp: ds_two_def ds_go_def fun_eq_iff)

lemma ds_two_push:
  assumes r: "deque_reach owners 2 (ds_two 0 b buf Dq_idle q pu ta)" and b: "0 \<in> owners" "b < 2"
  shows "deque_reach owners 2 (ds_two 0 (b + 1) (buf[nat (b AND 1) := x]) Dq_idle q (pu @ [x]) ta)"
proof -
  have step: "deque_reach owners 2 u" if "deque_reach owners 2 t" "nkit_deque_push_step 0 t t'" "t' = u" for t t' u
    using that b(1) by (auto intro: reach.move simp: deque_step_def)
  note simps = ds_two_simps array_store_def array_slot_def
  have 1: "deque_reach owners 2 (ds_two 0 b buf (Push_top b x) q pu ta)"
    by (rule step [OF r nkit_deque_push_step.push_bottom]) (auto simp: simps)
  have 2: "deque_reach owners 2 (ds_two 0 b buf (Push_array b 0 x) q pu ta)"
    by (rule step [OF 1 nkit_deque_push_step.push_top]) (auto simp: simps)
  have 3: "deque_reach owners 2 (ds_two 0 b buf (Push_store b 0 x) q pu ta)"
    by (rule step [OF 2 nkit_deque_push_step.push_array]) (use b in \<open>auto simp: simps\<close>)
  have 4: "deque_reach owners 2 (ds_two 0 b (buf[nat (b AND 1) := x]) (Push_publish b x) q pu ta)"
    by (rule step [OF 3 nkit_deque_push_step.push_store]) (auto simp: simps)
  show ?thesis by (rule step [OF 4 nkit_deque_push_step.push_publish]) (auto simp: simps)
qed

lemma ds_two_start: "deque_reach owners 2 (ds_two 0 0 [NULL, NULL] Dq_idle Dq_idle [] [])"
proof (rule reach.start)
  have "replicate 2 NULL = [NULL, NULL]" by (simp add: numeral_eq_Suc)
  then show "deque_init 2 (ds_two 0 0 [NULL, NULL] Dq_idle Dq_idle [] [])"
    by (auto simp: deque_init_def ds_two_def deque_fresh_array_def fun_eq_iff intro!: exI [of _ 4096])
qed

lemma ds_two_filled:
  assumes "0 \<in> owners"
  shows "deque_reach owners 2 (ds_two 0 2 [5, 7] Dq_idle Dq_idle [5, 7] [])"
  using ds_two_push [OF ds_two_push [OF ds_two_start assms, of 5] assms, of 7] by simp

theorem deque_exactly_once_witness:
  "deque_reach {0} (2 ^ 1) (ds_two 0 2 [5, 7] Dq_idle Dq_idle [5, 7] []) \<and>
   mset (ds_taken (ds_two 0 2 [5, 7] Dq_idle Dq_idle [5, 7] [])) \<subseteq># mset (ds_pushed (ds_two 0 2 [5, 7] Dq_idle Dq_idle [5, 7] []))"
proof -
  have r: "deque_reach {0} (2 ^ 1) (ds_two 0 2 [5, 7] Dq_idle Dq_idle [5, 7] [])" using ds_two_filled [of "{0}"] by simp
  show ?thesis using r deque_exactly_once [OF r] by (simp add: ds_two_simps)
qed

text \<open>
  C35. The guarantee needs the single owner: with two threads that push and pop, as the workers
  of a node of the task pool do, both can pop the same item.
\<close>
theorem deque_two_owners_duplicate:
  "\<exists>s. deque_reach {0, 1} 2 s \<and> ds_freed s = {} \<and> ds_pushed s = [5, 7] \<and> ds_taken s = [7, 7] \<and> (\<forall>i. ds_pc s i = Dq_idle)"
proof -
  let ?R = "deque_reach {0, 1} 2" and ?S = "\<lambda>b p q ta. ds_two 0 b [5, 7] p q [5, 7] ta"
  have step: "?R u" if "?R t" "nkit_deque_pop_step i t t'" "i \<in> {0, 1}" "t' = u" for t t' u i
    using that by (auto intro: reach.move simp: deque_step_def)
  note simps = ds_two_simps array_load_def array_slot_def
  have 0: "?R (?S 2 Dq_idle Dq_idle [])" by (rule ds_two_filled) simp
  have 1: "?R (?S 2 (Pop_array 1) Dq_idle [])" by (rule step [OF 0 nkit_deque_pop_step.pop_begin [where i = 0]]) (auto simp: simps)
  have 2: "?R (?S 2 (Pop_bottom 1 0) Dq_idle [])" by (rule step [OF 1 nkit_deque_pop_step.pop_array [where i = 0]]) (auto simp: simps)
  have 3: "?R (?S 2 (Pop_bottom 1 0) (Pop_array 1) [])" by (rule step [OF 2 nkit_deque_pop_step.pop_begin [where i = 1]]) (auto simp: simps)
  have 4: "?R (?S 2 (Pop_bottom 1 0) (Pop_bottom 1 0) [])" by (rule step [OF 3 nkit_deque_pop_step.pop_array [where i = 1]]) (auto simp: simps)
  have 5: "?R (?S 1 (Pop_top 1 0) (Pop_bottom 1 0) [])" by (rule step [OF 4 nkit_deque_pop_step.pop_bottom [where i = 0]]) (auto simp: simps)
  have 6: "?R (?S 1 (Pop_top 1 0) (Pop_top 1 0) [])" by (rule step [OF 5 nkit_deque_pop_step.pop_bottom [where i = 1]]) (auto simp: simps)
  have 7: "?R (?S 1 (Pop_load 1 0 0) (Pop_top 1 0) [])" by (rule step [OF 6 nkit_deque_pop_step.pop_top [where i = 0]]) (auto simp: simps)
  have 8: "?R (?S 1 (Pop_load 1 0 0) (Pop_load 1 0 0) [])" by (rule step [OF 7 nkit_deque_pop_step.pop_top [where i = 1]]) (auto simp: simps)
  have 9: "?R (?S 1 Dq_idle (Pop_load 1 0 0) [7])" by (rule step [OF 8 nkit_deque_pop_step.pop_take [where i = 0]]) (auto simp: simps)
  have 10: "?R (?S 1 Dq_idle Dq_idle [7, 7])" by (rule step [OF 9 nkit_deque_pop_step.pop_take [where i = 1]]) (auto simp: simps)
  show ?thesis by (intro exI conjI, rule 10) (auto simp: ds_two_def)
qed

end
