(* ===== verification/NK_Task_Pool.thy ===== *)
theory NK_Task_Pool
  imports NK_Deque NK_Affinity "HOL-Library.Signed_Division"
begin

section \<open>The task pool (\<^verbatim>\<open>src/sched/task_pool.c\<close>)\<close>

text \<open>
  A pool keeps per node a deque of waiting tasks, a ring of unused task structures and an array
  of such structures. A task pointer is an address; \<open>tasks\<close> is the memory of the structures, and
  the pointer \<^verbatim>\<open>home_free_queue\<close> of a task is the number of the node whose free queue it names.
  The table of node pools, the thread handles and the steal order are addresses with the entries
  stored there; an access through a null address is recorded as a fault.

  \<^verbatim>\<open>qsort\<close> is a parameter: the C standard leaves the order of equal elements open.
\<close>

record nkit_task =
  tk_func :: ptr
  tk_arg :: ptr
  tk_home :: nat

record nkit_node_pool =
  np_node_id :: int
  np_capacity :: u32
  np_task_queue :: "nkit_deque option"
  np_free_queue :: "nkit_ring option"
  np_task_array :: ptr
  np_threads :: "ptr \<times> u64 option list"
  np_num_threads :: int
  np_threads_started :: nat
  np_steal_order :: "ptr \<times> int list"

record nkit_pool =
  tp_addr :: ptr
  tp_num_nodes :: int
  tp_node_pools :: "ptr \<times> nkit_node_pool list"
  tp_stop :: bool

type_synonym task_mem = "ptr \<Rightarrow> nkit_task"

definition sizeof_task :: u64 where
  "sizeof_task = 24"

definition sizeof_node_pool :: u64 where
  "sizeof_node_pool = 64"

definition sizeof_pool :: u64 where
  "sizeof_pool = 24"

definition task_array_bytes :: "u32 \<Rightarrow> u64" where
  "task_array_bytes cap = sizeof_task * ucast cap"

definition EAGAIN :: int where
  "EAGAIN = 11"

definition nkit_backoff :: "int \<Rightarrow> os \<Rightarrow> int \<times> os" where
  "nkit_backoff spin_count w =
    (spin_count + 1,
     if spin_count < 2000 then w
     else if spin_count < 5000 then os_do (Thread_call Sched_yield) w
     else os_do (Thread_call (Usleep 1000)) w)"

definition next_power_of_2_u32 :: "u32 \<Rightarrow> u32" where
  "next_power_of_2_u32 v0 =
    (let v1 = v0 - 1; v2 = v1 OR drop_bit 1 v1; v3 = v2 OR drop_bit 2 v2; v4 = v3 OR drop_bit 4 v3;
         v5 = v4 OR drop_bit 8 v4; v6 = v5 OR drop_bit 16 v5 in v6 + 1)"

text \<open>The distances of a node, by which \<^verbatim>\<open>_cmp_distance\<close> compares.\<close>

definition node_distance :: "os \<Rightarrow> nat \<Rightarrow> int \<Rightarrow> int" where
  "node_distance w i j = sint (os_answer w (os_tick w) (Numa_call (Distance (int i) j)))"

definition task_addr :: "ptr \<Rightarrow> nat \<Rightarrow> ptr" where
  "task_addr base j = base + of_nat j * sizeof_task"

definition zero_node_pool :: nkit_node_pool where
  "zero_node_pool = \<lparr>np_node_id = 0, np_capacity = 0, np_task_queue = None, np_free_queue = None, np_task_array = NULL,
     np_threads = (NULL, []), np_num_threads = 0, np_threads_started = 0, np_steal_order = (NULL, [])\<rparr>"

subsection \<open>Destruction\<close>

text \<open>The loop that joins the first \<open>started\<close> threads of a node.\<close>

fun join_threads :: "nat \<Rightarrow> u64 option list \<Rightarrow> os \<Rightarrow> os" where
  "join_threads 0 ths w = w"
| "join_threads (Suc n) [] w = os_invalid w"
| "join_threads (Suc n) (None # ths) w = os_invalid w"
| "join_threads (Suc n) (Some t # ths) w = join_threads n ths (os_do (Thread_call (Pthread_join t)) w)"

definition destroy_node_pool :: "nkit_node_pool \<Rightarrow> os \<Rightarrow> os" where
  "destroy_node_pool np w =
    (let w1 = join_threads (np_threads_started np) (snd (np_threads np)) w;
         w2 = nkit_deque_destroy (np_task_queue np) w1;
         w3 = nkit_ring_free (np_free_queue np) w2;
         w4 = os_numa_free (np_task_array np) (task_array_bytes (np_capacity np)) w3;
         w5 = os_free (fst (np_threads np)) w4 in
     os_free (fst (np_steal_order np)) w5)"

definition nkit_pool_destroy :: "nkit_pool option \<Rightarrow> os \<Rightarrow> os" where
  "nkit_pool_destroy h w =
    (case h of None \<Rightarrow> w
     | Some pool \<Rightarrow>
       os_free (tp_addr pool) (os_free (fst (tp_node_pools pool))
         (fold destroy_node_pool (take (nat (tp_num_nodes pool)) (snd (tp_node_pools pool))) w)))"

subsection \<open>Creation\<close>

fun populate_tasks :: "nat \<Rightarrow> ptr \<Rightarrow> nat list \<Rightarrow> nkit_ring \<Rightarrow> task_mem \<Rightarrow> (nkit_ring \<times> task_mem) option" where
  "populate_tasks home base [] ring m = Some (ring, m)"
| "populate_tasks home base (j # js) ring m =
    (let t = task_addr base j; m' = m(t := (m t)\<lparr>tk_home := home\<rparr>) in
     case nkit_ring_push ring t of None \<Rightarrow> None
     | Some (_, ring') \<Rightarrow> populate_tasks home base js ring' m')"

text \<open>The body of the first phase for one node; the flag is false when an allocation failed.\<close>

definition init_node_pool :: "((int \<Rightarrow> int) \<Rightarrow> int list \<Rightarrow> int list) \<Rightarrow> int \<Rightarrow> int \<Rightarrow> u32 \<Rightarrow> nat \<Rightarrow> task_mem \<Rightarrow> os \<Rightarrow>
    (bool \<times> nkit_node_pool \<times> task_mem \<times> os) option" where
  "init_node_pool qs num_nodes cpus_per_node cap i m w =
    (let np0 = zero_node_pool\<lparr>np_node_id := int i, np_num_threads := cpus_per_node, np_capacity := cap\<rparr> in
     case nkit_deque_create (int i) cap w of (dq, w1) \<Rightarrow>
     case nkit_ring_create (int i) (ucast cap) w1 of (ring, w2) \<Rightarrow>
     case os_numa_alloc (task_array_bytes cap) (int i) w2 of (arr, w3) \<Rightarrow>
     let np1 = np0\<lparr>np_task_queue := dq, np_free_queue := ring, np_task_array := arr\<rparr> in
     if dq = None \<or> ring = None \<or> arr = NULL then Some (False, np1, m, w3) else
     case populate_tasks i arr [0..<unat cap] (the ring) m of None \<Rightarrow> None
     | Some (ring', m') \<Rightarrow>
       case os_malloc (8 * word_of_int cpus_per_node) w3 of (th, w4) \<Rightarrow>
       let np2 = np1\<lparr>np_free_queue := Some ring', np_threads := (th, replicate (nat cpus_per_node) None)\<rparr> in
       if num_nodes > 1 then
         (case os_malloc (4 * word_of_int (num_nodes - 1)) w4 of (so, w5) \<Rightarrow>
          Some (True, np2\<lparr>np_steal_order := (so, qs (node_distance w5 i) (filter (\<lambda>j. j \<noteq> int i) [0..num_nodes - 1]))\<rparr>, m',
                if so = NULL then os_invalid w5 else w5))
       else Some (True, np2, m', w4))"

text \<open>The first phase, over the nodes that are left; the nodes after a failure stay zero.\<close>

fun pool_fill :: "((int \<Rightarrow> int) \<Rightarrow> int list \<Rightarrow> int list) \<Rightarrow> int \<Rightarrow> int \<Rightarrow> u32 \<Rightarrow> nat list \<Rightarrow> nkit_node_pool list \<Rightarrow> task_mem \<Rightarrow> os \<Rightarrow>
    (bool \<times> nkit_node_pool list \<times> task_mem \<times> os) option" where
  "pool_fill qs n cpus cap [] nps m w = Some (True, nps, m, w)"
| "pool_fill qs n cpus cap (i # is) nps m w =
    (case init_node_pool qs n cpus cap i m w of None \<Rightarrow> None
     | Some (ok, np, m', w') \<Rightarrow>
       if ok then pool_fill qs n cpus cap is (nps[i := np]) m' w' else Some (False, nps[i := np], m', w'))"

text \<open>The second phase: the threads of a node, then of all nodes.\<close>

fun start_threads :: "ptr \<Rightarrow> nat list \<Rightarrow> nkit_node_pool \<Rightarrow> os \<Rightarrow> nkit_node_pool \<times> os" where
  "start_threads arg [] np w = (np, w)"
| "start_threads arg (t # ts) np w =
    (if fst (np_threads np) = NULL then (np, os_invalid w) else
     case os_ask_int (Thread_call (Pthread_create arg)) w of (rc, w1) \<Rightarrow>
     if rc = 0 then
       (case os_ask (Thread_call (Pthread_tid arg)) w1 of (tid, w2) \<Rightarrow>
        start_threads arg ts (np\<lparr>np_threads := (fst (np_threads np), (snd (np_threads np))[t := Some tid]),
          np_threads_started := Suc (np_threads_started np)\<rparr>) w2)
     else start_threads arg ts np w1)"

fun start_all :: "ptr \<Rightarrow> nat list \<Rightarrow> nkit_node_pool list \<Rightarrow> os \<Rightarrow> nkit_node_pool list \<times> os" where
  "start_all tab [] nps w = (nps, w)"
| "start_all tab (i # is) nps w =
    (case start_threads (tab + of_nat i * sizeof_node_pool) [0..<nat (np_num_threads (nps ! i))] (nps ! i) w of (np, w1) \<Rightarrow>
     start_all tab is (nps[i := np]) w1)"

definition pool_ring_capacity :: "int \<Rightarrow> u32" where
  "pool_ring_capacity cpus_per_node =
    (let c = next_power_of_2_u32 (word_of_int (cpus_per_node * 1024)) in if c < 1024 then 1024 else c)"

text \<open>
  A division by zero nodes and the first write through a table that was not allocated are faults.
\<close>

definition nkit_pool_create :: "((int \<Rightarrow> int) \<Rightarrow> int list \<Rightarrow> int list) \<Rightarrow> task_mem \<Rightarrow> os \<Rightarrow> (nkit_pool option \<times> task_mem \<times> os) option" where
  "nkit_pool_create qs m w =
    (case os_ask_int Numa_available w of (avail, w1) \<Rightarrow>
     if avail < 0 then Some (None, m, w1) else
     case os_malloc sizeof_pool w1 of (p, w2) \<Rightarrow>
     if p = NULL then Some (None, m, w2) else
     case os_ask_int Numa_max_node w2 of (max_node, w3) \<Rightarrow>
     let num_nodes = max_node + 1 in
     case os_calloc (word_of_int num_nodes) sizeof_node_pool w3 of (tab, w4) \<Rightarrow>
     case os_ask_int (Numa_call Num_configured_cpus) w4 of (total_cpus, w5) \<Rightarrow>
     let cpus0 = total_cpus sdiv num_nodes; cpus_per_node = (if cpus0 = 0 then 1 else cpus0);
         cap = pool_ring_capacity cpus_per_node; nodes = [0..<nat num_nodes] in
     if num_nodes = 0 \<or> (tab = NULL \<and> 0 < num_nodes) then Some (None, m, os_invalid w5) else
     case pool_fill qs num_nodes cpus_per_node cap nodes (replicate (nat num_nodes) zero_node_pool) m w5 of
       None \<Rightarrow> None
     | Some (ok, nps, m', w6) \<Rightarrow>
       let pool = \<lparr>tp_addr = p, tp_num_nodes = num_nodes, tp_node_pools = (tab, nps), tp_stop = False\<rparr> in
       if \<not> ok then Some (None, m', nkit_pool_destroy (Some pool) w6) else
       case start_all tab nodes nps w6 of (nps', w7) \<Rightarrow> Some (Some (pool\<lparr>tp_node_pools := (tab, nps')\<rparr>), m', w7))"

subsection \<open>Submission\<close>

partial_function (option) submit_push :: "nkit_deque \<Rightarrow> ptr \<Rightarrow> int \<Rightarrow> os \<Rightarrow> (nkit_deque \<times> os) option" where
  "submit_push dq t spins w =
    (case nkit_deque_push dq t w of (b, dq', w') \<Rightarrow>
     if b then Some (dq', w') else
     case nkit_backoff spins w' of (spins', w'') \<Rightarrow> submit_push dq' t spins' w'')"

definition set_node :: "nkit_pool \<Rightarrow> nat \<Rightarrow> nkit_node_pool \<Rightarrow> nkit_pool" where
  "set_node pool i np = pool\<lparr>tp_node_pools := (fst (tp_node_pools pool), (snd (tp_node_pools pool))[i := np])\<rparr>"

definition node_pool :: "nkit_pool \<Rightarrow> nat \<Rightarrow> nkit_node_pool" where
  "node_pool pool i = snd (tp_node_pools pool) ! i"

definition nkit_pool_submit_to_node :: "nkit_pool \<Rightarrow> int \<Rightarrow> ptr \<Rightarrow> ptr \<Rightarrow> task_mem \<Rightarrow> os \<Rightarrow>
    (int \<times> int option \<times> nkit_pool \<times> task_mem \<times> os) option" where
  "nkit_pool_submit_to_node pool target_node func arg m w =
    (let i = nat (if target_node < 0 \<or> target_node \<ge> tp_num_nodes pool then 0 else target_node); np = node_pool pool i in
     case nkit_ring_pop (the (np_free_queue np)) of
       None \<Rightarrow> None
     | Some (None, ring) \<Rightarrow> Some (- 1, Some EAGAIN, set_node pool i (np\<lparr>np_free_queue := Some ring\<rparr>), m, w)
     | Some (Some task, ring) \<Rightarrow>
       let m' = m(task := (m task)\<lparr>tk_func := func, tk_arg := arg\<rparr>) in
       map_option (\<lambda>(dq, w'). (0, None, set_node pool i (np\<lparr>np_free_queue := Some ring, np_task_queue := Some dq\<rparr>), m', w'))
         (submit_push (the (np_task_queue np)) task 0 w))"

definition nkit_pool_submit_local :: "nkit_pool \<Rightarrow> ptr \<Rightarrow> ptr \<Rightarrow> task_mem \<Rightarrow> os \<Rightarrow>
    (int \<times> int option \<times> nkit_pool \<times> task_mem \<times> os) option" where
  "nkit_pool_submit_local pool func data_ptr m w =
    (case os_ask_int (Numa_call (Move_pages data_ptr)) w of (rc, w1) \<Rightarrow>
     case os_ask_int (Numa_call (Move_pages_status data_ptr)) w1 of (status, w2) \<Rightarrow>
     nkit_pool_submit_to_node pool (if rc = 0 \<and> status \<ge> 0 then status else 0) func data_ptr m w2)"

subsection \<open>The worker\<close>

partial_function (option) give_back :: "nkit_ring \<Rightarrow> ptr \<Rightarrow> nkit_ring option" where
  "give_back ring t =
    (case nkit_ring_push ring t of None \<Rightarrow> None
     | Some (b, ring') \<Rightarrow> if b then Some ring' else give_back ring' t)"

text \<open>The steal loop over the targets that are left.\<close>

fun steal_loop :: "nkit_pool \<Rightarrow> int list \<Rightarrow> ptr option \<times> nkit_pool" where
  "steal_loop pool [] = (None, pool)"
| "steal_loop pool (target # ts) =
    (let i = nat target; np = node_pool pool i in
     case nkit_deque_steal (the (np_task_queue np)) of (x, dq) \<Rightarrow>
     let pool' = set_node pool i (np\<lparr>np_task_queue := Some dq\<rparr>) in
     if x \<noteq> None then (x, pool') else steal_loop pool' ts)"

text \<open>The part of an iteration of \<^verbatim>\<open>_nkit_worker\<close> on node \<open>i\<close> that looks for a task.\<close>

definition worker_take :: "nkit_pool \<Rightarrow> nat \<Rightarrow> ptr option \<times> nkit_pool" where
  "worker_take pool i =
    (let np = node_pool pool i in
     case nkit_deque_pop (the (np_task_queue np)) of (x, dq) \<Rightarrow>
     let pool1 = set_node pool i (np\<lparr>np_task_queue := Some dq\<rparr>) in
     if x \<noteq> None then (x, pool1)
     else if tp_num_nodes pool1 > 1 \<and> fst (np_steal_order np) \<noteq> NULL
       then steal_loop pool1 (take (nat (tp_num_nodes pool1 - 1)) (snd (np_steal_order np)))
       else (None, pool1))"

definition worker_return :: "nkit_pool \<Rightarrow> task_mem \<Rightarrow> ptr \<Rightarrow> nkit_pool option" where
  "worker_return pool m task =
    (let i = tk_home (m task); np = node_pool pool i in
     map_option (\<lambda>ring. set_node pool i (np\<lparr>np_free_queue := Some ring\<rparr>)) (give_back (the (np_free_queue np)) task))"

text \<open>
  One iteration. The task's function is a parameter: \<open>run\<close> is what a call of it does to the
  platform, given its address and its argument.
\<close>

definition nkit_worker_round :: "(ptr \<Rightarrow> ptr \<Rightarrow> os \<Rightarrow> os) \<Rightarrow> nkit_pool \<Rightarrow> task_mem \<Rightarrow> nat \<Rightarrow> int \<Rightarrow> os \<Rightarrow>
    (int \<times> nkit_pool \<times> os) option" where
  "nkit_worker_round run pool m i idle_spins w =
    (case worker_take pool i of
       (None, pool') \<Rightarrow> (case nkit_backoff idle_spins w of (spins, w') \<Rightarrow> Some (spins, pool', w'))
     | (Some task, pool') \<Rightarrow>
       map_option (\<lambda>pool''. (0, pool'', run (tk_func (m task)) (tk_arg (m task)) w)) (worker_return pool' m task))"

text \<open>
  The thread: \<open>others n\<close> is what the rest of the program does to the pool between its iterations
  \<open>n\<close> and \<open>n + 1\<close>.
\<close>

partial_function (option) nkit_worker_loop :: "(ptr \<Rightarrow> ptr \<Rightarrow> os \<Rightarrow> os) \<Rightarrow>
    (nat \<Rightarrow> nkit_pool \<Rightarrow> task_mem \<Rightarrow> os \<Rightarrow> nkit_pool \<times> task_mem \<times> os) \<Rightarrow> nkit_pool \<Rightarrow> task_mem \<Rightarrow> nat \<Rightarrow> nat \<Rightarrow> int \<Rightarrow> os \<Rightarrow>
    (nkit_pool \<times> task_mem \<times> os) option" where
  "nkit_worker_loop run others pool m i n idle_spins w =
    (if tp_stop pool then Some (pool, m, w) else
     case nkit_worker_round run pool m i idle_spins w of None \<Rightarrow> None
     | Some (spins, pool1, w1) \<Rightarrow>
       case others n pool1 m w1 of (pool2, m2, w2) \<Rightarrow> nkit_worker_loop run others pool2 m2 i (Suc n) spins w2)"

definition nkit_worker :: "(ptr \<Rightarrow> ptr \<Rightarrow> os \<Rightarrow> os) \<Rightarrow>
    (nat \<Rightarrow> nkit_pool \<Rightarrow> task_mem \<Rightarrow> os \<Rightarrow> nkit_pool \<times> task_mem \<times> os) \<Rightarrow> nkit_pool \<Rightarrow> task_mem \<Rightarrow> nat \<Rightarrow> os \<Rightarrow>
    (nkit_pool \<times> task_mem \<times> os) option" where
  "nkit_worker run others pool m i w =
    (case nkit_pin_thread_to_node (np_node_id (node_pool pool i)) w of (_, _, w1) \<Rightarrow>
     nkit_worker_loop run others pool m i 0 0 w1)"

subsection \<open>The rounding of the capacity\<close>

lemma next_power_of_2_u32_smear:
  "\<exists>w. next_power_of_2_u32 v = w + 1 \<and> (\<forall>i. bit w i \<longleftrightarrow> (\<exists>d < LENGTH(32). bit (v - 1) (i + d)))"
proof -
  let ?u = "v - 1"
  let ?a = "?u OR drop_bit 1 ?u"
  let ?b = "?a OR drop_bit 2 ?a"
  let ?c = "?b OR drop_bit 4 ?b"
  let ?d = "?c OR drop_bit 8 ?c"
  let ?e = "?d OR drop_bit 16 ?d"
  have 0: "bit ?u i \<longleftrightarrow> (\<exists>d < 1. bit ?u (i + d))" for i by simp
  have 1: "bit ?a i \<longleftrightarrow> (\<exists>d < 2. bit ?u (i + d))" for i using bit_smear [OF 0] by simp
  have 2: "bit ?b i \<longleftrightarrow> (\<exists>d < 4. bit ?u (i + d))" for i using bit_smear [OF 1] by simp
  have 3: "bit ?c i \<longleftrightarrow> (\<exists>d < 8. bit ?u (i + d))" for i using bit_smear [OF 2] by simp
  have 4: "bit ?d i \<longleftrightarrow> (\<exists>d < 16. bit ?u (i + d))" for i using bit_smear [OF 3] by simp
  have 5: "bit ?e i \<longleftrightarrow> (\<exists>d < LENGTH(32). bit ?u (i + d))" for i using bit_smear [OF 4] by simp
  have "next_power_of_2_u32 v = ?e + 1" by (simp only: next_power_of_2_u32_def Let_def)
  with 5 show ?thesis by blast
qed

lemma next_power_of_2_u32_least:
  assumes "v \<noteq> 0" and "unat v \<le> 2 ^ 31"
  shows "\<exists>k < 32. next_power_of_2_u32 v = 2 ^ k \<and> unat v \<le> 2 ^ k \<and> (\<forall>j. unat v \<le> 2 ^ j \<longrightarrow> k \<le> j)"
proof -
  obtain w where w: "next_power_of_2_u32 v = w + 1" "\<And>i. bit w i \<longleftrightarrow> (\<exists>d < LENGTH(32). bit (v - 1) (i + d))"
    using next_power_of_2_u32_smear by blast
  from smeared_plus_1 [OF w(2)] assms show ?thesis by (simp add: w(1))
qed

lemma next_power_of_2_u32_wraps:
  assumes "v = 0 \<or> 2 ^ 31 < unat v"
  shows "next_power_of_2_u32 v = 0"
proof -
  obtain w where w: "next_power_of_2_u32 v = w + 1" "\<And>i. bit w i \<longleftrightarrow> (\<exists>d < LENGTH(32). bit (v - 1) (i + d))"
    using next_power_of_2_u32_smear by blast
  have "2 ^ 31 \<le> unat (v - 1)"
  proof (cases "v = 0")
    case True
    then have "v - 1 = - 1" by simp
    then show ?thesis by (simp only: unsigned_minus_1_eq_mask mask_eq_exp_minus_1) simp
  qed (use assms in \<open>simp add: unat_minus_one\<close>)
  then have "w = mask 32"
    using smeared_eq_mask [OF w(2), of 32] unat_less_exp_len [of "v - 1"] by simp
  then show ?thesis using w(1) by (simp add: mask_eq_exp_minus_1)
qed

lemma pool_ring_capacity_pow2: "\<exists>k. 10 \<le> k \<and> k < 32 \<and> pool_ring_capacity cpus = 2 ^ k"
proof -
  let ?v = "word_of_int (cpus * 1024) :: u32"
  have ten: "\<exists>k. 10 \<le> k \<and> k < 32 \<and> (1024 :: u32) = 2 ^ k" by (rule exI [of _ 10]) simp
  show ?thesis
  proof (cases "?v = 0 \<or> 2 ^ 31 < unat ?v \<or> next_power_of_2_u32 ?v < 1024")
    case True
    then show ?thesis using ten next_power_of_2_u32_wraps [of ?v] by (auto simp: pool_ring_capacity_def Let_def)
  next
    case False
    then obtain k where k: "k < 32" "next_power_of_2_u32 ?v = 2 ^ k" using next_power_of_2_u32_least [of ?v] by auto
    have "(2::nat) ^ 10 \<le> 2 ^ k"
      using False k unat_exp [of k, where ?'a = 32] by (simp add: word_less_nat_alt not_less)
    then have "10 \<le> k" by (rule power_le_imp_le_exp [rotated]) simp
    then show ?thesis using k False by (auto simp: pool_ring_capacity_def Let_def)
  qed
qed

subsection \<open>What a pool owns\<close>

definition node_owns :: "nkit_node_pool \<Rightarrow> os_res multiset" where
  "node_owns np = opt_owns deque_owns (np_task_queue np) + opt_owns ring_owns (np_free_queue np) +
     numa_owns (np_task_array np) (task_array_bytes (np_capacity np)) + heap_owns (fst (np_threads np)) +
     heap_owns (fst (np_steal_order np))"

definition node_valid :: "nkit_node_pool \<Rightarrow> bool" where
  "node_valid np \<longleftrightarrow> pred_option deque_valid (np_task_queue np) \<and> pred_option ring_valid (np_free_queue np)"

text \<open>
  The destructor joins the first \<open>np_threads_started\<close> handles. They are not all valid when a
  \<^verbatim>\<open>pthread_create\<close> failed before one that succeeded.
\<close>

definition handles_ok :: "nkit_node_pool \<Rightarrow> bool" where
  "handles_ok np \<longleftrightarrow> np_threads_started np \<le> length (snd (np_threads np)) \<and>
     None \<notin> set (take (np_threads_started np) (snd (np_threads np)))"

lemma join_threads_ledger:
  "ledger (join_threads n ths w) = (os_live w, os_fault w \<or> \<not> (n \<le> length ths \<and> None \<notin> set (take n ths)))"
  by (induction n ths w rule: join_threads.induct) (simp_all add: ledger_def os_simps)

lemma ring_free_owns:
  assumes "pred_option ring_valid r" and "os_live w = R + opt_owns ring_owns r"
  shows "ledger (nkit_ring_free r w) = (R, os_fault w)"
  using assms ring.destroy_owned [of _ w] by (cases r) (simp_all add: opt_owns_def ledger_def nkit_ring_free_def)

lemma deque_destroy_owns:
  assumes "pred_option deque_valid d" and "os_live w = R + opt_owns deque_owns d"
  shows "ledger (nkit_deque_destroy d w) = (R, os_fault w)"
  using assms deque_destroy_owned [of _ w R] by (cases d) (simp_all add: opt_owns_def ledger_def nkit_deque_destroy_def)

lemma destroy_node_owned:
  assumes "node_valid np" and "os_live w = R + node_owns np"
  shows "ledger (destroy_node_pool np w) = (R, os_fault w \<or> \<not> handles_ok np)"
proof -
  let ?d = "opt_owns deque_owns (np_task_queue np)" and ?r = "opt_owns ring_owns (np_free_queue np)"
  let ?a = "numa_owns (np_task_array np) (task_array_bytes (np_capacity np))"
  let ?t = "heap_owns (fst (np_threads np))" and ?s = "heap_owns (fst (np_steal_order np))"
  define f where "f \<longleftrightarrow> os_fault w \<or> \<not> handles_ok np"
  define w1 where "w1 = join_threads (np_threads_started np) (snd (np_threads np)) w"
  have w1: "ledger w1 = (R + ?s + ?t + ?a + ?r + ?d, f)"
    using assms(2) by (simp add: w1_def f_def join_threads_ledger handles_ok_def node_owns_def ac_simps)
  define w2 where "w2 = nkit_deque_destroy (np_task_queue np) w1"
  have w2: "ledger w2 = (R + ?s + ?t + ?a + ?r, f)"
    using deque_destroy_owns [of "np_task_queue np" w1] w1 assms(1) by (simp add: w2_def ledger_def node_valid_def)
  define w3 where "w3 = nkit_ring_free (np_free_queue np) w2"
  have w3: "ledger w3 = (R + ?s + ?t + ?a, f)"
    using ring_free_owns [of "np_free_queue np" w2] w2 assms(1) by (simp add: w3_def ledger_def node_valid_def)
  define w4 where "w4 = os_numa_free (np_task_array np) (task_array_bytes (np_capacity np)) w3"
  have w4: "ledger w4 = (R + ?s + ?t, f)" using numa_free_owns [of w3 "R + ?s + ?t"] w3 by (simp add: w4_def ledger_def)
  define w5 where "w5 = os_free (fst (np_threads np)) w4"
  have w5: "ledger w5 = (R + ?s, f)" using free_owns [of w4 "R + ?s"] w4 by (simp add: w5_def ledger_def)
  have "destroy_node_pool np w = os_free (fst (np_steal_order np)) w5"
    by (simp add: destroy_node_pool_def Let_def w1_def w2_def w3_def w4_def w5_def)
  then show ?thesis using free_owns [of w5 R] w5 by (simp add: ledger_def f_def)
qed

lemma destroy_nodes_owned:
  assumes "\<forall>np \<in> set nps. node_valid np" and "os_live w = R + (\<Sum>np\<leftarrow>nps. node_owns np)"
  shows "ledger (fold destroy_node_pool nps w) = (R, os_fault w \<or> (\<exists>np \<in> set nps. \<not> handles_ok np))"
  using assms
proof (induction nps arbitrary: w)
  case (Cons np nps)
  have "ledger (destroy_node_pool np w) = (R + (\<Sum>np\<leftarrow>nps. node_owns np), os_fault w \<or> \<not> handles_ok np)"
    using Cons.prems by (intro destroy_node_owned) (simp_all add: ac_simps)
  then show ?case using Cons.IH [of "destroy_node_pool np w"] Cons.prems(1) by (auto simp: ledger_def)
qed (simp add: ledger_def)

definition pool_owns :: "nkit_pool \<Rightarrow> os_res multiset" where
  "pool_owns pool = heap_owns (tp_addr pool) + heap_owns (fst (tp_node_pools pool)) +
     (\<Sum>np\<leftarrow>snd (tp_node_pools pool). node_owns np)"

definition pool_valid :: "nkit_pool \<Rightarrow> bool" where
  "pool_valid pool \<longleftrightarrow> length (snd (tp_node_pools pool)) = nat (tp_num_nodes pool) \<and>
     (\<forall>np \<in> set (snd (tp_node_pools pool)). node_valid np)"

lemma pool_destroy_owned:
  assumes "pool_valid pool" and "os_live w = R + pool_owns pool"
  shows "ledger (nkit_pool_destroy (Some pool) w) =
    (R, os_fault w \<or> (\<exists>np \<in> set (snd (tp_node_pools pool)). \<not> handles_ok np))"
proof -
  let ?p = "heap_owns (tp_addr pool)" and ?t = "heap_owns (fst (tp_node_pools pool))"
  define f where "f \<longleftrightarrow> os_fault w \<or> (\<exists>np \<in> set (snd (tp_node_pools pool)). \<not> handles_ok np)"
  define w1 where "w1 = fold destroy_node_pool (snd (tp_node_pools pool)) w"
  have w1: "ledger w1 = (R + ?p + ?t, f)" unfolding w1_def f_def
    using assms by (intro destroy_nodes_owned) (simp_all add: pool_valid_def pool_owns_def ac_simps)
  define w2 where "w2 = os_free (fst (tp_node_pools pool)) w1"
  have w2: "ledger w2 = (R + ?p, f)" using free_owns [of w1 "R + ?p"] w1 by (simp add: w2_def ledger_def)
  have "nkit_pool_destroy (Some pool) w = os_free (tp_addr pool) w2"
    using assms(1) by (simp add: nkit_pool_destroy_def w1_def w2_def pool_valid_def)
  then show ?thesis using free_owns [of w2 R] w2 by (simp add: ledger_def f_def)
qed

subsection \<open>Creation\<close>

definition task_addrs :: "nkit_node_pool \<Rightarrow> ptr list" where
  "task_addrs np = map (task_addr (np_task_array np)) [0..<unat (np_capacity np)]"

lemma populate_tasks_ok:
  assumes "ring_rep r q" and "length q + length js \<le> unat (rg_capacity r)"
  shows "\<exists>r'. populate_tasks home base js r m =
      Some (r', \<lambda>t. if t \<in> task_addr base ` set js then (m t)\<lparr>tk_home := home\<rparr> else m t) \<and>
    ring_rep r' (q @ map (task_addr base) js) \<and> unat (rg_capacity r') = unat (rg_capacity r) \<and> rg_arena r' = rg_arena r"
  using assms
proof (induction js arbitrary: r q m)
  case (Cons j js)
  let ?t = "task_addr base j"
  from Cons.prems have "length q < unat (rg_capacity r)" by simp
  from rq.push_ok [OF Cons.prems(1) this, of ?t] obtain r1 where r1: "nkit_ring_push r ?t = Some (True, r1)"
    "ring_rep r1 (q @ [?t])" "unat (rg_capacity r1) = unat (rg_capacity r)" by blast
  then have "length (q @ [?t]) + length js \<le> unat (rg_capacity r1)" using Cons.prems(2) by simp
  note IH = Cons.IH [OF r1(2) this, of "m(?t := (m ?t)\<lparr>tk_home := home\<rparr>)"]
  have "(\<lambda>t. if t \<in> task_addr base ` set js then ((m(?t := (m ?t)\<lparr>tk_home := home\<rparr>)) t)\<lparr>tk_home := home\<rparr>
      else (m(?t := (m ?t)\<lparr>tk_home := home\<rparr>)) t) =
    (\<lambda>t. if t \<in> task_addr base ` set (j # js) then (m t)\<lparr>tk_home := home\<rparr> else m t)"
    by (simp add: fun_eq_iff)
  from IH [unfolded this] show ?case using r1 ring_push_arena [OF r1(1)] by (simp add: Let_def fun_upd_def)
qed simp

lemma deque_create_answer: "os_answer (snd (nkit_deque_create node_id cap w)) = os_answer w"
  by (auto simp: nkit_deque_create_def deque_array_alloc_def os_prim_defs os_simps Let_def case_prod_beta split: option.split)

text \<open>A node whose queues are ready: all its task structures are in the free queue.\<close>

definition node_ready :: "nkit_node_pool \<Rightarrow> bool" where
  "node_ready np \<longleftrightarrow> np_task_array np \<noteq> NULL \<and>
     (\<exists>d. np_task_queue np = Some d \<and> deque_rep d [] \<and> da_size (dq_array d) = np_capacity np) \<and>
     (\<exists>r. np_free_queue np = Some r \<and> ring_rep r (task_addrs np) \<and> unat (rg_capacity r) = unat (np_capacity np))"

definition steal_order_ok :: "((int \<Rightarrow> int) \<Rightarrow> int list \<Rightarrow> int list) \<Rightarrow> int \<Rightarrow> nat \<Rightarrow> nkit_node_pool \<Rightarrow> bool" where
  "steal_order_ok qs n i np \<longleftrightarrow> n > 1 \<longrightarrow> fst (np_steal_order np) \<noteq> NULL \<and>
     (\<exists>key. snd (np_steal_order np) = qs key (filter (\<lambda>j. j \<noteq> int i) [0..n - 1]))"

lemma node_made:
  assumes "np_task_queue np = Some d" and "np_free_queue np = Some r" and "np_task_array np \<noteq> NULL"
    and "deque_valid d" and "deque_rep d []" and "da_size (dq_array d) = np_capacity np"
    and "ring_valid r" and "ring_rep r (task_addrs np)" and "unat (rg_capacity r) = unat (np_capacity np)"
  shows "node_valid np" and "node_ready np"
    and "node_owns np = deque_owns d + ring_owns r + numa_owns (np_task_array np) (task_array_bytes (np_capacity np)) +
      heap_owns (fst (np_threads np)) + heap_owns (fst (np_steal_order np))"
  using assms by (simp_all add: node_valid_def node_ready_def node_owns_def opt_owns_def)

text \<open>A platform on which the allocations that the constructor does not check succeed.\<close>

definition heap_ok :: "os \<Rightarrow> bool" where
  "heap_ok w \<longleftrightarrow> (\<forall>n k j. os_answer w n (Malloc k) \<noteq> NULL \<and> os_answer w n (Calloc j k) \<noteq> NULL) \<and>
     (\<forall>n. 0 \<le> sint (os_answer w n Numa_max_node))"

lemma heap_ok_cong: "os_answer w' = os_answer w \<Longrightarrow> heap_ok w' = heap_ok w"
  by (simp add: heap_ok_def)

lemma heap_ok_malloc: "heap_ok w \<Longrightarrow> os_malloc n w = (p, w') \<Longrightarrow> p \<noteq> NULL"
  using os_alloc_simps(1) [of "Malloc n" Heap NULL w] by (auto simp: heap_ok_def os_malloc_def)

lemma heap_ok_calloc: "heap_ok w \<Longrightarrow> os_calloc n k w = (p, w') \<Longrightarrow> p \<noteq> NULL"
  using os_alloc_simps(1) [of "Calloc n k" Heap NULL w] by (auto simp: heap_ok_def os_calloc_def)

text \<open>A platform on which, moreover, no deque, ring or task array fails.\<close>

definition generous :: "os \<Rightarrow> bool" where
  "generous w \<longleftrightarrow> heap_ok w \<and> (\<forall>n. 0 \<le> sint (os_answer w n Numa_available)) \<and>
     (\<forall>n b i. os_answer w n (Numa_alloc_onnode b i) \<noteq> NULL) \<and>
     (\<forall>v i k. os_answer v = os_answer w \<longrightarrow> 10 \<le> k \<longrightarrow> k < 32 \<longrightarrow> fst (nkit_ring_create i (2 ^ k) v) \<noteq> None)"

lemma generous_cong: "os_answer w' = os_answer w \<Longrightarrow> generous w' = generous w"
  by (simp add: generous_def heap_ok_def)

lemma deque_create_generous:
  assumes "generous w" and "k < 32"
  shows "fst (nkit_deque_create i (2 ^ k) w) \<noteq> None"
proof -
  have "(2 ^ k :: u32) \<noteq> 0 \<and> (2 ^ k :: u32) AND (2 ^ k - 1) = 0"
    using pow2_iff_and_pred [of "2 ^ k :: u32"] assms(2) by auto
  then show ?thesis using assms(1)
    by (simp add: nkit_deque_create_def deque_array_alloc_def os_numa_alloc_def os_simps case_prod_beta generous_def not_less)
qed

lemma init_node_pool_ok:
  assumes "mmap_ok w"
  obtains ok np m' w' where "init_node_pool qs n cpus cap i m w = Some (ok, np, m', w')"
    "os_answer w' = os_answer w" "node_valid np" "np_threads_started np = 0" "np_capacity np = cap" "length (snd (np_threads np)) = (if ok then nat cpus else 0)"
    "np_num_threads np = cpus" "os_live w' = os_live w + node_owns np" "os_fault w \<longrightarrow> os_fault w'"
    "ok \<longrightarrow> node_ready np \<and> (os_fault w' \<or> steal_order_ok qs n i np) \<and>
      m' = (\<lambda>t. if t \<in> set (task_addrs np) then (m t)\<lparr>tk_home := i\<rparr> else m t)"
    "\<not> ok \<longrightarrow> m' = m \<and> os_fault w' = os_fault w"
    "heap_ok w \<longrightarrow> os_fault w' = os_fault w \<and> (ok \<longrightarrow> fst (np_threads np) \<noteq> NULL)"
    "generous w \<and> (\<exists>k. 10 \<le> k \<and> k < 32 \<and> cap = 2 ^ k) \<longrightarrow> ok"
    "\<exists>t. np_task_array np = os_answer w t (Numa_alloc_onnode (task_array_bytes cap) (int i))"
proof -
  obtain dq w1 where 1: "nkit_deque_create (int i) cap w = (dq, w1)" by fastforce
  obtain ring w2 where 2: "nkit_ring_create (int i) (ucast cap) w1 = (ring, w2)" by fastforce
  obtain arr w3 where 3: "os_numa_alloc (task_array_bytes cap) (int i) w2 = (arr, w3)" by fastforce
  have a1: "os_answer w1 = os_answer w" using deque_create_answer [of "int i" cap w] 1 by simp
  from mmap_ok_cong [OF this] have m1: "mmap_ok w1" using assms by simp
  have l1: "ledger w1 = (os_live w + opt_owns deque_owns dq, os_fault w)" "pred_option deque_valid dq"
    "\<And>d. dq = Some d \<Longrightarrow> deque_rep d [] \<and> da_size (dq_array d) = cap"
    using 1 by (cases rule: deque_create_cases; simp add: opt_owns_def ledger_def)+
  have l2: "ledger w2 = (os_live w1 + opt_owns ring_owns ring, os_fault w1)" "pred_option ring_valid ring"
    using 2 ring.create_None [OF m1] ring.create_Some [OF m1] by (cases ring; simp add: opt_owns_def ledger_def)+
  note l3 = numa_alloc_owns [OF 3]
  have a3: "os_answer w3 = os_answer w" using nkit_ring_create_answer [of "int i" "ucast cap" w1] 2 a1 l3(2) by simp
  have arrt: "\<exists>t. arr = os_answer w t (Numa_alloc_onnode (task_array_bytes cap) (int i))"
    using 3 a3 l3(2) os_alloc_simps(1) [of "Numa_alloc_onnode (task_array_bytes cap) (int i)" "\<lambda>p. Numa p (task_array_bytes cap)" NULL w2]
    by (metis fst_conv os_numa_alloc_def)
  have gen: "dq \<noteq> None" "ring \<noteq> None" "arr \<noteq> NULL" if "generous w" "10 \<le> k" "k < 32" "cap = 2 ^ k" for k
  proof -
    show "dq \<noteq> None" using deque_create_generous [of w k "int i"] that 1 by auto
    have "(ucast (2 ^ k :: u32) :: u64) = 2 ^ k"
      using that unat_exp [of k, where ?'a = 32] unat_exp [of k, where ?'a = 64] by (intro word_unat_eq_iff [THEN iffD2]) (simp add: unat_ucast_u32)
    moreover have "fst (nkit_ring_create (int i) (2 ^ k) w1) \<noteq> None" using that a1 unfolding generous_def by blast
    ultimately show "ring \<noteq> None" using 2 that(4) by simp
    show "arr \<noteq> NULL" using that(1) arrt unfolding generous_def by metis
  qed
  let ?np0 = "zero_node_pool\<lparr>np_node_id := int i, np_num_threads := cpus, np_capacity := cap\<rparr>"
  let ?np1 = "?np0\<lparr>np_task_queue := dq, np_free_queue := ring, np_task_array := arr\<rparr>"
  show thesis
  proof (cases "dq = None \<or> ring = None \<or> arr = NULL")
    case True
    have i: "init_node_pool qs n cpus cap i m w = Some (False, ?np1, m, w3)"
      using True by (simp add: init_node_pool_def 1 2 3 Let_def)
    have "os_live w3 = os_live w + node_owns ?np1" "os_fault w3 = os_fault w" "node_valid ?np1"
      using l1 l2 l3(1) by (simp_all add: node_valid_def node_owns_def zero_node_pool_def heap_owns_def ledger_def)
    moreover have "\<not> (generous w \<and> (\<exists>k. 10 \<le> k \<and> k < 32 \<and> cap = 2 ^ k))" using gen True by blast
    ultimately show ?thesis using that [OF i a3] arrt by (simp add: zero_node_pool_def)
  next
    case False
    then obtain d r where dr: "dq = Some d" "ring = Some r" and arr: "arr \<noteq> NULL" by auto
    have rr: "ring_rep r []" "unat (rg_capacity r) = unat cap"
      using ring_create_rep [OF m1] 2 dr(2) by (auto simp: unat_ucast_u32)
    have "length [] + length [0..<unat cap] \<le> unat (rg_capacity r)" using rr by simp
    from populate_tasks_ok [OF rr(1) this, of i arr m] obtain r' m' where
      r': "populate_tasks i arr [0..<unat cap] r m = Some (r', m')" "ring_rep r' (map (task_addr arr) [0..<unat cap])"
        "unat (rg_capacity r') = unat cap" "rg_arena r' = rg_arena r"
      and m': "m' = (\<lambda>t. if t \<in> set (map (task_addr arr) [0..<unat cap]) then (m t)\<lparr>tk_home := i\<rparr> else m t)"
      using rr(2) by auto
    have own: "ring_owns r' = ring_owns r" "ring_valid r'"
      using r'(4) l2(2) dr(2) by (simp_all add: ring_owns_def ring_valid_def)
    obtain th w4 where 4: "os_malloc (8 * word_of_int cpus) w3 = (th, w4)" by fastforce
    note l4 = malloc_owns [OF 4]
    define np2 where "np2 = ?np1\<lparr>np_free_queue := Some r', np_threads := (th, replicate (nat cpus) None)\<rparr>"
    have live4: "os_live w4 = os_live w + (deque_owns d + ring_owns r' + numa_owns arr (task_array_bytes cap) + heap_owns th)"
      "os_fault w4 = os_fault w" using l1(1) l2(1) l3(1) l4(1) own(1) dr by (simp_all add: ledger_def opt_owns_def)
    have d: "deque_valid d" "deque_rep d []" "da_size (dq_array d) = cap" using l1 dr by simp_all
    have np: "node_valid (np2\<lparr>np_steal_order := so\<rparr>)" "node_ready (np2\<lparr>np_steal_order := so\<rparr>)"
      "node_owns (np2\<lparr>np_steal_order := so\<rparr>) =
         deque_owns d + ring_owns r' + numa_owns arr (task_array_bytes cap) + heap_owns th + heap_owns (fst so)"
      "np_threads_started (np2\<lparr>np_steal_order := so\<rparr>) = 0" "np_capacity (np2\<lparr>np_steal_order := so\<rparr>) = cap"
      "np_task_array (np2\<lparr>np_steal_order := so\<rparr>) = arr" "length (snd (np_threads (np2\<lparr>np_steal_order := so\<rparr>))) = nat cpus" "np_num_threads (np2\<lparr>np_steal_order := so\<rparr>) = cpus"
      "set (task_addrs (np2\<lparr>np_steal_order := so\<rparr>)) = set (map (task_addr arr) [0..<unat cap])" for so
      using node_made [where np = "np2\<lparr>np_steal_order := so\<rparr>" and d = d and r = r'] d dr arr r' own(2) m'
      by (simp_all add: np2_def task_addrs_def zero_node_pool_def)
    have a4: "os_answer w4 = os_answer w" using a3 l4(2) by simp
    have th: "heap_ok w \<longrightarrow> fst (np_threads (np2\<lparr>np_steal_order := so\<rparr>)) \<noteq> NULL" for so
      using heap_ok_malloc [OF _ 4] heap_ok_cong [OF a3] by (simp add: np2_def)
    show ?thesis
    proof (cases "n > 1")
      case True
      obtain so w5 where 5: "os_malloc (4 * word_of_int (n - 1)) w4 = (so, w5)" by fastforce
      note l5 = malloc_owns [OF 5]
      define so' where "so' = (so, qs (node_distance w5 i) (filter (\<lambda>j. j \<noteq> int i) [0..n - 1]))"
      define w6 where "w6 = (if so = NULL then os_invalid w5 else w5)"
      have i: "init_node_pool qs n cpus cap i m w = Some (True, np2\<lparr>np_steal_order := so'\<rparr>, m', w6)"
        using True dr arr by (simp add: init_node_pool_def 1 2 3 4 5 5 [simplified] Let_def r'(1) np2_def so'_def w6_def)
      have w6: "os_answer w6 = os_answer w" "os_live w6 = os_live w4 + heap_owns so" "os_fault w6 = (os_fault w4 \<or> so = NULL)"
        using a4 l5 by (simp_all add: w6_def ledger_def os_simps)
      have "os_fault w6 \<or> steal_order_ok qs n i (np2\<lparr>np_steal_order := so'\<rparr>)"
        unfolding w6(3) steal_order_ok_def so'_def by auto
      moreover have "so \<noteq> NULL" if "heap_ok w" using heap_ok_malloc [OF _ 5] heap_ok_cong [OF a4] that by simp
      ultimately show ?thesis using that [OF i w6(1) np(1) np(4) np(5)] np(2,3,6-9) w6 live4 m' th arrt
        by (simp add: so'_def ac_simps)
    next
      case n: False
      have i: "init_node_pool qs n cpus cap i m w = Some (True, np2\<lparr>np_steal_order := (NULL, [])\<rparr>, m', w4)"
        using n dr arr by (simp add: init_node_pool_def 1 2 3 4 Let_def r'(1) np2_def zero_node_pool_def)
      show ?thesis using that [OF i a4 np(1) np(4) np(5)] np(2,3,6-9) live4 m' n th arrt
        by (simp add: steal_order_ok_def heap_owns_def)
    qed
  qed
qed

lemma node_owns_zero [simp]: "node_owns zero_node_pool = {#}"
  by (simp add: zero_node_pool_def node_owns_def opt_owns_def numa_owns_def heap_owns_def)

lemma node_zero [simp]: "node_valid zero_node_pool" "np_threads_started zero_node_pool = 0"
  by (simp_all add: zero_node_pool_def node_valid_def)

lemma owns_update:
  assumes "i < length nps" and "nps ! i = zero_node_pool"
  shows "(\<Sum>np\<leftarrow>nps[i := np]. node_owns np) = (\<Sum>np\<leftarrow>nps. node_owns np) + node_owns np"
  using assms by (induction nps arbitrary: i) (auto simp: ac_simps split: nat.split)

lemma replicate_owns: "sum_list (replicate k {#}) = {#}"
  by (induction k) simp_all

text \<open>The tasks of a node name its own free queue.\<close>

definition homes_ok :: "task_mem \<Rightarrow> nat \<Rightarrow> nkit_node_pool \<Rightarrow> bool" where
  "homes_ok m i np \<longleftrightarrow> (\<forall>t \<in> set (task_addrs np). tk_home (m t) = i)"

definition arrays_disjoint :: "nkit_node_pool list \<Rightarrow> bool" where
  "arrays_disjoint nps \<longleftrightarrow> (\<forall>i < length nps. \<forall>j < length nps. i \<noteq> j \<longrightarrow>
     set (task_addrs (nps ! i)) \<inter> set (task_addrs (nps ! j)) = {})"

definition nodes_fresh :: "nkit_node_pool list \<Rightarrow> bool" where
  "nodes_fresh nps \<longleftrightarrow> (\<forall>np \<in> set nps. node_valid np \<and> np_threads_started np = 0)"

text \<open>What the first phase leaves in a node, on a platform that answers as \<open>w\<close>.\<close>

definition node_filled :: "((int \<Rightarrow> int) \<Rightarrow> int list \<Rightarrow> int list) \<Rightarrow> int \<Rightarrow> int \<Rightarrow> u32 \<Rightarrow> os \<Rightarrow> bool \<Rightarrow> nat \<Rightarrow> nkit_node_pool \<Rightarrow> bool" where
  "node_filled qs n cpus cap w fault i np \<longleftrightarrow> node_ready np \<and> np_capacity np = cap \<and> np_num_threads np = cpus \<and>
     length (snd (np_threads np)) = nat cpus \<and> (fault \<or> steal_order_ok qs n i np) \<and> (heap_ok w \<longrightarrow> fst (np_threads np) \<noteq> NULL) \<and>
     (\<exists>t. np_task_array np = os_answer w t (Numa_alloc_onnode (task_array_bytes cap) (int i)))"

lemma node_filled_mono:
  assumes "node_filled qs n cpus cap w f i np" and "os_answer w' = os_answer w" and "f \<longrightarrow> f'"
  shows "node_filled qs n cpus cap w' f' i np"
  using assms heap_ok_cong [OF assms(2)] by (auto simp: node_filled_def)

definition pow2_cap :: "u32 \<Rightarrow> bool" where
  "pow2_cap cap \<longleftrightarrow> (\<exists>k. 10 \<le> k \<and> k < 32 \<and> cap = 2 ^ k)"

lemma init_node_pool_filled:
  assumes "mmap_ok w"
  obtains ok np m' w' where "init_node_pool qs n cpus cap i m w = Some (ok, np, m', w')"
    "os_answer w' = os_answer w" "node_valid np \<and> np_threads_started np = 0" "os_live w' = os_live w + node_owns np"
    "os_fault w \<longrightarrow> os_fault w'" "heap_ok w \<longrightarrow> os_fault w' = os_fault w" "generous w \<and> pow2_cap cap \<longrightarrow> ok"
    "ok \<longrightarrow> node_filled qs n cpus cap w (os_fault w') i np \<and>
      m' = (\<lambda>t. if t \<in> set (task_addrs np) then (m t)\<lparr>tk_home := i\<rparr> else m t)"
  by (rule init_node_pool_ok [OF assms, where qs = qs and n = n and cpus = cpus and cap = cap and i = i and m = m])
    (simp add: node_filled_def pow2_cap_def)

definition fill_post :: "((int \<Rightarrow> int) \<Rightarrow> int list \<Rightarrow> int list) \<Rightarrow> int \<Rightarrow> int \<Rightarrow> u32 \<Rightarrow> nat list \<Rightarrow> nkit_node_pool list \<Rightarrow> task_mem \<Rightarrow> os \<Rightarrow>
    bool \<Rightarrow> nkit_node_pool list \<Rightarrow> task_mem \<Rightarrow> os \<Rightarrow> bool" where
  "fill_post qs n cpus cap is nps m w ok nps' m' w' \<longleftrightarrow> os_answer w' = os_answer w \<and> length nps' = length nps \<and>
     (os_fault w \<longrightarrow> os_fault w') \<and> (heap_ok w \<longrightarrow> os_fault w' = os_fault w) \<and> (generous w \<and> pow2_cap cap \<longrightarrow> ok) \<and>
     (\<forall>i. i \<notin> set is \<longrightarrow> nps' ! i = nps ! i) \<and>
     (ok \<longrightarrow> (\<forall>i \<in> set is. node_filled qs n cpus cap w (os_fault w') i (nps' ! i)) \<and>
       (arrays_disjoint nps' \<longrightarrow> (\<forall>i \<in> set is. homes_ok m' i (nps' ! i))) \<and>
       (\<forall>t. (\<forall>i \<in> set is. t \<notin> set (task_addrs (nps' ! i))) \<longrightarrow> m' t = m t))"

lemma fill_post_step:
  assumes post: "fill_post qs n cpus cap is (nps[i := np]) m1 w1 ok nps' m' w'" and i: "i < length nps" "i \<notin> set is"
    and lt: "\<forall>j \<in> set is. j < length nps"
    and w1: "os_answer w1 = os_answer w" "os_fault w \<longrightarrow> os_fault w1" "heap_ok w \<longrightarrow> os_fault w1 = os_fault w"
    and np: "node_filled qs n cpus cap w (os_fault w1) i np"
    and m1: "m1 = (\<lambda>t. if t \<in> set (task_addrs np) then (m t)\<lparr>tk_home := i\<rparr> else m t)"
  shows "fill_post qs n cpus cap (i # is) nps m w ok nps' m' w'"
proof -
  have P: "os_answer w' = os_answer w1" "length nps' = length nps" "os_fault w1 \<longrightarrow> os_fault w'" "heap_ok w1 \<longrightarrow> os_fault w' = os_fault w1"
    "generous w1 \<and> pow2_cap cap \<longrightarrow> ok" "\<And>j. j \<notin> set is \<Longrightarrow> nps' ! j = nps[i := np] ! j"
    and filled: "\<And>j. ok \<Longrightarrow> j \<in> set is \<Longrightarrow> node_filled qs n cpus cap w1 (os_fault w') j (nps' ! j)"
    and homes: "\<And>j. ok \<Longrightarrow> arrays_disjoint nps' \<Longrightarrow> j \<in> set is \<Longrightarrow> homes_ok m' j (nps' ! j)"
    and frame: "\<And>t. ok \<Longrightarrow> \<forall>j \<in> set is. t \<notin> set (task_addrs (nps' ! j)) \<Longrightarrow> m' t = m1 t"
    using post unfolding fill_post_def by (blast | simp)+
  have npi: "nps' ! i = np" using P(6) [of i] i by simp
  have "homes_ok m' i np" if ok "arrays_disjoint nps'"
  proof -
    have "m' t = m1 t" if "t \<in> set (task_addrs np)" for t
    proof (rule frame [OF \<open>ok\<close>], rule ballI)
      fix j assume "j \<in> set is"
      then show "t \<notin> set (task_addrs (nps' ! j))"
        using \<open>arrays_disjoint nps'\<close> that npi i lt P(2) unfolding arrays_disjoint_def by fastforce
    qed
    then show ?thesis by (simp add: homes_ok_def m1)
  qed
  moreover have "node_filled qs n cpus cap w (os_fault w') j (nps' ! j)" if "ok" "j \<in> set (i # is)" for j
    using node_filled_mono [OF np, of w "os_fault w'"] node_filled_mono [OF filled [OF that(1)], of j w "os_fault w'"] that(2) npi w1(1) P(3)
    by auto
  moreover have "m' t = m t" if "ok" "\<forall>j \<in> set (i # is). t \<notin> set (task_addrs (nps' ! j))" for t
    using frame [of t] that npi by (simp add: m1)
  moreover have "nps' ! j = nps ! j" if "j \<notin> set (i # is)" for j using P(6) [of j] that by simp
  ultimately show ?thesis
    using P(1-5) w1 npi homes heap_ok_cong [OF w1(1)] generous_cong [OF w1(1)] unfolding fill_post_def by auto
qed

lemma pool_fill_ok:
  assumes "mmap_ok w" and "distinct is" and "\<forall>i \<in> set is. i < length nps \<and> nps ! i = zero_node_pool"
    and "nodes_fresh nps" and "os_live w = R + (\<Sum>np\<leftarrow>nps. node_owns np)"
  shows "\<exists>ok nps' m' w'. pool_fill qs n cpus cap is nps m w = Some (ok, nps', m', w') \<and>
    fill_post qs n cpus cap is nps m w ok nps' m' w' \<and> nodes_fresh nps' \<and> os_live w' = R + (\<Sum>np\<leftarrow>nps'. node_owns np)"
  using assms
proof (induction "is" arbitrary: nps m w)
  case (Cons i "is")
  from Cons.prems(3) have i: "i < length nps" "nps ! i = zero_node_pool" by auto
  obtain ok np m1 w1 where 1: "init_node_pool qs n cpus cap i m w = Some (ok, np, m1, w1)"
    "os_answer w1 = os_answer w" "node_valid np \<and> np_threads_started np = 0" "os_live w1 = os_live w + node_owns np"
    "os_fault w \<longrightarrow> os_fault w1" "heap_ok w \<longrightarrow> os_fault w1 = os_fault w" "generous w \<and> pow2_cap cap \<longrightarrow> ok"
    "ok \<longrightarrow> node_filled qs n cpus cap w (os_fault w1) i np \<and>
      m1 = (\<lambda>t. if t \<in> set (task_addrs np) then (m t)\<lparr>tk_home := i\<rparr> else m t)"
    by (rule init_node_pool_filled [OF Cons.prems(1)])
  have mm1: "mmap_ok w1" using mmap_ok_cong [OF 1(2)] Cons.prems(1) by simp
  let ?nps = "nps[i := np]"
  have fresh: "nodes_fresh ?nps" using Cons.prems(4) 1(3) by (auto simp: nodes_fresh_def dest!: set_update_subset_insert [THEN subsetD])
  have live: "os_live w1 = R + (\<Sum>np\<leftarrow>?nps. node_owns np)"
    using Cons.prems(5) 1(4) owns_update [OF i] by simp
  show ?case
  proof (cases ok)
    case True
    have "\<forall>j \<in> set is. j < length ?nps \<and> ?nps ! j = zero_node_pool"
      using Cons.prems(2,3) by (metis distinct.simps(2) length_list_update list.set_intros(2) nth_list_update_neq)
    with Cons.IH [OF mm1 _ this fresh live, of m1] Cons.prems(2)
    obtain ok' nps' m' w' where 2: "pool_fill qs n cpus cap is ?nps m1 w1 = Some (ok', nps', m', w')"
      "fill_post qs n cpus cap is ?nps m1 w1 ok' nps' m' w'" "nodes_fresh nps'" "os_live w' = R + (\<Sum>np\<leftarrow>nps'. node_owns np)" by auto
    have "fill_post qs n cpus cap (i # is) nps m w ok' nps' m' w'"
      by (rule fill_post_step [OF 2(2) i(1) _ _ 1(2,5,6)]) (use Cons.prems(2,3) 1(8) True in auto)
    then show ?thesis using 1(1) 2 True by simp
  next
    case False
    then show ?thesis using 1 fresh live by (auto simp: fill_post_def)
  qed
qed (auto simp: fill_post_def)

subsection \<open>Starting the threads\<close>

definition threads_frame :: "nkit_node_pool \<Rightarrow> nkit_node_pool \<Rightarrow> bool" where
  "threads_frame np np' \<longleftrightarrow> (\<exists>hs k. length hs = length (snd (np_threads np)) \<and>
     np' = np\<lparr>np_threads := (fst (np_threads np), hs), np_threads_started := k\<rparr>)"

lemma threads_frame_refl: "threads_frame np np"
  by (auto simp: threads_frame_def intro!: exI [of _ "snd (np_threads np)"] exI [of _ "np_threads_started np"])

lemma threads_frame_trans: "threads_frame a b \<Longrightarrow> threads_frame b c \<Longrightarrow> threads_frame a c"
  by (auto simp: threads_frame_def) blast

lemma start_threads_frame:
  assumes "start_threads arg ts np w = (np', w')"
  shows "threads_frame np np' \<and> os_live w' = os_live w \<and> os_answer w' = os_answer w \<and> (os_fault w \<longrightarrow> os_fault w')"
  using assms
proof (induction ts arbitrary: np w)
  case Nil
  then show ?case by (simp add: threads_frame_refl)
next
  case (Cons t ts)
  obtain rc w1 where 1: "os_ask_int (Thread_call (Pthread_create arg)) w = (rc, w1)" by fastforce
  obtain tid w2 where 2: "os_ask (Thread_call (Pthread_tid arg)) w1 = (tid, w2)" by fastforce
  have w1: "os_live w1 = os_live w" "os_answer w1 = os_answer w" "os_fault w1 = os_fault w"
    using 1 os_ask_int_simps(2) [of "Thread_call (Pthread_create arg)" w] by (auto simp: os_simps)
  have w2: "os_live w2 = os_live w1" "os_answer w2 = os_answer w1" "os_fault w2 = os_fault w1"
    using 2 os_ask_simps [of "Thread_call (Pthread_tid arg)" w1] by auto
  show ?case
  proof (cases "fst (np_threads np) = NULL")
    case True
    then show ?thesis using Cons.prems by (auto simp: os_simps threads_frame_refl)
  next
    case False
    let ?np = "np\<lparr>np_threads := (fst (np_threads np), (snd (np_threads np))[t := Some tid]),
          np_threads_started := Suc (np_threads_started np)\<rparr>"
    show ?thesis
    proof (cases "rc = 0")
      case True
      then have "start_threads arg ts ?np w2 = (np', w')" using Cons.prems False 1 2 by simp
      from Cons.IH [OF this] show ?thesis using w1 w2 by (auto simp: threads_frame_def)
    next
      case rc: False
      then have "start_threads arg ts np w1 = (np', w')" using Cons.prems False 1 by simp
      from Cons.IH [OF this] show ?thesis using w1 by auto
    qed
  qed
qed

lemma start_threads_fault:
  "fst (np_threads np) \<noteq> NULL \<Longrightarrow> os_fault (snd (start_threads arg ts np w)) = os_fault w"
  by (induction arg ts np w rule: start_threads.induct)
    (simp_all add: os_ask_int_def os_ask_def)

lemma threads_frame_same:
  assumes "threads_frame np np'"
  shows "node_owns np' = node_owns np" "node_valid np' = node_valid np" "node_ready np' = node_ready np"
    "task_addrs np' = task_addrs np" "steal_order_ok qs n i np' = steal_order_ok qs n i np"
    "homes_ok m i np' = homes_ok m i np" "np_num_threads np' = np_num_threads np" "np_capacity np' = np_capacity np"
    "np_task_array np' = np_task_array np"
  using assms by (auto simp: threads_frame_def node_owns_def node_valid_def node_ready_def task_addrs_def
      steal_order_ok_def homes_ok_def)

lemma start_all_frame:
  assumes "start_all tab is nps w = (nps', w')" and "\<forall>i \<in> set is. i < length nps"
  shows "list_all2 threads_frame nps nps' \<and> os_live w' = os_live w \<and> os_answer w' = os_answer w \<and> (os_fault w \<longrightarrow> os_fault w')"
  using assms
proof (induction "is" arbitrary: nps w)
  case Nil
  then show ?case by (auto simp: list.rel_refl threads_frame_refl)
next
  case (Cons i "is")
  obtain np w1 where 1: "start_threads (tab + of_nat i * sizeof_node_pool) [0..<nat (np_num_threads (nps ! i))] (nps ! i) w = (np, w1)" by fastforce
  note s = start_threads_frame [OF 1]
  have "list_all2 threads_frame nps (nps[i := np])"
    using s threads_frame_refl Cons.prems(2) by (simp add: list_all2_conv_all_nth nth_list_update)
  moreover have "list_all2 threads_frame (nps[i := np]) nps' \<and> os_live w' = os_live w1 \<and> os_answer w' = os_answer w1 \<and> (os_fault w1 \<longrightarrow> os_fault w')"
    using Cons.IH [of "nps[i := np]" w1] Cons.prems 1 by simp
  ultimately show ?case using s threads_frame_trans by (fastforce simp: list_all2_conv_all_nth)
qed

definition threads_start :: "os \<Rightarrow> bool" where
  "threads_start w \<longleftrightarrow> (\<forall>n arg. os_answer w n (Thread_call (Pthread_create arg)) = 0)"

lemma start_threads_handles:
  assumes "threads_start w" and "start_threads arg [np_threads_started np..<N] np w = (np', w')" and "\<not> os_fault w'"
    and "length (snd (np_threads np)) = N" and "handles_ok np"
  shows "handles_ok np'"
  using assms
proof (induction "N - np_threads_started np" arbitrary: np w)
  case 0
  then show ?case by simp
next
  case (Suc d)
  let ?k = "np_threads_started np" and ?hs = "snd (np_threads np)"
  have k: "?k < N" using Suc.hyps(2) by simp
  obtain rc w1 where 1: "os_ask_int (Thread_call (Pthread_create arg)) w = (rc, w1)" by fastforce
  obtain tid w2 where 2: "os_ask (Thread_call (Pthread_tid arg)) w1 = (tid, w2)" by fastforce
  have rc: "rc = 0" using Suc.prems(1) 1 os_ask_int_simps(1) [of "Thread_call (Pthread_create arg)" w] by (simp add: threads_start_def)
  have "os_answer w1 = os_answer w" using 1 os_ask_int_simps(2) [of "Thread_call (Pthread_create arg)" w] by (auto simp: os_simps)
  moreover have "os_answer w2 = os_answer w1" using 2 os_ask_simps(4) [of "Thread_call (Pthread_tid arg)" w1] by simp
  ultimately have w2: "threads_start w2" using Suc.prems(1) by (simp add: threads_start_def)
  define np1 where "np1 = np\<lparr>np_threads := (fst (np_threads np), ?hs[?k := Some tid]), np_threads_started := Suc ?k\<rparr>"
  have "fst (np_threads np) \<noteq> NULL" using Suc.prems(2,3) upt_conv_Cons [OF k] by (auto simp: os_simps)
  then have s: "start_threads arg [np_threads_started np1..<N] np1 w2 = (np', w')"
    using Suc.prems(2) 1 2 rc upt_conv_Cons [OF k] by (simp add: np1_def)
  have "handles_ok np1" using Suc.prems(4,5) k
    by (simp add: handles_ok_def np1_def take_Suc_conv_app_nth)
  then show ?case using Suc.hyps(1) [of np1, OF _ w2 s Suc.prems(3)] Suc.hyps(2) Suc.prems(4) by (simp add: np1_def)
qed

lemma start_all_handles:
  assumes "threads_start w" and "start_all tab is nps w = (nps', w')" and "\<not> os_fault w'" and "distinct is"
    and "\<forall>i \<in> set is. i < length nps \<and> np_threads_started (nps ! i) = 0 \<and> length (snd (np_threads (nps ! i))) = nat (np_num_threads (nps ! i))"
    and "\<forall>i < length nps. i \<notin> set is \<longrightarrow> handles_ok (nps ! i)"
  shows "\<forall>np \<in> set nps'. handles_ok np"
  using assms
proof (induction "is" arbitrary: nps w)
  case Nil
  then show ?case by (auto simp: in_set_conv_nth)
next
  case (Cons i "is")
  let ?arg = "tab + of_nat i * sizeof_node_pool" and ?N = "nat (np_num_threads (nps ! i))"
  obtain np w1 where 1: "start_threads ?arg [0..<?N] (nps ! i) w = (np, w1)" by fastforce
  have s: "start_all tab is (nps[i := np]) w1 = (nps', w')" using Cons.prems(2) 1 by simp
  have i: "i < length nps" "np_threads_started (nps ! i) = 0" "length (snd (np_threads (nps ! i))) = ?N"
    using Cons.prems(5) by auto
  note f = start_threads_frame [OF 1] start_all_frame [OF s]
  have w1: "\<not> os_fault w1" using f(2) Cons.prems(3,5) by auto
  have h: "handles_ok np"
    using start_threads_handles [OF Cons.prems(1), where N = ?N and np = "nps ! i"] 1 i w1 by (simp add: handles_ok_def)
  have nth: "j < length nps \<Longrightarrow> nps[i := np] ! j = (if j = i then np else nps ! j)" for j by (simp add: nth_list_update)
  have "threads_start w1" using f(1) Cons.prems(1) by (simp add: threads_start_def)
  from this s Cons.prems(3) show ?case
  proof (rule Cons.IH)
    show "distinct is" using Cons.prems(4) by simp
    show "\<forall>j \<in> set is. j < length (nps[i := np]) \<and> np_threads_started (nps[i := np] ! j) = 0 \<and>
        length (snd (np_threads (nps[i := np] ! j))) = nat (np_num_threads (nps[i := np] ! j))"
      using Cons.prems(4,5) by (fastforce simp: nth)
    show "\<forall>j < length (nps[i := np]). j \<notin> set is \<longrightarrow> handles_ok (nps[i := np] ! j)"
      using Cons.prems(6) h by (simp add: nth)
  qed
qed

lemma start_all_fault:
  assumes "\<forall>i \<in> set is. i < length nps \<and> fst (np_threads (nps ! i)) \<noteq> NULL"
  shows "os_fault (snd (start_all tab is nps w)) = os_fault w"
  using assms
proof (induction "is" arbitrary: nps w)
  case (Cons i "is")
  obtain np w1 where 1: "start_threads (tab + of_nat i * sizeof_node_pool) [0..<nat (np_num_threads (nps ! i))] (nps ! i) w = (np, w1)" by fastforce
  have f: "fst (np_threads np) = fst (np_threads (nps ! i))" using start_threads_frame [OF 1] by (auto simp: threads_frame_def)
  have "os_fault w1 = os_fault w" using start_threads_fault [of "nps ! i"] 1 Cons.prems by (metis list.set_intros(1) snd_conv)
  moreover have "\<forall>j \<in> set is. j < length (nps[i := np]) \<and> fst (np_threads (nps[i := np] ! j)) \<noteq> NULL"
    using Cons.prems f by (auto simp: nth_list_update)
  ultimately show ?case using Cons.IH [of "nps[i := np]" w1] 1 by simp
qed simp

text \<open>
  A \<^verbatim>\<open>pthread_create\<close> that fails before one that succeeds leaves a gap: the destructor joins a handle
  that was never written, and not the thread that runs.
\<close>

lemma start_threads_gap:
  assumes "fst (np_threads np) \<noteq> NULL" and "snd (np_threads np) = [None, None]" and "np_threads_started np = 0"
    and "os_answer w (os_tick w) (Thread_call (Pthread_create arg)) = 11"
    and "os_answer w (Suc (os_tick w)) (Thread_call (Pthread_create arg)) = 0"
  shows "\<not> handles_ok (fst (start_threads arg [0, 1] np w))"
  using assms by (simp add: os_ask_int_def os_ask_def handles_ok_def)

subsection \<open>The pool after creation\<close>

definition pool_ready :: "((int \<Rightarrow> int) \<Rightarrow> int list \<Rightarrow> int list) \<Rightarrow> nkit_pool \<Rightarrow> bool" where
  "pool_ready qs pool \<longleftrightarrow> length (snd (tp_node_pools pool)) = nat (tp_num_nodes pool) \<and> tp_num_nodes pool \<noteq> 0 \<and>
     (\<forall>i < length (snd (tp_node_pools pool)). let np = node_pool pool i in
       node_ready np \<and> steal_order_ok qs (tp_num_nodes pool) i np \<and> (\<exists>k. 10 \<le> k \<and> k < 32 \<and> np_capacity np = 2 ^ k))"

text \<open>The address of a task array is an answer of the allocator.\<close>

definition arrays_from :: "os \<Rightarrow> nkit_pool \<Rightarrow> bool" where
  "arrays_from w pool \<longleftrightarrow> (\<forall>i < length (snd (tp_node_pools pool)). let np = node_pool pool i in
     \<exists>t. np_task_array np = os_answer w t (Numa_alloc_onnode (task_array_bytes (np_capacity np)) (int i)))"

definition pool_made :: "((int \<Rightarrow> int) \<Rightarrow> int list \<Rightarrow> int list) \<Rightarrow> os \<Rightarrow> nkit_pool \<Rightarrow> task_mem \<Rightarrow> os \<Rightarrow> bool" where
  "pool_made qs w pool m' w' \<longleftrightarrow> pool_valid pool \<and> os_live w' = os_live w + pool_owns pool \<and> \<not> os_fault w \<and>
     pool_ready qs pool \<and> arrays_from w pool \<and> (arrays_disjoint (snd (tp_node_pools pool)) \<longrightarrow>
       (\<forall>i < length (snd (tp_node_pools pool)). homes_ok m' i (node_pool pool i))) \<and>
     (threads_start w \<longrightarrow> (\<forall>np \<in> set (snd (tp_node_pools pool)). handles_ok np))"

lemma pool_finish:
  assumes w: "mmap_ok w5" "os_live w5 = R + heap_owns p + heap_owns tab" and n: "n \<noteq> 0" and cap: "10 \<le> k" "k < 32" "cap = 2 ^ k"
    and fill: "pool_fill qs n cpus cap [0..<nat n] (replicate (nat n) zero_node_pool) m w5 = Some (True, nps, m', w6)"
    and start: "start_all tab [0..<nat n] nps w6 = (nps', w7)" and nofault: "\<not> os_fault w7"
    and w0: "os_live w = R" "os_fault w = os_fault w5" "os_answer w = os_answer w5"
  shows "pool_made qs w \<lparr>tp_addr = p, tp_num_nodes = n, tp_node_pools = (tab, nps'), tp_stop = False\<rparr> m' w7"
proof -
  let ?z = "replicate (nat n) zero_node_pool"
  have z: "\<forall>i \<in> set [0..<nat n]. i < length ?z \<and> ?z ! i = zero_node_pool" "nodes_fresh ?z"
    "os_live w5 = (R + heap_owns p + heap_owns tab) + (\<Sum>np\<leftarrow>?z. node_owns np)"
    using w(2) by (simp_all add: nodes_fresh_def replicate_owns)
  from pool_fill_ok [OF w(1) distinct_upt z, of qs n cpus cap m] fill
  have f: "os_answer w6 = os_answer w5" "length nps = nat n" "nodes_fresh nps"
    "os_live w6 = (R + heap_owns p + heap_owns tab) + (\<Sum>np\<leftarrow>nps. node_owns np)" "os_fault w5 \<longrightarrow> os_fault w6"
    "\<forall>i < nat n. node_filled qs n cpus cap w5 (os_fault w6) i (nps ! i)"
    "arrays_disjoint nps \<longrightarrow> (\<forall>i < nat n. homes_ok m' i (nps ! i))"
    by (auto simp: fill_post_def)
  have s: "list_all2 threads_frame nps nps'" "os_live w7 = os_live w6" "os_answer w7 = os_answer w6" "\<not> os_fault w6"
    using start_all_frame [OF start] f(2) nofault by auto
  have len: "length nps' = nat n" using s(1) f(2) by (auto dest: list_all2_lengthD)
  have fr: "threads_frame (nps ! i) (nps' ! i)" if "i < nat n" for i using s(1) f(2) that by (auto dest: list_all2_nthD)
  note same = threads_frame_same [OF fr]
  have owns: "map node_owns nps' = map node_owns nps"
    using same(1) len f(2) by (intro nth_equalityI) auto
  have valid: "\<forall>np \<in> set nps'. node_valid np"
    using same(2) f(2,3) len by (metis in_set_conv_nth nodes_fresh_def)
  have adj: "arrays_disjoint nps' = arrays_disjoint nps"
    using same(4) len f(2) by (simp add: arrays_disjoint_def)
  have "\<forall>np \<in> set nps'. handles_ok np" if "threads_start w"
  proof (rule start_all_handles [OF _ start nofault distinct_upt])
    show "threads_start w6" using that f(1) w0(3) by (simp add: threads_start_def)
  qed (use f(2,3,6) in \<open>auto simp: nodes_fresh_def node_filled_def\<close>)
  then show ?thesis using w0 f s(2,4) len owns valid adj cap n same(3,5,6,8,9)
    by (auto simp: node_filled_def pool_made_def arrays_from_def pool_valid_def pool_owns_def pool_ready_def node_pool_def Let_def ac_simps)
qed

lemma pool_create_cases:
  assumes "mmap_ok w"
  shows "\<exists>r m' w'. nkit_pool_create qs m w = Some (r, m', w') \<and>
    (os_fault w' \<or> (r = None \<and> ledger w' = ledger w) \<or> (\<exists>pool. r = Some pool \<and> pool_made qs w pool m' w')) \<and>
    (\<forall>pool. r = Some pool \<longrightarrow> (\<exists>t. tp_num_nodes pool = sint (os_answer w t Numa_max_node) + 1)) \<and>
    (heap_ok w \<longrightarrow> os_fault w' = os_fault w) \<and> (generous w \<longrightarrow> r \<noteq> None)"
proof -
  obtain av w1 where 1: "os_ask_int Numa_available w = (av, w1)" by fastforce
  obtain p w2 where 2: "os_malloc sizeof_pool w1 = (p, w2)" by fastforce
  obtain mx w3 where 3: "os_ask_int Numa_max_node w2 = (mx, w3)" by fastforce
  define n where "n = mx + 1"
  obtain tab w4 where 4: "os_calloc (word_of_int n) sizeof_node_pool w3 = (tab, w4)" by fastforce
  obtain total w5 where 5: "os_ask_int (Numa_call Num_configured_cpus) w4 = (total, w5)" by fastforce
  have keep: "ledger w1 = ledger w" "os_answer w1 = os_answer w" "ledger w3 = ledger w2" "os_answer w3 = os_answer w2"
    "ledger w5 = ledger w4" "os_answer w5 = os_answer w4"
    using 1 3 5 os_ask_int_keeps by auto
  note a2 = malloc_owns [OF 2] and a4 = calloc_owns [OF 4]
  have w2: "p = NULL \<Longrightarrow> ledger w2 = ledger w" using a2(1) keep(1) by (simp add: heap_owns_def ledger_def)
  have ans: "os_answer w = os_answer w5" using keep a2(2) a4(2) by simp
  have live: "os_live w5 = os_live w + heap_owns p + heap_owns tab" "os_fault w = os_fault w5"
    using keep a2(1) a4(1) by (auto simp: ledger_def)
  have mm: "mmap_ok w5" using mmap_ok_cong [OF ans] assms by simp
  have nt: "\<exists>t. n = sint (os_answer w t Numa_max_node) + 1"
    using 3 os_ask_int_simps(1) [of Numa_max_node w2] a2(2) keep(2) by (auto simp: n_def)
  define cpus where "cpus = (let c = total sdiv n in if c = 0 then 1 else c)"
  obtain k where cap: "10 \<le> k" "k < 32" "pool_ring_capacity cpus = 2 ^ k" using pool_ring_capacity_pow2 by blast
  let ?z = "replicate (nat n) zero_node_pool" and ?is = "[0..<nat n]" and ?cap = "pool_ring_capacity cpus"
  have z: "\<forall>i \<in> set ?is. i < length ?z \<and> ?z ! i = zero_node_pool" "nodes_fresh ?z"
    "os_live w5 = (os_live w + heap_owns p + heap_owns tab) + (\<Sum>np\<leftarrow>?z. node_owns np)"
    using live(1) by (simp_all add: nodes_fresh_def replicate_owns)
  from pool_fill_ok [OF mm distinct_upt z, of qs n cpus ?cap m]
  obtain ok nps m' w6 where 6: "pool_fill qs n cpus ?cap ?is ?z m w5 = Some (ok, nps, m', w6)"
    "fill_post qs n cpus ?cap ?is ?z m w5 ok nps m' w6"
    "nodes_fresh nps" "os_live w6 = (os_live w + heap_owns p + heap_owns tab) + (\<Sum>np\<leftarrow>nps. node_owns np)" by auto
  have post: "length nps = nat n" "os_fault w5 \<longrightarrow> os_fault w6" "heap_ok w5 \<longrightarrow> os_fault w6 = os_fault w5" "generous w5 \<longrightarrow> ok"
    "heap_ok w5 \<longrightarrow> ok \<longrightarrow> (\<forall>i < nat n. fst (np_threads (nps ! i)) \<noteq> NULL)"
    using 6(2) cap by (auto simp: fill_post_def node_filled_def pow2_cap_def)
  define pool where "pool = \<lparr>tp_addr = p, tp_num_nodes = n, tp_node_pools = (tab, nps), tp_stop = False\<rparr>"
  obtain nps' w7 where 7: "start_all tab ?is nps w6 = (nps', w7)" by fastforce
  have create: "nkit_pool_create qs m w = (if av < 0 then Some (None, m, w1) else if p = NULL then Some (None, m, w2) else
      if n = 0 \<or> (tab = NULL \<and> 0 < n) then Some (None, m, os_invalid w5) else
      if \<not> ok then Some (None, m', nkit_pool_destroy (Some pool) w6)
      else Some (Some (pool\<lparr>tp_node_pools := (tab, nps')\<rparr>), m', w7))"
    using 4 6(1) 7 unfolding cpus_def pool_def n_def
    by (simp add: nkit_pool_create_def 1 2 3 5 Let_def)
  have hp: "tab \<noteq> NULL" "n \<noteq> 0" "os_fault w6 = os_fault w" "ok \<Longrightarrow> os_fault w7 = os_fault w" if h: "heap_ok w"
  proof -
    have h5: "heap_ok w5" "heap_ok w3" "heap_ok w2" using h heap_ok_cong keep a2(2) a4(2) by metis+
    show "tab \<noteq> NULL" by (rule heap_ok_calloc [OF h5(2) 4])
    have "0 \<le> mx" using h5(3) 3 os_ask_int_simps(1) [of Numa_max_node w2] by (auto simp: heap_ok_def)
    then show "n \<noteq> 0" by (simp add: n_def)
    show w6: "os_fault w6 = os_fault w" using post(3) h5(1) live(2) by simp
    show "os_fault w7 = os_fault w" if "ok"
      using start_all_fault [of ?is nps tab w6] 7 post(1,5) that h5(1) w6 by simp
  qed
  have gp: "0 \<le> av" "p \<noteq> NULL" "tab \<noteq> NULL" "n \<noteq> 0" "ok" if g: "generous w"
  proof -
    have h: "heap_ok w" using g by (simp add: generous_def)
    show "0 \<le> av" using g 1 os_ask_int_simps(1) [of Numa_available w] by (auto simp: generous_def)
    show "p \<noteq> NULL" using heap_ok_malloc [OF _ 2] heap_ok_cong [OF keep(2)] h by simp
    show "tab \<noteq> NULL" "n \<noteq> 0" using hp h by simp_all
    show "ok" using post(4) generous_cong [OF ans] g by simp
  qed
  consider "av < 0" | "0 \<le> av" "p = NULL" | "0 \<le> av" "p \<noteq> NULL" "n = 0 \<or> (tab = NULL \<and> 0 < n)"
    | "0 \<le> av" "p \<noteq> NULL" "\<not> (n = 0 \<or> (tab = NULL \<and> 0 < n))" "\<not> ok"
    | "0 \<le> av" "p \<noteq> NULL" "\<not> (n = 0 \<or> (tab = NULL \<and> 0 < n))" "ok" by linarith
  then show ?thesis
  proof cases
    case 4
    have "pool_valid pool" "os_live w6 = os_live w + pool_owns pool"
      using 6 post(1) by (simp_all add: pool_def pool_valid_def pool_owns_def nodes_fresh_def ac_simps)
    from pool_destroy_owned [OF this]
    have d: "ledger (nkit_pool_destroy (Some pool) w6) = (os_live w, os_fault w6)"
      using 6(3) by (auto simp: pool_def nodes_fresh_def handles_ok_def)
    moreover have "os_fault (nkit_pool_destroy (Some pool) w6) \<or> os_fault w6 = os_fault w"
      using d live(2) post(2) by (auto simp: ledger_def)
    ultimately show ?thesis using 4 create hp(3) gp(5) by (auto simp: ledger_def)
  next
    case 5
    have fill: "pool_fill qs n cpus ?cap ?is ?z m w5 = Some (True, nps, m', w6)" using 6(1) 5(4) by simp
    have "pool_made qs w \<lparr>tp_addr = p, tp_num_nodes = n, tp_node_pools = (tab, nps'), tp_stop = False\<rparr> m' w7" if "\<not> os_fault w7"
      by (rule pool_finish [OF mm live(1) _ cap fill 7 that]) (use 5 live(2) ans in auto)
    then show ?thesis using 5 create hp(4) nt by (auto simp: pool_def)
  qed (use create w2 keep(1) hp(1,2) gp(1-4) a2(1) in \<open>auto simp: os_simps ledger_def\<close>)
qed

text \<open>
  C36. \<open>nkit_pool_create\<close> always returns. It leaves no fault when the allocations that it does not check
  succeed, and then it either fails with every resource released, or returns a pool whose
  destruction by \<open>nkit_pool_destroy\<close> releases everything with no invalid release, provided that the
  threads could all be started. Failures of the deques, rings and task arrays of any node are
  among the cases.
\<close>

theorem pool_create_destroy_ledger:
  assumes "mmap_ok w" and "heap_ok w" and "threads_start w" and "\<not> os_fault w"
  shows "\<exists>r m' w'. nkit_pool_create qs m w = Some (r, m', w') \<and> \<not> os_fault w' \<and>
    ledger (nkit_pool_destroy r w') = ledger w"
proof -
  obtain r m' w' where c: "nkit_pool_create qs m w = Some (r, m', w')" "\<not> os_fault w'"
    "(r = None \<and> ledger w' = ledger w) \<or> (\<exists>pool. r = Some pool \<and> pool_made qs w pool m' w')"
    using pool_create_cases [OF assms(1), of qs m] assms(2,4) by blast
  have "ledger (nkit_pool_destroy (Some pool) w') = ledger w" if "pool_made qs w pool m' w'" for pool
    using that assms(3) c(2) pool_destroy_owned [of pool w' "os_live w"] by (auto simp: pool_made_def ledger_def)
  then show ?thesis using c by (auto simp: nkit_pool_destroy_def [of None])
qed

lemma heap_ok_demo: "heap_ok demo_os" "threads_start demo_os" "\<not> os_fault demo_os"
  by (simp_all add: heap_ok_def threads_start_def demo_os_def)

theorem pool_create_destroy_ledger_witness:
  "\<exists>r m' w'. nkit_pool_create sort_key (\<lambda>_. \<lparr>tk_func = NULL, tk_arg = NULL, tk_home = 0\<rparr>) demo_os = Some (r, m', w') \<and>
     \<not> os_fault w' \<and> ledger (nkit_pool_destroy r w') = ({#}, False)"
  using pool_create_destroy_ledger [OF mmap_ok_demo_os heap_ok_demo, of sort_key]
  by (simp add: ledger_def demo_os_def)

text \<open>
  C37. The capacity of a node's queues, computed by smearing bits, is the least power of two that
  gives each thread of the node 1024 slots.
\<close>

theorem pool_capacity_least:
  assumes "0 < cpus" and "cpus \<le> 2 ^ 21"
  shows "unat (pool_ring_capacity cpus) = 2 ^ (LEAST k. nat cpus * 1024 \<le> 2 ^ k)"
proof -
  let ?v = "word_of_int (cpus * 1024) :: u32"
  obtain c where c: "cpus = int c" using assms(1) nonneg_int_cases [of cpus] by auto
  have "?v = of_nat (nat cpus * 1024)" unfolding c by simp
  moreover have lt: "nat cpus * 1024 \<le> 2 ^ 31" using assms(2) by simp
  ultimately have v: "unat ?v = nat cpus * 1024" by (simp only: unat_of_nat) simp
  then have nz: "?v \<noteq> 0" using assms(1) by (metis mult_is_0 nat_0_iff not_le unsigned_0 zero_neq_numeral)
  obtain k where k: "k < 32" "next_power_of_2_u32 ?v = 2 ^ k" "unat ?v \<le> 2 ^ k" "\<And>j. unat ?v \<le> 2 ^ j \<Longrightarrow> k \<le> j"
    using next_power_of_2_u32_least [OF nz] v lt by auto
  have u: "unat (2 ^ k :: u32) = 2 ^ k" using unat_exp [of k, where ?'a = 32] k(1) by simp
  have "1024 \<le> (2::nat) ^ k" using k(3) v assms(1) by (cases "nat cpus") auto
  then have "pool_ring_capacity cpus = 2 ^ k" using k(2) u by (simp add: pool_ring_capacity_def Let_def word_less_nat_alt)
  moreover have "(LEAST k. nat cpus * 1024 \<le> 2 ^ k) = k" using k(3,4) v by (intro Least_equality) simp_all
  ultimately show ?thesis using u by simp
qed

theorem pool_capacity_least_witness: "unat (pool_ring_capacity 3) = 2 ^ (LEAST k. nat 3 * 1024 \<le> (2::nat) ^ k)"
  using pool_capacity_least [of 3] by simp

end
