(* ===== verification/NK_Task_Run.thy ===== *)
theory NK_Task_Run
  imports NK_Task_Pool
begin

section \<open>Tasks submitted to a pool are run once\<close>

text \<open>
  Interleavings of the clients and the workers of a pool (\<^verbatim>\<open>src/sched/task_pool.c\<close>), one step per call on
  a queue: a submission, the part of a worker's iteration that takes a task and calls its function,
  and the part that returns the structure to its home. Between the last two other threads may act,
  so a task can be running while others are submitted. The calls of the deque are atomic here;
  what happens inside them is the subject of \<open>NK_Deque_Conc\<close>.
\<close>

datatype pool_event = Submit int ptr ptr | Take nat | Return nat

definition task_call :: "task_mem \<Rightarrow> ptr \<Rightarrow> ptr \<times> ptr" where
  "task_call m t = (tk_func (m t), tk_arg (m t))"

text \<open>The result: the accepted submissions, the calls of task functions, and the final state.\<close>

fun pool_run :: "pool_event list \<Rightarrow> nkit_pool \<Rightarrow> task_mem \<Rightarrow> ptr list \<Rightarrow> os \<Rightarrow>
    ((ptr \<times> ptr) list \<times> (ptr \<times> ptr) list \<times> nkit_pool \<times> task_mem \<times> ptr list \<times> os) option" where
  "pool_run [] pool m running w = Some ([], [], pool, m, running, w)"
| "pool_run (Submit node f a # evs) pool m running w =
    (case nkit_pool_submit_to_node pool node f a m w of None \<Rightarrow> None
     | Some (rc, _, pool', m', w') \<Rightarrow>
       map_option (\<lambda>(acc, rest). (if rc = 0 then (f, a) # acc else acc, rest)) (pool_run evs pool' m' running w'))"
| "pool_run (Take i # evs) pool m running w =
    (case worker_take pool i of
       (None, pool') \<Rightarrow> pool_run evs pool' m running w
     | (Some t, pool') \<Rightarrow>
       map_option (\<lambda>(acc, calls, rest). (acc, task_call m t # calls, rest)) (pool_run evs pool' m (t # running) w))"
| "pool_run (Return j # evs) pool m running w =
    (if j < length running then
       (case worker_return pool m (running ! j) of None \<Rightarrow> None
        | Some pool' \<Rightarrow> pool_run evs pool' m (take j running @ drop (Suc j) running) w)
     else pool_run evs pool m running w)"

fun event_ok :: "nat \<Rightarrow> pool_event \<Rightarrow> bool" where
  "event_ok n (Take i) \<longleftrightarrow> i < n"
| "event_ok n _ \<longleftrightarrow> True"

text \<open>The tasks that wait in a deque, and the calls they stand for in a pool.\<close>

definition deque_items :: "nkit_deque \<Rightarrow> ptr list" where
  "deque_items dq = map (array_load (dq_array dq)) [dq_top dq..dq_bottom dq - 1]"

definition waiting :: "nkit_pool \<Rightarrow> task_mem \<Rightarrow> (ptr \<times> ptr) list" where
  "waiting pool m = concat (map (\<lambda>np. map (task_call m) (deque_items (the (np_task_queue np)))) (snd (tp_node_pools pool)))"

subsection \<open>The deque when it cannot be full\<close>

lemma deque_items_rep:
  assumes "deque_rep dq xs"
  shows "deque_items dq = xs"
proof -
  obtain k t where at: "deque_at k t dq xs" using assms by (auto simp: deque_rep_def)
  then have ok: "array_ok k (dq_array dq)" by (simp add: deque_at_def)
  have "[dq_top dq..dq_bottom dq - 1] = map int [t..<t + length xs]"
    using at upto_map_int [of t "length xs"] by (simp add: deque_at_def)
  then have "deque_items dq = map (\<lambda>j. da_buffer (dq_array dq) ! (j mod 2 ^ k)) [t..<t + length xs]"
    using array_access(2) [OF ok] by (simp add: deque_items_def)
  also have "\<dots> = xs" using at by (intro nth_equalityI) (auto simp: deque_at_def)
  finally show ?thesis .
qed

lemma deque_push_room:
  assumes "deque_rep dq xs" and "length xs < unat (da_size (dq_array dq))"
  shows "\<exists>dq'. nkit_deque_push dq x w = (True, dq', w) \<and> deque_rep dq' (xs @ [x]) \<and> da_size (dq_array dq') = da_size (dq_array dq)"
proof -
  obtain k t where at: "deque_at k t dq xs" using assms by (auto simp: deque_rep_def)
  then have ok: "array_ok k (dq_array dq)" and tb: "dq_top dq = int t" "dq_bottom dq = int (t + length xs)" by (auto simp: deque_at_def)
  have len: "length xs < 2 ^ k" using assms(2) ok unat_exp [of k, where ?'a = 32] by (simp add: array_ok_def)
  have "\<not> uint (da_size (dq_array dq)) \<le> int (length xs)" using len uint_da_size [OF ok] by (simp add: not_le)
  then have "nkit_deque_push dq x w = (True, dq\<lparr>dq_array := array_store (dq_array dq) (int (t + length xs)) x, dq_bottom := int (t + length xs) + 1\<rparr>, w)"
    using array_access(1) [OF ok, of "t + length xs"] tb by (simp add: nkit_deque_push_def Let_def)
  moreover have "da_size (array_store (dq_array dq) (int (t + length xs)) x) = da_size (dq_array dq)"
    by (simp add: array_store_def)
  ultimately show ?thesis using deque_store_at [OF at len, of x] by (auto simp: deque_rep_def)
qed

lemma deque_take_array:
  "dq_array (snd (nkit_deque_pop dq)) = dq_array dq" "dq_array (snd (nkit_deque_steal dq)) = dq_array dq"
  by (simp_all add: nkit_deque_pop_def nkit_deque_steal_def Let_def)

subsection \<open>The invariant\<close>

text \<open>
  In node \<open>i\<close> every task structure is in exactly one place: the free queue \<open>fs\<close>, the deque \<open>xs\<close>, or in the
  hands of a worker (the tasks of \<open>R\<close> that name \<open>i\<close> as their home).
\<close>

definition node_inv :: "task_mem \<Rightarrow> ptr multiset \<Rightarrow> nat \<Rightarrow> nkit_node_pool \<Rightarrow> ptr list \<Rightarrow> ptr list \<Rightarrow> bool" where
  "node_inv m R i np fs xs \<longleftrightarrow>
     (\<exists>r. np_free_queue np = Some r \<and> ring_rep r fs \<and> unat (rg_capacity r) = unat (np_capacity np)) \<and>
     (\<exists>d. np_task_queue np = Some d \<and> deque_rep d xs \<and> da_size (dq_array d) = np_capacity np) \<and>
     mset fs + mset xs + filter_mset (\<lambda>t. tk_home (m t) = i) R = mset (task_addrs np) \<and>
     distinct (task_addrs np) \<and> homes_ok m i np"

definition steals_all :: "int \<Rightarrow> nat \<Rightarrow> nkit_node_pool \<Rightarrow> bool" where
  "steals_all n i np \<longleftrightarrow> n > 1 \<longrightarrow> fst (np_steal_order np) \<noteq> NULL \<and> length (snd (np_steal_order np)) = nat (n - 1) \<and>
     set (snd (np_steal_order np)) = {0..<n} - {int i}"

definition pool_inv :: "nkit_pool \<Rightarrow> task_mem \<Rightarrow> ptr multiset \<Rightarrow> (nat \<Rightarrow> ptr list) \<Rightarrow> (nat \<Rightarrow> ptr list) \<Rightarrow> bool" where
  "pool_inv pool m R F Q \<longleftrightarrow> length (snd (tp_node_pools pool)) = nat (tp_num_nodes pool) \<and> 0 < tp_num_nodes pool \<and>
     (\<forall>i < nat (tp_num_nodes pool). node_inv m R i (node_pool pool i) (F i) (Q i) \<and>
        steals_all (tp_num_nodes pool) i (node_pool pool i)) \<and>
     (\<forall>t \<in># R. tk_home (m t) < nat (tp_num_nodes pool))"

definition calls_waiting :: "task_mem \<Rightarrow> nat \<Rightarrow> (nat \<Rightarrow> ptr list) \<Rightarrow> (ptr \<times> ptr) multiset" where
  "calls_waiting m n Q = (\<Sum>i < n. image_mset (task_call m) (mset (Q i)))"

lemma set_node_simps [simp]:
  "tp_num_nodes (set_node pool i np) = tp_num_nodes pool"
  "length (snd (tp_node_pools (set_node pool i np))) = length (snd (tp_node_pools pool))"
  "i < length (snd (tp_node_pools pool)) \<Longrightarrow> node_pool (set_node pool i np) j = (if j = i then np else node_pool pool j)"
  by (auto simp: set_node_def node_pool_def nth_list_update)

lemma set_node_same: "i < length (snd (tp_node_pools pool)) \<Longrightarrow> set_node pool i (node_pool pool i) = pool"
  by (simp add: set_node_def node_pool_def)

text \<open>An operation changes one node, and the running tasks of that node only.\<close>

lemma set_node_inv:
  assumes inv: "pool_inv pool m R F Q" and i: "i < nat (tp_num_nodes pool)"
    and np: "node_inv m' R' i np' fs xs" and st: "np_steal_order np' = np_steal_order (node_pool pool i)"
    and homes: "\<And>t. tk_home (m' t) = tk_home (m t)"
    and R: "\<And>j. j \<noteq> i \<Longrightarrow> filter_mset (\<lambda>t. tk_home (m t) = j) R' = filter_mset (\<lambda>t. tk_home (m t) = j) R"
    and lt: "\<And>t. t \<in># R' \<Longrightarrow> tk_home (m t) < nat (tp_num_nodes pool)"
  shows "pool_inv (set_node pool i np') m' R' (F(i := fs)) (Q(i := xs))"
proof -
  let ?n = "nat (tp_num_nodes pool)"
  have len: "length (snd (tp_node_pools pool)) = ?n" and pos: "0 < tp_num_nodes pool"
    and old: "\<And>j. j < ?n \<Longrightarrow> node_inv m R j (node_pool pool j) (F j) (Q j) \<and> steals_all (tp_num_nodes pool) j (node_pool pool j)"
    using inv unfolding pool_inv_def by blast+
  have "node_inv m' R' j (node_pool pool j) (F j) (Q j)" if "j < ?n" "j \<noteq> i" for j
    using old [OF that(1)] R [OF that(2)] homes by (simp add: node_inv_def homes_ok_def)
  moreover have "steals_all (tp_num_nodes pool) i np'" using old [OF i] st by (simp add: steals_all_def)
  ultimately show ?thesis using np old len pos i lt homes by (auto simp: pool_inv_def)
qed

lemma pool_invD:
  assumes "pool_inv pool m R F Q" and "i < nat (tp_num_nodes pool)"
  shows "node_inv m R i (node_pool pool i) (F i) (Q i)" "steals_all (tp_num_nodes pool) i (node_pool pool i)"
    "i < length (snd (tp_node_pools pool))"
  using assms by (auto simp: pool_inv_def)

lemma pool_inv_homes: "pool_inv pool m R F Q \<Longrightarrow> t \<in># R \<Longrightarrow> tk_home (m t) < nat (tp_num_nodes pool)"
  by (simp add: pool_inv_def)

lemma node_inv_homes:
  assumes "node_inv m R i np fs xs" and "t \<in> set fs \<or> t \<in> set xs"
  shows "tk_home (m t) = i"
proof -
  have eq: "mset (task_addrs np) = mset fs + mset xs + filter_mset (\<lambda>t. tk_home (m t) = i) R"
    using assms(1) by (simp add: node_inv_def)
  have "t \<in># mset (task_addrs np)" unfolding eq using assms(2) by auto
  then have "t \<in> set (task_addrs np)" by simp
  then show ?thesis using assms(1) by (simp add: node_inv_def homes_ok_def)
qed

lemma node_inv_size:
  assumes "node_inv m R i np fs xs"
  shows "length fs + length xs + size (filter_mset (\<lambda>t. tk_home (m t) = i) R) = unat (np_capacity np)"
proof -
  have "size (mset fs + mset xs + filter_mset (\<lambda>t. tk_home (m t) = i) R) = size (mset (task_addrs np))"
    using assms by (simp only: node_inv_def)
  then show ?thesis by (simp add: task_addrs_def)
qed

lemma calls_waiting_update:
  assumes "i < n"
  shows "calls_waiting m n (Q(i := xs)) + image_mset (task_call m) (mset (Q i)) =
    calls_waiting m n Q + image_mset (task_call m) (mset xs)"
proof -
  have "(\<Sum>j < n. image_mset (task_call m) (mset ((Q(i := xs)) j))) =
      image_mset (task_call m) (mset xs) + (\<Sum>j \<in> {..<n} - {i}. image_mset (task_call m) (mset (Q j)))"
    using assms by (subst sum.remove [of _ i]) (auto intro!: sum.cong)
  moreover have "(\<Sum>j < n. image_mset (task_call m) (mset (Q j))) =
      image_mset (task_call m) (mset (Q i)) + (\<Sum>j \<in> {..<n} - {i}. image_mset (task_call m) (mset (Q j)))"
    using assms by (subst sum.remove [of _ i]) auto
  ultimately show ?thesis by (simp add: calls_waiting_def)
qed

subsection \<open>The operations keep the invariant\<close>

lemma node_inv_parts:
  assumes "node_inv m R i np fs xs"
  obtains r d where "np_free_queue np = Some r" "ring_rep r fs" "unat (rg_capacity r) = unat (np_capacity np)"
    "np_task_queue np = Some d" "deque_rep d xs" "da_size (dq_array d) = np_capacity np"
  using assms by (auto simp: node_inv_def)

lemma node_inv_update:
  assumes "node_inv m R i np fs xs"
    and "np_free_queue np' = Some r" "ring_rep r fs'" "unat (rg_capacity r) = unat (np_capacity np)"
    and "np_task_queue np' = Some d" "deque_rep d xs'" "da_size (dq_array d) = np_capacity np"
    and "np_capacity np' = np_capacity np" "np_task_array np' = np_task_array np"
    and "mset fs' + mset xs' + filter_mset (\<lambda>t. tk_home (m t) = i) R' = mset fs + mset xs + filter_mset (\<lambda>t. tk_home (m t) = i) R"
    and "\<And>t. tk_home (m' t) = tk_home (m t)"
  shows "node_inv m' R' i np' fs' xs'"
  using assms by (simp add: node_inv_def task_addrs_def homes_ok_def)

lemma submit_push_room:
  assumes "deque_rep dq xs" and "length xs < unat (da_size (dq_array dq))"
  shows "\<exists>dq'. submit_push dq x spins w = Some (dq', w) \<and> deque_rep dq' (xs @ [x]) \<and> da_size (dq_array dq') = da_size (dq_array dq)"
  using deque_push_room [OF assms, of x w] by (auto simp: submit_push.simps)

lemma give_back_room:
  assumes "ring_rep r fs" and "length fs < unat (rg_capacity r)"
  shows "\<exists>r'. give_back r x = Some r' \<and> ring_rep r' (fs @ [x]) \<and> unat (rg_capacity r') = unat (rg_capacity r)"
  using rq.push_ok [OF assms, of x] by (auto simp: give_back.simps)

text \<open>A task that leaves the free queue waits nowhere.\<close>

lemma free_not_waiting:
  assumes "node_inv m R i np (t # fs) xs"
  shows "t \<notin> set xs"
proof
  assume "t \<in> set xs"
  then have "1 \<le> count (mset xs) t" by (simp add: Suc_le_eq)
  moreover have "1 \<le> count (mset (t # fs)) t" by simp
  ultimately have "count (mset (t # fs) + mset xs + filter_mset (\<lambda>t. tk_home (m t) = i) R) t \<ge> 2"
    by (simp only: count_union)
  moreover have "count (mset (task_addrs np)) t \<le> 1"
    using assms by (simp add: node_inv_def distinct_count_atmost_1)
  moreover have eq: "mset (t # fs) + mset xs + filter_mset (\<lambda>t. tk_home (m t) = i) R = mset (task_addrs np)"
    using assms by (simp only: node_inv_def)
  ultimately show False unfolding eq by linarith
qed

lemma submit_keeps:
  assumes inv: "pool_inv pool m R F Q"
  shows "\<exists>rc e pool' m' F' Q'. nkit_pool_submit_to_node pool node f a m w = Some (rc, e, pool', m', w) \<and> pool_inv pool' m' R F' Q' \<and>
    tp_num_nodes pool' = tp_num_nodes pool \<and>
    calls_waiting m' (nat (tp_num_nodes pool)) Q' =
      (if rc = 0 then add_mset (f, a) (calls_waiting m (nat (tp_num_nodes pool)) Q) else calls_waiting m (nat (tp_num_nodes pool)) Q)"
proof -
  let ?n = "nat (tp_num_nodes pool)"
  define i where "i = nat (if node < 0 \<or> node \<ge> tp_num_nodes pool then 0 else node)"
  have i: "i < ?n" using inv by (auto simp: i_def pool_inv_def)
  note D = pool_invD [OF inv i]
  let ?np = "node_pool pool i"
  obtain r d where p: "np_free_queue ?np = Some r" "ring_rep r (F i)" "unat (rg_capacity r) = unat (np_capacity ?np)"
    "np_task_queue ?np = Some d" "deque_rep d (Q i)" "da_size (dq_array d) = np_capacity ?np"
    using node_inv_parts [OF D(1)] by metis
  show ?thesis
  proof (cases "F i")
    case Nil
    then have "nkit_ring_pop r = Some (None, r)" using rq.pop_empty p(2) by simp
    moreover have e: "?np\<lparr>np_free_queue := Some r\<rparr> = ?np" using p(1) by simp
    have "set_node pool i (?np\<lparr>np_free_queue := Some r\<rparr>) = pool" unfolding e by (rule set_node_same [OF D(3)])
    ultimately have "nkit_pool_submit_to_node pool node f a m w = Some (- 1, Some EAGAIN, pool, m, w)"
      using p(1) unfolding nkit_pool_submit_to_node_def Let_def i_def [symmetric] by simp
    then show ?thesis using inv by auto
  next
    case (Cons t fs)
    obtain r' where r': "nkit_ring_pop r = Some (Some t, r')" "ring_rep r' fs" "unat (rg_capacity r') = unat (rg_capacity r)"
      using rq.pop_ok p(2) Cons by metis
    have "length (Q i) < unat (np_capacity ?np)" using node_inv_size [OF D(1)] Cons by simp
    then obtain d' where d': "submit_push d t 0 w = Some (d', w)" "deque_rep d' (Q i @ [t])" "da_size (dq_array d') = np_capacity ?np"
      using submit_push_room [of d "Q i" t 0 w] p(5,6) by auto
    define m' where "m' = m(t := (m t)\<lparr>tk_func := f, tk_arg := a\<rparr>)"
    let ?np' = "?np\<lparr>np_free_queue := Some r', np_task_queue := Some d'\<rparr>"
    have s: "nkit_pool_submit_to_node pool node f a m w = Some (0, None, set_node pool i ?np', m', w)"
      using p(1,4) r'(1) d'(1) unfolding nkit_pool_submit_to_node_def Let_def i_def [symmetric] m'_def by simp
    have homes: "tk_home (m' u) = tk_home (m u)" for u by (simp add: m'_def)
    have ni: "node_inv m' R i ?np' fs (Q i @ [t])"
      by (rule node_inv_update [OF D(1) _ r'(2) _ _ d'(2,3)]) (use r'(3) p(3) Cons homes in simp_all)
    have inv': "pool_inv (set_node pool i ?np') m' R (F(i := fs)) (Q(i := Q i @ [t]))"
      by (rule set_node_inv [OF inv i ni]) (use homes pool_inv_homes [OF inv] in auto)
    have "t \<notin> set (Q j)" if "j < ?n" for j
    proof (cases "j = i")
      case True
      then show ?thesis using free_not_waiting [of m R i ?np t fs "Q i"] D(1) Cons by simp
    next
      case False
      have "tk_home (m t) = i" using node_inv_homes [OF D(1)] Cons by simp
      then show ?thesis using node_inv_homes [OF pool_invD(1) [OF inv that], of t] False by auto
    qed
    then have same: "calls_waiting m' ?n Q = calls_waiting m ?n Q"
      unfolding calls_waiting_def by (intro sum.cong refl image_mset_cong) (auto simp: m'_def task_call_def)
    have "calls_waiting m' ?n (Q(i := Q i @ [t])) = add_mset (f, a) (calls_waiting m' ?n Q)"
      using calls_waiting_update [OF i, of m' Q "Q i @ [t]"] by (simp add: task_call_def m'_def)
    then show ?thesis using s inv' same by auto
  qed
qed

lemma calls_waiting_taken:
  assumes "i < n" and "mset (Q i) = add_mset t (mset xs)"
  shows "calls_waiting m n Q = add_mset (task_call m t) (calls_waiting m n (Q(i := xs)))"
  using calls_waiting_update [OF assms(1), of m Q xs] assms(2) by simp

text \<open>A worker that pops or steals from node \<open>j\<close> holds the task afterwards.\<close>

lemma dequeue_keeps:
  assumes inv: "pool_inv pool m R F Q" and j: "j < nat (tp_num_nodes pool)"
    and dq: "deque_rep d' xs" "da_size (dq_array d') = np_capacity (node_pool pool j)" and t: "mset (Q j) = add_mset t (mset xs)"
  shows "pool_inv (set_node pool j ((node_pool pool j)\<lparr>np_task_queue := Some d'\<rparr>)) m (add_mset t R) F (Q(j := xs))"
    and "tk_home (m t) = j"
proof -
  note D = pool_invD [OF inv j]
  obtain r d where p: "np_free_queue (node_pool pool j) = Some r" "ring_rep r (F j)" "unat (rg_capacity r) = unat (np_capacity (node_pool pool j))"
    using node_inv_parts [OF D(1)] by metis
  have "t \<in># mset (Q j)" by (simp only: t) simp
  then show home: "tk_home (m t) = j" using node_inv_homes [OF D(1)] by simp
  have "node_inv m (add_mset t R) j ((node_pool pool j)\<lparr>np_task_queue := Some d'\<rparr>) (F j) xs"
    by (rule node_inv_update [OF D(1) _ p(2,3) _ dq]) (use p(1) t home in simp_all)
  then have "pool_inv (set_node pool j ((node_pool pool j)\<lparr>np_task_queue := Some d'\<rparr>)) m (add_mset t R) (F(j := F j)) (Q(j := xs))"
    by (rule set_node_inv [OF inv j]) (use home j pool_inv_homes [OF inv] in auto)
  then show "pool_inv (set_node pool j ((node_pool pool j)\<lparr>np_task_queue := Some d'\<rparr>)) m (add_mset t R) F (Q(j := xs))" by simp
qed

lemma dequeue_empty:
  assumes inv: "pool_inv pool m R F Q" and j: "j < nat (tp_num_nodes pool)" and "Q j = []"
    and dq: "deque_rep d' []" "da_size (dq_array d') = np_capacity (node_pool pool j)"
  shows "pool_inv (set_node pool j ((node_pool pool j)\<lparr>np_task_queue := Some d'\<rparr>)) m R F Q"
proof -
  note D = pool_invD [OF inv j]
  obtain r d where p: "np_free_queue (node_pool pool j) = Some r" "ring_rep r (F j)" "unat (rg_capacity r) = unat (np_capacity (node_pool pool j))"
    using node_inv_parts [OF D(1)] by metis
  have "node_inv m R j ((node_pool pool j)\<lparr>np_task_queue := Some d'\<rparr>) (F j) []"
    by (rule node_inv_update [OF D(1) _ p(2,3) _ dq]) (use p(1) assms(3) in simp_all)
  then have "pool_inv (set_node pool j ((node_pool pool j)\<lparr>np_task_queue := Some d'\<rparr>)) m R (F(j := F j)) (Q(j := []))"
    by (rule set_node_inv [OF inv j]) (use pool_inv_homes [OF inv] in auto)
  then show ?thesis using assms(3) by (simp add: fun_upd_idem)
qed

text \<open>What taking a task does: it finds one unless every node it looks at has none.\<close>

definition taken :: "nkit_pool \<Rightarrow> task_mem \<Rightarrow> ptr multiset \<Rightarrow> (nat \<Rightarrow> ptr list) \<Rightarrow> (nat \<Rightarrow> ptr list) \<Rightarrow> nat set \<Rightarrow> ptr option \<times> nkit_pool \<Rightarrow> bool" where
  "taken pool m R F Q js res \<longleftrightarrow> (case res of
     (None, pool') \<Rightarrow> pool_inv pool' m R F Q \<and> tp_num_nodes pool' = tp_num_nodes pool \<and> (\<forall>j \<in> js. Q j = [])
   | (Some t, pool') \<Rightarrow> \<exists>Q'. pool_inv pool' m (add_mset t R) F Q' \<and> tp_num_nodes pool' = tp_num_nodes pool \<and>
       calls_waiting m (nat (tp_num_nodes pool)) Q = add_mset (task_call m t) (calls_waiting m (nat (tp_num_nodes pool)) Q'))"

lemma steal_loop_taken:
  assumes "pool_inv pool m R F Q" and "\<forall>t \<in> set ts. 0 \<le> t \<and> t < tp_num_nodes pool"
  shows "taken pool m R F Q (nat ` set ts) (steal_loop pool ts)"
  using assms
proof (induction ts arbitrary: pool)
  case (Cons target ts)
  define j where "j = nat target"
  have j: "j < nat (tp_num_nodes pool)" using Cons.prems(2) by (auto simp: j_def)
  note D = pool_invD [OF Cons.prems(1) j]
  obtain d where p: "np_task_queue (node_pool pool j) = Some d" "deque_rep d (Q j)" "da_size (dq_array d) = np_capacity (node_pool pool j)"
    using node_inv_parts [OF D(1)] by metis
  obtain d' where st: "nkit_deque_steal d = ((if Q j = [] then None else Some (hd (Q j))), d')" and rep: "deque_rep d' (tl (Q j))"
    using deque_steal_ok [OF p(2)] by blast
  have sz: "da_size (dq_array d') = np_capacity (node_pool pool j)" using deque_take_array(2) [of d] st p(3) by simp
  let ?pool = "set_node pool j ((node_pool pool j)\<lparr>np_task_queue := Some d'\<rparr>)"
  show ?case
  proof (cases "Q j = []")
    case True
    then have "pool_inv ?pool m R F Q" using dequeue_empty [OF Cons.prems(1) j True _ sz] rep by simp
    from Cons.IH [OF this] Cons.prems(2) have IH: "taken ?pool m R F Q (nat ` set ts) (steal_loop ?pool ts)" by simp
    have "steal_loop pool (target # ts) = steal_loop ?pool ts" using st True p(1) by (simp add: Let_def j_def [symmetric])
    then show ?thesis using IH True unfolding taken_def by (auto simp: j_def [symmetric] split: prod.splits option.splits)
  next
    case False
    then have t: "mset (Q j) = add_mset (hd (Q j)) (mset (tl (Q j)))" by (cases "Q j") simp_all
    have "steal_loop pool (target # ts) = (Some (hd (Q j)), ?pool)" using st False p(1) by (simp add: Let_def j_def [symmetric])
    then show ?thesis using dequeue_keeps(1) [OF Cons.prems(1) j rep sz t] calls_waiting_taken [OF j, where Q = Q, OF t] by (auto simp: taken_def)
  qed
qed (simp add: taken_def)

lemma nat_image_others: "nat ` ({0..<n} - {int i}) = {..<nat n} - {i}" for n :: int
proof (intro subset_antisym subsetI)
  fix x assume "x \<in> {..<nat n} - {i}"
  then have "int x \<in> {0..<n} - {int i}" by auto
  then show "x \<in> nat ` ({0..<n} - {int i})" by (intro image_eqI [of _ _ "int x"]) simp_all
qed auto

lemma worker_take_taken:
  assumes inv: "pool_inv pool m R F Q" and i: "i < nat (tp_num_nodes pool)"
  shows "taken pool m R F Q {..<nat (tp_num_nodes pool)} (worker_take pool i)"
proof -
  note D = pool_invD [OF inv i]
  let ?n = "tp_num_nodes pool" and ?np = "node_pool pool i"
  obtain d where p: "np_task_queue ?np = Some d" "deque_rep d (Q i)" "da_size (dq_array d) = np_capacity ?np"
    using node_inv_parts [OF D(1)] by metis
  obtain d' where pop: "nkit_deque_pop d = ((if Q i = [] then None else Some (last (Q i))), d')" and rep: "deque_rep d' (butlast (Q i))"
    using deque_pop_ok [OF p(2)] by blast
  have sz: "da_size (dq_array d') = np_capacity ?np" using deque_take_array(1) [of d] pop p(3) by simp
  let ?pool = "set_node pool i (?np\<lparr>np_task_queue := Some d'\<rparr>)"
  show ?thesis
  proof (cases "Q i = []")
    case False
    then have t: "mset (Q i) = add_mset (last (Q i)) (mset (butlast (Q i)))" by (cases "Q i" rule: rev_cases) simp_all
    have "worker_take pool i = (Some (last (Q i)), ?pool)" using pop False p(1) by (simp add: worker_take_def Let_def)
    then show ?thesis using dequeue_keeps(1) [OF inv i rep sz t] calls_waiting_taken [OF i, where Q = Q, OF t] by (auto simp: taken_def)
  next
    case True
    have inv': "pool_inv ?pool m R F Q" using dequeue_empty [OF inv i True _ sz] rep True by simp
    show ?thesis
    proof (cases "?n > 1")
      case n: True
      let ?ts = "snd (np_steal_order ?np)"
      have so: "fst (np_steal_order ?np) \<noteq> NULL" "length ?ts = nat (?n - 1)" "set ?ts = {0..<?n} - {int i}"
        using D(2) n by (auto simp: steals_all_def)
      have w: "worker_take pool i = steal_loop ?pool ?ts" using pop True p(1) n so(1,2) by (simp add: worker_take_def Let_def)
      have "taken ?pool m R F Q (nat ` set ?ts) (steal_loop ?pool ?ts)"
        by (rule steal_loop_taken [OF inv']) (auto simp: so(3))
      moreover have "{..<nat ?n} = insert i (nat ` set ?ts)"
        unfolding so(3) nat_image_others using i by auto
      ultimately show ?thesis using True w unfolding taken_def by (auto split: prod.splits option.splits)
    next
      case False
      then have "worker_take pool i = (None, ?pool)" using pop True p(1) by (simp add: worker_take_def Let_def)
      moreover have "{..<nat ?n} = {i}" using False i by auto
      ultimately show ?thesis using inv' True by (simp add: taken_def)
    qed
  qed
qed

lemma worker_return_keeps:
  assumes inv: "pool_inv pool m R F Q" and t: "t \<in># R"
  shows "\<exists>pool' F'. worker_return pool m t = Some pool' \<and> pool_inv pool' m (R - {#t#}) F' Q \<and> tp_num_nodes pool' = tp_num_nodes pool"
proof -
  define i where "i = tk_home (m t)"
  have i: "i < nat (tp_num_nodes pool)" using inv t by (simp add: pool_inv_def i_def)
  note D = pool_invD [OF inv i]
  let ?np = "node_pool pool i"
  obtain r d where p: "np_free_queue ?np = Some r" "ring_rep r (F i)" "unat (rg_capacity r) = unat (np_capacity ?np)"
    "np_task_queue ?np = Some d" "deque_rep d (Q i)" "da_size (dq_array d) = np_capacity ?np"
    using node_inv_parts [OF D(1)] by metis
  have mem: "t \<in># filter_mset (\<lambda>u. tk_home (m u) = i) R" using t by (simp add: i_def)
  then have "0 < size (filter_mset (\<lambda>u. tk_home (m u) = i) R)" by (metis nonempty_has_size empty_iff set_mset_empty)
  then have "length (F i) < unat (rg_capacity r)" using node_inv_size [OF D(1)] p(3) by linarith
  from give_back_room [OF p(2) this, of t] obtain r' where r': "give_back r t = Some r'" "ring_rep r' (F i @ [t])"
    "unat (rg_capacity r') = unat (np_capacity ?np)" using p(3) by auto
  let ?np' = "?np\<lparr>np_free_queue := Some r'\<rparr>"
  have fi: "filter_mset (\<lambda>u. tk_home (m u) = j) (R - {#t#}) =
      (if j = i then filter_mset (\<lambda>u. tk_home (m u) = i) R - {#t#} else filter_mset (\<lambda>u. tk_home (m u) = j) R)" for j
    by (auto simp: i_def)
  have "node_inv m (R - {#t#}) i ?np' (F i @ [t]) (Q i)"
    by (rule node_inv_update [OF D(1) _ r'(2,3) _ p(5,6)]) (use p(4) mem fi [of i] in \<open>simp_all add: ac_simps\<close>)
  then have "pool_inv (set_node pool i ?np') m (R - {#t#}) (F(i := F i @ [t])) (Q(i := Q i))"
    by (rule set_node_inv [OF inv i]) (use pool_inv_homes [OF inv] fi in \<open>auto dest: in_diffD\<close>)
  then show ?thesis using r'(1) p(1) by (auto simp: worker_return_def Let_def i_def [symmetric])
qed

subsection \<open>Runs\<close>

lemma mset_remove_nth:
  assumes "j < length xs"
  shows "mset (take j xs @ drop (Suc j) xs) = mset xs - {#xs ! j#}"
proof -
  have "mset xs = mset (take j xs @ xs ! j # drop (Suc j) xs)" using id_take_nth_drop [OF assms] by simp
  then show ?thesis by simp
qed

lemma run_keeps:
  assumes "pool_inv pool m (mset running) F Q" and "\<forall>ev \<in> set evs. event_ok (nat (tp_num_nodes pool)) ev"
  shows "\<exists>acc calls pool' m' running' F' Q'. pool_run evs pool m running w = Some (acc, calls, pool', m', running', w) \<and>
    pool_inv pool' m' (mset running') F' Q' \<and> tp_num_nodes pool' = tp_num_nodes pool \<and>
    mset acc + calls_waiting m (nat (tp_num_nodes pool)) Q = mset calls + calls_waiting m' (nat (tp_num_nodes pool)) Q'"
  using assms
proof (induction evs arbitrary: pool m running F Q)
  case (Cons ev evs)
  let ?n = "nat (tp_num_nodes pool)"
  have evs: "\<forall>ev \<in> set evs. event_ok ?n ev" using Cons.prems(2) by simp
  show ?case
  proof (cases ev)
    case (Submit node f a)
    obtain rc e pool1 m1 F1 Q1 where s: "nkit_pool_submit_to_node pool node f a m w = Some (rc, e, pool1, m1, w)"
      "pool_inv pool1 m1 (mset running) F1 Q1" "tp_num_nodes pool1 = tp_num_nodes pool"
      "calls_waiting m1 ?n Q1 = (if rc = 0 then add_mset (f, a) (calls_waiting m ?n Q) else calls_waiting m ?n Q)"
      using submit_keeps [OF Cons.prems(1), of node f a w] by blast
    from Cons.IH [OF s(2)] evs s(3) obtain acc calls pool' m' running' F' Q' where
      IH: "pool_run evs pool1 m1 running w = Some (acc, calls, pool', m', running', w)" "pool_inv pool' m' (mset running') F' Q'"
        "tp_num_nodes pool' = tp_num_nodes pool" "mset acc + calls_waiting m1 ?n Q1 = mset calls + calls_waiting m' ?n Q'" by auto
    show ?thesis using s(1,4) IH Submit by (cases "rc = 0") auto
  next
    case (Take i)
    then have i: "i < ?n" using Cons.prems(2) by simp
    have tk: "taken pool m (mset running) F Q {..<?n} (worker_take pool i)" by (rule worker_take_taken [OF Cons.prems(1) i])
    obtain x pool1 where w: "worker_take pool i = (x, pool1)" by fastforce
    show ?thesis
    proof (cases x)
      case None
      then have "pool_inv pool1 m (mset running) F Q" "tp_num_nodes pool1 = tp_num_nodes pool" using tk w by (auto simp: taken_def)
      from Cons.IH [OF this(1)] this(2) evs show ?thesis using w None Take by auto
    next
      case (Some t)
      then obtain Q1 where q: "pool_inv pool1 m (mset (t # running)) F Q1" "tp_num_nodes pool1 = tp_num_nodes pool"
        "calls_waiting m ?n Q = add_mset (task_call m t) (calls_waiting m ?n Q1)" using tk w by (auto simp: taken_def)
      from Cons.IH [OF q(1)] evs q(2) obtain acc calls pool' m' running' F' Q' where
        IH: "pool_run evs pool1 m (t # running) w = Some (acc, calls, pool', m', running', w)" "pool_inv pool' m' (mset running') F' Q'"
          "tp_num_nodes pool' = tp_num_nodes pool" "mset acc + calls_waiting m ?n Q1 = mset calls + calls_waiting m' ?n Q'" by auto
      show ?thesis using w Some IH q(3) Take by auto
    qed
  next
    case (Return j)
    show ?thesis
    proof (cases "j < length running")
      case True
      obtain pool1 F1 where p: "worker_return pool m (running ! j) = Some pool1" "pool_inv pool1 m (mset running - {#running ! j#}) F1 Q"
        "tp_num_nodes pool1 = tp_num_nodes pool" using worker_return_keeps [OF Cons.prems(1), of "running ! j"] True by auto
      have "pool_inv pool1 m (mset (take j running @ drop (Suc j) running)) F1 Q"
        unfolding mset_remove_nth [OF True] by (rule p(2))
      from Cons.IH [OF this] p(3) evs show ?thesis using p(1) True Return by auto
    next
      case False
      then show ?thesis using Cons.IH [OF Cons.prems(1) evs] Return by simp
    qed
  qed
qed auto

lemma waiting_calls:
  assumes "pool_inv pool m R F Q"
  shows "mset (waiting pool m) = calls_waiting m (nat (tp_num_nodes pool)) Q"
proof -
  let ?nps = "snd (tp_node_pools pool)" and ?n = "nat (tp_num_nodes pool)"
  have len: "length ?nps = ?n" using assms by (simp add: pool_inv_def)
  have "deque_items (the (np_task_queue (?nps ! i))) = Q i" if "i < ?n" for i
    using pool_invD(1) [OF assms that] deque_items_rep by (auto simp: node_inv_def node_pool_def)
  then have "(\<Sum>i = 0..<length ?nps. mset (map (task_call m) (deque_items (the (np_task_queue (?nps ! i)))))) = calls_waiting m ?n Q"
    unfolding calls_waiting_def len by (intro sum.cong) auto
  moreover have "mset (waiting pool m) = (\<Sum>i = 0..<length ?nps. mset (map (task_call m) (deque_items (the (np_task_queue (?nps ! i))))))"
    by (simp add: waiting_def mset_concat sum_list_sum_nth)
  ultimately show ?thesis by simp
qed

subsection \<open>A pool that was created\<close>

text \<open>
  What the C standard says of \<^verbatim>\<open>qsort\<close>, and what the allocator promises of the task arrays: they do
  not wrap around the address space and do not overlap.
\<close>

definition qsort_ok :: "((int \<Rightarrow> int) \<Rightarrow> int list \<Rightarrow> int list) \<Rightarrow> bool" where
  "qsort_ok qs \<longleftrightarrow> (\<forall>key xs. mset (qs key xs) = mset xs \<and> sorted (map key (qs key xs)))"

definition task_array_block :: "nkit_node_pool \<Rightarrow> ptr \<times> u64" where
  "task_array_block np = (np_task_array np, task_array_bytes (np_capacity np))"

definition task_arrays_ok :: "nkit_pool \<Rightarrow> bool" where
  "task_arrays_ok pool \<longleftrightarrow> (\<forall>i < length (snd (tp_node_pools pool)).
     block_addrs (task_array_block (node_pool pool i)) \<subseteq> {..<2 ^ 64} \<and>
     (\<forall>j < length (snd (tp_node_pools pool)). i \<noteq> j \<longrightarrow>
       block_addrs (task_array_block (node_pool pool i)) \<inter> block_addrs (task_array_block (node_pool pool j)) = {}))"

lemma unat_task_bytes: "unat (task_array_bytes cap) = 24 * unat cap"
proof -
  have "unat (sizeof_task * (ucast cap :: u64)) = unat sizeof_task * unat (ucast cap :: u64)"
    using unat_less_exp_len [of cap] by (intro unat_mult_lem [THEN iffD1]) (simp add: sizeof_task_def unat_ucast_u32)
  then show ?thesis by (simp add: task_array_bytes_def sizeof_task_def unat_ucast_u32)
qed

lemma unat_task_addr:
  assumes "block_addrs (task_array_block np) \<subseteq> {..<2 ^ 64}" and "j < unat (np_capacity np)"
  shows "unat (task_addr (np_task_array np) j) = unat (np_task_array np) + 24 * j"
proof -
  let ?b = "unat (np_task_array np)"
  have "?b + 24 * j \<in> block_addrs (task_array_block np)"
    using assms(2) by (simp add: block_addrs_def task_array_block_def unat_task_bytes)
  then have lt: "?b + 24 * j < 2 ^ 64" using assms(1) by auto
  have "task_addr (np_task_array np) j = of_nat (?b + 24 * j)" by (simp add: task_addr_def sizeof_task_def)
  then show ?thesis using lt by (simp only: unat_of_nat) simp
qed

lemma task_addrs_in_block:
  assumes "block_addrs (task_array_block np) \<subseteq> {..<2 ^ 64}" and "t \<in> set (task_addrs np)"
  shows "unat t \<in> block_addrs (task_array_block np)"
  using assms(2) unat_task_addr [OF assms(1)] by (auto simp: task_addrs_def block_addrs_def task_array_block_def unat_task_bytes)

lemma distinct_task_addrs:
  assumes "block_addrs (task_array_block np) \<subseteq> {..<2 ^ 64}"
  shows "distinct (task_addrs np)"
proof -
  have "inj_on (task_addr (np_task_array np)) {0..<unat (np_capacity np)}"
  proof (rule inj_onI)
    fix x y assume "x \<in> {0..<unat (np_capacity np)}" "y \<in> {0..<unat (np_capacity np)}"
    then have "unat (task_addr (np_task_array np) x) = unat (np_task_array np) + 24 * x"
      "unat (task_addr (np_task_array np) y) = unat (np_task_array np) + 24 * y" using unat_task_addr [OF assms] by auto
    moreover assume "task_addr (np_task_array np) x = task_addr (np_task_array np) y"
    ultimately have "unat (np_task_array np) + 24 * x = unat (np_task_array np) + 24 * y" by (simp only:)
    then show "x = y" by simp
  qed
  then show ?thesis by (simp add: task_addrs_def distinct_map)
qed

lemma arrays_disjoint_ok:
  assumes "task_arrays_ok pool"
  shows "arrays_disjoint (snd (tp_node_pools pool))"
  unfolding arrays_disjoint_def
proof (intro allI impI)
  fix i j assume ij: "i < length (snd (tp_node_pools pool))" "j < length (snd (tp_node_pools pool))" "i \<noteq> j"
  then have b: "block_addrs (task_array_block (node_pool pool i)) \<subseteq> {..<2 ^ 64}" "block_addrs (task_array_block (node_pool pool j)) \<subseteq> {..<2 ^ 64}"
    "block_addrs (task_array_block (node_pool pool i)) \<inter> block_addrs (task_array_block (node_pool pool j)) = {}"
    using assms by (auto simp: task_arrays_ok_def)
  show "set (task_addrs (snd (tp_node_pools pool) ! i)) \<inter> set (task_addrs (snd (tp_node_pools pool) ! j)) = {}"
    using task_addrs_in_block [OF b(1)] task_addrs_in_block [OF b(2)] b(3) by (auto simp: node_pool_def)
qed

lemma steals_all_sorted:
  assumes "qsort_ok qs" and "steal_order_ok qs n i np" and "int i < n"
  shows "steals_all n i np"
proof -
  let ?ys = "filter (\<lambda>j. j \<noteq> int i) [0..n - 1]"
  have set: "set ?ys = {0..<n} - {int i}" by auto
  have "length ?ys = card (set ?ys)" by (rule distinct_card [symmetric]) simp
  also have "\<dots> = nat (n - 1)" unfolding set using assms(3) by (simp add: card_Diff_singleton_if nat_diff_distrib)
  finally have len: "length ?ys = nat (n - 1)" .
  have qs: "set (qs key ?ys) = {0..<n} - {int i}" "length (qs key ?ys) = nat (n - 1)" for key
  proof -
    have m: "mset (qs key ?ys) = mset ?ys" using assms(1) unfolding qsort_ok_def by blast
    show "set (qs key ?ys) = {0..<n} - {int i}" using mset_eq_setD [OF m] set by (simp only:)
    show "length (qs key ?ys) = nat (n - 1)" using mset_eq_length [OF m] len by (simp only:)
  qed
  show ?thesis
  proof (cases "n > 1")
    case True
    then obtain key where "fst (np_steal_order np) \<noteq> NULL" "snd (np_steal_order np) = qs key ?ys"
      using assms(2) unfolding steal_order_ok_def by blast
    then show ?thesis using qs [of key] by (simp only: steals_all_def simp_thms)
  qed (simp add: steals_all_def)
qed

lemma pool_made_inv:
  assumes "pool_made qs w pool m' w'" and "qsort_ok qs" and "task_arrays_ok pool" and "0 < tp_num_nodes pool"
  shows "pool_inv pool m' {#} (\<lambda>i. task_addrs (node_pool pool i)) (\<lambda>_. [])"
proof -
  let ?n = "nat (tp_num_nodes pool)"
  have len: "length (snd (tp_node_pools pool)) = ?n" and rd: "pool_ready qs pool" and homes: "\<And>i. i < ?n \<Longrightarrow> homes_ok m' i (node_pool pool i)"
    using assms(1) arrays_disjoint_ok [OF assms(3)] by (auto simp: pool_made_def pool_ready_def)
  have "node_inv m' {#} i (node_pool pool i) (task_addrs (node_pool pool i)) []" if "i < ?n" for i
  proof -
    have "node_ready (node_pool pool i)" using rd that len by (auto simp: pool_ready_def Let_def)
    moreover have "distinct (task_addrs (node_pool pool i))"
      using assms(3) that len by (intro distinct_task_addrs) (simp add: task_arrays_ok_def)
    ultimately show ?thesis using homes [OF that] by (auto simp: node_ready_def node_inv_def)
  qed
  moreover have "steals_all (tp_num_nodes pool) i (node_pool pool i)" if "i < ?n" for i
    using rd that len by (intro steals_all_sorted [OF assms(2)]) (auto simp: pool_ready_def Let_def)
  ultimately show ?thesis using len assms(4) by (simp add: pool_inv_def)
qed


subsection \<open>A platform with two nodes\<close>

definition two_node_answer :: "os_call \<Rightarrow> u64" where
  "two_node_answer c = (case c of
     Numa_alloc_onnode n i \<Rightarrow> if i = 0 then 2 ^ 41 else 2 ^ 42
   | Numa_max_node \<Rightarrow> 1
   | _ \<Rightarrow> demo_answer c)"

definition two_node_os :: os where
  "two_node_os = \<lparr>os_answer = (\<lambda>_. two_node_answer), os_tick = 0, os_live = {#}, os_fault = False, os_trace = []\<rparr>"

lemma two_node_mmap: "two_node_answer (Mmap n h) = demo_answer (Mmap n h)"
  by (simp add: two_node_answer_def)

lemma mmap_ok_two_node: "mmap_ok two_node_os"
  using mmap_ok_demo_os by (simp add: mmap_ok_def two_node_os_def demo_os_def two_node_mmap)

lemma two_node_arena:
  assumes "os_answer w = (\<lambda>_. two_node_answer)" and "sz \<noteq> 0" and "unat sz \<le> 2 ^ 39"
  shows "fst (nkit_arena_create node_id sz w) \<noteq> None"
proof -
  let ?n = "align_up 21 sz"
  have n: "unat sz \<le> unat ?n" "unat ?n < unat sz + 2 ^ 21" using assms(3) align_up_bounds [of 21 sz] by simp_all
  then have len: "?n \<noteq> 0" "\<not> 2 ^ 40 < ?n" using assms(2,3) by (auto simp: unat_gt_0 unat_eq_0 word_less_nat_alt)
  then have "two_node_answer (Mmap ?n False) = 2 ^ 40" by (simp add: two_node_mmap)
  then show ?thesis using assms(1,2)
    by (simp add: nkit_arena_create_def huge_align_eq os_simps os_prim_defs Let_def case_prod_beta two_node_answer_def MAP_FAILED_def)
qed

lemma two_node_ring:
  assumes "os_answer w = os_answer two_node_os" and "10 \<le> k" and "k < 32"
  shows "fst (nkit_ring_create i (2 ^ k) w) \<noteq> None"
proof -
  let ?sz = "sizeof_ring + sizeof_cell * 2 ^ k"
  have "(2::nat) ^ k \<le> 2 ^ 31" using assms(3) by (intro power_increasing) simp_all
  then have lt: "384 + 16 * 2 ^ k < (2::nat) ^ 39" by simp
  have "?sz = of_nat (384 + 16 * 2 ^ k)" by (simp add: sizeof_ring_def sizeof_cell_def)
  then have u: "unat ?sz = 384 + 16 * 2 ^ k" using lt by (simp only: unat_of_nat) simp
  then have sz: "?sz \<noteq> 0" "unat ?sz \<le> 2 ^ 39" using lt by auto
  have mm: "mmap_ok w" using mmap_ok_cong [OF assms(1)] mmap_ok_two_node by simp
  obtain r w' where r: "nkit_ring_create i (2 ^ k) w = (r, w')" by fastforce
  from mm r show ?thesis
  proof (cases rule: ring_create_cases)
    case bad
    moreover have "0 < k" "k < 64" using assms(2,3) by simp_all
    ultimately show ?thesis by blast
  next
    case no_mem
    then show ?thesis using two_node_arena [of w ?sz i] assms(1) sz by (simp add: two_node_os_def)
  qed (use r in simp)
qed

lemma generous_two_node: "generous two_node_os"
  unfolding generous_def
proof (intro conjI allI impI)
  show "heap_ok two_node_os" by (simp add: heap_ok_def two_node_os_def two_node_answer_def)
  show "fst (nkit_ring_create i (2 ^ k) v) \<noteq> None" if "os_answer v = os_answer two_node_os" "10 \<le> k" "k < 32" for v i k
    by (rule two_node_ring [OF that])
qed (simp_all add: two_node_os_def two_node_answer_def)

definition no_tasks :: task_mem where
  "no_tasks = (\<lambda>_. \<lparr>tk_func = NULL, tk_arg = NULL, tk_home = 0\<rparr>)"

lemma two_node_pool:
  "\<exists>pool m1 w1. nkit_pool_create sort_key no_tasks two_node_os = Some (Some pool, m1, w1) \<and> \<not> os_fault w1 \<and>
     tp_num_nodes pool = 2 \<and> task_arrays_ok pool"
proof -
  have gen: "heap_ok two_node_os" using generous_two_node by (simp add: generous_def)
  obtain r m1 w1 where c: "nkit_pool_create sort_key no_tasks two_node_os = Some (r, m1, w1)"
    "os_fault w1 = os_fault two_node_os" "r \<noteq> None"
    "os_fault w1 \<or> (r = None \<and> ledger w1 = ledger two_node_os) \<or> (\<exists>pool. r = Some pool \<and> pool_made sort_key two_node_os pool m1 w1)"
    "\<forall>pool. r = Some pool \<longrightarrow> (\<exists>t. tp_num_nodes pool = sint (os_answer two_node_os t Numa_max_node) + 1)"
    using pool_create_cases [OF mmap_ok_two_node, of sort_key no_tasks] gen generous_two_node by blast
  have nf: "\<not> os_fault w1" using c(2) by (simp add: two_node_os_def)
  then obtain pool where pool: "r = Some pool" "pool_made sort_key two_node_os pool m1 w1" using c(3,4) by blast
  have two: "tp_num_nodes pool = 2" using c(5) pool(1) by (auto simp: two_node_os_def two_node_answer_def)
  then have len: "length (snd (tp_node_pools pool)) = 2" using pool(2) by (simp add: pool_made_def pool_ready_def)
  have arr: "unat (np_task_array (node_pool pool i)) = (if i = 0 then 2 ^ 41 else 2 ^ 42)" if "i < 2" for i
    using pool(2) len that unfolding pool_made_def arrays_from_def
    by (auto simp: Let_def two_node_os_def two_node_answer_def)
  have sz: "24 * unat c < 2 ^ 40" for c :: u32 using unat_less_exp_len [of c] by simp
  have "task_arrays_ok pool"
    unfolding task_arrays_ok_def len task_array_block_def block_addrs_def
    using arr sz [of "np_capacity (node_pool pool 0)"] sz [of "np_capacity (node_pool pool 1)"]
    by (auto simp: less_2_cases_iff unat_task_bytes)
  then show ?thesis using c(1) pool(1) nf two by blast
qed


end
