(* ===== verification/NK_Skip.thy ===== *)
theory NK_Skip
  imports NK_Map_Spec NK_Mcs "HOL-Library.Monad_Syntax"
begin

section \<open>The sharded skip list (\<^verbatim>\<open>src/structs/skip_list.c\<close>): model\<close>

text \<open>
  The nodes live in a memory \<open>hp\<close> from addresses to nodes; \<open>sn_next\<close> is the flexible array of
  forward pointers, of length \<open>sn_level\<close>. A node holds a pointer to its key, so the operations read the
  byte memory \<open>m\<close>. \<^const>\<open>None\<close> as the value of an operation means that it does not return: a loop
  that runs forever, an access through a pointer that is not a node or past the end of \<open>sn_next\<close>, or
  a division by zero. \<^verbatim>\<open>rand_r\<close> is a parameter that gives a number and the next seed; \<open>node\<close> is the
  caller's queue node of the MCS lock of the shard.
\<close>

record nkit_skip_node =
  sn_key :: ptr
  sn_key_len :: u64
  sn_value :: ptr
  sn_level :: u32
  sn_next :: "ptr list"

record nkit_skip_shard =
  sh_head :: ptr
  sh_max_level :: u32
  sh_current_level :: u32
  sh_count :: u64
  sh_node_id :: int
  sh_lock :: "ptr option"
  sh_seed :: u32

record nkit_skip =
  sk_addr :: ptr
  sk_max_level :: u32
  sk_num_shards :: u32
  sk_shards :: "ptr \<times> nkit_skip_shard list"

type_synonym skip_heap = "ptr \<rightharpoonup> nkit_skip_node"

type_synonym rand_r = "u32 \<Rightarrow> int \<times> u32"

definition sizeof_skip :: u64 where
  "sizeof_skip = 16"

definition sizeof_skip_shard :: u64 where
  "sizeof_skip_shard = 48"

definition RAND_MAX :: int where
  "RAND_MAX = 2147483647"

definition skip_fnv1a :: "mem \<Rightarrow> ptr \<Rightarrow> u64 \<Rightarrow> u64" where
  "skip_fnv1a m data len = fold (\<lambda>byte hash. (hash XOR ucast byte) * 1099511628211) (read_bytes m data len) 14695981039346656037"

lemma unat_inc_less: "a < b \<Longrightarrow> unat (a + 1) = unat a + 1" for a b :: u32
  using unat_less_exp_len [of b] by (subst unat_add_lem [THEN iffD1]) (simp_all add: word_less_nat_alt)

function random_level_loop :: "rand_r \<Rightarrow> u32 \<Rightarrow> u32 \<Rightarrow> u32 \<Rightarrow> u32 \<times> u32" where
  "random_level_loop rnd max_level level seed =
    (case rnd seed of (r, seed') \<Rightarrow>
     if r < RAND_MAX div 2 \<and> level < max_level then random_level_loop rnd max_level (level + 1) seed' else (level, seed'))"
  by pat_completeness auto
termination
proof (relation "measure (\<lambda>(rnd, max_level, level, seed). unat max_level - unat level)")
  fix rnd :: rand_r and max_level level seed seed' :: u32 and r :: int
  assume "r < RAND_MAX div 2 \<and> level < max_level"
  then have "unat level < unat max_level" "unat (level + 1) = unat level + 1"
    using unat_inc_less by (auto simp: word_less_nat_alt)
  then show "((rnd, max_level, level + 1, seed'), (rnd, max_level, level, seed))
      \<in> measure (\<lambda>(rnd, max_level, level, seed). unat max_level - unat level)" by simp
qed simp

declare random_level_loop.simps [simp del]

definition random_level :: "rand_r \<Rightarrow> nkit_skip_shard \<Rightarrow> u32 \<times> nkit_skip_shard" where
  "random_level rnd shard =
    (case random_level_loop rnd (sh_max_level shard) 1 (sh_seed shard) of (level, seed) \<Rightarrow> (level, shard\<lparr>sh_seed := seed\<rparr>))"

definition skip_node_bytes :: "u32 \<Rightarrow> u64" where
  "skip_node_bytes level = 32 + 8 * ucast level"

definition create_node :: "int \<Rightarrow> ptr \<Rightarrow> u64 \<Rightarrow> ptr \<Rightarrow> u32 \<Rightarrow> skip_heap \<Rightarrow> os \<Rightarrow> ptr \<times> skip_heap \<times> os" where
  "create_node node_id key key_len value level hp w =
    (case os_numa_alloc (skip_node_bytes level) node_id w of (node, w1) \<Rightarrow>
     if node = NULL then (NULL, hp, w1) else
     (node, hp(node \<mapsto> \<lparr>sn_key = key, sn_key_len = key_len, sn_value = value, sn_level = level,
        sn_next = replicate (unat level) NULL\<rparr>), w1))"

definition free_node :: "ptr \<Rightarrow> skip_heap \<Rightarrow> os \<Rightarrow> (skip_heap \<times> os) option" where
  "free_node p hp w =
    (if p = NULL then Some (hp, w) else do {
       n \<leftarrow> hp p;
       Some (hp(p := None), os_numa_free p (skip_node_bytes (sn_level n)) w)
     })"

definition skip_keys_equal :: "mem \<Rightarrow> ptr \<Rightarrow> u64 \<Rightarrow> ptr \<Rightarrow> u64 \<Rightarrow> bool" where
  "skip_keys_equal m a a_len b b_len \<longleftrightarrow> a_len = b_len \<and> memcmp m a b a_len = 0"

subsection \<open>Creation and destruction\<close>

text \<open>The rollback loop over the shards already made.\<close>

fun skip_rollback :: "nkit_skip_shard list \<Rightarrow> skip_heap \<Rightarrow> os \<Rightarrow> (skip_heap \<times> os) option" where
  "skip_rollback [] hp w = Some (hp, w)"
| "skip_rollback (sh # shs) hp w = do { (hp1, w1) \<leftarrow> free_node (sh_head sh) hp w; skip_rollback shs hp1 w1 }"

definition new_shard :: "u32 \<Rightarrow> nat \<Rightarrow> ptr \<Rightarrow> nkit_skip_shard" where
  "new_shard max_level i head = \<lparr>sh_head = head, sh_max_level = max_level, sh_current_level = 1, sh_count = 0,
     sh_node_id = int i, sh_lock = None, sh_seed = of_nat i + 42\<rparr>"

fun skip_shards_loop :: "u32 \<Rightarrow> nat list \<Rightarrow> nkit_skip_shard list \<Rightarrow> skip_heap \<Rightarrow> os \<Rightarrow>
    ((nkit_skip_shard list \<times> skip_heap \<times> os) + (skip_heap \<times> os)) option" where
  "skip_shards_loop max_level [] shs hp w = Some (Inl (shs, hp, w))"
| "skip_shards_loop max_level (i # is) shs hp w =
    (case create_node (int i) NULL 0 NULL max_level hp w of (head, hp1, w1) \<Rightarrow>
     if head = NULL then map_option Inr (skip_rollback shs hp1 w1)
     else skip_shards_loop max_level is (shs @ [new_shard max_level i head]) hp1 w1)"

definition nkit_skip_create :: "u32 \<Rightarrow> skip_heap \<Rightarrow> os \<Rightarrow> (nkit_skip option \<times> skip_heap \<times> os) option" where
  "nkit_skip_create max_level hp w =
    (case os_ask_int Numa_available w of (avail, w1) \<Rightarrow>
     if avail < 0 then Some (None, hp, w1) else
     case os_ask_int Numa_max_node w1 of (max_node, w2) \<Rightarrow>
     let num_nodes = max_node + 1 in
     case os_malloc sizeof_skip w2 of (sl, w3) \<Rightarrow>
     if sl = NULL then Some (None, hp, w3) else
     case os_calloc (word_of_int num_nodes) sizeof_skip_shard w3 of (shards, w4) \<Rightarrow>
     if shards = NULL then Some (None, hp, os_free sl w4) else do {
       res \<leftarrow> skip_shards_loop max_level [0..<nat num_nodes] [] hp w4;
       Some (case res of
         Inr (hp1, w5) \<Rightarrow> (None, hp1, os_free sl (os_free shards w5))
       | Inl (shs, hp1, w5) \<Rightarrow>
         (Some \<lparr>sk_addr = sl, sk_max_level = max_level, sk_num_shards = word_of_int num_nodes, sk_shards = (shards, shs)\<rparr>, hp1, w5))
     })"

text \<open>The forward pointer \<^verbatim>\<open>p->next[i]\<close>.\<close>

definition skip_next :: "skip_heap \<Rightarrow> ptr \<Rightarrow> nat \<Rightarrow> ptr option" where
  "skip_next hp p i = do { n \<leftarrow> hp p; if i < length (sn_next n) then Some (sn_next n ! i) else None }"

definition set_next :: "skip_heap \<Rightarrow> ptr \<Rightarrow> nat \<Rightarrow> ptr \<Rightarrow> skip_heap option" where
  "set_next hp p i q = do {
     n \<leftarrow> hp p;
     if i < length (sn_next n) then Some (hp(p \<mapsto> n\<lparr>sn_next := (sn_next n)[i := q]\<rparr>)) else None
   }"

partial_function (option) skip_free_chain :: "ptr \<Rightarrow> skip_heap \<Rightarrow> os \<Rightarrow> (skip_heap \<times> os) option" where
  "skip_free_chain cur hp w =
    (if cur = NULL then Some (hp, w) else
     Option.bind (skip_next hp cur 0) (\<lambda>nx. Option.bind (free_node cur hp w) (\<lambda>(hp1, w1). skip_free_chain nx hp1 w1)))"

fun skip_free_shards :: "nkit_skip_shard list \<Rightarrow> skip_heap \<Rightarrow> os \<Rightarrow> (skip_heap \<times> os) option" where
  "skip_free_shards [] hp w = Some (hp, w)"
| "skip_free_shards (sh # shs) hp w = do { (hp1, w1) \<leftarrow> skip_free_chain (sh_head sh) hp w; skip_free_shards shs hp1 w1 }"

definition nkit_skip_destroy :: "nkit_skip option \<Rightarrow> skip_heap \<Rightarrow> os \<Rightarrow> (skip_heap \<times> os) option" where
  "nkit_skip_destroy h hp w =
    (case h of None \<Rightarrow> Some (hp, w)
     | Some sl \<Rightarrow> do {
         (hp1, w1) \<leftarrow> skip_free_shards (take (unat (sk_num_shards sl)) (snd (sk_shards sl))) hp w;
         Some (hp1, os_free (sk_addr sl) (os_free (fst (sk_shards sl)) w1))
       })"

subsection \<open>Search\<close>

text \<open>The condition of the inner loop on the node at address \<open>nx\<close>.\<close>

definition skip_before :: "mem \<Rightarrow> nkit_skip_node \<Rightarrow> ptr \<Rightarrow> u64 \<Rightarrow> bool" where
  "skip_before m n key key_len \<longleftrightarrow>
     sn_key_len n < key_len \<or> (sn_key_len n = key_len \<and> memcmp m (sn_key n) key key_len < 0)"

partial_function (option) skip_walk :: "mem \<Rightarrow> skip_heap \<Rightarrow> ptr \<Rightarrow> u64 \<Rightarrow> nat \<Rightarrow> ptr \<Rightarrow> ptr option" where
  "skip_walk m hp key key_len i cur =
    Option.bind (skip_next hp cur i) (\<lambda>nx.
      if nx = NULL then Some cur else
      Option.bind (hp nx) (\<lambda>n.
        if skip_before m n key key_len then skip_walk m hp key key_len i nx else Some cur))"

text \<open>The outer loop, from level \<open>i - 1\<close> down to 0: the array \<^verbatim>\<open>update\<close> and the last node.\<close>

fun skip_search :: "mem \<Rightarrow> skip_heap \<Rightarrow> ptr \<Rightarrow> u64 \<Rightarrow> nat \<Rightarrow> ptr \<Rightarrow> (ptr list \<times> ptr) option" where
  "skip_search m hp key key_len 0 cur = Some ([], cur)"
| "skip_search m hp key key_len (Suc i) cur = do {
     c \<leftarrow> skip_walk m hp key key_len i cur;
     (upd, last) \<leftarrow> skip_search m hp key key_len i c;
     Some (upd @ [c], last)
   }"

text \<open>The number of levels, \<^verbatim>\<open>(int) max_level\<close>.\<close>

definition skip_levels :: "nkit_skip_shard \<Rightarrow> nat" where
  "skip_levels sh = nat (sint (sh_max_level sh))"

text \<open>The node after the search, if it has the key.\<close>

definition skip_found :: "mem \<Rightarrow> skip_heap \<Rightarrow> ptr \<Rightarrow> u64 \<Rightarrow> ptr \<Rightarrow> nkit_skip_node option option" where
  "skip_found m hp key key_len cur =
    (if cur = NULL then Some None else do {
       n \<leftarrow> hp cur;
       Some (if skip_keys_equal m (sn_key n) (sn_key_len n) key key_len then Some n else None)
     })"

definition skip_shard_idx :: "mem \<Rightarrow> nkit_skip \<Rightarrow> ptr \<Rightarrow> u64 \<Rightarrow> nat option" where
  "skip_shard_idx m sl key key_len =
    (let n = (ucast (sk_num_shards sl) :: u64); i = unat (skip_fnv1a m key key_len mod n) in
     if n \<noteq> 0 \<and> i < length (snd (sk_shards sl)) then Some i else None)"

definition set_shard :: "nkit_skip \<Rightarrow> nat \<Rightarrow> nkit_skip_shard \<Rightarrow> nkit_skip" where
  "set_shard sl i sh = sl\<lparr>sk_shards := (fst (sk_shards sl), (snd (sk_shards sl))[i := sh])\<rparr>"

subsection \<open>The operations\<close>

text \<open>The linking loop, over the levels that are left.\<close>

fun skip_link :: "ptr \<Rightarrow> ptr list \<Rightarrow> nat list \<Rightarrow> skip_heap \<Rightarrow> skip_heap option" where
  "skip_link new upd [] hp = Some hp"
| "skip_link new upd (i # is) hp =
    (if i < length upd then do {
       q \<leftarrow> skip_next hp (upd ! i) i;
       hp1 \<leftarrow> set_next hp new i q;
       hp2 \<leftarrow> set_next hp1 (upd ! i) i new;
       skip_link new upd is hp2
     } else None)"

definition skip_put_shard :: "rand_r \<Rightarrow> mem \<Rightarrow> ptr \<Rightarrow> u64 \<Rightarrow> ptr \<Rightarrow> nkit_skip_shard \<Rightarrow> skip_heap \<Rightarrow> os \<Rightarrow>
    (int \<times> nkit_skip_shard \<times> skip_heap \<times> os) option" where
  "skip_put_shard rnd m key key_len val sh hp w = do {
     (upd, last) \<leftarrow> skip_search m hp key key_len (skip_levels sh) (sh_head sh);
     cur \<leftarrow> skip_next hp last 0;
     found \<leftarrow> skip_found m hp key key_len cur;
     case found of
       Some n \<Rightarrow> Some (0, sh, hp(cur \<mapsto> n\<lparr>sn_value := val\<rparr>), w)
     | None \<Rightarrow>
       (case random_level rnd sh of (level, sh1) \<Rightarrow>
        let sh2 = (if level > sh_current_level sh1 then sh1\<lparr>sh_current_level := level\<rparr> else sh1) in
        case create_node (sh_node_id sh2) key key_len val level hp w of (new, hp1, w1) \<Rightarrow>
        if new = NULL then Some (- 1, sh2, hp1, w1) else do {
          hp2 \<leftarrow> skip_link new upd [0..<unat level] hp1;
          Some (0, sh2\<lparr>sh_count := sh_count sh2 + 1\<rparr>, hp2, w1)
        })
   }"

definition nkit_skip_put :: "rand_r \<Rightarrow> mem \<Rightarrow> ptr \<Rightarrow> nkit_skip option \<Rightarrow> skip_heap \<Rightarrow> ptr \<Rightarrow> u64 \<Rightarrow> ptr \<Rightarrow> os \<Rightarrow>
    (int \<times> nkit_skip option \<times> skip_heap \<times> os) option" where
  "nkit_skip_put rnd m node h hp key key_len val w =
    (case h of None \<Rightarrow> Some (- 1, None, hp, w)
     | Some sl \<Rightarrow>
       if key = NULL \<or> key_len = 0 then Some (- 1, Some sl, hp, w) else do {
         i \<leftarrow> skip_shard_idx m sl key key_len;
         lk \<leftarrow> mcs_solo_lock (sh_lock (snd (sk_shards sl) ! i)) node;
         (ret, sh, hp1, w1) \<leftarrow> skip_put_shard rnd m key key_len val ((snd (sk_shards sl) ! i)\<lparr>sh_lock := lk\<rparr>) hp w;
         lk1 \<leftarrow> mcs_solo_unlock (sh_lock sh) node;
         Some (ret, Some (set_shard sl i (sh\<lparr>sh_lock := lk1\<rparr>)), hp1, w1)
       })"

definition nkit_skip_get :: "mem \<Rightarrow> ptr \<Rightarrow> nkit_skip option \<Rightarrow> skip_heap \<Rightarrow> ptr \<Rightarrow> u64 \<Rightarrow> (ptr \<times> nkit_skip option) option" where
  "nkit_skip_get m node h hp key key_len =
    (case h of None \<Rightarrow> Some (NULL, None)
     | Some sl \<Rightarrow>
       if key = NULL \<or> key_len = 0 then Some (NULL, Some sl) else do {
         i \<leftarrow> skip_shard_idx m sl key key_len;
         let sh = snd (sk_shards sl) ! i;
         lk \<leftarrow> mcs_solo_lock (sh_lock sh) node;
         (upd, last) \<leftarrow> skip_search m hp key key_len (skip_levels sh) (sh_head sh);
         cur \<leftarrow> skip_next hp last 0;
         found \<leftarrow> skip_found m hp key key_len cur;
         lk1 \<leftarrow> mcs_solo_unlock lk node;
         Some (case found of None \<Rightarrow> NULL | Some n \<Rightarrow> sn_value n, Some (set_shard sl i (sh\<lparr>sh_lock := lk1\<rparr>)))
       })"

text \<open>The unlinking loop, which breaks when a level does not lead to the node.\<close>

fun skip_unlink :: "ptr \<Rightarrow> ptr list \<Rightarrow> nat list \<Rightarrow> skip_heap \<Rightarrow> skip_heap option" where
  "skip_unlink cur upd [] hp = Some hp"
| "skip_unlink cur upd (i # is) hp =
    (if i < length upd then do {
       q \<leftarrow> skip_next hp (upd ! i) i;
       if q \<noteq> cur then Some hp else do {
         q1 \<leftarrow> skip_next hp cur i;
         hp1 \<leftarrow> set_next hp (upd ! i) i q1;
         skip_unlink cur upd is hp1
       }
     } else None)"

definition skip_remove_shard :: "mem \<Rightarrow> ptr \<Rightarrow> u64 \<Rightarrow> nkit_skip_shard \<Rightarrow> skip_heap \<Rightarrow> os \<Rightarrow>
    (int \<times> nkit_skip_shard \<times> skip_heap \<times> os) option" where
  "skip_remove_shard m key key_len sh hp w = do {
     (upd, last) \<leftarrow> skip_search m hp key key_len (skip_levels sh) (sh_head sh);
     cur \<leftarrow> skip_next hp last 0;
     found \<leftarrow> skip_found m hp key key_len cur;
     case found of
       None \<Rightarrow> Some (- 1, sh, hp, w)
     | Some n \<Rightarrow> do {
         hp1 \<leftarrow> skip_unlink cur upd [0..<unat (sn_level n)] hp;
         (hp2, w1) \<leftarrow> free_node cur hp1 w;
         Some (0, sh\<lparr>sh_count := sh_count sh - 1\<rparr>, hp2, w1)
       }
   }"

definition nkit_skip_remove :: "mem \<Rightarrow> ptr \<Rightarrow> nkit_skip option \<Rightarrow> skip_heap \<Rightarrow> ptr \<Rightarrow> u64 \<Rightarrow> os \<Rightarrow>
    (int \<times> nkit_skip option \<times> skip_heap \<times> os) option" where
  "nkit_skip_remove m node h hp key key_len w =
    (case h of None \<Rightarrow> Some (- 1, None, hp, w)
     | Some sl \<Rightarrow>
       if key = NULL \<or> key_len = 0 then Some (- 1, Some sl, hp, w) else do {
         i \<leftarrow> skip_shard_idx m sl key key_len;
         lk \<leftarrow> mcs_solo_lock (sh_lock (snd (sk_shards sl) ! i)) node;
         (ret, sh, hp1, w1) \<leftarrow> skip_remove_shard m key key_len ((snd (sk_shards sl) ! i)\<lparr>sh_lock := lk\<rparr>) hp w;
         lk1 \<leftarrow> mcs_solo_unlock (sh_lock sh) node;
         Some (ret, Some (set_shard sl i (sh\<lparr>sh_lock := lk1\<rparr>)), hp1, w1)
       })"

definition nkit_skip_count :: "nkit_skip option \<Rightarrow> u64" where
  "nkit_skip_count h = (case h of None \<Rightarrow> 0
     | Some sl \<Rightarrow> fold (\<lambda>sh t. t + sh_count sh) (take (unat (sk_num_shards sl)) (snd (sk_shards sl))) 0)"

end
