(* ===== verification/NK_Skip_Chain.thy ===== *)
theory NK_Skip_Chain
  imports NK_Skip
begin

section \<open>The skip list: order of keys, chains of forward pointers and the search\<close>

text \<open>
  Keys are ordered by length, then bytewise. Each level of a shard is a chain of forward pointers
  from the head to the null pointer; the search walks down the levels and ends in front of the key.
\<close>

subsection \<open>The order of keys\<close>

lemma bytes_cmp_swap: "length xs = length ys \<Longrightarrow> bytes_cmp ys xs = - bytes_cmp xs ys"
  by (induction xs ys rule: list_induct2) auto

lemma bytes_cmp_trans:
  "length xs = length ys \<Longrightarrow> length ys = length zs \<Longrightarrow> bytes_cmp xs ys < 0 \<Longrightarrow> bytes_cmp ys zs < 0 \<Longrightarrow> bytes_cmp xs zs < 0"
proof (induction xs ys zs rule: list_induct3)
  case (Cons x xs y ys z zs)
  then show ?case by (cases "x = y"; cases "y = z"; cases "x = z") auto
qed simp

definition key_lt :: "u8 list \<Rightarrow> u8 list \<Rightarrow> bool" where
  "key_lt a b \<longleftrightarrow> length a < length b \<or> (length a = length b \<and> bytes_cmp a b < 0)"

lemma key_lt_irrefl [simp]: "\<not> key_lt a a"
  using bytes_cmp_eq_0 [of a a] by (simp add: key_lt_def)

lemma key_lt_trans: "key_lt a b \<Longrightarrow> key_lt b c \<Longrightarrow> key_lt a c"
  using bytes_cmp_trans [of a b c] by (auto simp: key_lt_def)

lemma key_lt_total: "a = b \<or> key_lt a b \<or> key_lt b a"
  using bytes_cmp_eq_0 [of a b] bytes_cmp_swap [of a b] by (cases "length a = length b") (auto simp: key_lt_def)

definition node_key :: "mem \<Rightarrow> nkit_skip_node \<Rightarrow> u8 list" where
  "node_key m n = read_bytes m (sn_key n) (sn_key_len n)"

lemma skip_before_iff: "skip_before m n key key_len \<longleftrightarrow> key_lt (node_key m n) (read_bytes m key key_len)"
proof (cases "sn_key_len n = key_len")
  case False
  then have "unat (sn_key_len n) \<noteq> unat key_len" by (simp add: word_unat_eq_iff)
  then show ?thesis using False by (simp add: skip_before_def key_lt_def node_key_def word_less_nat_alt)
qed (simp add: skip_before_def key_lt_def node_key_def memcmp_def)

lemma skip_keys_equal_iff: "skip_keys_equal m a a_len b b_len \<longleftrightarrow> read_bytes m a a_len = read_bytes m b b_len"
proof -
  have "a_len = b_len" if "read_bytes m a a_len = read_bytes m b b_len"
    using arg_cong [OF that, of length] by (simp add: word_unat_eq_iff)
  then show ?thesis by (auto simp: skip_keys_equal_def memcmp_eq_0)
qed

subsection \<open>Chains\<close>

definition tall :: "skip_heap \<Rightarrow> nat \<Rightarrow> ptr \<Rightarrow> bool" where
  "tall hp j p \<longleftrightarrow> (case hp p of None \<Rightarrow> False | Some n \<Rightarrow> j < length (sn_next n))"

lemma tall_mono: "tall hp j p \<Longrightarrow> i \<le> j \<Longrightarrow> tall hp i p"
  by (auto simp: tall_def split: option.splits)

lemma tall_next: "tall hp j p \<longleftrightarrow> skip_next hp p j \<noteq> None"
  by (auto simp: tall_def skip_next_def split: option.splits)

fun chain :: "skip_heap \<Rightarrow> nat \<Rightarrow> ptr \<Rightarrow> ptr list \<Rightarrow> bool" where
  "chain hp j p [] \<longleftrightarrow> skip_next hp p j = Some NULL"
| "chain hp j p (q # qs) \<longleftrightarrow> q \<noteq> NULL \<and> skip_next hp p j = Some q \<and> chain hp j q qs"

lemma chain_cong:
  "\<forall>q \<in> set (p # qs). skip_next hp' q j = skip_next hp q j \<Longrightarrow> chain hp' j p qs = chain hp j p qs"
  by (induction qs arbitrary: p) auto

lemma chain_from:
  assumes "chain hp j h (A @ B)" and "c \<in> set (h # A)"
  shows "\<exists>A'. chain hp j c (A' @ B) \<and> set A' \<subseteq> set A \<and> last (c # A') = last (h # A)"
  using assms
proof (induction A arbitrary: h)
  case (Cons a A)
  show ?case
  proof (cases "c = h")
    case True
    then show ?thesis using Cons.prems(1) by blast
  next
    case False
    then obtain A' where "chain hp j c (A' @ B)" "set A' \<subseteq> set A" "last (c # A') = last (a # A)"
      using Cons.IH [of a] Cons.prems by auto
    then show ?thesis by (intro exI [of _ A']) auto
  qed
qed auto

lemma chain_insert:
  assumes "chain hp j h (A @ B)" and "distinct (h # A @ B)" and "new \<notin> set (h # A @ B)" and "new \<noteq> NULL"
    and "skip_next hp' (last (h # A)) j = Some new" and "skip_next hp' new j = skip_next hp (last (h # A)) j"
    and "\<And>q. q \<noteq> last (h # A) \<Longrightarrow> q \<noteq> new \<Longrightarrow> skip_next hp' q j = skip_next hp q j"
  shows "chain hp' j h (A @ new # B)"
  using assms
proof (induction A arbitrary: h)
  case Nil
  have keep: "skip_next hp' q j = skip_next hp q j" if "q \<in> set B" for q
    by (rule Nil.prems(7)) (use Nil.prems(2,3) that in auto)
  show ?case
  proof (cases B)
    case Nil
    then show ?thesis using \<open>chain hp j h ([] @ B)\<close> Nil.prems(4-6) by simp
  next
    case (Cons b bs)
    then have "chain hp' j b bs = chain hp j b bs" using keep by (intro chain_cong) simp
    then show ?thesis using Nil.prems(1,4,5,6) Cons by simp
  qed
next
  case (Cons a A)
  have "chain hp' j a (A @ new # B)" using Cons.IH [of a] Cons.prems by auto
  moreover have "h \<noteq> last (a # A)" using Cons.prems(2) last_in_set [of "a # A"] by fastforce
  then have "skip_next hp' h j = skip_next hp h j" using Cons.prems(3,7) by auto
  ultimately show ?case using Cons.prems(1) by simp
qed

lemma chain_delete:
  assumes "chain hp j h (A @ x # B)" and "distinct (h # A @ x # B)"
    and "skip_next hp' (last (h # A)) j = skip_next hp x j"
    and "\<And>q. q \<noteq> last (h # A) \<Longrightarrow> q \<in> set (h # A @ B) \<Longrightarrow> skip_next hp' q j = skip_next hp q j"
  shows "chain hp' j h (A @ B)"
  using assms
proof (induction A arbitrary: h)
  case Nil
  show ?case
  proof (cases B)
    case Nil
    then show ?thesis using Nil.prems by simp
  next
    case (Cons b bs)
    have "chain hp' j b bs = chain hp j b bs"
    proof (rule chain_cong, rule ballI)
      fix q assume "q \<in> set (b # bs)"
      then show "skip_next hp' q j = skip_next hp q j" using Nil.prems(2) Cons by (intro Nil.prems(4)) auto
    qed
    then show ?thesis using Nil.prems(1,3) Cons by simp
  qed
next
  case (Cons a A)
  have "chain hp' j a (A @ B)" using Cons.IH [of a] Cons.prems by auto
  moreover have "h \<noteq> last (a # A)" using Cons.prems(2) last_in_set [of "a # A"] by fastforce
  then have "skip_next hp' h j = skip_next hp h j" using Cons.prems(4) [of h] by auto
  ultimately show ?case using Cons.prems(1) by simp
qed

subsection \<open>The search\<close>

lemma skip_walk_chain:
  assumes "chain hp j c (A @ B)" and "\<forall>p \<in> set (A @ B). hp p \<noteq> None"
    and "\<forall>p \<in> set A. skip_before m (the (hp p)) key key_len" and "\<forall>p \<in> set B. \<not> skip_before m (the (hp p)) key key_len"
  shows "skip_walk m hp key key_len j c = Some (last (c # A))"
  using assms
proof (induction A arbitrary: c)
  case Nil
  then show ?case by (cases B) (auto simp: skip_walk.simps [of m hp key key_len j c])
next
  case (Cons a A)
  then have "skip_walk m hp key key_len j a = Some (last (a # A))" by (intro Cons.IH) auto
  then show ?case using Cons.prems by (auto simp: skip_walk.simps [of m hp key key_len j c])
qed

lemma skip_search_ok:
  assumes chains: "\<And>j. j < n \<Longrightarrow> chain hp j h (filter (tall hp j) A @ filter (tall hp j) B)"
    and nodes: "\<forall>p \<in> set (A @ B). hp p \<noteq> None"
    and A: "\<forall>p \<in> set A. skip_before m (the (hp p)) key key_len" and B: "\<forall>p \<in> set B. \<not> skip_before m (the (hp p)) key key_len"
    and c: "n = 0 \<or> c \<in> set (h # filter (tall hp (n - 1)) A)"
  shows "skip_search m hp key key_len n c =
    Some (map (\<lambda>j. last (h # filter (tall hp j) A)) [0..<n], if n = 0 then c else last (h # filter (tall hp 0) A))"
  using chains c
proof (induction n arbitrary: c)
  case (Suc i)
  let ?G = "\<lambda>j. filter (tall hp j)"
  have "chain hp i h (?G i A @ ?G i B)" "c \<in> set (h # ?G i A)" using Suc.prems by auto
  from chain_from [OF this] obtain A' where A': "chain hp i c (A' @ ?G i B)" "set A' \<subseteq> set (?G i A)" "last (c # A') = last (h # ?G i A)" by blast
  then have walk: "skip_walk m hp key key_len i c = Some (last (h # ?G i A))"
  proof -
    have "skip_walk m hp key key_len i c = Some (last (c # A'))"
      by (rule skip_walk_chain [OF A'(1)]) (use A'(2) nodes A B in \<open>auto simp: subset_iff\<close>)
    then show ?thesis using A'(3) by (simp only:)
  qed
  let ?c = "last (h # ?G i A)"
  have "?c \<in> set (h # ?G i A)" by (metis last_in_set list.distinct(1))
  then have "i = 0 \<or> ?c \<in> set (h # ?G (i - 1) A)" using tall_mono [of hp i _ "i - 1"] by auto
  then have "skip_search m hp key key_len i ?c =
      Some (map (\<lambda>j. last (h # ?G j A)) [0..<i], if i = 0 then ?c else last (h # ?G 0 A))"
    using Suc.prems(1) by (intro Suc.IH) auto
  then show ?case using walk by auto
qed simp

subsection \<open>Writing forward pointers\<close>

text \<open>Everything of a node but its forward pointers, and their number.\<close>

definition shape :: "skip_heap \<Rightarrow> ptr \<Rightarrow> (nkit_skip_node \<times> nat) option" where
  "shape hp p = map_option (\<lambda>n. (n\<lparr>sn_next := []\<rparr>, length (sn_next n))) (hp p)"

lemma shape_None: "shape hp p = None \<longleftrightarrow> hp p = None"
  by (simp add: shape_def)

lemma shape_eqD:
  assumes "shape hp' p = shape hp p" and "hp p = Some n"
  shows "\<exists>n'. hp' p = Some n' \<and> node_key m n' = node_key m n \<and> sn_value n' = sn_value n \<and> sn_level n' = sn_level n \<and>
    length (sn_next n') = length (sn_next n)"
proof -
  obtain n' where n': "hp' p = Some n'" "n'\<lparr>sn_next := []\<rparr> = n\<lparr>sn_next := []\<rparr>" "length (sn_next n') = length (sn_next n)"
    using assms by (auto simp: shape_def)
  from n'(2) have "sn_key n' = sn_key n" "sn_key_len n' = sn_key_len n" "sn_value n' = sn_value n" "sn_level n' = sn_level n"
    by (metis nkit_skip_node.select_convs nkit_skip_node.surjective nkit_skip_node.update_convs(5))+
  then show ?thesis using n' by (simp add: node_key_def)
qed

lemma shape_tall: "shape hp' p = shape hp p \<Longrightarrow> tall hp' j p = tall hp j p"
  by (auto simp: shape_def tall_def split: option.splits)

lemma set_next_ok:
  assumes "tall hp p i"
  shows "\<exists>hp'. set_next hp i p q = Some hp' \<and> (\<forall>r. shape hp' r = shape hp r) \<and> (\<forall>r. r \<noteq> i \<longrightarrow> hp' r = hp r) \<and>
    (\<forall>r j. skip_next hp' r j = (if r = i \<and> j = p then Some q else skip_next hp r j))"
  using assms by (auto simp: tall_def set_next_def shape_def skip_next_def split: option.splits)

lemma skip_link_ok:
  assumes "distinct js" and "\<forall>j \<in> set js. j < length upd \<and> tall hp j (upd ! j) \<and> tall hp j new \<and> upd ! j \<noteq> new"
  shows "\<exists>hp'. skip_link new upd js hp = Some hp' \<and> (\<forall>r. shape hp' r = shape hp r) \<and>
    (\<forall>r. r \<noteq> new \<and> r \<notin> (\<lambda>j. upd ! j) ` set js \<longrightarrow> hp' r = hp r) \<and>
    (\<forall>r j. skip_next hp' r j = (if j \<in> set js \<and> r = upd ! j then Some new
       else if j \<in> set js \<and> r = new then skip_next hp (upd ! j) j else skip_next hp r j))"
  using assms
proof (induction js arbitrary: hp)
  case (Cons i js)
  let ?u = "upd ! i"
  have i: "i < length upd" "tall hp i ?u" "tall hp i new" "?u \<noteq> new" using Cons.prems(2) by auto
  then obtain q where q: "skip_next hp ?u i = Some q" using tall_next by blast
  obtain hp1 where 1: "set_next hp new i q = Some hp1" "\<And>r. shape hp1 r = shape hp r" "\<And>r. r \<noteq> new \<Longrightarrow> hp1 r = hp r"
    "\<And>r j. skip_next hp1 r j = (if r = new \<and> j = i then Some q else skip_next hp r j)"
    using set_next_ok [OF i(3), of q] by blast
  have "tall hp1 i ?u" using shape_tall [OF 1(2)] i(2) by simp
  from set_next_ok [OF this, of new] obtain hp2 where 2: "set_next hp1 ?u i new = Some hp2" "\<And>r. shape hp2 r = shape hp1 r"
    "\<And>r. r \<noteq> ?u \<Longrightarrow> hp2 r = hp1 r" "\<And>r j. skip_next hp2 r j = (if r = ?u \<and> j = i then Some new else skip_next hp1 r j)" by blast
  have "\<forall>j \<in> set js. j < length upd \<and> tall hp2 j (upd ! j) \<and> tall hp2 j new \<and> upd ! j \<noteq> new"
    using Cons.prems(2) shape_tall [OF 2(2)] shape_tall [OF 1(2)] by simp
  with Cons.IH [of hp2] Cons.prems(1) obtain hp' where 3: "skip_link new upd js hp2 = Some hp'" "\<And>r. shape hp' r = shape hp2 r"
    "\<And>r. r \<noteq> new \<Longrightarrow> r \<notin> (\<lambda>j. upd ! j) ` set js \<Longrightarrow> hp' r = hp2 r"
    "\<And>r j. skip_next hp' r j = (if j \<in> set js \<and> r = upd ! j then Some new
       else if j \<in> set js \<and> r = new then skip_next hp2 (upd ! j) j else skip_next hp2 r j)" by auto
  have "skip_link new upd (i # js) hp = Some hp'" using i(1) q 1(1) 2(1) 3(1) by simp
  moreover have "skip_next hp' r j = (if j \<in> set (i # js) \<and> r = upd ! j then Some new
       else if j \<in> set (i # js) \<and> r = new then skip_next hp (upd ! j) j else skip_next hp r j)" for r j
    using Cons.prems i(4) q by (cases "j = i") (auto simp: 3(4) 2(4) 1(4))
  ultimately show ?case using 1(2,3) 2(2,3) 3(2,3) by auto
qed auto

lemma skip_unlink_ok:
  assumes "distinct js" and "\<forall>j \<in> set js. j < length upd \<and> skip_next hp (upd ! j) j = Some x \<and> tall hp j x \<and> upd ! j \<noteq> x"
  shows "\<exists>hp'. skip_unlink x upd js hp = Some hp' \<and> (\<forall>r. shape hp' r = shape hp r) \<and>
    (\<forall>r. r \<notin> (\<lambda>j. upd ! j) ` set js \<longrightarrow> hp' r = hp r) \<and>
    (\<forall>r j. skip_next hp' r j = (if j \<in> set js \<and> r = upd ! j then skip_next hp x j else skip_next hp r j))"
  using assms
proof (induction js arbitrary: hp)
  case (Cons i js)
  let ?u = "upd ! i"
  have i: "i < length upd" "skip_next hp ?u i = Some x" "tall hp i x" "?u \<noteq> x" using Cons.prems(2) by auto
  then obtain q where q: "skip_next hp x i = Some q" using tall_next by blast
  have "tall hp i ?u" using i(2) tall_next by simp
  from set_next_ok [OF this, of q] obtain hp1 where 1: "set_next hp ?u i q = Some hp1" "\<And>r. shape hp1 r = shape hp r"
    "\<And>r. r \<noteq> ?u \<Longrightarrow> hp1 r = hp r" "\<And>r j. skip_next hp1 r j = (if r = ?u \<and> j = i then Some q else skip_next hp r j)" by blast
  have "\<forall>j \<in> set js. j < length upd \<and> skip_next hp1 (upd ! j) j = Some x \<and> tall hp1 j x \<and> upd ! j \<noteq> x"
    using Cons.prems shape_tall [OF 1(2)] by (auto simp: 1(4))
  with Cons.IH [of hp1] Cons.prems(1) obtain hp' where 2: "skip_unlink x upd js hp1 = Some hp'" "\<And>r. shape hp' r = shape hp1 r"
    "\<And>r. r \<notin> (\<lambda>j. upd ! j) ` set js \<Longrightarrow> hp' r = hp1 r"
    "\<And>r j. skip_next hp' r j = (if j \<in> set js \<and> r = upd ! j then skip_next hp1 x j else skip_next hp1 r j)" by auto
  have "skip_unlink x upd (i # js) hp = Some hp'" using i q 1(1) 2(1) by simp
  moreover have "skip_next hp' r j = (if j \<in> set (i # js) \<and> r = upd ! j then skip_next hp x j else skip_next hp r j)" for r j
    using Cons.prems i(4) q by (cases "j = i") (auto simp: 2(4) 1(4))
  ultimately show ?case using 1(2,3) 2(2,3) by auto
qed auto

end
