(* ===== verification/NK_Skip_Shard.thy ===== *)
theory NK_Skip_Shard
  imports NK_Skip_Chain
begin

section \<open>The skip list: one shard\<close>

text \<open>
  The invariant of a shard and what the three operations do to the shard of their key. \<open>ps\<close> is the
  list of the nodes of a shard in the order of their keys, the chain of level 0.
\<close>

definition pk :: "mem \<Rightarrow> skip_heap \<Rightarrow> ptr \<Rightarrow> u8 list" where
  "pk m hp p = node_key m (the (hp p))"

definition pv :: "skip_heap \<Rightarrow> ptr \<Rightarrow> ptr" where
  "pv hp p = sn_value (the (hp p))"

definition node_ok :: "skip_heap \<Rightarrow> nat \<Rightarrow> ptr \<Rightarrow> bool" where
  "node_ok hp L p \<longleftrightarrow> (\<exists>n. hp p = Some n \<and> length (sn_next n) = unat (sn_level n) \<and> 0 < unat (sn_level n) \<and> unat (sn_level n) \<le> L)"

definition head_ok :: "skip_heap \<Rightarrow> nkit_skip_shard \<Rightarrow> bool" where
  "head_ok hp sh \<longleftrightarrow> (\<exists>h. hp (sh_head sh) = Some h \<and> length (sn_next h) = unat (sh_max_level sh) \<and> sn_level h = sh_max_level sh)"

definition shard_ok :: "mem \<Rightarrow> skip_heap \<Rightarrow> nkit_skip_shard \<Rightarrow> ptr list \<Rightarrow> bool" where
  "shard_ok m hp sh ps \<longleftrightarrow> 0 < unat (sh_max_level sh) \<and> unat (sh_max_level sh) < 2 ^ 31 \<and> head_ok hp sh \<and>
     distinct (sh_head sh # ps) \<and> NULL \<notin> set (sh_head sh # ps) \<and>
     (\<forall>p \<in> set ps. node_ok hp (unat (sh_max_level sh)) p) \<and>
     sorted_wrt (\<lambda>p q. key_lt (pk m hp p) (pk m hp q)) ps \<and>
     (\<forall>j < unat (sh_max_level sh). chain hp j (sh_head sh) (filter (tall hp j) ps)) \<and>
     sh_count sh = of_nat (length ps)"

lemma shard_okD:
  assumes "shard_ok m hp sh ps"
  shows "0 < unat (sh_max_level sh)" "unat (sh_max_level sh) < 2 ^ 31" "head_ok hp sh" "distinct (sh_head sh # ps)"
    "NULL \<notin> set (sh_head sh # ps)" "\<And>p. p \<in> set ps \<Longrightarrow> node_ok hp (unat (sh_max_level sh)) p"
    "sorted_wrt (\<lambda>p q. key_lt (pk m hp p) (pk m hp q)) ps"
    "\<And>j. j < unat (sh_max_level sh) \<Longrightarrow> chain hp j (sh_head sh) (filter (tall hp j) ps)" "sh_count sh = of_nat (length ps)"
  using assms unfolding shard_ok_def by blast+

definition shard_map :: "mem \<Rightarrow> skip_heap \<Rightarrow> ptr list \<Rightarrow> u8 list \<rightharpoonup> ptr" where
  "shard_map m hp ps = map_of (map (\<lambda>p. (pk m hp p, pv hp p)) ps)"

lemma node_ok_tall: "node_ok hp L p \<Longrightarrow> tall hp 0 p" "node_ok hp L p \<Longrightarrow> hp p \<noteq> None"
  by (auto simp: node_ok_def tall_def)

lemma head_ok_tall: "head_ok hp sh \<Longrightarrow> j < unat (sh_max_level sh) \<Longrightarrow> tall hp j (sh_head sh)"
  by (auto simp: head_ok_def tall_def)

lemma shape_keeps:
  assumes "shape hp' p = shape hp p" and "hp p \<noteq> None"
  shows "pk m hp' p = pk m hp p" "pv hp' p = pv hp p" "node_ok hp' L p = node_ok hp L p"
    "sn_level (the (hp' p)) = sn_level (the (hp p))"
proof -
  obtain n where n: "hp p = Some n" using assms(2) by blast
  from shape_eqD [OF assms(1) n] obtain n' where "hp' p = Some n'" "node_key m n' = node_key m n" "sn_value n' = sn_value n"
    "sn_level n' = sn_level n" "length (sn_next n') = length (sn_next n)" by blast
  with n show "pk m hp' p = pk m hp p" "pv hp' p = pv hp p" "node_ok hp' L p = node_ok hp L p"
    "sn_level (the (hp' p)) = sn_level (the (hp p))" by (auto simp: pk_def pv_def node_ok_def)
qed

lemma shape_head:
  assumes "shape hp' (sh_head sh) = shape hp (sh_head sh)" and "head_ok hp sh"
  shows "head_ok hp' sh"
proof -
  obtain n where n: "hp (sh_head sh) = Some n" "length (sn_next n) = unat (sh_max_level sh)" "sn_level n = sh_max_level sh"
    using assms(2) by (auto simp: head_ok_def)
  from shape_eqD [OF assms(1) n(1)] show ?thesis using n by (auto simp: head_ok_def)
qed

lemma shard_nodes: "shard_ok m hp sh ps \<Longrightarrow> p \<in> set (sh_head sh # ps) \<Longrightarrow> hp p \<noteq> None"
  using shard_okD(3,6) [of m hp sh ps] by (fastforce simp: head_ok_def node_ok_def)

subsection \<open>Where the search ends\<close>

definition split_at :: "mem \<Rightarrow> skip_heap \<Rightarrow> u8 list \<Rightarrow> ptr list \<Rightarrow> ptr list \<Rightarrow> ptr list \<Rightarrow> bool" where
  "split_at m hp k ps ps1 ps2 \<longleftrightarrow> ps = ps1 @ ps2 \<and> (\<forall>p \<in> set ps1. key_lt (pk m hp p) k) \<and>
     (\<forall>p \<in> set ps2. \<not> key_lt (pk m hp p) k) \<and> (\<forall>p \<in> set (tl ps2). key_lt k (pk m hp p))"

lemma split_ex:
  assumes "sorted_wrt (\<lambda>p q. key_lt (pk m hp p) (pk m hp q)) ps"
  shows "\<exists>ps1 ps2. split_at m hp k ps ps1 ps2"
  using assms
proof (induction ps)
  case Nil
  then show ?case by (intro exI [of _ "[]"]) (simp add: split_at_def)
next
  case (Cons p ps)
  then obtain ps1 ps2 where sp: "split_at m hp k ps ps1 ps2" by auto
  show ?case
  proof (cases "key_lt (pk m hp p) k")
    case True
    then show ?thesis using sp by (intro exI [of _ "p # ps1"] exI [of _ ps2]) (auto simp: split_at_def)
  next
    case False
    then have "key_lt k (pk m hp q)" if "q \<in> set ps" for q
      using Cons.prems that key_lt_total [of "pk m hp p" k] key_lt_trans [of k "pk m hp p" "pk m hp q"] by auto
    then show ?thesis using False key_lt_trans [of k _ k]
      by (intro exI [of _ "[]"] exI [of _ "p # ps"]) (auto simp: split_at_def)
  qed
qed

lemma pairs_None: "(\<And>p. p \<in> set qs \<Longrightarrow> pk m hp p \<noteq> k) \<Longrightarrow> map_of (map (\<lambda>p. (pk m hp p, pv hp p)) qs) k = None"
  by (induction qs) auto

lemma split_map:
  assumes "split_at m hp k ps ps1 ps2"
  shows "shard_map m hp ps k = (case ps2 of [] \<Rightarrow> None | x # _ \<Rightarrow> if pk m hp x = k then Some (pv hp x) else None)"
proof -
  have ne: "pk m hp p \<noteq> k" if "p \<in> set ps1 \<or> p \<in> set (tl ps2)" for p
    using assms that key_lt_irrefl by (auto simp: split_at_def)
  have 1: "map_of (map (\<lambda>p. (pk m hp p, pv hp p)) ps1) k = None"
    using ne by (intro pairs_None) blast
  have 2: "map_of (map (\<lambda>p. (pk m hp p, pv hp p)) (tl ps2)) k = None"
    using ne by (intro pairs_None) blast
  show ?thesis using assms 1 2 by (cases ps2) (auto simp: split_at_def shard_map_def map_add_def)
qed

lemma filter_tall_0: "(\<And>p. p \<in> set ps \<Longrightarrow> node_ok hp L p) \<Longrightarrow> filter (tall hp 0) ps = ps"
  using node_ok_tall(1) by (intro filter_True) blast

lemma chain_next: "chain hp j h (A @ B) \<Longrightarrow> skip_next hp (last (h # A)) j = Some (case B of [] \<Rightarrow> NULL | b # _ \<Rightarrow> b)"
  by (induction A arbitrary: h) (auto split: list.split)

lemma skip_levels_eq: "unat (sh_max_level sh) < 2 ^ 31 \<Longrightarrow> skip_levels sh = unat (sh_max_level sh)"
proof -
  assume lt: "unat (sh_max_level sh) < 2 ^ 31"
  have "int (unat (sh_max_level sh)) < int (2 ^ 31)" using lt by (simp only: of_nat_less_iff)
  then have "uint (sh_max_level sh) < 2 ^ 31" by simp
  then have "sint (sh_max_level sh) = uint (sh_max_level sh)"
    unfolding sint_uint by (intro signed_take_bit_int_eq_self) (auto intro: order_trans [of _ 0])
  then show ?thesis by (simp add: skip_levels_def)
qed

definition preds :: "skip_heap \<Rightarrow> nkit_skip_shard \<Rightarrow> ptr list \<Rightarrow> ptr list" where
  "preds hp sh ps1 = map (\<lambda>j. last (sh_head sh # filter (tall hp j) ps1)) [0..<unat (sh_max_level sh)]"

lemma length_preds [simp]: "length (preds hp sh ps1) = unat (sh_max_level sh)"
  by (simp add: preds_def)

lemma shard_search:
  assumes ok: "shard_ok m hp sh ps" and sp: "split_at m hp (read_bytes m key key_len) ps ps1 ps2"
  shows "skip_search m hp key key_len (skip_levels sh) (sh_head sh) = Some (preds hp sh ps1, last (sh_head sh # ps1))"
    and "skip_next hp (last (sh_head sh # ps1)) 0 = Some (case ps2 of [] \<Rightarrow> NULL | x # _ \<Rightarrow> x)"
    and "skip_found m hp key key_len (case ps2 of [] \<Rightarrow> NULL | x # _ \<Rightarrow> x) =
      Some (case ps2 of [] \<Rightarrow> None | x # _ \<Rightarrow> if pk m hp x = read_bytes m key key_len then hp x else None)"
proof -
  note D = shard_okD [OF ok]
  let ?L = "unat (sh_max_level sh)"
  have ps: "ps = ps1 @ ps2" using sp by (simp add: split_at_def)
  have f0: "filter (tall hp 0) ps1 = ps1" "filter (tall hp 0) ps2 = ps2"
    using filter_tall_0 [of ps1 hp ?L] filter_tall_0 [of ps2 hp ?L] D(6) ps by auto
  have ch: "chain hp j (sh_head sh) (filter (tall hp j) ps1 @ filter (tall hp j) ps2)" if "j < ?L" for j
    using D(8) [OF that] ps by simp
  have nodes: "\<forall>p \<in> set (ps1 @ ps2). hp p \<noteq> None" using D(6) node_ok_tall(2) ps by blast
  have bef: "\<forall>p \<in> set ps1. skip_before m (the (hp p)) key key_len" "\<forall>p \<in> set ps2. \<not> skip_before m (the (hp p)) key key_len"
    using sp by (auto simp: skip_before_iff split_at_def pk_def)
  show "skip_search m hp key key_len (skip_levels sh) (sh_head sh) = Some (preds hp sh ps1, last (sh_head sh # ps1))"
    unfolding skip_levels_eq [OF D(2)] preds_def using skip_search_ok [OF ch nodes bef] D(1) f0 by simp
  show "skip_next hp (last (sh_head sh # ps1)) 0 = Some (case ps2 of [] \<Rightarrow> NULL | x # _ \<Rightarrow> x)"
    using chain_next [of hp 0 "sh_head sh" ps1 ps2] ch [of 0] D(1) f0 by simp
  show "skip_found m hp key key_len (case ps2 of [] \<Rightarrow> NULL | x # _ \<Rightarrow> x) =
      Some (case ps2 of [] \<Rightarrow> None | x # _ \<Rightarrow> if pk m hp x = read_bytes m key key_len then hp x else None)"
  proof (cases ps2)
    case (Cons x xs)
    then obtain n where n: "hp x = Some n" using nodes by auto
    moreover have "x \<noteq> NULL" using D(5) ps Cons by auto
    ultimately show ?thesis using Cons by (auto simp: skip_found_def skip_keys_equal_iff pk_def node_key_def)
  qed (simp add: skip_found_def)
qed

subsection \<open>A new level\<close>

lemma random_level_loop_bounds:
  assumes "level \<le> max_level" and "random_level_loop rnd max_level level seed = (l, seed')"
  shows "level \<le> l \<and> l \<le> max_level"
  using assms
proof (induction rnd max_level level seed rule: random_level_loop.induct)
  case (1 rnd max_level level seed)
  obtain r s1 where r: "rnd seed = (r, s1)" by fastforce
  show ?case
  proof (cases "r < RAND_MAX div 2 \<and> level < max_level")
    case True
    then have "level + 1 \<le> max_level" "level \<le> level + 1" using unat_inc_less [of level max_level]
      by (simp_all add: word_le_nat_alt word_less_nat_alt)
    then show ?thesis using "1.IH" [OF r [symmetric] True] "1.prems"(2) r True
      by (auto simp: random_level_loop.simps [of rnd max_level level seed])
  next
    case False
    then show ?thesis using "1.prems" r by (auto simp: random_level_loop.simps [of rnd max_level level seed])
  qed
qed

lemma random_level_ok:
  assumes "0 < unat (sh_max_level sh)" and "random_level rnd sh = (l, sh')"
  shows "0 < unat l" "unat l \<le> unat (sh_max_level sh)" "\<exists>s. sh' = sh\<lparr>sh_seed := s\<rparr>"
proof -
  obtain s where l: "random_level_loop rnd (sh_max_level sh) 1 (sh_seed sh) = (l, s)" and sh': "sh' = sh\<lparr>sh_seed := s\<rparr>"
    using assms(2) by (auto simp: random_level_def split: prod.splits)
  have "1 \<le> sh_max_level sh" using assms(1) by (simp add: word_le_nat_alt)
  from random_level_loop_bounds [OF this l] show "0 < unat l" "unat l \<le> unat (sh_max_level sh)"
    by (simp_all add: word_le_nat_alt)
  show "\<exists>s. sh' = sh\<lparr>sh_seed := s\<rparr>" using sh' by blast
qed

subsection \<open>Putting\<close>

definition shard_same :: "nkit_skip_shard \<Rightarrow> nkit_skip_shard \<Rightarrow> bool" where
  "shard_same sh sh' \<longleftrightarrow> sh_head sh' = sh_head sh \<and> sh_max_level sh' = sh_max_level sh \<and> sh_node_id sh' = sh_node_id sh \<and>
     sh_lock sh' = sh_lock sh"

definition node_owned :: "skip_heap \<Rightarrow> ptr \<Rightarrow> os_res multiset" where
  "node_owned hp p = {#Numa p (skip_node_bytes (sn_level (the (hp p))))#}"

lemma owned_cong:
  "(\<And>p. p \<in> set qs \<Longrightarrow> node_owned hp' p = node_owned hp p) \<Longrightarrow> (\<Sum>p\<leftarrow>qs. node_owned hp' p) = (\<Sum>p\<leftarrow>qs. node_owned hp p)"
  by (induction qs) simp_all

text \<open>
  What an operation on a shard promises: the shard is well formed again, only nodes of the shard and
  nodes that were not in use have changed, and the ledger follows the nodes.
\<close>

definition shard_step :: "mem \<Rightarrow> skip_heap \<Rightarrow> os \<Rightarrow> nkit_skip_shard \<Rightarrow> ptr list \<Rightarrow> skip_heap \<Rightarrow> os \<Rightarrow> nkit_skip_shard \<Rightarrow> ptr list \<Rightarrow> bool" where
  "shard_step m hp w sh ps hp' w' sh' ps' \<longleftrightarrow> shard_ok m hp' sh' ps' \<and> shard_same sh sh' \<and>
     (\<forall>p. p \<notin> set (sh_head sh # ps) \<and> p \<notin> set ps' \<longrightarrow> hp' p = hp p) \<and>
     (\<forall>p \<in> set ps' - set ps. hp p = None) \<and> (\<forall>p \<in> set ps - set ps'. hp' p = None) \<and>
     node_owned hp' (sh_head sh) = node_owned hp (sh_head sh) \<and>
     os_live w' + (\<Sum>p\<leftarrow>ps. node_owned hp p) = os_live w + (\<Sum>p\<leftarrow>ps'. node_owned hp' p) \<and> os_fault w' = os_fault w"

lemma shard_ok_cong:
  assumes "shard_ok m hp sh ps" and "shard_same sh sh'" and "sh_count sh' = sh_count sh"
  shows "shard_ok m hp sh' ps"
  using assms by (simp add: shard_ok_def shard_same_def head_ok_def)

lemma shard_ok_shape:
  assumes ok: "shard_ok m hp sh ps" and shp: "\<And>p. p \<in> set (sh_head sh # ps) \<Longrightarrow> node_key m (the (hp' p)) = node_key m (the (hp p)) \<and>
      (hp' p = None) = (hp p = None) \<and> sn_level (the (hp' p)) = sn_level (the (hp p)) \<and> sn_next (the (hp' p)) = sn_next (the (hp p))"
  shows "shard_ok m hp' sh ps"
proof -
  note D = shard_okD [OF ok]
  have t: "tall hp' j p = tall hp j p" "skip_next hp' p j = skip_next hp p j" if "p \<in> set (sh_head sh # ps)" for p j
    using shp [OF that] by (auto simp: tall_def skip_next_def split: option.splits)
  have k: "pk m hp' p = pk m hp p" "node_ok hp' L p = node_ok hp L p" if "p \<in> set ps" for p L
    using shp [of p] that by (auto simp: pk_def node_ok_def)
  have f: "filter (tall hp' j) ps = filter (tall hp j) ps" for j using t(1) by (intro filter_cong) auto
  have "chain hp' j (sh_head sh) (filter (tall hp j) ps) = chain hp j (sh_head sh) (filter (tall hp j) ps)" for j
    using t(2) by (intro chain_cong) auto
  moreover have "head_ok hp' sh" using D(3) shp [of "sh_head sh"] by (auto simp: head_ok_def)
  moreover have "sorted_wrt (\<lambda>p q. key_lt (pk m hp' p) (pk m hp' q)) ps"
    using D(7) by (rule sorted_wrt_mono_rel [rotated]) (simp add: k)
  ultimately show ?thesis using D k(2) f by (simp add: shard_ok_def)
qed

lemma map_of_replace:
  assumes "map_of A k = None"
  shows "map_of (A @ (k, v') # B) = (map_of (A @ (k, v) # B))(k \<mapsto> v')"
  using assms by (auto simp: map_add_def fun_eq_iff split: option.splits)

lemma put_found:
  assumes ok: "shard_ok m hp sh ps" and sp: "split_at m hp k ps ps1 (x # xs)" and x: "hp x = Some n" "pk m hp x = k"
  shows "shard_step m hp w sh ps (hp(x \<mapsto> n\<lparr>sn_value := v\<rparr>)) w sh ps"
    and "shard_map m (hp(x \<mapsto> n\<lparr>sn_value := v\<rparr>)) ps = (shard_map m hp ps)(k \<mapsto> v)"
proof -
  let ?hp = "hp(x \<mapsto> n\<lparr>sn_value := v\<rparr>)"
  note D = shard_okD [OF ok]
  have same: "node_key m (the (?hp p)) = node_key m (the (hp p))" "(?hp p = None) = (hp p = None)"
    "sn_level (the (?hp p)) = sn_level (the (hp p))" "sn_next (the (?hp p)) = sn_next (the (hp p))" for p
    using x(1) by (simp_all add: node_key_def)
  have ps: "ps = ps1 @ x # xs" using sp by (simp add: split_at_def)
  have ok': "shard_ok m ?hp sh ps" by (rule shard_ok_shape [OF ok]) (use same in blast)
  have "node_owned ?hp p = node_owned hp p" for p by (simp only: node_owned_def same(3))
  then show "shard_step m hp w sh ps ?hp w sh ps" using ok' ps by (auto simp: shard_step_def shard_same_def)
  have pk: "pk m ?hp p = pk m hp p" for p by (simp only: pk_def same(1))
  have pv: "pv ?hp p = (if p = x then v else pv hp p)" for p by (simp add: pv_def)
  have ne: "p \<noteq> x" "pk m hp p \<noteq> k" if "p \<in> set ps1 \<or> p \<in> set xs" for p
    using D(4) ps that sp key_lt_irrefl by (auto simp: split_at_def)
  have m1: "map (\<lambda>p. (pk m ?hp p, pv ?hp p)) qs = map (\<lambda>p. (pk m hp p, pv hp p)) qs" if "set qs \<subseteq> set ps1 \<union> set xs" for qs
    using ne(1) that by (intro map_cong refl) (auto simp: pk pv)
  have none: "map_of (map (\<lambda>p. (pk m hp p, pv hp p)) ps1) k = None"
    using ne(2) by (intro pairs_None) blast
  have "map (\<lambda>p. (pk m ?hp p, pv ?hp p)) ps = map (\<lambda>p. (pk m hp p, pv hp p)) ps1 @ (k, v) # map (\<lambda>p. (pk m hp p, pv hp p)) xs"
    unfolding ps using m1 [of ps1] m1 [of xs] x(2) by (simp only: map_append list.map pk pv) simp
  moreover have "map (\<lambda>p. (pk m hp p, pv hp p)) ps = map (\<lambda>p. (pk m hp p, pv hp p)) ps1 @ (k, pv hp x) # map (\<lambda>p. (pk m hp p, pv hp p)) xs"
    unfolding ps using x(2) by simp
  ultimately show "shard_map m ?hp ps = (shard_map m hp ps)(k \<mapsto> v)"
    unfolding shard_map_def by (simp only: map_of_replace [OF none])
qed

definition fresh_node :: "ptr \<Rightarrow> u64 \<Rightarrow> ptr \<Rightarrow> u32 \<Rightarrow> nkit_skip_node" where
  "fresh_node key key_len v level =
     \<lparr>sn_key = key, sn_key_len = key_len, sn_value = v, sn_level = level, sn_next = replicate (unat level) NULL\<rparr>"

lemma last_in: "last (h # xs) \<in> set (h # xs)"
  by (metis last_in_set list.distinct(1))

lemma preds_nth:
  assumes "head_ok hp sh" and "j < unat (sh_max_level sh)"
  shows "preds hp sh ps1 ! j = last (sh_head sh # filter (tall hp j) ps1)" "tall hp j (preds hp sh ps1 ! j)"
    "preds hp sh ps1 ! j \<in> set (sh_head sh # ps1)"
proof -
  show eq: "preds hp sh ps1 ! j = last (sh_head sh # filter (tall hp j) ps1)" using assms(2) by (simp add: preds_def)
  have "preds hp sh ps1 ! j \<in> set (sh_head sh # filter (tall hp j) ps1)" unfolding eq by (rule last_in)
  then show "tall hp j (preds hp sh ps1 ! j)" "preds hp sh ps1 ! j \<in> set (sh_head sh # ps1)"
    using head_ok_tall [OF assms] by auto
qed

lemma put_new:
  assumes ok: "shard_ok m hp sh ps" and sp: "split_at m hp (read_bytes m key key_len) ps ps1 ps2"
    and new: "new \<noteq> NULL" "hp new = None" and l: "0 < unat l" "unat l \<le> unat (sh_max_level sh)"
    and absent: "shard_map m hp ps (read_bytes m key key_len) = None"
  shows "\<exists>hp'. skip_link new (preds hp sh ps1) [0..<unat l] (hp(new \<mapsto> fresh_node key key_len v l)) = Some hp' \<and>
    shard_ok m hp' (sh\<lparr>sh_count := sh_count sh + 1\<rparr>) (ps1 @ new # ps2) \<and>
    (\<forall>p. p \<notin> set (sh_head sh # ps1) \<and> p \<noteq> new \<longrightarrow> hp' p = hp p) \<and>
    (\<forall>p. p \<noteq> new \<longrightarrow> shape hp' p = shape hp p) \<and> shape hp' new = shape (hp(new \<mapsto> fresh_node key key_len v l)) new"
proof -
  note D = shard_okD [OF ok]
  let ?L = "unat (sh_max_level sh)" and ?hp = "hp(new \<mapsto> fresh_node key key_len v l)" and ?h = "sh_head sh" and ?k = "read_bytes m key key_len"
  have ps: "ps = ps1 @ ps2" using sp by (simp add: split_at_def)
  have "new \<notin> set ps" using new(2) D(6) node_ok_tall(2) by metis
  moreover have "new \<noteq> ?h" using new(2) D(3) by (auto simp: head_ok_def)
  ultimately have out: "new \<notin> set (?h # ps)" by simp
  have hp: "?hp p = hp p" "shape ?hp p = shape hp p" "tall ?hp j p = tall hp j p" "skip_next ?hp p j = skip_next hp p j" if "p \<noteq> new" for p j
    using that by (simp_all add: shape_def tall_def skip_next_def)
  have tn: "tall ?hp j new = (j < unat l)" for j by (simp add: tall_def fresh_node_def)
  have upd: "\<forall>j \<in> set [0..<unat l]. j < length (preds hp sh ps1) \<and> tall ?hp j (preds hp sh ps1 ! j) \<and> tall ?hp j new \<and> preds hp sh ps1 ! j \<noteq> new"
  proof
    fix j assume "j \<in> set [0..<unat l]"
    then have j: "j < unat l" "j < ?L" using l(2) by auto
    note p = preds_nth [OF D(3) j(2), of ps1]
    have "preds hp sh ps1 ! j \<noteq> new" using p(3) out ps by auto
    then show "j < length (preds hp sh ps1) \<and> tall ?hp j (preds hp sh ps1 ! j) \<and> tall ?hp j new \<and> preds hp sh ps1 ! j \<noteq> new"
      using p(2) j hp(3) tn by (simp add: preds_def)
  qed
  from skip_link_ok [OF distinct_upt upd] obtain hp' where hp': "skip_link new (preds hp sh ps1) [0..<unat l] ?hp = Some hp'"
    "\<And>r. shape hp' r = shape ?hp r" "\<And>r. r \<noteq> new \<and> r \<notin> (\<lambda>j. preds hp sh ps1 ! j) ` set [0..<unat l] \<Longrightarrow> hp' r = ?hp r"
    "\<And>r j. skip_next hp' r j = (if j \<in> set [0..<unat l] \<and> r = preds hp sh ps1 ! j then Some new
       else if j \<in> set [0..<unat l] \<and> r = new then skip_next ?hp (preds hp sh ps1 ! j) j else skip_next ?hp r j)" by blast
  have sh': "shape hp' p = shape hp p" if "p \<noteq> new" for p using hp'(2) [of p] hp(2) [OF that] by simp
  have tall': "tall hp' j p = (if p = new then j < unat l else tall hp j p)" for j p
    using shape_tall [OF hp'(2)] hp(3) tn by simp
  have memne: "p \<noteq> new" if "p \<in> set (?h # ps)" for p using that out by auto
  have keys: "pk m hp' p = pk m hp p" "node_ok hp' L p = node_ok hp L p" if "p \<in> set ps" for p L
  proof -
    have "hp p \<noteq> None" "p \<noteq> new" using D(6) [OF that] node_ok_tall(2) memne that by auto
    from shape_keeps(1,3) [OF sh' [OF this(2)] this(1)] show "pk m hp' p = pk m hp p" "node_ok hp' L p = node_ok hp L p" .
  qed
  have keyn: "pk m hp' new = ?k" "node_ok hp' ?L new"
    using shape_keeps [OF hp'(2) [of new]] l by (simp_all add: pk_def node_ok_def fresh_node_def node_key_def)
  have ft: "filter (tall hp' j) qs = filter (tall hp j) qs" if "set qs \<subseteq> set ps" for qs j
    using that memne by (intro filter_cong) (auto simp: tall')
  have fl: "filter (tall hp' j) (ps1 @ new # ps2) = filter (tall hp j) ps1 @ (if j < unat l then [new] else []) @ filter (tall hp j) ps2" for j
    using ft [of ps1] ft [of ps2] ps by (simp add: tall')
  have keepn: "skip_next hp' r j = skip_next hp r j" if "r \<noteq> new" "\<not> (j < unat l \<and> r = preds hp sh ps1 ! j)" for r j
    using hp'(4) [of r j] hp(4) [OF that(1), of j] that by auto
  have "chain hp' j ?h (filter (tall hp' j) (ps1 @ new # ps2))" if j: "j < ?L" for j
  proof -
    have ch: "chain hp j ?h (filter (tall hp j) ps1 @ filter (tall hp j) ps2)" using D(8) [OF j] ps by simp
    have dis: "distinct (?h # filter (tall hp j) ps1 @ filter (tall hp j) ps2)" "new \<notin> set (?h # filter (tall hp j) ps1 @ filter (tall hp j) ps2)"
      using D(4) ps out by auto
    note u = preds_nth [OF D(3) j, of ps1]
    have une: "preds hp sh ps1 ! j \<noteq> new" using u(3) out ps by auto
    show ?thesis
    proof (cases "j < unat l")
      case True
      have "chain hp' j ?h (filter (tall hp j) ps1 @ new # filter (tall hp j) ps2)"
      proof (rule chain_insert [OF ch dis new(1)])
        show "skip_next hp' (last (?h # filter (tall hp j) ps1)) j = Some new"
          unfolding u(1) [symmetric] using hp'(4) [of "preds hp sh ps1 ! j" j] True by simp
        show "skip_next hp' new j = skip_next hp (last (?h # filter (tall hp j) ps1)) j"
          unfolding u(1) [symmetric] using hp'(4) [of new j] True une hp(4) [OF une, of j] by simp
        show "skip_next hp' q j = skip_next hp q j" if "q \<noteq> last (?h # filter (tall hp j) ps1)" "q \<noteq> new" for q
          by (rule keepn [OF that(2)]) (use that(1) u(1) in simp)
      qed
      then show ?thesis unfolding fl using True by simp
    next
      case False
      have "chain hp' j ?h (filter (tall hp j) ps1 @ filter (tall hp j) ps2) = chain hp j ?h (filter (tall hp j) ps1 @ filter (tall hp j) ps2)"
        by (rule chain_cong, rule ballI, rule keepn) (use False dis(2) in auto)
      then show ?thesis unfolding fl using False ch by simp
    qed
  qed
  moreover have "sorted_wrt (\<lambda>p q. key_lt (pk m hp' p) (pk m hp' q)) (ps1 @ new # ps2)"
  proof -
    have nk: "pk m hp p \<noteq> ?k" if "p \<in> set ps" for p
      using absent that by (auto simp: shard_map_def map_of_eq_None_iff image_iff)
    have "sorted_wrt (\<lambda>p q. key_lt (pk m hp' p) (pk m hp' q)) ps"
      using D(7) by (rule sorted_wrt_mono_rel [rotated]) (simp add: keys)
    moreover have "key_lt (pk m hp' p) ?k" if "p \<in> set ps1" for p using sp that keys(1) ps by (auto simp: split_at_def)
    moreover have "key_lt ?k (pk m hp' p)" if "p \<in> set ps2" for p
      using sp that keys(1) [of p] ps nk [of p] key_lt_total [of ?k "pk m hp p"] by (auto simp: split_at_def)
    ultimately show ?thesis using keyn(1) ps by (auto simp: sorted_wrt_append)
  qed
  moreover have "head_ok hp' sh" by (rule shape_head [OF sh' [OF memne] D(3)]) simp
  moreover have "distinct (?h # ps1 @ new # ps2)" "NULL \<notin> set (?h # ps1 @ new # ps2)" using D(4,5) ps out new(1) by auto
  moreover have "node_ok hp' ?L p" if "p \<in> set (ps1 @ new # ps2)" for p using that keys(2) keyn(2) D(6) ps by auto
  ultimately have "shard_ok m hp' (sh\<lparr>sh_count := sh_count sh + 1\<rparr>) (ps1 @ new # ps2)"
    using D(1,2,9) ps by (auto simp: shard_ok_def head_ok_def)
  moreover have "hp' p = hp p" if "p \<notin> set (?h # ps1)" "p \<noteq> new" for p
  proof -
    have "preds hp sh ps1 ! j \<in> set (?h # ps1)" if "j \<in> set [0..<unat l]" for j
      by (rule preds_nth(3) [OF D(3)]) (use that l(2) in simp)
    then have "p \<notin> (\<lambda>j. preds hp sh ps1 ! j) ` set [0..<unat l]" using that(1) by blast
    then show ?thesis using hp'(3) [of p] that(2) by simp
  qed
  ultimately show ?thesis using hp'(1,2) sh' by blast
qed

lemma map_of_insert:
  assumes "map_of A k = None" and "map_of B k = None"
  shows "map_of (A @ (k, v) # B) = (map_of (A @ B))(k \<mapsto> v)"
  using assms by (auto simp: map_add_def fun_eq_iff split: option.splits)

lemma skip_put_shard_ok:
  assumes ok: "shard_ok m hp sh ps"
    and env: "\<And>sz. let p = os_answer w (os_tick w) (Numa_alloc_onnode sz (sh_node_id sh)) in p = NULL \<or> hp p = None"
  shows "\<exists>ret sh' hp' w' ps'. skip_put_shard rnd m key key_len v sh hp w = Some (ret, sh', hp', w') \<and>
    shard_step m hp w sh ps hp' w' sh' ps' \<and> os_answer w' = os_answer w \<and> set ps \<subseteq> set ps' \<and>
    (\<forall>p \<in> set ps'. p \<in> set ps \<or> pk m hp' p = read_bytes m key key_len) \<and> (\<forall>p \<in> set ps. pk m hp' p = pk m hp p) \<and>
    ((ret = 0 \<and> shard_map m hp' ps' = (shard_map m hp ps)(read_bytes m key key_len \<mapsto> v)) \<or>
     (ret = - 1 \<and> shard_map m hp' ps' = shard_map m hp ps))"
proof -
  note D = shard_okD [OF ok]
  let ?k = "read_bytes m key key_len"
  obtain ps1 ps2 where sp: "split_at m hp ?k ps ps1 ps2" using split_ex [OF D(7)] by blast
  note S = shard_search [OF ok sp]
  have ps: "ps = ps1 @ ps2" using sp by (simp add: split_at_def)
  show ?thesis
  proof (cases "shard_map m hp ps ?k")
    case (Some u)
    then obtain x xs where x: "ps2 = x # xs" "pk m hp x = ?k" using split_map [OF sp] by (auto split: list.splits if_splits)
    then obtain n where n: "hp x = Some n" using D(6) node_ok_tall(2) ps by fastforce
    have "skip_put_shard rnd m key key_len v sh hp w = Some (0, sh, hp(x \<mapsto> n\<lparr>sn_value := v\<rparr>), w)"
      using S x n by (simp add: skip_put_shard_def)
    moreover have "pk m (hp(x \<mapsto> n\<lparr>sn_value := v\<rparr>)) p = pk m hp p" for p using n by (simp add: pk_def node_key_def)
    ultimately show ?thesis using put_found(1) [OF ok sp [unfolded x(1)] n x(2), of w v] put_found(2) [OF ok sp [unfolded x(1)] n x(2), of v] by auto
  next
    case absent: None
    then have nf: "(case ps2 of [] \<Rightarrow> None | x # _ \<Rightarrow> if pk m hp x = ?k then hp x else None) = None"
      using split_map [OF sp] by (auto split: list.splits if_splits)
    obtain l sh1 where l: "random_level rnd sh = (l, sh1)" by fastforce
    note lb = random_level_ok [OF D(1) l]
    define sh2 where "sh2 = (if l > sh_current_level sh1 then sh1\<lparr>sh_current_level := l\<rparr> else sh1)"
    have same: "shard_same sh sh2" "sh_count sh2 = sh_count sh" using lb(3) by (auto simp: sh2_def shard_same_def)
    have id: "sh_node_id sh2 = sh_node_id sh" using same(1) by (simp add: shard_same_def)
    obtain new w1 where al: "os_numa_alloc (skip_node_bytes l) (sh_node_id sh) w = (new, w1)" by fastforce
    have ans: "new = os_answer w (os_tick w) (Numa_alloc_onnode (skip_node_bytes l) (sh_node_id sh))"
      and live: "os_live w1 = (if new = NULL then os_live w else add_mset (Numa new (skip_node_bytes l)) (os_live w))"
        "os_fault w1 = os_fault w" "os_answer w1 = os_answer w"
      using al os_alloc_simps(1-4) [of "Numa_alloc_onnode (skip_node_bytes l) (sh_node_id sh)" "\<lambda>p. Numa p (skip_node_bytes l)" NULL w]
      by (auto simp: os_numa_alloc_def)
    have ok2: "shard_ok m hp sh2 ps" by (rule shard_ok_cong [OF ok same])
    let ?hp1 = "hp(new \<mapsto> fresh_node key key_len v l)"
    have put: "skip_put_shard rnd m key key_len v sh hp w = (if new = NULL then Some (- 1, sh2, hp, w1)
        else Option.bind (skip_link new (preds hp sh ps1) [0..<unat l] ?hp1) (\<lambda>hp2. Some (0, sh2\<lparr>sh_count := sh_count sh2 + 1\<rparr>, hp2, w1)))"
      using S nf l al id unfolding skip_put_shard_def create_node_def sh2_def [symmetric]
      by (auto simp: sh2_def [symmetric] fresh_node_def Let_def)
    show ?thesis
    proof (cases "new = NULL")
      case True
      have "shard_step m hp w sh ps hp w1 sh2 ps" using ok2 same True live by (simp add: shard_step_def)
      then show ?thesis using put True live(3) by auto
    next
      case False
      then have fresh: "hp new = None" using env [of "skip_node_bytes l"] ans by (simp add: Let_def)
      have "preds hp sh ps1 = preds hp sh2 ps1" using same(1) by (simp add: preds_def shard_same_def)
      from put_new [OF ok2 sp False fresh lb(1) _ absent, of v] lb(2) same(1) this obtain hp2 where
        hp2: "skip_link new (preds hp sh ps1) [0..<unat l] ?hp1 = Some hp2"
          "shard_ok m hp2 (sh2\<lparr>sh_count := sh_count sh2 + 1\<rparr>) (ps1 @ new # ps2)"
          "\<And>p. p \<notin> set (sh_head sh # ps1) \<Longrightarrow> p \<noteq> new \<Longrightarrow> hp2 p = hp p" "\<And>p. p \<noteq> new \<Longrightarrow> shape hp2 p = shape hp p"
          "shape hp2 new = shape ?hp1 new" by (auto simp: shard_same_def)
      have nn: "p \<noteq> new" "hp p \<noteq> None" if "p \<in> set (sh_head sh # ps)" for p
        using shard_nodes [OF ok that] fresh by auto
      have keep: "pk m hp2 p = pk m hp p" "pv hp2 p = pv hp p" "sn_level (the (hp2 p)) = sn_level (the (hp p))" if "p \<in> set (sh_head sh # ps)" for p
        using shape_keeps [OF hp2(4) [OF nn(1) [OF that]] nn(2) [OF that]] by auto
      have nk: "pk m hp2 new = ?k" "pv hp2 new = v" "sn_level (the (hp2 new)) = l"
        using shape_keeps [OF hp2(5)] by (simp_all add: pk_def pv_def fresh_node_def node_key_def)
      have own: "node_owned hp2 p = node_owned hp p" if "p \<in> set (sh_head sh # ps)" for p using keep(3) [OF that] by (simp add: node_owned_def)
      have sums: "(\<Sum>p\<leftarrow>ps1 @ new # ps2. node_owned hp2 p) = {#Numa new (skip_node_bytes l)#} + (\<Sum>p\<leftarrow>ps. node_owned hp p)"
      proof -
        have "(\<Sum>p\<leftarrow>ps1. node_owned hp2 p) = (\<Sum>p\<leftarrow>ps1. node_owned hp p)" "(\<Sum>p\<leftarrow>ps2. node_owned hp2 p) = (\<Sum>p\<leftarrow>ps2. node_owned hp p)"
          using own ps by (auto intro!: owned_cong)
        then show ?thesis using ps nk(3) by (simp add: node_owned_def [of hp2 new])
      qed
      have step: "shard_step m hp w sh ps hp2 w1 (sh2\<lparr>sh_count := sh_count sh2 + 1\<rparr>) (ps1 @ new # ps2)"
        using hp2(2,3) same(1) ps fresh own [of "sh_head sh"] live False sums by (auto simp: shard_step_def shard_same_def)
      have none: "map_of (map (\<lambda>p. (pk m hp p, pv hp p)) ps1) ?k = None" "map_of (map (\<lambda>p. (pk m hp p, pv hp p)) ps2) ?k = None"
        using absent ps by (auto simp: shard_map_def map_add_None)
      have "map (\<lambda>p. (pk m hp2 p, pv hp2 p)) qs = map (\<lambda>p. (pk m hp p, pv hp p)) qs" if "set qs \<subseteq> set ps" for qs
        using keep that by (intro map_cong) auto
      from this [of ps1] this [of ps2] have e1: "map (\<lambda>p. (pk m hp2 p, pv hp2 p)) (ps1 @ new # ps2) =
          map (\<lambda>p. (pk m hp p, pv hp p)) ps1 @ (?k, v) # map (\<lambda>p. (pk m hp p, pv hp p)) ps2" using ps nk by simp
      have e2: "map (\<lambda>p. (pk m hp p, pv hp p)) ps = map (\<lambda>p. (pk m hp p, pv hp p)) ps1 @ map (\<lambda>p. (pk m hp p, pv hp p)) ps2"
        using ps by simp
      have "shard_map m hp2 (ps1 @ new # ps2) = (shard_map m hp ps)(?k \<mapsto> v)"
        unfolding shard_map_def e1 e2 by (rule map_of_insert [OF none])
      moreover have "skip_put_shard rnd m key key_len v sh hp w = Some (0, sh2\<lparr>sh_count := sh_count sh2 + 1\<rparr>, hp2, w1)"
        using put hp2(1) False by simp
      ultimately show ?thesis using step live(3) ps nk(1) keep(1) by auto
    qed
  qed
qed

subsection \<open>Removing\<close>

lemma map_of_drop:
  assumes "map_of A k = None" and "map_of B k = None"
  shows "map_of (A @ B) = (map_of (A @ (k, v) # B))(k := None)"
  using assms by (auto simp: map_add_def fun_eq_iff split: option.splits)

lemma remove_found:
  assumes ok: "shard_ok m hp sh ps" and sp: "split_at m hp k ps ps1 (x # xs)" and x: "hp x = Some n" "pk m hp x = k"
  shows "\<exists>hp'. skip_unlink x (preds hp sh ps1) [0..<unat (sn_level n)] hp = Some hp' \<and> hp' x = Some n \<and>
    shard_ok m (hp'(x := None)) (sh\<lparr>sh_count := sh_count sh - 1\<rparr>) (ps1 @ xs) \<and>
    (\<forall>p. p \<notin> set (sh_head sh # ps1) \<longrightarrow> hp' p = hp p) \<and> (\<forall>p. shape hp' p = shape hp p)"
proof -
  note D = shard_okD [OF ok]
  let ?L = "unat (sh_max_level sh)" and ?h = "sh_head sh" and ?l = "unat (sn_level n)"
  have ps: "ps = ps1 @ x # xs" using sp by (simp add: split_at_def)
  have xo: "x \<notin> set (?h # ps1 @ xs)" using D(4) ps by auto
  have n: "length (sn_next n) = ?l" "?l \<le> ?L" using D(6) [of x] x(1) ps by (auto simp: node_ok_def)
  have tx: "tall hp j x = (j < ?l)" for j using x(1) n(1) by (simp add: tall_def)
  have ch: "chain hp j ?h (filter (tall hp j) ps1 @ (if j < ?l then [x] else []) @ filter (tall hp j) xs)" if "j < ?L" for j
    using D(8) [OF that] ps tx by (cases "j < ?l") simp_all
  have upd: "\<forall>j \<in> set [0..<?l]. j < length (preds hp sh ps1) \<and> skip_next hp (preds hp sh ps1 ! j) j = Some x \<and> tall hp j x \<and> preds hp sh ps1 ! j \<noteq> x"
  proof
    fix j assume "j \<in> set [0..<?l]"
    then have j: "j < ?l" "j < ?L" using n(2) by auto
    note p = preds_nth [OF D(3) j(2), of ps1]
    have "chain hp j ?h (filter (tall hp j) ps1 @ x # filter (tall hp j) xs)" using ch [OF j(2)] j(1) by simp
    from chain_next [OF this] have "skip_next hp (preds hp sh ps1 ! j) j = Some x" using p(1) by simp
    moreover have "preds hp sh ps1 ! j \<noteq> x" using p(3) xo by auto
    ultimately show "j < length (preds hp sh ps1) \<and> skip_next hp (preds hp sh ps1 ! j) j = Some x \<and> tall hp j x \<and> preds hp sh ps1 ! j \<noteq> x"
      using j tx by simp
  qed
  from skip_unlink_ok [OF distinct_upt upd] obtain hp' where hp': "skip_unlink x (preds hp sh ps1) [0..<?l] hp = Some hp'"
    "\<And>r. shape hp' r = shape hp r" "\<And>r. r \<notin> (\<lambda>j. preds hp sh ps1 ! j) ` set [0..<?l] \<Longrightarrow> hp' r = hp r"
    "\<And>r j. skip_next hp' r j = (if j \<in> set [0..<?l] \<and> r = preds hp sh ps1 ! j then skip_next hp x j else skip_next hp r j)" by blast
  have frame: "hp' p = hp p" if "p \<notin> set (?h # ps1)" for p
  proof -
    have "preds hp sh ps1 ! j \<in> set (?h # ps1)" if "j \<in> set [0..<?l]" for j
      by (rule preds_nth(3) [OF D(3)]) (use that n(2) in simp)
    then have "p \<notin> (\<lambda>j. preds hp sh ps1 ! j) ` set [0..<?l]" using that by blast
    then show ?thesis by (rule hp'(3))
  qed
  have hx: "hp' x = Some n" using frame [of x] xo x(1) by auto
  let ?hp = "hp'(x := None)"
  have off: "skip_next ?hp p j = skip_next hp' p j" "tall ?hp j p = tall hp j p" "shape ?hp p = shape hp p" if "p \<noteq> x" for p j
    using that shape_tall [OF hp'(2)] hp'(2) by (auto simp: skip_next_def tall_def shape_def)
  have mem: "p \<noteq> x" "hp p \<noteq> None" if "p \<in> set (?h # ps1 @ xs)" for p
    using xo that shard_nodes [OF ok, of p] ps by auto
  have keys: "pk m ?hp p = pk m hp p" "node_ok ?hp L p = node_ok hp L p" if "p \<in> set (ps1 @ xs)" for p L
  proof -
    have p: "p \<noteq> x" "hp p \<noteq> None" using mem [of p] that by auto
    from shape_keeps(1,3) [OF off(3) [OF p(1)] p(2)] show "pk m ?hp p = pk m hp p" "node_ok ?hp L p = node_ok hp L p" .
  qed
  have fl: "filter (tall ?hp j) (ps1 @ xs) = filter (tall hp j) ps1 @ filter (tall hp j) xs" for j
    unfolding filter_append [symmetric] using mem(1) off(2) by (intro filter_cong) auto
  have "chain ?hp j ?h (filter (tall ?hp j) (ps1 @ xs))" if j: "j < ?L" for j
  proof -
    let ?A = "filter (tall hp j) ps1" and ?B = "filter (tall hp j) xs"
    note u = preds_nth [OF D(3) j, of ps1]
    have une: "preds hp sh ps1 ! j \<noteq> x" using u(3) xo by auto
    have keepn: "skip_next ?hp q j = skip_next hp q j" if "q \<noteq> x" "\<not> (j < ?l \<and> q = preds hp sh ps1 ! j)" for q
      using hp'(4) [of q j] off(1) [OF that(1), of j] that(2) by auto
    have "chain ?hp j ?h (?A @ ?B)"
    proof (cases "j < ?l")
      case True
      have c: "chain hp j ?h (?A @ x # ?B)" using ch [OF j] True by simp
      have d: "distinct (?h # ?A @ x # ?B)" using D(4) ps by auto
      show ?thesis
      proof (rule chain_delete [OF c d])
        show "skip_next ?hp (last (?h # ?A)) j = skip_next hp x j"
          unfolding u(1) [symmetric] using hp'(4) [of "preds hp sh ps1 ! j" j] off(1) [OF une, of j] True by simp
        show "skip_next ?hp q j = skip_next hp q j" if "q \<noteq> last (?h # ?A)" "q \<in> set (?h # ?A @ ?B)" for q
          by (rule keepn) (use that u(1) mem(1) [of q] in auto)
      qed
    next
      case False
      then have c: "chain hp j ?h (?A @ ?B)" using ch [OF j] by simp
      have "chain ?hp j ?h (?A @ ?B) = chain hp j ?h (?A @ ?B)"
        by (rule chain_cong, rule ballI, rule keepn) (use False mem(1) in auto)
      then show ?thesis using c by simp
    qed
    then show ?thesis unfolding fl .
  qed
  moreover have "sorted_wrt (\<lambda>p q. key_lt (pk m ?hp p) (pk m ?hp q)) (ps1 @ xs)"
  proof -
    have "sorted_wrt (\<lambda>p q. key_lt (pk m hp p) (pk m hp q)) (ps1 @ xs)" using D(7) ps by (auto simp: sorted_wrt_append)
    then show ?thesis by (rule sorted_wrt_mono_rel [rotated]) (simp add: keys(1))
  qed
  moreover have "head_ok ?hp sh" using shape_head [OF off(3) D(3)] mem(1) [of ?h] by simp
  moreover have "node_ok ?hp ?L p" if "p \<in> set (ps1 @ xs)" for p using that keys(2) D(6) ps by auto
  ultimately have "shard_ok m ?hp (sh\<lparr>sh_count := sh_count sh - 1\<rparr>) (ps1 @ xs)"
    using D(1,2,4,5,9) ps by (auto simp: shard_ok_def head_ok_def)
  then show ?thesis using hp'(1,2) hx frame by blast
qed

lemma skip_remove_shard_ok:
  assumes ok: "shard_ok m hp sh ps" and live: "(\<Sum>p\<leftarrow>ps. node_owned hp p) \<subseteq># os_live w"
  shows "\<exists>sh' hp' w' ps'. skip_remove_shard m key key_len sh hp w =
      Some (if shard_map m hp ps (read_bytes m key key_len) = None then - 1 else 0, sh', hp', w') \<and>
    shard_step m hp w sh ps hp' w' sh' ps' \<and> os_answer w' = os_answer w \<and> set ps' \<subseteq> set ps \<and> (\<forall>p \<in> set ps'. pk m hp' p = pk m hp p) \<and>
    shard_map m hp' ps' = (shard_map m hp ps)(read_bytes m key key_len := None)"
proof -
  note D = shard_okD [OF ok]
  let ?k = "read_bytes m key key_len"
  obtain ps1 ps2 where sp: "split_at m hp ?k ps ps1 ps2" using split_ex [OF D(7)] by blast
  note S = shard_search [OF ok sp]
  have ps: "ps = ps1 @ ps2" using sp by (simp add: split_at_def)
  show ?thesis
  proof (cases "shard_map m hp ps ?k")
    case absent: None
    then have nf: "(case ps2 of [] \<Rightarrow> None | x # _ \<Rightarrow> if pk m hp x = ?k then hp x else None) = None"
      using split_map [OF sp] by (auto split: list.splits if_splits)
    have "skip_remove_shard m key key_len sh hp w = Some (- 1, sh, hp, w)" using S nf by (simp add: skip_remove_shard_def)
    moreover have "shard_step m hp w sh ps hp w sh ps" using ok by (simp add: shard_step_def shard_same_def)
    moreover have "(shard_map m hp ps)(?k := None) = shard_map m hp ps" using absent by (simp add: fun_upd_idem)
    ultimately show ?thesis using absent by auto
  next
    case (Some u)
    then obtain x xs where x: "ps2 = x # xs" "pk m hp x = ?k" using split_map [OF sp] by (auto split: list.splits if_splits)
    then obtain n where n: "hp x = Some n" using D(6) node_ok_tall(2) ps by fastforce
    from remove_found [OF ok sp [unfolded x(1)] n x(2)] obtain hp1 where
      hp1: "skip_unlink x (preds hp sh ps1) [0..<unat (sn_level n)] hp = Some hp1" "hp1 x = Some n"
        "shard_ok m (hp1(x := None)) (sh\<lparr>sh_count := sh_count sh - 1\<rparr>) (ps1 @ xs)"
        "\<And>p. p \<notin> set (sh_head sh # ps1) \<Longrightarrow> hp1 p = hp p" "\<And>p. shape hp1 p = shape hp p" by auto
    have xn: "x \<noteq> NULL" using D(5) ps x(1) by auto
    define w1 where "w1 = os_numa_free x (skip_node_bytes (sn_level n)) w"
    have rm: "skip_remove_shard m key key_len sh hp w = Some (0, sh\<lparr>sh_count := sh_count sh - 1\<rparr>, hp1(x := None), w1)"
      using S x n hp1(1,2) xn by (simp add: skip_remove_shard_def free_node_def w1_def)
    have keep: "pk m (hp1(x := None)) p = pk m hp p" "pv (hp1(x := None)) p = pv hp p" "node_owned (hp1(x := None)) p = node_owned hp p"
      if "p \<in> set (sh_head sh # ps1 @ xs)" for p
    proof -
      have p: "p \<noteq> x" "hp p \<noteq> None" using D(4) ps x(1) that shard_nodes [OF ok, of p] by auto
      have "shape (hp1(x := None)) p = shape hp p" using hp1(5) [of p] p(1) by (simp add: shape_def)
      from shape_keeps [OF this p(2)] show "pk m (hp1(x := None)) p = pk m hp p" "pv (hp1(x := None)) p = pv hp p"
        "node_owned (hp1(x := None)) p = node_owned hp p" by (simp_all add: node_owned_def)
    qed
    have sums: "(\<Sum>p\<leftarrow>ps. node_owned hp p) = {#Numa x (skip_node_bytes (sn_level n))#} + (\<Sum>p\<leftarrow>ps1 @ xs. node_owned (hp1(x := None)) p)"
    proof -
      have "(\<Sum>p\<leftarrow>ps1 @ xs. node_owned (hp1(x := None)) p) = (\<Sum>p\<leftarrow>ps1 @ xs. node_owned hp p)" using keep(3) by (intro owned_cong) simp
      then show ?thesis using ps x(1) n by (simp add: node_owned_def [of hp x])
    qed
    have inl: "Numa x (skip_node_bytes (sn_level n)) \<in># os_live w" using live unfolding sums by (simp add: insert_subset_eq_iff)
    have w1: "os_live w = add_mset (Numa x (skip_node_bytes (sn_level n))) (os_live w1)" "os_fault w1 = os_fault w" "os_answer w1 = os_answer w"
      using inl xn by (simp_all add: w1_def os_numa_free_def os_simps)
    have "shard_step m hp w sh ps (hp1(x := None)) w1 (sh\<lparr>sh_count := sh_count sh - 1\<rparr>) (ps1 @ xs)"
      using hp1(3,4) ps x(1) keep(3) [of "sh_head sh"] w1 sums D(4) by (auto simp: shard_step_def shard_same_def)
    moreover have "shard_map m (hp1(x := None)) (ps1 @ xs) = (shard_map m hp ps)(?k := None)"
    proof -
      have ne: "pk m hp p \<noteq> ?k" if "p \<in> set ps1 \<or> p \<in> set xs" for p using sp that key_lt_irrefl x(1) by (auto simp: split_at_def)
      have none: "map_of (map (\<lambda>p. (pk m hp p, pv hp p)) ps1) ?k = None" "map_of (map (\<lambda>p. (pk m hp p, pv hp p)) xs) ?k = None"
        using ne by (intro pairs_None; blast)+
      have e1: "map (\<lambda>p. (pk m (hp1(x := None)) p, pv (hp1(x := None)) p)) (ps1 @ xs) =
          map (\<lambda>p. (pk m hp p, pv hp p)) ps1 @ map (\<lambda>p. (pk m hp p, pv hp p)) xs"
        unfolding map_append [symmetric] using keep(1,2) by (intro map_cong refl) simp
      have e2: "map (\<lambda>p. (pk m hp p, pv hp p)) ps = map (\<lambda>p. (pk m hp p, pv hp p)) ps1 @ (?k, pv hp x) # map (\<lambda>p. (pk m hp p, pv hp p)) xs"
        using ps x by simp
      show ?thesis unfolding shard_map_def e1 e2 by (rule map_of_drop [OF none])
    qed
    ultimately show ?thesis using rm Some w1(3) ps x(1) keep(1) by auto
  qed
qed

end
