(* ===== verification/NK_Skip_Map.thy ===== *)
theory NK_Skip_Map
  imports NK_Skip_Shard
begin

section \<open>The skip list: all shards\<close>

text \<open>
  The invariant of the whole list, the map from key bytes to values it stands for, and the proof that
  the public operations implement the contract of a map. An operation touches the shard of its key
  only; the nodes of the shards are disjoint, so the other shards keep their invariant and their
  entries.
\<close>

text \<open>The nodes of a shard, read off the chain of level 0.\<close>

fun skip_nodes :: "skip_heap \<Rightarrow> nat \<Rightarrow> ptr \<Rightarrow> ptr list" where
  "skip_nodes hp 0 p = []"
| "skip_nodes hp (Suc n) p =
    (case skip_next hp p 0 of None \<Rightarrow> [] | Some q \<Rightarrow> if q = NULL then [] else q # skip_nodes hp n q)"

definition shard_entries :: "mem \<Rightarrow> skip_heap \<Rightarrow> nkit_skip_shard \<Rightarrow> (u8 list \<times> ptr) list" where
  "shard_entries m hp sh = map (\<lambda>p. (pk m hp p, pv hp p)) (skip_nodes hp (unat (sh_count sh)) (sh_head sh))"

definition skip_map :: "mem \<Rightarrow> nkit_skip \<Rightarrow> skip_heap \<Rightarrow> u8 list \<rightharpoonup> ptr" where
  "skip_map m sl hp = map_of (concat (map (shard_entries m hp) (snd (sk_shards sl))))"

definition skip_home :: "nkit_skip \<Rightarrow> u8 list \<Rightarrow> nat" where
  "skip_home sl k = unat (fold (\<lambda>byte hash. (hash XOR ucast byte) * 1099511628211) k 14695981039346656037 mod
     (ucast (sk_num_shards sl) :: u64))"

abbreviation shards_of :: "nkit_skip \<Rightarrow> nkit_skip_shard list" where
  "shards_of sl \<equiv> snd (sk_shards sl)"

abbreviation shard_set :: "nkit_skip \<Rightarrow> ptr list list \<Rightarrow> nat \<Rightarrow> ptr set" where
  "shard_set sl pss i \<equiv> set (sh_head (shards_of sl ! i) # pss ! i)"

definition skip_ok :: "mem \<Rightarrow> nkit_skip \<Rightarrow> skip_heap \<Rightarrow> ptr list list \<Rightarrow> bool" where
  "skip_ok m sl hp pss \<longleftrightarrow> length (shards_of sl) = unat (sk_num_shards sl) \<and> length pss = unat (sk_num_shards sl) \<and>
     0 < unat (sk_num_shards sl) \<and>
     (\<forall>i < length pss. shard_ok m hp (shards_of sl ! i) (pss ! i) \<and> sh_lock (shards_of sl ! i) = None \<and>
        (\<forall>p \<in> set (pss ! i). skip_home sl (pk m hp p) = i)) \<and>
     (\<forall>i < length pss. \<forall>j < length pss. i \<noteq> j \<longrightarrow> shard_set sl pss i \<inter> shard_set sl pss j = {})"

lemma skip_okD:
  assumes "skip_ok m sl hp pss"
  shows "length (shards_of sl) = unat (sk_num_shards sl)" "length pss = unat (sk_num_shards sl)" "0 < unat (sk_num_shards sl)"
    "\<And>i. i < length pss \<Longrightarrow> shard_ok m hp (shards_of sl ! i) (pss ! i)"
    "\<And>i. i < length pss \<Longrightarrow> sh_lock (shards_of sl ! i) = None"
    "\<And>i p. i < length pss \<Longrightarrow> p \<in> set (pss ! i) \<Longrightarrow> skip_home sl (pk m hp p) = i"
    "\<And>i j. i < length pss \<Longrightarrow> j < length pss \<Longrightarrow> i \<noteq> j \<Longrightarrow> shard_set sl pss i \<inter> shard_set sl pss j = {}"
  using assms unfolding skip_ok_def by blast+

lemma skip_home_less: "0 < unat (sk_num_shards sl) \<Longrightarrow> skip_home sl k < unat (sk_num_shards sl)"
  unfolding skip_home_def unat_mod unat_ucast_u32 by simp

lemma skip_home_less_ok: "skip_ok m sl hp pss \<Longrightarrow> skip_home sl k < length pss"
  using skip_home_less skip_okD(2,3) by metis

lemma skip_shard_idx_home:
  assumes "skip_ok m sl hp pss"
  shows "skip_shard_idx m sl key key_len = Some (skip_home sl (read_bytes m key key_len))"
proof -
  note D = skip_okD [OF assms]
  have "(ucast (sk_num_shards sl) :: u64) \<noteq> 0" using D(3) by (simp add: word_unat_eq_iff unat_ucast_u32)
  moreover have "skip_home sl (read_bytes m key key_len) < length (shards_of sl)"
    using skip_home_less [OF D(3)] D(1) by simp
  ultimately show ?thesis by (simp add: skip_shard_idx_def skip_fnv1a_def skip_home_def Let_def)
qed

subsection \<open>The map of the list\<close>

lemma skip_nodes_chain: "chain hp 0 p ps \<Longrightarrow> length ps \<le> n \<Longrightarrow> skip_nodes hp n p = ps"
proof (induction ps arbitrary: p n)
  case Nil
  then show ?case by (cases n) auto
next
  case (Cons q qs)
  then show ?case by (cases n) auto
qed

lemma shard_count:
  assumes "shard_ok m hp sh ps"
  shows "unat (sh_count sh) = length ps"
proof -
  note D = shard_okD [OF assms]
  have "card (insert NULL (set ps)) \<le> card (UNIV :: ptr set)" by (intro card_mono) simp_all
  moreover have "card (insert NULL (set ps)) = Suc (length ps)" using D(4,5) by (simp add: distinct_card)
  ultimately have "length ps < 2 ^ 64" by (simp add: card_word)
  then show ?thesis unfolding D(9) by (simp add: unat_of_nat_small)
qed

lemma shard_chain:
  assumes "shard_ok m hp sh ps"
  shows "chain hp 0 (sh_head sh) ps"
  using shard_okD(8) [OF assms shard_okD(1) [OF assms]] filter_tall_0 [of ps hp "unat (sh_max_level sh)"] shard_okD(6) [OF assms]
  by simp

lemma shard_walk:
  assumes "shard_ok m hp sh ps"
  shows "skip_nodes hp (unat (sh_count sh)) (sh_head sh) = ps"
  using skip_nodes_chain [OF shard_chain [OF assms]] shard_count [OF assms] by simp

lemma shard_entries_map: "shard_ok m hp sh ps \<Longrightarrow> map_of (shard_entries m hp sh) = shard_map m hp ps"
  by (simp add: shard_entries_def shard_map_def shard_walk)

lemma map_of_concat_None: "(\<And>xs. xs \<in> set xss \<Longrightarrow> map_of xs k = None) \<Longrightarrow> map_of (concat xss) k = None"
  by (induction xss) (simp_all add: map_add_def)

lemma map_of_concat_one:
  assumes "i < length xss" and "\<And>j. j < length xss \<Longrightarrow> j \<noteq> i \<Longrightarrow> map_of (xss ! j) k = None"
  shows "map_of (concat xss) k = map_of (xss ! i) k"
  using assms
proof (induction xss arbitrary: i)
  case (Cons xs xss)
  show ?case
  proof (cases i)
    case 0
    have "map_of (xss ! j) k = None" if "j < length xss" for j using Cons.prems(2) [of "Suc j"] that 0 by simp
    then have "map_of (concat xss) k = None" by (intro map_of_concat_None) (auto simp: in_set_conv_nth)
    then show ?thesis using 0 by (simp add: map_add_def split: option.split)
  next
    case (Suc i')
    have "map_of xs k = None" using Cons.prems(2) [of 0] Suc by simp
    moreover have "map_of (concat xss) k = map_of (xss ! i') k"
    proof (rule Cons.IH)
      show "i' < length xss" using Cons.prems(1) Suc by simp
      show "map_of (xss ! j) k = None" if "j < length xss" "j \<noteq> i'" for j using Cons.prems(2) [of "Suc j"] that Suc by simp
    qed
    ultimately show ?thesis using Suc by (simp add: map_add_def split: option.split)
  qed
qed simp

lemma shard_map_None:
  assumes "\<And>p. p \<in> set ps \<Longrightarrow> pk m hp p \<noteq> k"
  shows "shard_map m hp ps k = None"
  unfolding shard_map_def using assms by (rule pairs_None)

lemma skip_map_home:
  assumes "skip_ok m sl hp pss"
  shows "skip_map m sl hp k = shard_map m hp (pss ! skip_home sl k) k"
proof -
  note D = skip_okD [OF assms]
  have len: "length (shards_of sl) = length pss" using D(1,2) by simp
  have i: "skip_home sl k < length pss" using assms by (rule skip_home_less_ok)
  have e: "map_of (map (shard_entries m hp) (shards_of sl) ! j) k = shard_map m hp (pss ! j) k" if "j < length pss" for j
    using that len shard_entries_map [OF D(4) [OF that]] by simp
  have "shard_map m hp (pss ! j) k = None" if "j < length pss" "j \<noteq> skip_home sl k" for j
    using D(6) [OF that(1)] that(2) by (intro shard_map_None) blast
  then have "map_of (concat (map (shard_entries m hp) (shards_of sl))) k = map_of (map (shard_entries m hp) (shards_of sl) ! skip_home sl k) k"
    using i len e by (intro map_of_concat_one) simp_all
  then show ?thesis using e [OF i] by (simp add: skip_map_def)
qed

subsection \<open>What a list owns\<close>

definition skip_base :: "nkit_skip \<Rightarrow> os_res multiset" where
  "skip_base sl = heap_owns (sk_addr sl) + heap_owns (fst (sk_shards sl))"

definition shard_owned :: "nkit_skip \<Rightarrow> skip_heap \<Rightarrow> ptr list list \<Rightarrow> nat \<Rightarrow> os_res multiset" where
  "shard_owned sl hp pss i = (\<Sum>p\<leftarrow>sh_head (shards_of sl ! i) # pss ! i. node_owned hp p)"

definition skip_owned :: "nkit_skip \<Rightarrow> skip_heap \<Rightarrow> ptr list list \<Rightarrow> os_res multiset" where
  "skip_owned sl hp pss = (\<Sum>i<length pss. shard_owned sl hp pss i)"

subsection \<open>An operation on one shard\<close>

lemma set_shard_simps [simp]:
  "shards_of (set_shard sl i sh) = (shards_of sl)[i := sh]" "fst (sk_shards (set_shard sl i sh)) = fst (sk_shards sl)"
  "sk_num_shards (set_shard sl i sh) = sk_num_shards sl" "sk_addr (set_shard sl i sh) = sk_addr sl"
  "sk_max_level (set_shard sl i sh) = sk_max_level sl" "skip_home (set_shard sl i sh) = skip_home sl"
  "skip_base (set_shard sl i sh) = skip_base sl"
  by (simp_all add: set_shard_def skip_home_def fun_eq_iff skip_base_def)

lemma shard_lock [simp]:
  "shard_ok m hp (sh\<lparr>sh_lock := l\<rparr>) ps = shard_ok m hp sh ps"
  "shard_ok m hp (sh\<lparr>sh_lock := l, sh_seed := s\<rparr>) ps = shard_ok m hp (sh\<lparr>sh_seed := s\<rparr>) ps"
  by (simp_all add: shard_ok_def head_ok_def)

text \<open>
  A step of shard \<open>i\<close>: the new nodes come from free memory, so no other shard has them, and the
  nodes of the other shards are unchanged.
\<close>

definition touch :: "mem \<Rightarrow> nkit_skip \<Rightarrow> skip_heap \<Rightarrow> ptr list list \<Rightarrow> os \<Rightarrow> nat \<Rightarrow> skip_heap \<Rightarrow> os \<Rightarrow> nkit_skip_shard \<Rightarrow>
    ptr list \<Rightarrow> bool" where
  "touch m sl hp pss w i hp' w' sh' ps' \<longleftrightarrow> skip_ok m sl hp pss \<and> i < length pss \<and>
     (\<exists>l. shard_step m hp w ((shards_of sl ! i)\<lparr>sh_lock := l\<rparr>) (pss ! i) hp' w' sh' ps') \<and>
     (\<forall>p \<in> set ps'. skip_home sl (pk m hp' p) = i)"

lemma touchD:
  assumes "touch m sl hp pss w i hp' w' sh' ps'"
  shows "skip_ok m sl hp pss" "i < length pss" "i < length (shards_of sl)" "\<forall>p \<in> set ps'. skip_home sl (pk m hp' p) = i"
    "shard_ok m hp' sh' ps'" "sh_head sh' = sh_head (shards_of sl ! i)"
    "p \<notin> set (sh_head (shards_of sl ! i) # pss ! i) \<Longrightarrow> p \<notin> set ps' \<Longrightarrow> hp' p = hp p"
    "p \<in> set ps' \<Longrightarrow> p \<notin> set (pss ! i) \<Longrightarrow> hp p = None"
    "node_owned hp' (sh_head (shards_of sl ! i)) = node_owned hp (sh_head (shards_of sl ! i))"
    "os_live w' + (\<Sum>p\<leftarrow>pss ! i. node_owned hp p) = os_live w + (\<Sum>p\<leftarrow>ps'. node_owned hp' p)"
  using assms skip_okD(1,2) [of m sl hp pss] by (auto simp: touch_def shard_step_def shard_same_def)

lemma other_nodes:
  assumes t: "touch m sl hp pss w i hp' w' sh' ps'" and j: "j < length pss" "j \<noteq> i" and p: "p \<in> shard_set sl pss j"
  shows "p \<notin> set (sh_head (shards_of sl ! i) # pss ! i)" "p \<notin> set ps'" "hp' p = hp p"
proof -
  note T = touchD [OF t]
  show 1: "p \<notin> set (sh_head (shards_of sl ! i) # pss ! i)" using skip_okD(7) [OF T(1) j(1) T(2) j(2)] p by blast
  have "hp p \<noteq> None" using shard_nodes [OF skip_okD(4) [OF T(1) j(1)] p] .
  then show 2: "p \<notin> set ps'" using 1 T(8) by auto
  show "hp' p = hp p" using T(7) [OF 1 2] .
qed

lemma other_shard:
  assumes t: "touch m sl hp pss w i hp' w' sh' ps'" and j: "j < length pss" "j \<noteq> i"
  shows "shard_ok m hp' (shards_of sl ! j) (pss ! j)" "shard_map m hp' (pss ! j) = shard_map m hp (pss ! j)"
    "p \<in> set (pss ! j) \<Longrightarrow> pk m hp' p = pk m hp p"
    "(\<Sum>p\<leftarrow>sh_head (shards_of sl ! j) # pss ! j. node_owned hp' p) = (\<Sum>p\<leftarrow>sh_head (shards_of sl ! j) # pss ! j. node_owned hp p)"
proof -
  note eq = other_nodes(3) [OF t j]
  show "shard_ok m hp' (shards_of sl ! j) (pss ! j)"
    using skip_okD(4) [OF touchD(1) [OF t] j(1)] by (rule shard_ok_shape) (simp only: eq simp_thms)
  have "map (\<lambda>p. (pk m hp' p, pv hp' p)) (pss ! j) = map (\<lambda>p. (pk m hp p, pv hp p)) (pss ! j)"
    by (intro map_cong refl) (simp add: pk_def pv_def eq)
  then show "shard_map m hp' (pss ! j) = shard_map m hp (pss ! j)" unfolding shard_map_def by (rule arg_cong)
  show "pk m hp' p = pk m hp p" if "p \<in> set (pss ! j)" using eq [of p] that by (simp add: pk_def)
  show "(\<Sum>p\<leftarrow>sh_head (shards_of sl ! j) # pss ! j. node_owned hp' p) = (\<Sum>p\<leftarrow>sh_head (shards_of sl ! j) # pss ! j. node_owned hp p)"
    by (intro owned_cong) (simp add: node_owned_def eq)
qed

lemma touch_skip_ok:
  assumes t: "touch m sl hp pss w i hp' w' sh' ps'"
  shows "skip_ok m (set_shard sl i (sh'\<lparr>sh_lock := None\<rparr>)) hp' (pss[i := ps'])"
proof -
  let ?sl = "set_shard sl i (sh'\<lparr>sh_lock := None\<rparr>)" and ?pss = "pss[i := ps']"
  note T = touchD [OF t]
  note D = skip_okD [OF T(1)]
  have 1: "shard_ok m hp' (shards_of ?sl ! j) (?pss ! j) \<and> sh_lock (shards_of ?sl ! j) = None \<and>
      (\<forall>p \<in> set (?pss ! j). skip_home ?sl (pk m hp' p) = j)" if "j < length pss" for j
    using other_shard(1,3) [OF t that] D(5,6) [OF that] T(2-5) by (cases "j = i") auto
  have "shard_set ?sl ?pss j \<inter> shard_set ?sl ?pss i = {}" if "j < length pss" "j \<noteq> i" for j
    using other_nodes(1,2) [OF t that] T(2,3,6) that by auto
  moreover have "shard_set ?sl ?pss j \<inter> shard_set ?sl ?pss k = {}" if "j < length pss" "k < length pss" "j \<noteq> k" "j \<noteq> i" "k \<noteq> i" for j k
    using D(7) [OF that(1-3)] that(4,5) by simp
  ultimately have "\<forall>j < length pss. \<forall>k < length pss. j \<noteq> k \<longrightarrow> shard_set ?sl ?pss j \<inter> shard_set ?sl ?pss k = {}"
    by (metis inf_commute)
  then show ?thesis unfolding skip_ok_def using D(1-3) 1 by simp
qed

lemma touch_owned:
  assumes t: "touch m sl hp pss w i hp' w' sh' ps'"
  shows "os_live w' + skip_owned sl hp pss = os_live w + skip_owned (set_shard sl i (sh'\<lparr>sh_lock := None\<rparr>)) hp' (pss[i := ps'])"
proof -
  let ?sl = "set_shard sl i (sh'\<lparr>sh_lock := None\<rparr>)" and ?pss = "pss[i := ps']"
  note T = touchD [OF t]
  have split: "(\<Sum>j<length pss. f j) = f i + (\<Sum>j\<in>{..<length pss} - {i}. f j)" for f :: "nat \<Rightarrow> os_res multiset"
    using T(2) by (intro sum.remove) simp_all
  have rest: "(\<Sum>j\<in>{..<length pss} - {i}. shard_owned ?sl hp' ?pss j) = (\<Sum>j\<in>{..<length pss} - {i}. shard_owned sl hp pss j)"
    using other_shard(4) [OF t] by (intro sum.cong refl) (simp add: shard_owned_def)
  have "os_live w' + shard_owned sl hp pss i = os_live w + shard_owned ?sl hp' ?pss i"
    using T(2,3,6,9,10) by (simp add: shard_owned_def ac_simps)
  then show ?thesis by (simp add: skip_owned_def split rest flip: union_assoc)
qed

lemma touch_map:
  assumes t: "touch m sl hp pss w i hp' w' sh' ps'" and k: "skip_home sl k = i"
    and M: "shard_map m hp' ps' = (shard_map m hp (pss ! i))(k := x)"
  shows "skip_map m (set_shard sl i (sh'\<lparr>sh_lock := None\<rparr>)) hp' = (skip_map m sl hp)(k := x)"
proof (rule ext)
  fix k'
  note T = touchD [OF t]
  have "shard_map m hp' (pss[i := ps'] ! skip_home sl k') k' = ((\<lambda>k. shard_map m hp (pss ! skip_home sl k) k)(k := x)) k'"
    using other_shard(2) [OF t skip_home_less_ok [OF T(1)]] M k T(2) by (cases "skip_home sl k' = i") auto
  then show "skip_map m (set_shard sl i (sh'\<lparr>sh_lock := None\<rparr>)) hp' k' = ((skip_map m sl hp)(k := x)) k'"
    using skip_map_home [OF touch_skip_ok [OF t]] skip_map_home [OF T(1)] by simp
qed
subsection \<open>The operations\<close>

lemma shard_lock_id: "sh_lock sh = None \<Longrightarrow> sh\<lparr>sh_lock := None\<rparr> = sh" for sh :: nkit_skip_shard
  by simp

lemma set_shard_id: "set_shard sl i (shards_of sl ! i) = sl"
  by (simp add: set_shard_def)

lemma mcs_solo [simp]: "mcs_solo_lock None node = Some (Some node)" "mcs_solo_unlock (Some node) node = Some None"
  by (simp_all add: mcs_solo_lock_def mcs_solo_unlock_def)

text \<open>What the platform promises for the next allocation: memory that is not in use.\<close>

definition skip_env :: "skip_heap \<Rightarrow> os \<Rightarrow> bool" where
  "skip_env hp w \<longleftrightarrow> (\<forall>sz nd. let p = os_answer w (os_tick w) (Numa_alloc_onnode sz nd) in p = NULL \<or> hp p = None)"

lemma skip_put_ok:
  assumes ok: "skip_ok m sl hp pss" and env: "skip_env hp w" and key: "key \<noteq> NULL" "key_len \<noteq> 0"
  shows "\<exists>ret sl' hp' w' pss'. nkit_skip_put rnd m node (Some sl) hp key key_len v w = Some (ret, Some sl', hp', w') \<and>
    skip_ok m sl' hp' pss' \<and> skip_base sl' = skip_base sl \<and> os_fault w' = os_fault w \<and> os_answer w' = os_answer w \<and>
    os_live w' + skip_owned sl hp pss = os_live w + skip_owned sl' hp' pss' \<and>
    map_spec (read_bytes m) (Op_put key key_len v) (skip_map m sl hp) (Ret ret) (skip_map m sl' hp')"
proof -
  let ?k = "read_bytes m key key_len"
  define i where "i = skip_home sl ?k"
  note D = skip_okD [OF ok]
  have i: "i < length pss" using skip_home_less_ok [OF ok] by (simp add: i_def)
  let ?sh = "(shards_of sl ! i)\<lparr>sh_lock := Some node\<rparr>"
  have "\<And>sz. let p = os_answer w (os_tick w) (Numa_alloc_onnode sz (sh_node_id ?sh)) in p = NULL \<or> hp p = None"
    using env by (simp add: skip_env_def)
  moreover have "shard_ok m hp ?sh (pss ! i)" using D(4) [OF i] by simp
  ultimately obtain ret sh' hp' w' ps' where
    put: "skip_put_shard rnd m key key_len v ?sh hp w = Some (ret, sh', hp', w')"
    and step: "shard_step m hp w ?sh (pss ! i) hp' w' sh' ps'" and ans: "os_answer w' = os_answer w"
    and keys: "\<forall>p \<in> set ps'. p \<in> set (pss ! i) \<or> pk m hp' p = ?k" "\<forall>p \<in> set (pss ! i). pk m hp' p = pk m hp p"
    and M: "(ret = 0 \<and> shard_map m hp' ps' = (shard_map m hp (pss ! i))(?k \<mapsto> v)) \<or>
      (ret = - 1 \<and> shard_map m hp' ps' = shard_map m hp (pss ! i))"
    using skip_put_shard_ok [of m hp ?sh "pss ! i" w rnd key key_len v] by blast
  have t: "touch m sl hp pss w i hp' w' sh' ps'"
    using ok i step keys D(6) [OF i] by (auto simp: touch_def i_def intro!: exI [of _ "Some node"])
  define sl' where "sl' = set_shard sl i (sh'\<lparr>sh_lock := None\<rparr>)"
  have "sh_lock sh' = Some node" "os_fault w' = os_fault w" using step by (simp_all add: shard_step_def shard_same_def)
  then have run: "nkit_skip_put rnd m node (Some sl) hp key key_len v w = Some (ret, Some sl', hp', w')"
    using key put D(5) [OF i] by (simp add: nkit_skip_put_def skip_shard_idx_home [OF ok] i_def sl'_def)
  have "map_spec (read_bytes m) (Op_put key key_len v) (skip_map m sl hp) (Ret ret) (skip_map m sl' hp')"
    using M
  proof (elim disjE conjE)
    assume "ret = 0" "shard_map m hp' ps' = (shard_map m hp (pss ! i))(?k \<mapsto> v)"
    then show ?thesis using touch_map [OF t, of ?k "Some v"] map_spec.spec_put [of "read_bytes m"] by (simp add: i_def sl'_def)
  next
    assume "ret = - 1" "shard_map m hp' ps' = shard_map m hp (pss ! i)"
    then show ?thesis
      using touch_map [OF t, of ?k "shard_map m hp (pss ! i) ?k"] map_spec.spec_put_oom [of "read_bytes m"] skip_map_home [OF ok, of ?k]
      by (simp add: i_def sl'_def fun_upd_idem)
  qed
  then show ?thesis
    using run touch_skip_ok [OF t] touch_owned [OF t] ans \<open>os_fault w' = os_fault w\<close> by (auto simp: sl'_def)
qed

lemma skip_get_ok:
  assumes ok: "skip_ok m sl hp pss" and key: "key \<noteq> NULL" "key_len \<noteq> 0"
  shows "nkit_skip_get m node (Some sl) hp key key_len =
    Some (case skip_map m sl hp (read_bytes m key key_len) of None \<Rightarrow> NULL | Some v \<Rightarrow> v, Some sl)"
proof -
  let ?k = "read_bytes m key key_len"
  define i where "i = skip_home sl ?k"
  have i: "i < length pss" using skip_home_less_ok [OF ok] by (simp add: i_def)
  note sok = skip_okD(4) [OF ok i] and lock = skip_okD(5) [OF ok i]
  obtain ps1 ps2 where sp: "split_at m hp ?k (pss ! i) ps1 ps2" using split_ex [OF shard_okD(7) [OF sok]] by blast
  note S = shard_search [OF sok sp]
  have nodes: "hp x \<noteq> None" if "x \<in> set ps2" for x
    using shard_nodes [OF sok, of x] sp that by (simp add: split_at_def)
  have "(case (case ps2 of [] \<Rightarrow> None | x # _ \<Rightarrow> if pk m hp x = ?k then hp x else None) of None \<Rightarrow> NULL | Some n \<Rightarrow> sn_value n) =
      (case skip_map m sl hp ?k of None \<Rightarrow> NULL | Some v \<Rightarrow> v)"
    using split_map [OF sp] skip_map_home [OF ok, of ?k] nodes [of "hd ps2"]
    by (cases ps2) (auto simp: i_def pv_def split: option.split)
  then show ?thesis
    using key S lock by (simp add: nkit_skip_get_def skip_shard_idx_home [OF ok] i_def [symmetric] shard_lock_id set_shard_id)
qed

lemma shard_in_owned:
  assumes "i < length pss"
  shows "(\<Sum>p\<leftarrow>pss ! i. node_owned hp p) \<subseteq># skip_owned sl hp pss"
proof -
  have "skip_owned sl hp pss = shard_owned sl hp pss i + (\<Sum>j\<in>{..<length pss} - {i}. shard_owned sl hp pss j)"
    unfolding skip_owned_def using assms by (intro sum.remove) simp_all
  then show ?thesis by (simp add: shard_owned_def subset_mset.add_increasing2 subset_mset.add_increasing)
qed

lemma skip_remove_ok:
  assumes ok: "skip_ok m sl hp pss" and live: "skip_owned sl hp pss \<subseteq># os_live w" and key: "key \<noteq> NULL" "key_len \<noteq> 0"
  shows "\<exists>sl' hp' w' pss'. nkit_skip_remove m node (Some sl) hp key key_len w =
      Some (if skip_map m sl hp (read_bytes m key key_len) = None then - 1 else 0, Some sl', hp', w') \<and>
    skip_ok m sl' hp' pss' \<and> skip_base sl' = skip_base sl \<and> os_fault w' = os_fault w \<and> os_answer w' = os_answer w \<and>
    os_live w' + skip_owned sl hp pss = os_live w + skip_owned sl' hp' pss' \<and>
    skip_map m sl' hp' = (skip_map m sl hp)(read_bytes m key key_len := None)"
proof -
  let ?k = "read_bytes m key key_len"
  define i where "i = skip_home sl ?k"
  note D = skip_okD [OF ok]
  have i: "i < length pss" using skip_home_less_ok [OF ok] by (simp add: i_def)
  let ?sh = "(shards_of sl ! i)\<lparr>sh_lock := Some node\<rparr>"
  have "(\<Sum>p\<leftarrow>pss ! i. node_owned hp p) \<subseteq># os_live w" using shard_in_owned [OF i] live by (rule subset_mset.order_trans)
  moreover have "shard_ok m hp ?sh (pss ! i)" using D(4) [OF i] by simp
  ultimately obtain sh' hp' w' ps' where
    rm: "skip_remove_shard m key key_len ?sh hp w = Some (if shard_map m hp (pss ! i) ?k = None then - 1 else 0, sh', hp', w')"
    and step: "shard_step m hp w ?sh (pss ! i) hp' w' sh' ps'" and ans: "os_answer w' = os_answer w"
    and keys: "set ps' \<subseteq> set (pss ! i)" "\<forall>p \<in> set ps'. pk m hp' p = pk m hp p"
    and M: "shard_map m hp' ps' = (shard_map m hp (pss ! i))(?k := None)"
    using skip_remove_shard_ok [of m hp ?sh "pss ! i" w key key_len] by blast
  have t: "touch m sl hp pss w i hp' w' sh' ps'"
    using ok i step keys D(6) [OF i] by (auto simp: touch_def intro!: exI [of _ "Some node"])
  define sl' where "sl' = set_shard sl i (sh'\<lparr>sh_lock := None\<rparr>)"
  have "sh_lock sh' = Some node" and f: "os_fault w' = os_fault w" using step by (simp_all add: shard_step_def shard_same_def)
  then have "nkit_skip_remove m node (Some sl) hp key key_len w =
      Some (if skip_map m sl hp ?k = None then - 1 else 0, Some sl', hp', w')"
    using key rm D(5) [OF i] skip_map_home [OF ok, of ?k]
    by (simp add: nkit_skip_remove_def skip_shard_idx_home [OF ok] i_def sl'_def)
  moreover have "skip_map m sl' hp' = (skip_map m sl hp)(?k := None)"
    using touch_map [OF t _ M] by (simp add: i_def sl'_def)
  ultimately show ?thesis
    using touch_skip_ok [OF t] touch_owned [OF t] ans f by (auto simp: sl'_def)
qed

subsection \<open>The list implements the map contract\<close>

text \<open>
  The state of a client is the list and the memory of the nodes. In a good state the list and its
  nodes are live, beside the resources \<open>R\<close> of the rest of the program.
\<close>

type_synonym skip_state = "nkit_skip option \<times> skip_heap"

definition skip_good :: "mem \<Rightarrow> os_res multiset \<Rightarrow> skip_state \<Rightarrow> os \<Rightarrow> bool" where
  "skip_good m R s w \<longleftrightarrow> (case s of (None, hp) \<Rightarrow> False | (Some sl, hp) \<Rightarrow>
     \<exists>pss. skip_ok m sl hp pss \<and> os_live w = R + skip_base sl + skip_owned sl hp pss)"

definition skip_abs :: "mem \<Rightarrow> skip_state \<Rightarrow> u8 list \<rightharpoonup> ptr" where
  "skip_abs m s = (case s of (None, hp) \<Rightarrow> Map.empty | (Some sl, hp) \<Rightarrow> skip_map m sl hp)"

definition skip_fresh :: "skip_state \<Rightarrow> os \<Rightarrow> bool" where
  "skip_fresh s w \<longleftrightarrow> skip_env (snd s) w"

definition skip_put_op :: "rand_r \<Rightarrow> mem \<Rightarrow> ptr \<Rightarrow> ptr \<Rightarrow> u64 \<Rightarrow> ptr \<Rightarrow> skip_state \<Rightarrow> os \<Rightarrow> (int \<times> skip_state \<times> os) option" where
  "skip_put_op rnd m node p n v s w =
    map_option (\<lambda>(r, h, hp, w'). (r, (h, hp), w')) (nkit_skip_put rnd m node (fst s) (snd s) p n v w)"

definition skip_get_op :: "mem \<Rightarrow> ptr \<Rightarrow> ptr \<Rightarrow> u64 \<Rightarrow> skip_state \<Rightarrow> (ptr \<times> skip_state) option" where
  "skip_get_op m node p n s = map_option (\<lambda>(v, h). (v, (h, snd s))) (nkit_skip_get m node (fst s) (snd s) p n)"

definition skip_remove_op :: "mem \<Rightarrow> ptr \<Rightarrow> ptr \<Rightarrow> u64 \<Rightarrow> skip_state \<Rightarrow> os \<Rightarrow> (int \<times> skip_state \<times> os) option" where
  "skip_remove_op m node p n s w =
    map_option (\<lambda>(r, h, hp, w'). (r, (h, hp), w')) (nkit_skip_remove m node (fst s) (snd s) p n w)"

interpretation smap: byte_map skip_fresh "skip_good m R" "skip_abs m" "read_bytes m" "\<lambda>_. N"
  "skip_put_op rnd m node" "skip_get_op m node" "skip_remove_op m node" for m R N rnd node
proof unfold_locales
  fix s w p v and n :: u64
  assume good: "skip_good m R s w" and key: "p \<noteq> NULL" "n \<noteq> 0"
  then obtain sl hp pss where s: "s = (Some sl, hp)" and ok: "skip_ok m sl hp pss"
    and live: "os_live w = R + skip_base sl + skip_owned sl hp pss"
    by (auto simp: skip_good_def split: prod.splits option.splits)
  show "\<exists>r s' w'. skip_put_op rnd m node p n v s w = Some (r, s', w') \<and> skip_good m R s' w' \<and> N \<le> Suc N \<and>
      os_fault w' = os_fault w \<and> map_spec (read_bytes m) (Op_put p n v) (skip_abs m s) (Ret r) (skip_abs m s')"
    if env: "skip_fresh s w"
  proof -
    have "skip_env hp w" using env s by (simp add: skip_fresh_def)
    from skip_put_ok [OF ok this key, of rnd node v] obtain ret sl' hp' w' pss' where
      "nkit_skip_put rnd m node (Some sl) hp p n v w = Some (ret, Some sl', hp', w')" "skip_ok m sl' hp' pss'"
      "skip_base sl' = skip_base sl" "os_fault w' = os_fault w"
      "os_live w' + skip_owned sl hp pss = os_live w + skip_owned sl' hp' pss'"
      "map_spec (read_bytes m) (Op_put p n v) (skip_map m sl hp) (Ret ret) (skip_map m sl' hp')" by blast
    then show ?thesis using live by (auto simp: s skip_put_op_def skip_good_def skip_abs_def)
  qed
  show "skip_get_op m node p n s = Some (case skip_abs m s (read_bytes m p n) of None \<Rightarrow> NULL | Some v \<Rightarrow> v, s)"
    using skip_get_ok [OF ok key, of node] by (simp add: s skip_get_op_def skip_abs_def)
  show "\<exists>s' w'. skip_remove_op m node p n s w = Some (if skip_abs m s (read_bytes m p n) = None then - 1 else 0, s', w') \<and>
      skip_good m R s' w' \<and> N \<le> N \<and> os_fault w' = os_fault w \<and> skip_abs m s' = (skip_abs m s)(read_bytes m p n := None)"
  proof -
    have "skip_owned sl hp pss \<subseteq># os_live w" using live by simp
    from skip_remove_ok [OF ok this key, of node] obtain sl' hp' w' pss' where
      "nkit_skip_remove m node (Some sl) hp p n w = Some (if skip_map m sl hp (read_bytes m p n) = None then - 1 else 0, Some sl', hp', w')"
      "skip_ok m sl' hp' pss'" "skip_base sl' = skip_base sl" "os_fault w' = os_fault w"
      "os_live w' + skip_owned sl hp pss = os_live w + skip_owned sl' hp' pss'"
      "skip_map m sl' hp' = (skip_map m sl hp)(read_bytes m p n := None)" by blast
    then show ?thesis using live by (auto simp: s skip_remove_op_def skip_good_def skip_abs_def)
  qed
qed

end
