(* ===== verification/NK_Skip_Life.thy ===== *)
theory NK_Skip_Life
  imports NK_Skip_Map
begin

section \<open>The skip list: creation, destruction and the counter\<close>

text \<open>
  \<^verbatim>\<open>nkit_skip_create\<close> makes an empty list or gives everything back; \<^verbatim>\<open>nkit_skip_destroy\<close> follows the
  chains of level 0 to their ends and releases every node once; \<^verbatim>\<open>nkit_skip_count\<close> adds up the
  counters of the shards.
\<close>

subsection \<open>Destruction\<close>

lemma node_owned_numa: "p \<noteq> NULL \<Longrightarrow> node_owned hp p = numa_owns p (skip_node_bytes (sn_level (the (hp p))))"
  by (simp add: node_owned_def numa_owns_def)

lemma skip_next_node: "skip_next hp p i = Some q \<Longrightarrow> hp p \<noteq> None"
  by (cases "hp p") (auto simp: skip_next_def)

lemma free_node_ok:
  assumes "p \<noteq> NULL" and "hp p \<noteq> None" and "os_live w = R + node_owned hp p"
  shows "\<exists>w'. free_node p hp w = Some (hp(p := None), w') \<and> ledger w' = (R, os_fault w)"
  using assms numa_free_owns [of w R p] by (auto simp: free_node_def node_owned_numa)

lemma owned_other: "p \<notin> set qs \<Longrightarrow> (\<Sum>q\<leftarrow>qs. node_owned (hp(p := x)) q) = (\<Sum>q\<leftarrow>qs. node_owned hp q)"
  by (rule owned_cong) (auto simp: node_owned_def)

lemma skip_free_chain_ok:
  assumes "chain hp 0 p ps" and "distinct (p # ps)" and "NULL \<notin> set (p # ps)"
    and "os_live w = R + (\<Sum>q\<leftarrow>p # ps. node_owned hp q)"
  shows "\<exists>hp' w'. skip_free_chain p hp w = Some (hp', w') \<and> ledger w' = (R, os_fault w) \<and> (\<forall>q. q \<notin> set (p # ps) \<longrightarrow> hp' q = hp q)"
  using assms
proof (induction ps arbitrary: p hp w)
  case Nil
  have "skip_next hp p 0 = Some NULL" using Nil.prems(1) by simp
  moreover from this have "hp p \<noteq> None" by (rule skip_next_node)
  ultimately show ?case
    using free_node_ok [of p hp w R] Nil.prems(3,4) by (auto simp: skip_free_chain.simps [of p] skip_free_chain.simps [of NULL])
next
  case (Cons q qs)
  have nx: "skip_next hp p 0 = Some q" "chain hp 0 q qs" using Cons.prems(1) by simp_all
  have pn: "p \<noteq> NULL" "hp p \<noteq> None" using Cons.prems(3) skip_next_node [OF nx(1)] by auto
  have "os_live w = (R + (\<Sum>r\<leftarrow>q # qs. node_owned hp r)) + node_owned hp p" using Cons.prems(4) by (simp add: ac_simps)
  from free_node_ok [OF pn this] obtain w1 where
    w1: "free_node p hp w = Some (hp(p := None), w1)" "ledger w1 = (R + (\<Sum>r\<leftarrow>q # qs. node_owned hp r), os_fault w)" by blast
  define hp1 where "hp1 = hp(p := None)"
  have out: "p \<notin> set (q # qs)" using Cons.prems(2) by simp
  have ch: "chain hp1 0 q qs"
    using nx(2) out by (subst chain_cong [of q qs hp1 0 hp]) (auto simp: skip_next_def hp1_def)
  have live1: "os_live w1 = R + (\<Sum>r\<leftarrow>q # qs. node_owned hp1 r)" using w1(2) owned_other [OF out] by (simp add: ledger_def hp1_def)
  have "distinct (q # qs)" "NULL \<notin> set (q # qs)" using Cons.prems(2,3) by simp_all
  from Cons.IH [OF ch this live1] obtain hp' w' where
    "skip_free_chain q hp1 w1 = Some (hp', w')" "ledger w' = (R, os_fault w1)" "\<forall>r. r \<notin> set (q # qs) \<longrightarrow> hp' r = hp1 r" by blast
  then show ?case using nx(1) w1 pn(1) by (auto simp: skip_free_chain.simps [of p] ledger_def hp1_def)
qed

lemma skip_free_shards_ok:
  assumes "\<And>i. i \<in> set js \<Longrightarrow> chain hp 0 (sh_head (shs ! i)) (pss ! i) \<and> distinct (sh_head (shs ! i) # pss ! i) \<and>
      NULL \<notin> set (sh_head (shs ! i) # pss ! i)"
    and "distinct js" and "\<And>i j. i \<in> set js \<Longrightarrow> j \<in> set js \<Longrightarrow> i \<noteq> j \<Longrightarrow>
      set (sh_head (shs ! i) # pss ! i) \<inter> set (sh_head (shs ! j) # pss ! j) = {}"
    and "os_live w = R + (\<Sum>i\<leftarrow>js. \<Sum>q\<leftarrow>sh_head (shs ! i) # pss ! i. node_owned hp q)"
  shows "\<exists>hp' w'. skip_free_shards (map ((!) shs) js) hp w = Some (hp', w') \<and> ledger w' = (R, os_fault w)"
  using assms
proof (induction js arbitrary: hp w)
  case Nil
  then show ?case by (simp add: ledger_def)
next
  case (Cons j js)
  let ?ns = "\<lambda>i. sh_head (shs ! i) # pss ! i"
  have live: "os_live w = (R + (\<Sum>i\<leftarrow>js. \<Sum>q\<leftarrow>?ns i. node_owned hp q)) + (\<Sum>q\<leftarrow>?ns j. node_owned hp q)"
    using Cons.prems(4) by (simp add: ac_simps)
  from Cons.prems(1) [of j] skip_free_chain_ok [OF _ _ _ live] obtain hp1 w1 where
    1: "skip_free_chain (sh_head (shs ! j)) hp w = Some (hp1, w1)"
      "ledger w1 = (R + (\<Sum>i\<leftarrow>js. \<Sum>q\<leftarrow>?ns i. node_owned hp q), os_fault w)" "\<And>q. q \<notin> set (?ns j) \<Longrightarrow> hp1 q = hp q" by auto
  have keep: "hp1 q = hp q" if "i \<in> set js" "q \<in> set (?ns i)" for i q
  proof (rule 1(3))
    have "i \<noteq> j" using Cons.prems(2) that(1) by auto
    then show "q \<notin> set (?ns j)" using Cons.prems(3) [of i j] that by auto
  qed
  have "chain hp1 0 (sh_head (shs ! i)) (pss ! i) = chain hp 0 (sh_head (shs ! i)) (pss ! i)" if "i \<in> set js" for i
    using keep [OF that] by (intro chain_cong) (simp add: skip_next_def)
  moreover have "(\<Sum>q\<leftarrow>?ns i. node_owned hp1 q) = (\<Sum>q\<leftarrow>?ns i. node_owned hp q)" if "i \<in> set js" for i
    using keep [OF that] by (intro owned_cong) (simp add: node_owned_def)
  then have "(\<Sum>i\<leftarrow>js. \<Sum>q\<leftarrow>?ns i. node_owned hp1 q) = (\<Sum>i\<leftarrow>js. \<Sum>q\<leftarrow>?ns i. node_owned hp q)"
    by (rule arg_cong [where f = sum_list, OF map_cong [OF refl]])
  then have "os_live w1 = R + (\<Sum>i\<leftarrow>js. \<Sum>q\<leftarrow>?ns i. node_owned hp1 q)" using 1(2) by (simp add: ledger_def)
  ultimately obtain hp' w' where "skip_free_shards (map ((!) shs) js) hp1 w1 = Some (hp', w')" "ledger w' = (R, os_fault w1)"
    using Cons.IH [of hp1 w1] Cons.prems(1-3) by auto
  then show ?case using 1 by (auto simp: ledger_def)
qed

lemma skip_destroy_ok:
  assumes "skip_good m R (Some sl, hp) w"
  shows "\<exists>hp' w'. nkit_skip_destroy (Some sl) hp w = Some (hp', w') \<and> ledger w' = (R, os_fault w)"
proof -
  obtain pss where ok: "skip_ok m sl hp pss" and live: "os_live w = R + skip_base sl + skip_owned sl hp pss"
    using assms by (auto simp: skip_good_def)
  note D = skip_okD [OF ok]
  have "skip_owned sl hp pss = (\<Sum>i\<leftarrow>[0..<length pss]. \<Sum>q\<leftarrow>sh_head (shards_of sl ! i) # pss ! i. node_owned hp q)"
    by (simp only: skip_owned_def shard_owned_def interv_sum_list_conv_sum_set_nat atLeast0LessThan set_upt)
  then have "\<exists>hp' w'. skip_free_shards (map ((!) (shards_of sl)) [0..<length pss]) hp w = Some (hp', w') \<and>
      ledger w' = (R + skip_base sl, os_fault w)"
    using live shard_chain [OF D(4)] shard_okD(4,5) [OF D(4)] D(7)
    by (intro skip_free_shards_ok [where pss = pss]) simp_all
  moreover have "take (unat (sk_num_shards sl)) (shards_of sl) = map ((!) (shards_of sl)) [0..<length pss]"
    using D(1,2) map_nth [of "shards_of sl"] by simp
  ultimately obtain hp' w' where
    1: "skip_free_shards (take (unat (sk_num_shards sl)) (shards_of sl)) hp w = Some (hp', w')"
    "ledger w' = (R + skip_base sl, os_fault w)" by auto
  let ?w1 = "os_free (fst (sk_shards sl)) w'"
  have "ledger ?w1 = (R + heap_owns (sk_addr sl), os_fault w)"
    using 1(2) free_owns [of w' "R + heap_owns (sk_addr sl)" "fst (sk_shards sl)"] by (simp add: ledger_def skip_base_def ac_simps)
  then have "ledger (os_free (sk_addr sl) ?w1) = (R, os_fault w)" using free_owns [of ?w1 R "sk_addr sl"] by (simp add: ledger_def)
  then show ?thesis using 1(1) by (simp add: nkit_skip_destroy_def)
qed
subsection \<open>Creation\<close>

text \<open>
  What the allocator promises while nothing is released: a block it hands out holds no node yet, and it
  hands out no block twice.
\<close>

definition numa_fresh :: "skip_heap \<Rightarrow> os \<Rightarrow> bool" where
  "numa_fresh hp w \<longleftrightarrow> (\<forall>t \<ge> os_tick w. \<forall>sz nd. let p = os_answer w t (Numa_alloc_onnode sz nd) in
     p = NULL \<or> (hp p = None \<and> (\<forall>t' > t. \<forall>sz' nd'. os_answer w t' (Numa_alloc_onnode sz' nd') \<noteq> p)))"

lemma numa_freshD:
  assumes "numa_fresh hp w" and "os_tick w \<le> t" and "os_answer w t (Numa_alloc_onnode sz nd) = p" and "p \<noteq> NULL"
  shows "hp p = None" and "t < t' \<Longrightarrow> os_answer w t' (Numa_alloc_onnode sz' nd') \<noteq> p"
  using assms unfolding numa_fresh_def Let_def by (metis, metis)

lemma numa_fresh_env: "numa_fresh hp w \<Longrightarrow> skip_env hp w"
  unfolding skip_env_def Let_def using numa_freshD(1) [of hp w "os_tick w"] by (metis order_refl)

lemma numa_fresh_later:
  assumes "numa_fresh hp w" and "os_answer w' = os_answer w" and "os_tick w \<le> os_tick w'"
  shows "numa_fresh hp w'"
  unfolding numa_fresh_def Let_def assms(2) using numa_freshD [OF assms(1)] assms(3) by (meson order_trans)

definition head_made :: "u32 \<Rightarrow> skip_heap \<Rightarrow> nkit_skip_shard \<Rightarrow> bool" where
  "head_made L hp sh \<longleftrightarrow> (\<exists>i. sh = new_shard L i (sh_head sh)) \<and> sh_head sh \<noteq> NULL \<and>
     hp (sh_head sh) = Some (fresh_node NULL 0 NULL L)"

lemma head_made_upd: "head_made L hp sh \<Longrightarrow> sh_head sh \<noteq> p \<Longrightarrow> head_made L (hp(p := x)) sh"
  by (simp add: head_made_def)

lemma heads_made_upd:
  assumes "\<forall>sh \<in> set shs. head_made L hp sh" and "p \<notin> set (map sh_head shs)"
  shows "\<forall>sh \<in> set shs. head_made L (hp(p := x)) sh"
proof
  fix sh assume "sh \<in> set shs"
  moreover from this have "sh_head sh \<noteq> p" using assms(2) by auto
  ultimately show "head_made L (hp(p := x)) sh" using assms(1) head_made_upd by blast
qed

lemma create_node_ok:
  assumes "numa_fresh hp w" and "create_node nd key key_len v L hp w = (p, hp', w')"
  shows "os_answer w' = os_answer w" "numa_fresh hp' w'" "os_fault w' = os_fault w"
    "p = NULL \<Longrightarrow> hp' = hp \<and> os_live w' = os_live w"
    "p \<noteq> NULL \<Longrightarrow> hp p = None \<and> hp' = hp(p \<mapsto> fresh_node key key_len v L) \<and> os_live w' = os_live w + node_owned hp' p"
proof -
  obtain q w1 where al: "os_numa_alloc (skip_node_bytes L) nd w = (q, w1)" by fastforce
  have q: "q = os_answer w (os_tick w) (Numa_alloc_onnode (skip_node_bytes L) nd)" "os_tick w1 = Suc (os_tick w)"
    using al os_alloc_simps [of "Numa_alloc_onnode (skip_node_bytes L) nd" "\<lambda>p. Numa p (skip_node_bytes L)" NULL w]
    by (auto simp: os_numa_alloc_def)
  have w': "w' = w1" "p = q" "hp' = (if q = NULL then hp else hp(q \<mapsto> fresh_node key key_len v L))"
    using assms(2) al by (auto simp: create_node_def fresh_node_def split: if_splits)
  show ans: "os_answer w' = os_answer w" using numa_alloc_owns(2) [OF al] w' by simp
  show "os_fault w' = os_fault w" using numa_alloc_owns(1) [OF al] w' by (simp add: ledger_def)
  have fresh: "q = NULL \<or> (hp q = None \<and> (\<forall>t' > os_tick w. \<forall>sz' nd'. os_answer w t' (Numa_alloc_onnode sz' nd') \<noteq> q))"
    using assms(1) q(1) by (simp add: numa_fresh_def Let_def)
  show "numa_fresh hp' w'"
  proof (cases "q = NULL")
    case True
    then show ?thesis using numa_fresh_later [OF assms(1) ans] w' q(2) by simp
  next
    case False
    have "numa_fresh hp w'" using numa_fresh_later [OF assms(1) ans] w' q(2) by simp
    have "os_answer w' t (Numa_alloc_onnode sz nd') \<noteq> q" if "os_tick w' \<le> t" for t sz nd'
      using False fresh ans w' q(2) that by (metis Suc_le_eq)
    then show ?thesis
      unfolding numa_fresh_def Let_def using numa_freshD [OF \<open>numa_fresh hp w'\<close>] w'(3) by (metis fun_upd_other)
  qed
  show "p = NULL \<Longrightarrow> hp' = hp \<and> os_live w' = os_live w"
    using numa_alloc_owns(1) [OF al] w' by (simp add: ledger_def numa_owns_def)
  show "p \<noteq> NULL \<Longrightarrow> hp p = None \<and> hp' = hp(p \<mapsto> fresh_node key key_len v L) \<and> os_live w' = os_live w + node_owned hp' p"
    using numa_alloc_owns(1) [OF al] w' fresh by (simp add: ledger_def numa_owns_def node_owned_def fresh_node_def)
qed

lemma skip_rollback_ok:
  assumes "\<forall>sh \<in> set shs. head_made L hp sh" and "distinct (map sh_head shs)"
    and "os_live w = R + (\<Sum>p\<leftarrow>map sh_head shs. node_owned hp p)"
  shows "\<exists>hp' w'. skip_rollback shs hp w = Some (hp', w') \<and> ledger w' = (R, os_fault w)"
  using assms
proof (induction shs arbitrary: hp w)
  case Nil
  then show ?case by (simp add: ledger_def)
next
  case (Cons sh shs)
  let ?p = "sh_head sh" and ?ps = "map sh_head shs"
  have p: "?p \<noteq> NULL" "hp ?p \<noteq> None" using Cons.prems(1) by (simp_all add: head_made_def)
  have "os_live w = (R + (\<Sum>p\<leftarrow>?ps. node_owned hp p)) + node_owned hp ?p" using Cons.prems(3) by (simp add: ac_simps)
  from free_node_ok [OF p this] obtain w1 where
    w1: "free_node ?p hp w = Some (hp(?p := None), w1)" "ledger w1 = (R + (\<Sum>p\<leftarrow>?ps. node_owned hp p), os_fault w)" by blast
  have out: "?p \<notin> set ?ps" using Cons.prems(2) by simp
  have "\<forall>sh' \<in> set shs. head_made L (hp(?p := None)) sh'"
    using Cons.prems(1) by (intro heads_made_upd out) simp
  moreover have "os_live w1 = R + (\<Sum>p\<leftarrow>?ps. node_owned (hp(?p := None)) p)"
    using w1(2) owned_other [OF out, of hp None] by (simp add: ledger_def)
  ultimately obtain hp' w' where "skip_rollback shs (hp(?p := None)) w1 = Some (hp', w')" "ledger w' = (R, os_fault w1)"
    using Cons.IH [of "hp(?p := None)" w1] Cons.prems(2) unfolding list.map distinct.simps by blast
  then show ?case using w1 by (auto simp: ledger_def)
qed

lemma skip_shards_loop_ok:
  assumes "numa_fresh hp w" and "\<forall>sh \<in> set shs. head_made L hp sh" and "distinct (map sh_head shs)"
    and "os_live w = R + (\<Sum>p\<leftarrow>map sh_head shs. node_owned hp p)"
  shows "(\<exists>shs' hp' w'. skip_shards_loop L js shs hp w = Some (Inl (shs', hp', w')) \<and> length shs' = length shs + length js \<and>
       numa_fresh hp' w' \<and> (\<forall>sh \<in> set shs'. head_made L hp' sh) \<and> distinct (map sh_head shs') \<and> os_fault w' = os_fault w \<and>
       os_live w' = R + (\<Sum>p\<leftarrow>map sh_head shs'. node_owned hp' p)) \<or>
     (\<exists>hp' w'. skip_shards_loop L js shs hp w = Some (Inr (hp', w')) \<and> ledger w' = (R, os_fault w))"
  using assms
proof (induction js arbitrary: shs hp w)
  case Nil
  then show ?case by simp
next
  case (Cons i js)
  obtain p hp1 w1 where cn: "create_node (int i) NULL 0 NULL L hp w = (p, hp1, w1)" by (metis prod_cases3)
  note C = create_node_ok [OF Cons.prems(1) cn]
  show ?case
  proof (cases "p = NULL")
    case True
    then have "hp1 = hp" "os_live w1 = os_live w" using C(4) by simp_all
    then show ?thesis
      using skip_rollback_ok [of shs L hp1 w1 R] Cons.prems(2-4) cn True C(3) by auto
  next
    case False
    note P = C(5) [OF False]
    let ?sh = "new_shard L i p" and ?shs = "shs @ [new_shard L i p]"
    have hd: "sh_head ?sh = p" by (simp add: new_shard_def)
    have out: "p \<notin> set (map sh_head shs)" using Cons.prems(2) P by (auto simp: head_made_def)
    have "head_made L hp1 ?sh" using P False hd by (auto simp: head_made_def)
    moreover have "\<forall>sh \<in> set shs. head_made L hp1 sh" using heads_made_upd [OF Cons.prems(2) out] P by blast
    ultimately have made: "\<forall>sh \<in> set ?shs. head_made L hp1 sh" by simp
    have dist: "distinct (map sh_head ?shs)" using Cons.prems(3) out hd by simp
    have live: "os_live w1 = R + (\<Sum>q\<leftarrow>map sh_head ?shs. node_owned hp1 q)"
      using P Cons.prems(4) owned_other [OF out, of hp "Some (fresh_node NULL 0 NULL L)"] hd by (simp add: ac_simps)
    have eq: "skip_shards_loop L (i # js) shs hp w = skip_shards_loop L js ?shs hp1 w1" using cn False by simp
    from Cons.IH [OF C(2) made dist live] show ?thesis unfolding eq C(3) by simp
  qed
qed

lemma shard_made:
  assumes "head_made L hp sh" and "0 < unat L" and "unat L < 2 ^ 31"
  shows "shard_ok m hp sh []" and "sh_lock sh = None"
proof -
  obtain i where i: "sh = new_shard L i (sh_head sh)" and h: "sh_head sh \<noteq> NULL" "hp (sh_head sh) = Some (fresh_node NULL 0 NULL L)"
    using assms(1) by (auto simp: head_made_def)
  have f: "sh_max_level sh = L" "sh_count sh = 0" "sh_lock sh = None"
    by (subst i, simp add: new_shard_def)+
  then show "sh_lock sh = None" by simp
  have "skip_next hp (sh_head sh) j = Some NULL" if "j < unat L" for j
    using h(2) that by (simp add: skip_next_def fresh_node_def)
  then show "shard_ok m hp sh []" using f h assms(2,3) by (simp add: shard_ok_def head_ok_def fresh_node_def)
qed

text \<open>What libnuma documents: the highest node number is not negative and an \<^verbatim>\<open>int\<close>.\<close>

definition max_node_ok :: "os \<Rightarrow> bool" where
  "max_node_ok w \<longleftrightarrow> (\<forall>t. 0 \<le> sint (os_answer w t Numa_max_node) \<and> sint (os_answer w t Numa_max_node) < 2 ^ 31 - 1)"

lemma skip_ok_made:
  fixes a b :: ptr
  assumes "\<forall>sh \<in> set shs. head_made L hp sh" and "distinct (map sh_head shs)" and L: "0 < unat L" "unat L < 2 ^ 31"
    and "length shs = unat n" and "0 < unat n"
  defines "sl \<equiv> \<lparr>sk_addr = a, sk_max_level = L, sk_num_shards = n, sk_shards = (b, shs)\<rparr>" and "pss \<equiv> replicate (length shs) []"
  shows "skip_ok m sl hp pss" and "skip_owned sl hp pss = (\<Sum>p\<leftarrow>map sh_head shs. node_owned hp p)"
    and "skip_map m sl hp = Map.empty"
proof -
  have sh: "shard_ok m hp (shs ! i) [] \<and> sh_lock (shs ! i) = None" if "i < length shs" for i
  proof -
    have "head_made L hp (shs ! i)" using assms(1) that by simp
    from shard_made [OF this L] show ?thesis by blast
  qed
  moreover have "sh_head (shs ! i) \<noteq> sh_head (shs ! j)" if "i < length shs" "j < length shs" "i \<noteq> j" for i j
    using assms(2) that nth_eq_iff_index_eq [of "map sh_head shs" i j] by simp
  ultimately show ok: "skip_ok m sl hp pss" using assms(5,6) by (simp add: skip_ok_def sl_def pss_def)
  have "(\<Sum>p\<leftarrow>map sh_head shs. node_owned hp p) = (\<Sum>i<length shs. node_owned hp (sh_head (shs ! i)))"
    by (simp add: sum_list_sum_nth atLeast0LessThan)
  then show "skip_owned sl hp pss = (\<Sum>p\<leftarrow>map sh_head shs. node_owned hp p)"
    by (simp add: skip_owned_def shard_owned_def sl_def pss_def)
  show "skip_map m sl hp = Map.empty"
  proof (rule ext)
    fix k
    have "skip_home sl k < length shs" using skip_home_less_ok [OF ok, of k] by (simp add: pss_def)
    then show "skip_map m sl hp k = None" using skip_map_home [OF ok, of k] by (simp add: pss_def shard_map_def)
  qed
qed
lemma skip_create_ok:
  assumes fr: "numa_fresh hp w" and mx: "max_node_ok w" and L: "0 < unat L" "unat L < 2 ^ 31"
  shows "\<exists>h hp' w'. nkit_skip_create L hp w = Some (h, hp', w') \<and> os_fault w' = os_fault w \<and>
    (case h of None \<Rightarrow> os_live w' = os_live w
     | Some sl \<Rightarrow> skip_good m (os_live w) (Some sl, hp') w' \<and> skip_map m sl hp' = Map.empty \<and> numa_fresh hp' w')"
proof -
  obtain av w1 where 1: "os_ask_int Numa_available w = (av, w1)" by fastforce
  obtain mn w2 where 2: "os_ask_int Numa_max_node w1 = (mn, w2)" by fastforce
  obtain sl w3 where 3: "os_malloc sizeof_skip w2 = (sl, w3)" by fastforce
  obtain sa w4 where 4: "os_calloc (word_of_int (mn + 1)) sizeof_skip_shard w3 = (sa, w4)" by fastforce
  have k1: "ledger w1 = ledger w" "os_answer w1 = os_answer w" "os_tick w1 = Suc (os_tick w)"
    using os_ask_int_keeps [OF 1] 1 os_ask_int_simps(2) [of Numa_available w] by (auto simp: os_simps)
  have k2: "ledger w2 = ledger w" "os_answer w2 = os_answer w" "os_tick w2 = Suc (os_tick w1)"
    using os_ask_int_keeps [OF 2] k1 2 os_ask_int_simps(2) [of Numa_max_node w1] by (auto simp: os_simps)
  have k3: "ledger w3 = (os_live w + heap_owns sl, os_fault w)" "os_answer w3 = os_answer w" "os_tick w3 = Suc (os_tick w2)"
    using malloc_owns [OF 3] k2 3 os_alloc_simps(5) [of "Malloc sizeof_skip" Heap NULL w2] by (auto simp: ledger_def os_malloc_def)
  have k4: "ledger w4 = (os_live w + heap_owns sl + heap_owns sa, os_fault w)" "os_answer w4 = os_answer w" "os_tick w4 = Suc (os_tick w3)"
    using calloc_owns [OF 4] k3 4 os_alloc_simps(5) [of "Calloc (word_of_int (mn + 1)) sizeof_skip_shard" Heap NULL w3]
    by (auto simp: ledger_def os_calloc_def)
  have f4: "numa_fresh hp w4" using numa_fresh_later [OF fr k4(2)] k1(3) k2(3) k3(3) k4(3) by simp
  have mn: "0 \<le> mn" "mn < 2 ^ 31 - 1"
    using mx 2 os_ask_int_simps(1) [of Numa_max_node w1] k1(2) by (auto simp: max_node_ok_def)
  have n: "unat (word_of_int (mn + 1) :: u32) = nat (mn + 1)"
  proof -
    obtain c where c: "mn + 1 = int c" "c < 2 ^ 32" using mn by (cases "mn + 1") auto
    then show ?thesis unfolding c(1) by (simp add: unat_of_nat)
  qed
  note pre = nkit_skip_create_def 1 2 3 4 4 [simplified] Let_def
  consider "av < 0" | "0 \<le> av" "sl = NULL" | "0 \<le> av" "sl \<noteq> NULL" "sa = NULL" | "0 \<le> av" "sl \<noteq> NULL" "sa \<noteq> NULL" by linarith
  then show ?thesis
  proof cases
    case 1
    then show ?thesis using k1 by (simp add: pre ledger_def)
  next
    case 2
    then show ?thesis using k3 by (simp add: pre ledger_def heap_owns_def)
  next
    case c3: 3
    then have "ledger (os_free sl w4) = (os_live w, os_fault w)" using free_owns [of w4 "os_live w" sl] k4 by (simp add: ledger_def heap_owns_def)
    then show ?thesis using c3 by (simp add: pre ledger_def)
  next
    case c4: 4
    let ?js = "[0..<nat (mn + 1)]"
    have live4: "os_live w4 = (os_live w + heap_owns sl + heap_owns sa) + (\<Sum>p\<leftarrow>map sh_head []. node_owned hp p)"
      using k4 by (simp add: ledger_def)
    have none: "\<forall>sh \<in> set []. head_made L hp sh" "distinct (map sh_head [])" by simp_all
    from skip_shards_loop_ok [OF f4 none live4, of ?js] show ?thesis
    proof (elim disjE exE conjE)
      fix shs' hp' w'
      assume made: "skip_shards_loop L ?js [] hp w4 = Some (Inl (shs', hp', w'))" "length shs' = length [] + length ?js"
        "numa_fresh hp' w'" "\<forall>sh \<in> set shs'. head_made L hp' sh" "distinct (map sh_head shs')" "os_fault w' = os_fault w4"
        "os_live w' = (os_live w + heap_owns sl + heap_owns sa) + (\<Sum>p\<leftarrow>map sh_head shs'. node_owned hp' p)"
      let ?sl = "\<lparr>sk_addr = sl, sk_max_level = L, sk_num_shards = word_of_int (mn + 1), sk_shards = (sa, shs')\<rparr>"
      have len: "length shs' = unat (word_of_int (mn + 1) :: u32)" "0 < unat (word_of_int (mn + 1) :: u32)"
        unfolding n using made(2) mn by simp_all
      note M = skip_ok_made(1,3) [OF made(4,5) L len, where m = m and a = sl and b = sa]
        skip_ok_made(2) [OF made(4,5) L len, where a = sl and b = sa]
      have "skip_good m (os_live w) (Some ?sl, hp') w'"
        unfolding skip_good_def prod.case option.case
        by (rule exI [of _ "replicate (length shs') []"]) (use M(1,3) made(7) in \<open>simp add: skip_base_def ac_simps\<close>)
      moreover have "nkit_skip_create L hp w = Some (Some ?sl, hp', w')" using made(1) c4 by (simp add: pre)
      ultimately show ?thesis using made(3,6) M(2) k4(1) by (auto simp: ledger_def)
    next
      fix hp' w'
      assume undone: "skip_shards_loop L ?js [] hp w4 = Some (Inr (hp', w'))"
        "ledger w' = (os_live w + heap_owns sl + heap_owns sa, os_fault w4)"
      let ?w5 = "os_free sa w'"
      have "ledger ?w5 = (os_live w + heap_owns sl, os_fault w)"
        using undone(2) free_owns [of w' "os_live w + heap_owns sl" sa] k4(1) by (simp add: ledger_def)
      then have "ledger (os_free sl ?w5) = (os_live w, os_fault w)" using free_owns [of ?w5 "os_live w" sl] by (simp add: ledger_def)
      then show ?thesis using undone(1) c4 by (simp add: pre ledger_def)
    qed
  qed
qed

subsection \<open>The counter\<close>

lemma fold_count: "fold (\<lambda>sh t. t + sh_count sh) shs a = a + (\<Sum>sh\<leftarrow>shs. sh_count sh)"
  by (induction shs arbitrary: a) (simp_all add: add.assoc)

lemma shard_dom:
  assumes "shard_ok m hp sh ps"
  shows "dom (shard_map m hp ps) = pk m hp ` set ps" and "card (dom (shard_map m hp ps)) = length ps"
proof -
  show d: "dom (shard_map m hp ps) = pk m hp ` set ps" by (simp add: shard_map_def dom_map_of_conv_image_fst image_image)
  have "distinct (map (pk m hp) ps)" using shard_okD(7) [OF assms]
  proof (induction ps)
    case (Cons p ps)
    then show ?case using key_lt_irrefl by auto
  qed simp
  from distinct_card [OF this] show "card (dom (shard_map m hp ps)) = length ps" unfolding d by simp
qed

lemma skip_count_ok:
  assumes ok: "skip_ok m sl hp pss"
  shows "nkit_skip_count (Some sl) = of_nat (card (dom (skip_map m sl hp)))"
proof -
  note D = skip_okD [OF ok]
  have "dom (skip_map m sl hp) = (\<Union>i<length pss. dom (shard_map m hp (pss ! i)))"
  proof (intro equalityI subsetI)
    fix k assume "k \<in> dom (skip_map m sl hp)"
    then show "k \<in> (\<Union>i<length pss. dom (shard_map m hp (pss ! i)))"
      using skip_map_home [OF ok, of k] skip_home_less_ok [OF ok, of k] by (auto simp: domIff intro!: bexI [of _ "skip_home sl k"])
  next
    fix k assume "k \<in> (\<Union>i<length pss. dom (shard_map m hp (pss ! i)))"
    then obtain i where i: "i < length pss" "k \<in> dom (shard_map m hp (pss ! i))" by auto
    then have "skip_home sl k = i" using shard_dom(1) [OF D(4) [OF i(1)]] D(6) [OF i(1)] by auto
    then show "k \<in> dom (skip_map m sl hp)" using skip_map_home [OF ok, of k] i(2) by (simp add: domIff)
  qed
  moreover have "card (\<Union>i<length pss. dom (shard_map m hp (pss ! i))) = (\<Sum>i<length pss. length (pss ! i))"
  proof -
    have "card (\<Union>i<length pss. dom (shard_map m hp (pss ! i))) = (\<Sum>i<length pss. card (dom (shard_map m hp (pss ! i))))"
    proof (rule card_UN_disjoint)
      show "\<forall>i\<in>{..<length pss}. finite (dom (shard_map m hp (pss ! i)))" by (simp add: shard_map_def finite_dom_map_of)
      have "skip_home sl k = i" if "i < length pss" "k \<in> dom (shard_map m hp (pss ! i))" for i k
        using that shard_dom(1) [OF D(4)] D(6) by auto
      then show "\<forall>i\<in>{..<length pss}. \<forall>j\<in>{..<length pss}. i \<noteq> j \<longrightarrow>
          dom (shard_map m hp (pss ! i)) \<inter> dom (shard_map m hp (pss ! j)) = {}" by blast
    qed simp
    then show ?thesis using shard_dom(2) [OF D(4)] by simp
  qed
  moreover have "(\<Sum>sh\<leftarrow>shards_of sl. sh_count sh) = of_nat (\<Sum>i<length pss. length (pss ! i))"
    using D(1,2) shard_okD(9) [OF D(4)] by (simp add: sum_list_sum_nth atLeast0LessThan)
  ultimately show ?thesis using D(1) by (simp add: nkit_skip_count_def fold_count)
qed

end
