(* ===== verification/NK_Skip_Thms.thy ===== *)
theory NK_Skip_Thms
  imports NK_Skip_Life
begin

section \<open>The skip list: properties\<close>

text \<open>The theorems of the skip list, with a concrete platform on which their hypotheses hold.\<close>

subsection \<open>A concrete platform\<close>

text \<open>
  Two nodes, and an allocator that hands out a new page with every call, as long as \<open>2 ^ 40\<close> calls
  last.
\<close>

definition skip_os :: os where
  "skip_os = demo_os\<lparr>os_answer := \<lambda>t c. case c of
       Numa_alloc_onnode sz nd \<Rightarrow> if t < 2 ^ 40 then of_nat (4096 * (t + 16)) else NULL
     | Numa_max_node \<Rightarrow> 1
     | _ \<Rightarrow> demo_answer c\<rparr>"

lemma skip_os_simps:
  "os_answer skip_os t (Numa_alloc_onnode sz nd) = (if t < 2 ^ 40 then of_nat (4096 * (t + 16)) else NULL)"
  "os_answer skip_os t Numa_max_node = 1" "os_answer skip_os t Numa_available = 0"
  "os_answer skip_os t (Malloc n) = 4096" "os_answer skip_os t (Calloc n k) = 8192"
  "os_tick skip_os = 0" "os_live skip_os = {#}" "os_fault skip_os = False"
  by (simp_all add: skip_os_def demo_os_def)

definition page_at :: "nat \<Rightarrow> ptr" where
  "page_at t = of_nat (4096 * (t + 16))"

lemma page_at_inj:
  assumes "t < t'" and "t' < 2 ^ 40"
  shows "page_at t \<noteq> page_at t'"
proof -
  have "unat (page_at u) = 4096 * (u + 16)" if "u < 2 ^ 40" for u
    unfolding page_at_def using that by (intro unat_of_nat_small) simp
  from this [of t] this [of t'] have "unat (page_at t) \<noteq> unat (page_at t')" using assms by simp
  then show ?thesis by auto
qed

lemma skip_os_numa: "os_answer skip_os t (Numa_alloc_onnode sz nd) = (if t < 2 ^ 40 then page_at t else NULL)"
  by (simp add: skip_os_simps(1) page_at_def)

lemma skip_os_fresh: "numa_fresh Map.empty skip_os"
  unfolding numa_fresh_def Let_def
proof (intro allI impI disj_imp [THEN iffD2] conjI)
  fix t t' sz nd sz' nd'
  assume p: "os_answer skip_os t (Numa_alloc_onnode sz nd) \<noteq> NULL" and less: "t < t'"
  then have t: "t < 2 ^ 40" "os_answer skip_os t (Numa_alloc_onnode sz nd) = page_at t"
    by (simp_all add: skip_os_numa split: if_splits)
  show "os_answer skip_os t' (Numa_alloc_onnode sz' nd') \<noteq> os_answer skip_os t (Numa_alloc_onnode sz nd)"
    using page_at_inj [OF less] p t(2) skip_os_numa [of t'] by (cases "t' < 2 ^ 40") auto
qed simp

lemma skip_os_nodes: "max_node_ok skip_os"
  by (simp add: max_node_ok_def skip_os_simps)

lemma skip_os_created: "\<exists>sl hp w. nkit_skip_create L Map.empty skip_os = Some (Some sl, hp, w)"
proof -
  have "[0..<nat 2] = [0, 1]" by (simp add: upt_rec)
  then show ?thesis
    by (simp add: nkit_skip_create_def os_prim_defs os_alloc_def os_ask_def os_ask_int_def skip_os_simps create_node_def
        sizeof_skip_def sizeof_skip_shard_def skip_node_bytes_def)
qed
subsection \<open>Properties\<close>


definition skip_mem :: mem where
  "skip_mem p = ucast p"

definition demo_ops :: "map_op list" where
  "demo_ops = [Op_put 16 1 100, Op_get 16 1, Op_remove 16 1, Op_get 16 1]"

lemma demo_ops_env:
  assumes "numa_fresh hp w"
  shows "\<forall>op \<in> set demo_ops. op_key_ok op" "run_env skip_fresh step demo_ops (Some sl, hp) w"
  using numa_fresh_env [OF assms]
  by (auto simp: demo_ops_def op_key_ok_def skip_fresh_def split: option.split)






lemma level_0_loop:
  assumes "skip_shards_loop 0 js shs hp w = Some (Inl (shs', hp', w'))"
    and "\<forall>sh \<in> set shs. sh_max_level sh = 0 \<and> (\<exists>n. hp (sh_head sh) = Some n \<and> sn_next n = [])"
  shows "\<forall>sh \<in> set shs'. sh_max_level sh = 0 \<and> (\<exists>n. hp' (sh_head sh) = Some n \<and> sn_next n = [])"
  using assms
proof (induction js arbitrary: shs hp w)
  case (Cons i js)
  obtain p hp1 w1 where cn: "create_node (int i) NULL 0 NULL 0 hp w = (p, hp1, w1)" by (metis prod_cases3)
  show ?case
  proof (cases "p = NULL")
    case False
    then have "hp1 = hp(p \<mapsto> fresh_node NULL 0 NULL 0)"
      using cn by (auto simp: create_node_def fresh_node_def split: prod.splits if_splits)
    then have "\<forall>sh \<in> set (shs @ [new_shard 0 i p]). sh_max_level sh = 0 \<and> (\<exists>n. hp1 (sh_head sh) = Some n \<and> sn_next n = [])"
      using Cons.prems(2) by (auto simp: new_shard_def fresh_node_def)
    then show ?thesis using Cons.IH [of "shs @ [new_shard 0 i p]" hp1 w1] Cons.prems(1) cn False by simp
  qed (use Cons.prems(1) cn in \<open>auto split: option.splits\<close>)
qed simp

lemma level_0_shard:
  assumes "sh_max_level sh = 0" and "hp (sh_head sh) = Some n" and "sn_next n = []"
  shows "skip_levels sh = 0" and "skip_next hp (sh_head sh) 0 = None"
  using assms by (simp_all add: skip_levels_def skip_next_def)

text \<open>
  A skip list of height 0 cannot be used: \<^verbatim>\<open>nkit_skip_create(0)\<close> succeeds, its head nodes have no
  forward pointer at all, and every operation with a valid key reads \<^verbatim>\<open>next[0]\<close> past the end of the
  head node.
\<close>

theorem skip_level_zero:
  assumes "nkit_skip_create 0 hp w = Some (Some sl, hp', w')" and "key \<noteq> NULL" and "key_len \<noteq> 0"
  shows "nkit_skip_put rnd m node (Some sl) hp' key key_len v w'' = None \<and>
    nkit_skip_get m node (Some sl) hp' key key_len = None \<and> nkit_skip_remove m node (Some sl) hp' key key_len w'' = None"
proof -
  obtain w4 js where "skip_shards_loop 0 js [] hp w4 = Some (Inl (snd (sk_shards sl), hp', w'))"
    using assms(1) by (auto simp: nkit_skip_create_def Let_def split: prod.splits if_splits bind_splits sum.splits)
  from level_0_loop [OF this] have
    all: "\<forall>sh \<in> set (shards_of sl). sh_max_level sh = 0 \<and> (\<exists>n. hp' (sh_head sh) = Some n \<and> sn_next n = [])" by simp
  show ?thesis
  proof (cases "skip_shard_idx m sl key key_len")
    case None
    then show ?thesis using assms(2,3) by (simp add: nkit_skip_put_def nkit_skip_get_def nkit_skip_remove_def)
  next
    case (Some i)
    then have "i < length (shards_of sl)" by (auto simp: skip_shard_idx_def Let_def split: if_splits)
    then obtain n where n: "sh_max_level (shards_of sl ! i) = 0" "hp' (sh_head (shards_of sl ! i)) = Some n" "sn_next n = []"
      using all nth_mem by blast
    have lk: "skip_levels ((shards_of sl ! i)\<lparr>sh_lock := l\<rparr>) = 0" for l using n(1) by (simp add: skip_levels_def)
    show ?thesis using assms(2,3) Some lk level_0_shard [of _ hp', OF n]
      by (auto simp: nkit_skip_put_def nkit_skip_get_def nkit_skip_remove_def skip_put_shard_def skip_remove_shard_def
          Let_def split: bind_splits)
  qed
qed

theorem skip_level_zero_witness:
  "\<exists>sl hp w. nkit_skip_create 0 Map.empty skip_os = Some (Some sl, hp, w) \<and> nkit_skip_get skip_mem 8 (Some sl) hp 16 1 = None"
proof -
  from skip_os_created obtain sl hp w where c: "nkit_skip_create 0 Map.empty skip_os = Some (Some sl, hp, w)" by blast
  from skip_level_zero [OF c, of 16 1 "\<lambda>s. (0, s)" skip_mem 8 100 w] show ?thesis using c by auto
qed

end
