(* ===== verification/NK_Balancer.thy ===== *)
theory NK_Balancer
  imports NK_Context
begin

section \<open>The balancer (\<^verbatim>\<open>src/sched/balancer.c\<close>)\<close>

text \<open>
  A thread profiles itself: \<^verbatim>\<open>nkit_balancer_start\<close> opens two performance counters, and
  \<^verbatim>\<open>nkit_balancer_check\<close> reads them, closes them and compares the cache misses per thousand
  instructions with the threshold of the library context. The two thread-local descriptors are the
  record that the operations pass on; \<open>- 1\<close> stands for none. A \<^verbatim>\<open>read\<close> answers a number of bytes, with the
  value it stored; one that stores nothing leaves the 0 the variable was initialised with.
\<close>

datatype nkit_advice = NKIT_ADVISE_STAY | NKIT_ADVISE_MIGRATE | NKIT_ADVISE_ERROR

record balancer_tls =
  t_fd_miss :: int
  t_fd_instr :: int

definition balancer_idle :: balancer_tls where
  "balancer_idle = \<lparr>t_fd_miss = - 1, t_fd_instr = - 1\<rparr>"

definition open_counter :: "perf_counter \<Rightarrow> os \<Rightarrow> int \<times> os" where
  "open_counter config w = os_open config w"

definition read_counter :: "int \<Rightarrow> os \<Rightarrow> int \<times> int \<times> os" where
  "read_counter fd w = (case os_ask_int (Perf_call (Read_fd fd)) w of (n, w') \<Rightarrow>
     (n, if 0 < n then sint (os_answer w (os_tick w) (Perf_call (Read_value fd))) else 0, w'))"

definition nkit_balancer_set_threshold :: "c_double \<Rightarrow> nkit_context \<Rightarrow> nkit_context" where
  "nkit_balancer_set_threshold mpki c =
    (if dbl_less (Fin 0) mpki then c\<lparr>cx_balancer_threshold_mpki := mpki\<rparr> else c)"

definition nkit_balancer_start :: "balancer_tls \<Rightarrow> os \<Rightarrow> int \<times> balancer_tls \<times> os" where
  "nkit_balancer_start t w =
    (let w1 = (if t_fd_miss t \<noteq> - 1 then os_close (t_fd_miss t) w else w);
         w2 = (if t_fd_instr t \<noteq> - 1 then os_close (t_fd_instr t) w1 else w1) in
     case open_counter PERF_COUNT_HW_CACHE_MISSES w2 of (miss, w3) \<Rightarrow>
     let t1 = t\<lparr>t_fd_miss := miss\<rparr> in
     if miss = - 1 then (- 1, t1, w3) else
     case open_counter PERF_COUNT_HW_INSTRUCTIONS w3 of (instr, w4) \<Rightarrow>
     let t2 = t1\<lparr>t_fd_instr := instr\<rparr> in
     if instr = - 1 then (- 1, t2\<lparr>t_fd_miss := - 1\<rparr>, os_close miss w4) else
     let w5 = os_do (Perf_call (Ioctl miss PERF_EVENT_IOC_RESET)) w4;
         w6 = os_do (Perf_call (Ioctl instr PERF_EVENT_IOC_RESET)) w5;
         w7 = os_do (Perf_call (Ioctl miss PERF_EVENT_IOC_ENABLE)) w6;
         w8 = os_do (Perf_call (Ioctl instr PERF_EVENT_IOC_ENABLE)) w7 in
     (0, t2, w8))"

text \<open>Misses per thousand instructions, in the order the code evaluates it.\<close>

definition mpki_of :: "int \<Rightarrow> int \<Rightarrow> c_double" where
  "mpki_of count_miss count_instr =
     dbl_div (dbl_of_int count_miss) (dbl_div (dbl_of_int count_instr) (Fin 1000))"

definition nkit_balancer_check :: "nkit_context \<Rightarrow> balancer_tls \<Rightarrow> os \<Rightarrow> nkit_advice \<times> balancer_tls \<times> os" where
  "nkit_balancer_check c t w =
    (if t_fd_miss t = - 1 \<or> t_fd_instr t = - 1 then (NKIT_ADVISE_ERROR, t, w) else
     let w1 = os_do (Perf_call (Ioctl (t_fd_miss t) PERF_EVENT_IOC_DISABLE)) w;
         w2 = os_do (Perf_call (Ioctl (t_fd_instr t) PERF_EVENT_IOC_DISABLE)) w1 in
     case read_counter (t_fd_miss t) w2 of (n1, count_miss, w3) \<Rightarrow>
     if n1 = - 1 then (NKIT_ADVISE_ERROR, t, w3) else
     case read_counter (t_fd_instr t) w3 of (n2, count_instr, w4) \<Rightarrow>
     if n2 = - 1 then (NKIT_ADVISE_ERROR, t, w4) else
     let w5 = os_close (t_fd_instr t) (os_close (t_fd_miss t) w4);
         t1 = t\<lparr>t_fd_miss := - 1, t_fd_instr := - 1\<rparr> in
     if count_instr < 1000 then (NKIT_ADVISE_STAY, t1, w5)
     else if dbl_less (cx_balancer_threshold_mpki c) (mpki_of count_miss count_instr) then (NKIT_ADVISE_MIGRATE, t1, w5)
     else (NKIT_ADVISE_STAY, t1, w5))"

subsection \<open>The ratio\<close>

lemma rel_product:
  fixes a b c d :: rat
  assumes "\<bar>a\<bar> \<le> 1 / 2 ^ 53" "\<bar>b\<bar> \<le> 1 / 2 ^ 53" "\<bar>c\<bar> \<le> 1 / 2 ^ 53" "\<bar>d\<bar> \<le> 1 / 2 ^ 53"
  shows "\<bar>(1 + a) * (1 + b) / ((1 + c) * (1 + d)) - 1\<bar> \<le> 1 / 2 ^ 50"
proof -
  let ?e = "1 / 2 ^ 53 :: rat"
  have pos: "0 < 1 - ?e" by simp
  have r: "1 - ?e \<le> 1 + x" "1 + x \<le> 1 + ?e" if "\<bar>x\<bar> \<le> ?e" for x :: rat using that by linarith+
  have n: "(1 - ?e) * (1 - ?e) \<le> (1 + a) * (1 + b)" "(1 + a) * (1 + b) \<le> (1 + ?e) * (1 + ?e)"
    using r [OF assms(1)] r [OF assms(2)] pos by (intro mult_mono; linarith)+
  have m: "(1 - ?e) * (1 - ?e) \<le> (1 + c) * (1 + d)" "(1 + c) * (1 + d) \<le> (1 + ?e) * (1 + ?e)"
    using r [OF assms(3)] r [OF assms(4)] pos by (intro mult_mono; linarith)+
  have p: "0 < (1 + c) * (1 + d)" using m(1) mult_pos_pos [OF pos pos] by linarith
  have "(1 + a) * (1 + b) / ((1 + c) * (1 + d)) \<le> (1 + ?e) * (1 + ?e) / ((1 - ?e) * (1 - ?e))"
    using n m p pos by (intro frac_le) simp_all
  also have "\<dots> \<le> 1 + 1 / 2 ^ 50" by simp
  finally have up: "(1 + a) * (1 + b) / ((1 + c) * (1 + d)) \<le> 1 + 1 / 2 ^ 50" .
  have "(1 - ?e) * (1 - ?e) / ((1 + ?e) * (1 + ?e)) \<le> (1 + a) * (1 + b) / ((1 + c) * (1 + d))"
    using n m p pos by (intro frac_le) simp_all
  moreover have "1 - 1 / 2 ^ 50 \<le> (1 - ?e) * (1 - ?e) / ((1 + ?e) * (1 + ?e))" by simp
  ultimately show ?thesis using up by linarith
qed

lemma abs_rel: "\<bar>r * f - r\<bar> = \<bar>r\<bar> * \<bar>f - 1\<bar>" for r f :: rat
  by (simp add: algebra_simps flip: abs_mult)

lemma rel_factor: "\<bar>d\<bar> \<le> 1 / 2 ^ 53 \<Longrightarrow> 1 / 2 \<le> 1 + d \<and> 1 + d \<le> 2" for d :: rat
  by (auto simp: abs_le_iff)

text \<open>The computed ratio is the exact one, up to a relative error of \<open>2 ^ - 50\<close>.\<close>

lemma mpki_near:
  assumes instr: "1000 \<le> instr" "instr < 2 ^ 63" and miss: "\<bar>miss\<bar> \<le> 2 ^ 63"
  shows "\<exists>q. mpki_of miss instr = Fin q \<and> \<bar>q - 1000 * of_int miss / of_int instr\<bar> \<le> \<bar>1000 * of_int miss / of_int instr\<bar> / 2 ^ 50"
proof -
  let ?i = "of_int instr :: rat" and ?m = "of_int miss :: rat"
  have i: "1000 \<le> ?i" "?i < 2 ^ 63" using instr by (metis of_int_le_iff of_int_numeral, metis of_int_less_iff of_int_numeral of_int_power)
  obtain c where c: "\<bar>c\<bar> \<le> 1 / 2 ^ 53" "dbl_of_int instr = Fin (?i * (1 + c))"
    using dbl_round_mid [of ?i] i by (auto simp: dbl_of_int_def)
  note c1 = rel_factor [OF c(1)]
  define s where "s = ?i * (1 + c) / 1000"
  have s: "1 / 2 \<le> s" "s < 2 ^ 64"
  proof -
    have "1000 * (1 / 2) \<le> ?i * (1 + c)" using i c1 by (intro mult_mono) simp_all
    then show "1 / 2 \<le> s" by (simp add: s_def)
    have "?i * (1 + c) \<le> 2 ^ 63 * 2" using i c1 by (intro mult_mono) simp_all
    then show "s < 2 ^ 64" by (simp add: s_def)
  qed
  obtain d where d: "\<bar>d\<bar> \<le> 1 / 2 ^ 53" "dbl_round s = Fin (s * (1 + d))" using dbl_round_mid [of s] s by auto
  note d1 = rel_factor [OF d(1)]
  define u where "u = s * (1 + d)"
  have u: "1 / 4 \<le> u" "u \<le> 2 ^ 65"
  proof -
    have "1 / 2 * (1 / 2) \<le> s * (1 + d)" using s d1 by (intro mult_mono) simp_all
    then show "1 / 4 \<le> u" by (simp add: u_def)
    have "s * (1 + d) \<le> 2 ^ 64 * 2" using s d1 by (intro mult_mono) simp_all
    then show "u \<le> 2 ^ 65" by (simp add: u_def)
  qed
  have div: "mpki_of miss instr = dbl_div (dbl_of_int miss) (Fin u)"
    using c(2) d(2) by (simp add: mpki_of_def s_def u_def)
  have nz: "u \<noteq> 0" "0 < u" using u(1) by auto
  show ?thesis
  proof (cases "miss = 0")
    case True
    then show ?thesis using div nz by (simp add: dbl_of_int_def dbl_round_def)
  next
    case False
    have m: "1 \<le> \<bar>?m\<bar>" "\<bar>?m\<bar> \<le> 2 ^ 63"
      using False miss by (metis int_one_le_iff_zero_less of_int_1_le_iff of_int_abs zero_less_abs_iff,
          metis of_int_abs of_int_le_iff of_int_numeral of_int_power)
    obtain a where a: "\<bar>a\<bar> \<le> 1 / 2 ^ 53" "dbl_of_int miss = Fin (?m * (1 + a))"
      using dbl_round_mid [of ?m] m by (auto simp: dbl_of_int_def)
    note a1 = rel_factor [OF a(1)]
    define t where "t = ?m * (1 + a) / u"
    have abs_t: "\<bar>t\<bar> = \<bar>?m\<bar> * (1 + a) / u" using a1 nz by (simp add: t_def abs_mult abs_divide)
    have "1 * (1 / 2) \<le> \<bar>?m\<bar> * (1 + a)" using m a1 by (intro mult_mono) simp_all
    then have "1 / 2 / 2 ^ 65 \<le> \<bar>t\<bar>"
      unfolding abs_t using u nz by (intro frac_le) simp_all
    moreover have "\<bar>t\<bar> \<le> 2 ^ 63 * 2 / (1 / 4)"
      unfolding abs_t using m a1 u nz by (intro frac_le mult_mono) auto
    ultimately obtain b where b: "\<bar>b\<bar> \<le> 1 / 2 ^ 53" "dbl_round t = Fin (t * (1 + b))" using dbl_round_mid [of t] by auto
    let ?r = "1000 * ?m / ?i" and ?f = "(1 + a) * (1 + b) / ((1 + c) * (1 + d))"
    have "t * (1 + b) = ?r * ?f" using i c1 d1 by (simp add: t_def s_def u_def field_simps)
    then have "\<bar>t * (1 + b) - ?r\<bar> = \<bar>?r\<bar> * \<bar>?f - 1\<bar>" by (simp only: abs_rel)
    also have "\<dots> \<le> \<bar>?r\<bar> * (1 / 2 ^ 50)" using rel_product [OF a(1) b(1) c(1) d(1)] by (intro mult_left_mono) simp_all
    finally have "\<bar>t * (1 + b) - ?r\<bar> \<le> \<bar>?r\<bar> / 2 ^ 50" by simp
    moreover have "mpki_of miss instr = Fin (t * (1 + b))" using div a(2) b(2) nz by (simp add: t_def)
    ultimately show ?thesis by blast
  qed
qed
definition exact_mpki :: "int \<Rightarrow> int \<Rightarrow> rat" where
  "exact_mpki miss instr = 1000 * of_int miss / of_int instr"

lemma near_bounds:
  fixes q r e :: rat
  assumes "\<bar>q - r\<bar> \<le> \<bar>r\<bar> * e"
  shows "0 \<le> r \<Longrightarrow> r * (1 - e) \<le> q" and "0 \<le> r \<Longrightarrow> q \<le> r * (1 + e)" and "r \<le> 0 \<Longrightarrow> q \<le> r * (1 - e)"
  using assms by (simp_all add: abs_le_iff algebra_simps)

lemma mpki_decides:
  assumes instr: "1000 \<le> instr" "instr < 2 ^ 63" and miss: "\<bar>miss\<bar> \<le> 2 ^ 63" and th: "0 \<le> th"
  shows "th * (1 + 1 / 2 ^ 49) < exact_mpki miss instr \<Longrightarrow> dbl_less (Fin th) (mpki_of miss instr)"
    and "exact_mpki miss instr < th * (1 - 1 / 2 ^ 49) \<Longrightarrow> \<not> dbl_less (Fin th) (mpki_of miss instr)"
proof -
  define r where "r = exact_mpki miss instr"
  define e where "e = (1 / 2 ^ 50 :: rat)"
  have e: "0 < e" "e < 1" "(1 / 2 ^ 49 :: rat) = 2 * e" "1 \<le> (1 + 2 * e) * (1 - e)" "(1 - 2 * e) * (1 + e) \<le> 1"
    by (simp_all add: e_def)
  obtain q where q: "mpki_of miss instr = Fin q" "\<bar>q - r\<bar> \<le> \<bar>r\<bar> * e"
    using mpki_near [OF instr miss] by (auto simp: exact_mpki_def r_def e_def)
  note B = near_bounds [OF q(2)]
  show "dbl_less (Fin th) (mpki_of miss instr)" if "th * (1 + 1 / 2 ^ 49) < exact_mpki miss instr"
  proof -
    have gt: "th * (1 + 2 * e) < r" using that unfolding r_def e(3) .
    have "0 \<le> th * (1 + 2 * e)" using th e(1) by simp
    then have r: "0 \<le> r" using gt by linarith
    have "th * 1 \<le> th * ((1 + 2 * e) * (1 - e))" using th e(4) by (rule mult_left_mono [rotated])
    also have "\<dots> = th * (1 + 2 * e) * (1 - e)" by (simp only: mult.assoc)
    also have "\<dots> < r * (1 - e)" using gt e(2) by (intro mult_strict_right_mono) simp_all
    also have "\<dots> \<le> q" using B(1) [OF r] .
    finally show ?thesis by (simp add: q(1))
  qed
  show "\<not> dbl_less (Fin th) (mpki_of miss instr)" if "exact_mpki miss instr < th * (1 - 1 / 2 ^ 49)"
  proof (cases "0 \<le> r")
    case True
    have lt: "r < th * (1 - 2 * e)" using that unfolding r_def e(3) .
    have "q \<le> r * (1 + e)" using B(2) [OF True] .
    also have "\<dots> \<le> th * (1 - 2 * e) * (1 + e)" using lt e(1) by (intro mult_right_mono) simp_all
    also have "\<dots> = th * ((1 - 2 * e) * (1 + e))" by (simp only: mult.assoc)
    also have "\<dots> \<le> th * 1" using th e(5) by (rule mult_left_mono [rotated])
    finally show ?thesis by (simp add: q(1))
  next
    case False
    then have "q \<le> r * (1 - e)" using B(3) by simp
    also have "\<dots> \<le> 0" using False e(2) by (simp add: mult_le_0_iff)
    finally show ?thesis using th by (simp add: q(1))
  qed
qed

subsection \<open>Descriptors\<close>

text \<open>The resource behind a descriptor variable.\<close>

definition fd_owns :: "int \<Rightarrow> os_res multiset" where
  "fd_owns fd = (if fd = - 1 then {#} else {#Fd fd#})"

definition tls_fds :: "balancer_tls \<Rightarrow> os_res multiset" where
  "tls_fds t = fd_owns (t_fd_miss t) + fd_owns (t_fd_instr t)"

definition balancer_ok :: "os_res multiset \<Rightarrow> balancer_tls \<Rightarrow> os \<Rightarrow> bool" where
  "balancer_ok R t w \<longleftrightarrow> os_live w = R + tls_fds t"

text \<open>What \<^verbatim>\<open>perf_event_open(2)\<close> documents: a descriptor, or \<open>- 1\<close>.\<close>

definition perf_ok :: "os \<Rightarrow> bool" where
  "perf_ok w \<longleftrightarrow> (\<forall>n c. - 1 \<le> sint (os_answer w n (Perf_call (Perf_event_open c))))"

lemma perf_ok_cong: "os_answer w' = os_answer w \<Longrightarrow> perf_ok w' = perf_ok w"
  by (simp add: perf_ok_def)

lemma open_ledger:
  assumes "perf_ok w" and "os_open c w = (fd, w')"
  shows "ledger w' = (os_live w + fd_owns fd, os_fault w)" and "os_answer w' = os_answer w" and "- 1 \<le> fd"
proof -
  have fd: "fd = sint (os_answer w (os_tick w) (Perf_call (Perf_event_open c)))" using assms(2) os_open_simps(1) [of c w] by simp
  then show "- 1 \<le> fd" using assms(1) by (simp add: perf_ok_def)
  then have "fd < 0 \<longleftrightarrow> fd = - 1" by auto
  then show "ledger w' = (os_live w + fd_owns fd, os_fault w)" "os_answer w' = os_answer w"
    using assms(2) os_open_simps(2-4) [of c w] fd by (auto simp: ledger_def fd_owns_def)
qed

lemma read_counter_keeps:
  assumes "read_counter fd w = (n, v, w')"
  shows "ledger w' = ledger w" and "os_answer w' = os_answer w"
proof -
  obtain k u where a: "os_ask_int (Perf_call (Read_fd fd)) w = (k, u)" by fastforce
  then have "w' = u" using assms by (simp add: read_counter_def)
  then show "ledger w' = ledger w" "os_answer w' = os_answer w" using os_ask_int_keeps [OF a] by simp_all
qed

lemma close_owns: "os_live w = R + fd_owns fd \<Longrightarrow> ledger (if fd \<noteq> - 1 then os_close fd w else w) = (R, os_fault w)"
  by (simp add: fd_owns_def os_close_def ledger_def os_simps)
lemma os_do_keeps: "ledger (os_do c w) = ledger w" "os_answer (os_do c w) = os_answer w"
  by (simp_all add: ledger_def os_simps)

lemma idle_upd:
  "t\<lparr>t_fd_miss := - 1, t_fd_instr := - 1\<rparr> = balancer_idle" "t\<lparr>t_fd_instr := - 1, t_fd_miss := - 1\<rparr> = balancer_idle" for t :: balancer_tls
  by (cases t; simp add: balancer_idle_def)+

lemma start_cases:
  assumes p: "perf_ok w" and live: "os_live w = R + tls_fds t" and run: "nkit_balancer_start t w = (rc, t', w')"
  shows "os_fault w' = os_fault w \<and> ((rc = 0 \<and> t_fd_miss t' \<noteq> - 1 \<and> t_fd_instr t' \<noteq> - 1 \<and> os_live w' = R + tls_fds t') \<or>
     (rc = - 1 \<and> t' = balancer_idle \<and> os_live w' = R) \<or> (rc = - 1 \<and> t' = t\<lparr>t_fd_miss := - 1\<rparr> \<and> os_live w' = R))"
proof -
  define w1 where "w1 = (if t_fd_miss t \<noteq> - 1 then os_close (t_fd_miss t) w else w)"
  define w2 where "w2 = (if t_fd_instr t \<noteq> - 1 then os_close (t_fd_instr t) w1 else w1)"
  have a: "os_answer w1 = os_answer w" "os_answer w2 = os_answer w" by (simp_all add: w1_def w2_def os_close_def os_simps)
  have "os_live w = (R + fd_owns (t_fd_instr t)) + fd_owns (t_fd_miss t)" using live by (simp add: tls_fds_def ac_simps)
  from close_owns [OF this] have "os_live w1 = R + fd_owns (t_fd_instr t)" "os_fault w1 = os_fault w"
    by (simp_all add: w1_def ledger_def)
  from close_owns [OF this(1)] this(2) have l2: "ledger w2 = (R, os_fault w)" by (simp add: w2_def ledger_def)
  obtain miss w3 where 3: "os_open PERF_COUNT_HW_CACHE_MISSES w2 = (miss, w3)" by fastforce
  note o3 = open_ledger [OF perf_ok_cong [OF a(2), THEN iffD2, OF p] 3]
  have l3: "ledger w3 = (R + fd_owns miss, os_fault w)" using o3(1) l2 by (simp add: ledger_def)
  have p3: "perf_ok w3" using perf_ok_cong [OF o3(2)] perf_ok_cong [OF a(2)] p by simp
  note eq = nkit_balancer_start_def Let_def w1_def [symmetric] w2_def [symmetric] open_counter_def
  show ?thesis
  proof (cases "miss = - 1")
    case True
    then have "(rc, t', w') = (- 1, t\<lparr>t_fd_miss := - 1\<rparr>, w3)" using run 3 by (auto simp: eq)
    then show ?thesis
      using l3 True by (simp add: ledger_def fd_owns_def)
  next
    case False
    obtain instr w4 where 4: "os_open PERF_COUNT_HW_INSTRUCTIONS w3 = (instr, w4)" by fastforce
    note o4 = open_ledger [OF p3 4]
    have l4: "ledger w4 = (R + fd_owns instr + fd_owns miss, os_fault w)" using o4(1) l3 by (simp add: ledger_def ac_simps)
    show ?thesis
    proof (cases "instr = - 1")
      case True
      then have "(rc, t', w') = (- 1, balancer_idle, os_close miss w4)"
        using run 3 4 False by (auto simp: eq idle_upd)
      moreover have "ledger (os_close miss w4) = (R, os_fault w)"
        using close_owns [of w4 R miss] l4 True False by (simp add: ledger_def fd_owns_def)
      ultimately show ?thesis by (simp add: ledger_def)
    next
      case ni: False
      then have "rc = 0" "t' = t\<lparr>t_fd_miss := miss, t_fd_instr := instr\<rparr>" "ledger w' = ledger w4"
        using run 3 4 False by (auto simp: eq os_do_keeps)
      then show ?thesis using l4 False ni by (simp add: tls_fds_def ledger_def ac_simps)
    qed
  qed
qed

lemma check_cases:
  assumes live: "os_live w = R + tls_fds t" and run: "nkit_balancer_check c t w = (adv, t', w')"
  shows "ledger w' = (R + tls_fds t', os_fault w) \<and> (t' = (if adv = NKIT_ADVISE_ERROR then t else balancer_idle))"
proof (cases "t_fd_miss t = - 1 \<or> t_fd_instr t = - 1")
  case True
  then show ?thesis using run live by (auto simp: nkit_balancer_check_def ledger_def)
next
  case False
  let ?w2 = "os_do (Perf_call (Ioctl (t_fd_instr t) PERF_EVENT_IOC_DISABLE)) (os_do (Perf_call (Ioctl (t_fd_miss t) PERF_EVENT_IOC_DISABLE)) w)"
  obtain n1 miss w3 where 3: "read_counter (t_fd_miss t) ?w2 = (n1, miss, w3)" by (metis prod_cases3)
  obtain n2 instr w4 where 4: "read_counter (t_fd_instr t) w3 = (n2, instr, w4)" by (metis prod_cases3)
  have l: "ledger w3 = ledger w" "ledger w4 = ledger w"
    using read_counter_keeps(1) [OF 3] read_counter_keeps(1) [OF 4] by (simp_all add: os_do_keeps)
  let ?w5 = "os_close (t_fd_instr t) (os_close (t_fd_miss t) w4)"
  have "os_live w4 = (R + fd_owns (t_fd_instr t)) + fd_owns (t_fd_miss t)"
    using live l(2) by (simp add: ledger_def tls_fds_def ac_simps)
  from close_owns [OF this] False have "os_live (os_close (t_fd_miss t) w4) = R + fd_owns (t_fd_instr t)"
    "os_fault (os_close (t_fd_miss t) w4) = os_fault w" using l(2) by (simp_all add: ledger_def)
  from close_owns [OF this(1)] this(2) False have l5: "ledger ?w5 = (R, os_fault w)" by (simp add: ledger_def)
  consider "n1 = - 1" | "n1 \<noteq> - 1" "n2 = - 1" | "n1 \<noteq> - 1" "n2 \<noteq> - 1" by blast
  then show ?thesis
  proof cases
    case 1
    then have "(adv, t', w') = (NKIT_ADVISE_ERROR, t, w3)" using run False 3 by (simp add: nkit_balancer_check_def Let_def)
    then show ?thesis using l live by (simp add: ledger_def)
  next
    case 2
    then have "(adv, t', w') = (NKIT_ADVISE_ERROR, t, w4)" using run False 3 4 by (simp add: nkit_balancer_check_def Let_def)
    then show ?thesis using l live by (simp add: ledger_def)
  next
    case c3: 3
    then have "adv \<noteq> NKIT_ADVISE_ERROR" "t' = balancer_idle" "w' = ?w5"
      using run False 3 4 idle_upd [of t] by (auto simp: nkit_balancer_check_def Let_def split: if_splits)
    then show ?thesis using l5 by (simp add: tls_fds_def fd_owns_def balancer_idle_def)
  qed
qed
subsection \<open>A concrete platform\<close>

text \<open>
  Counters can be opened, except by call number \<open>n\<close>; descriptor 3 counts a hundred thousand misses in
  the million instructions that the others count.
\<close>

definition perf_os :: "nat \<Rightarrow> os" where
  "perf_os n = demo_os\<lparr>os_answer := \<lambda>t c. case c of
       Perf_call (Perf_event_open k) \<Rightarrow> if t = n then - 1 else if t = 0 then 3 else if t = 1 then 4 else 5
     | Perf_call (Read_fd fd) \<Rightarrow> 8
     | Perf_call (Read_value fd) \<Rightarrow> if fd = 3 then 100000 else 1000000
     | _ \<Rightarrow> demo_answer c\<rparr>"

lemma perf_os_ok: "perf_ok (perf_os n)" "balancer_ok {#} balancer_idle (perf_os n)"
  by (simp_all add: perf_ok_def perf_os_def balancer_ok_def demo_os_def tls_fds_def fd_owns_def balancer_idle_def)

lemmas balancer_eval = perf_os_def demo_os_def nkit_balancer_start_def open_counter_def os_open_def os_ask_int_def os_ask_def
  balancer_idle_def Let_def os_do_def os_close_def os_release_def

subsection \<open>Properties\<close>

text \<open>
  C20. The advice follows the ratio of the counters. When the two reads of a check succeed, fewer than
  1000 instructions give \<^const>\<open>NKIT_ADVISE_STAY\<close>; otherwise the advice is that of the exact number of
  misses per thousand instructions against the threshold, except within the rounding error of the
  double computation, a relative \<open>2 ^ - 49\<close> of the threshold.
\<close>

theorem balancer_advice:
  assumes fds: "t_fd_miss t \<noteq> - 1" "t_fd_instr t \<noteq> - 1" and th: "cx_balancer_threshold_mpki c = Fin th" "0 \<le> th"
    and reads: "sint (os_answer w (os_tick w + 2) (Perf_call (Read_fd (t_fd_miss t)))) = 8"
      "sint (os_answer w (os_tick w + 3) (Perf_call (Read_fd (t_fd_instr t)))) = 8"
  shows "let miss = sint (os_answer w (os_tick w + 2) (Perf_call (Read_value (t_fd_miss t))));
      instr = sint (os_answer w (os_tick w + 3) (Perf_call (Read_value (t_fd_instr t))));
      advice = fst (nkit_balancer_check c t w) in
    (instr < 1000 \<longrightarrow> advice = NKIT_ADVISE_STAY) \<and>
    (1000 \<le> instr \<longrightarrow> th * (1 + 1 / 2 ^ 49) < exact_mpki miss instr \<longrightarrow> advice = NKIT_ADVISE_MIGRATE) \<and>
    (1000 \<le> instr \<longrightarrow> exact_mpki miss instr < th * (1 - 1 / 2 ^ 49) \<longrightarrow> advice = NKIT_ADVISE_STAY)"
proof -
  define miss where "miss = sint (os_answer w (os_tick w + 2) (Perf_call (Read_value (t_fd_miss t))))"
  define instr where "instr = sint (os_answer w (os_tick w + 3) (Perf_call (Read_value (t_fd_instr t))))"
  have b: "instr < 2 ^ 63" "\<bar>miss\<bar> \<le> 2 ^ 63"
    using sint_lt [of "os_answer w (os_tick w + 3) (Perf_call (Read_value (t_fd_instr t)))"]
      sint_lt [of "os_answer w (os_tick w + 2) (Perf_call (Read_value (t_fd_miss t)))"]
      sint_ge [of "os_answer w (os_tick w + 2) (Perf_call (Read_value (t_fd_miss t)))"]
    by (auto simp: instr_def miss_def abs_le_iff)
  have "fst (nkit_balancer_check c t w) = (if instr < 1000 then NKIT_ADVISE_STAY
      else if dbl_less (Fin th) (mpki_of miss instr) then NKIT_ADVISE_MIGRATE else NKIT_ADVISE_STAY)"
    using fds th(1) reads
    by (simp add: nkit_balancer_check_def read_counter_def os_ask_int_def os_ask_def os_do_def Let_def miss_def instr_def eval_nat_numeral)
  then show ?thesis
    unfolding Let_def miss_def [symmetric] instr_def [symmetric] using mpki_decides [OF _ b th(2)] by simp
qed

theorem balancer_advice_witness:
  "fst (nkit_balancer_check (g_nkit_ctx\<lparr>cx_balancer_threshold_mpki := Fin 50\<rparr>) \<lparr>t_fd_miss = 3, t_fd_instr = 4\<rparr> (perf_os 9)) =
     NKIT_ADVISE_MIGRATE"
proof -
  have "50 * (1 + 1 / 2 ^ 49) < exact_mpki 100000 1000000" by (simp add: exact_mpki_def)
  then show ?thesis
    using balancer_advice [of "\<lparr>t_fd_miss = 3, t_fd_instr = 4\<rparr>" "g_nkit_ctx\<lparr>cx_balancer_threshold_mpki := Fin 50\<rparr>" 50 "perf_os 9"]
    by (simp add: perf_os_def demo_os_def)
qed

text \<open>
  C21. Descriptors of the balancer. From a state in which exactly the descriptors in the two variables
  are open, neither operation closes a descriptor that is not open. After a check, and after every
  start but one, again exactly the descriptors in the variables are open, none after a check that
  gave an advice; a start reports success exactly when both counters run. The one exception is a start
  that fails to open the first counter while an earlier profile is on: both descriptors are closed, but the second
  one stays in its variable.
\<close>

theorem balancer_fds:
  assumes "perf_ok w" and "balancer_ok R t w"
  shows "(case nkit_balancer_start t w of (rc, t', w') \<Rightarrow>
      os_fault w' = os_fault w \<and> (rc = 0 \<longleftrightarrow> t_fd_miss t' \<noteq> - 1) \<and> (rc = 0 \<longrightarrow> t_fd_instr t' \<noteq> - 1) \<and>
      (balancer_ok R t' w' \<or>
       (rc = - 1 \<and> os_live w' = R \<and> t_fd_miss t' = - 1 \<and> t_fd_instr t' = t_fd_instr t \<and> t_fd_instr t \<noteq> - 1))) \<and>
    (case nkit_balancer_check c t w of (adv, t', w') \<Rightarrow>
      os_fault w' = os_fault w \<and> balancer_ok R t' w' \<and> (adv \<noteq> NKIT_ADVISE_ERROR \<longrightarrow> t' = balancer_idle \<and> os_live w' = R))"
proof -
  obtain rc t1 w1 where s: "nkit_balancer_start t w = (rc, t1, w1)" by (metis prod_cases3)
  obtain adv t2 w2 where k: "nkit_balancer_check c t w = (adv, t2, w2)" by (metis prod_cases3)
  have live: "os_live w = R + tls_fds t" using assms(2) by (simp add: balancer_ok_def)
  have idle: "tls_fds balancer_idle = {#}" by (simp add: tls_fds_def fd_owns_def balancer_idle_def)
  have "tls_fds (t\<lparr>t_fd_miss := - 1\<rparr>) = {#}" if "t_fd_instr t = - 1" using that by (simp add: tls_fds_def fd_owns_def)
  then have "os_fault w1 = os_fault w \<and> (rc = 0 \<longleftrightarrow> t_fd_miss t1 \<noteq> - 1) \<and> (rc = 0 \<longrightarrow> t_fd_instr t1 \<noteq> - 1) \<and>
      (balancer_ok R t1 w1 \<or> (rc = - 1 \<and> os_live w1 = R \<and> t_fd_miss t1 = - 1 \<and> t_fd_instr t1 = t_fd_instr t \<and> t_fd_instr t \<noteq> - 1))"
    using start_cases [OF assms(1) live s] idle by (cases "t_fd_instr t = - 1") (auto simp: balancer_ok_def balancer_idle_def)
  moreover have "os_fault w2 = os_fault w \<and> balancer_ok R t2 w2 \<and> (adv \<noteq> NKIT_ADVISE_ERROR \<longrightarrow> t2 = balancer_idle \<and> os_live w2 = R)"
    using check_cases [OF live k] idle by (auto simp: balancer_ok_def ledger_def)
  ultimately show ?thesis using s k by simp
qed

theorem balancer_fds_witness:
  "case nkit_balancer_start balancer_idle (perf_os 9) of (rc, t', w') \<Rightarrow> \<not> os_fault w' \<and> rc = 0 \<and> balancer_ok {#} t' w'"
proof -
  have "fst (nkit_balancer_start balancer_idle (perf_os 9)) = 0" "\<not> os_fault (perf_os 9)" by (simp_all add: balancer_eval)
  then show ?thesis using balancer_fds [OF perf_os_ok, of 9 g_nkit_ctx] by auto
qed

text \<open>
  A descriptor is closed twice: after a start that fails to open the first counter while an earlier
  profile is on, the next start closes the second descriptor of the earlier profile again, at a time
  when the process may have reused its number.
\<close>

theorem balancer_double_close:
  assumes "perf_ok w" and "balancer_ok R t w" and "t_fd_instr t \<noteq> - 1" and "Fd (t_fd_instr t) \<notin># R"
    and "nkit_balancer_start t w = (- 1, t', w')" and "t_fd_instr t' \<noteq> - 1"
  shows "os_fault (snd (snd (nkit_balancer_start t' w')))"
proof -
  have "os_live w = R + tls_fds t" using assms(2) by (simp add: balancer_ok_def)
  from start_cases [OF assms(1) this assms(5)] assms(6) have t': "t' = t\<lparr>t_fd_miss := - 1\<rparr>" "os_live w' = R"
    by (auto simp: balancer_idle_def)
  have f: "os_fault (os_close (t_fd_instr t') w')" using t' assms(4) by (simp add: os_close_def os_simps)
  show ?thesis
    using f t'(1) assms(3)
    by (simp add: nkit_balancer_start_def open_counter_def Let_def case_prod_beta os_simps os_close_def)
qed

theorem balancer_double_close_witness:
  "case nkit_balancer_start balancer_idle (perf_os 6) of (rc1, t1, w1) \<Rightarrow>
   case nkit_balancer_start t1 w1 of (rc2, t2, w2) \<Rightarrow>
     rc1 = 0 \<and> rc2 = - 1 \<and> \<not> os_fault w2 \<and> os_fault (snd (snd (nkit_balancer_start t2 w2)))"
proof -
  obtain rc1 t1 w1 where 1: "nkit_balancer_start balancer_idle (perf_os 6) = (rc1, t1, w1)" by (metis prod_cases3)
  have e1: "rc1 = 0" "t1 = \<lparr>t_fd_miss = 3, t_fd_instr = 4\<rparr>" "os_live w1 = {#Fd 3, Fd 4#}" "os_tick w1 = 6" "\<not> os_fault w1"
    "os_answer w1 = os_answer (perf_os 6)"
    using 1 by (auto simp: balancer_eval)
  have ok: "perf_ok w1" "balancer_ok {#} t1 w1"
    using perf_os_ok(1) [of 6] perf_ok_cong [OF e1(6)] e1(2,3) by (simp_all add: balancer_ok_def tls_fds_def fd_owns_def)
  obtain rc2 t2 w2 where 2: "nkit_balancer_start t1 w1 = (rc2, t2, w2)" by (metis prod_cases3)
  have e2: "rc2 = - 1" "t_fd_instr t2 = 4" "\<not> os_fault w2"
    using 2 e1 by (auto simp: balancer_eval)
  from balancer_double_close [OF ok, of t2 w2] 2 e1(2) e2(1,2) have "os_fault (snd (snd (nkit_balancer_start t2 w2)))" by simp
  then show ?thesis using 1 2 e1(1) e2(1,3) by simp
qed

end
