(* ===== verification/NK_Auto_Balancer.thy ===== *)
theory NK_Auto_Balancer
  imports NK_Balancer NK_Affinity "HOL-Library.Signed_Division"
begin

section \<open>The auto-balancer (\<^verbatim>\<open>src/sched/auto_balancer.c\<close>)\<close>

text \<open>
  A monitor thread wakes up in regular intervals and, for each registered thread, samples two
  performance counters and moves the thread to the next node when the ratio is above the threshold.
  Registration goes through a mutex and is one step here. The monitor does not take the mutex:
  \<open>others n (Some i)\<close> is what the rest of the program does to the balancer while the monitor samples
  for slot \<open>i\<close> in its round \<open>n\<close>, and \<open>others n None\<close> while it sleeps between the rounds. \<open>cb\<close> is what
  a call of the client's function does to the platform, given its address and its arguments. The
  descriptors are those the sampling opens; \<^verbatim>\<open>SYS_gettid\<close> has no effect and is left out.
\<close>

definition AB_MAX_THREADS :: nat where
  "AB_MAX_THREADS = 64"

definition AB_MIN_INSTRUCTIONS :: int where
  "AB_MIN_INSTRUCTIONS = 1000"

record ab_entry =
  en_tid :: u64
  en_current_node :: int
  en_fd_miss :: int
  en_fd_instr :: int
  en_active :: bool

record nkit_auto_balancer =
  ab_addr :: ptr
  ab_monitor_thread :: u64
  ab_stop :: bool
  ab_interval_ms :: u32
  ab_mpki_threshold :: c_double
  ab_callback :: ptr
  ab_entries :: "ab_entry list"
  ab_migration_count :: u64

definition sizeof_auto_balancer :: u64 where
  "sizeof_auto_balancer = 1616"

type_synonym ab_cb = "ptr \<Rightarrow> u64 \<Rightarrow> int \<Rightarrow> int \<Rightarrow> c_double \<Rightarrow> os \<Rightarrow> os"

type_synonym ab_others = "nat \<Rightarrow> nat option \<Rightarrow> nkit_auto_balancer \<Rightarrow> nkit_auto_balancer"

abbreviation ab_entry_at :: "nkit_auto_balancer \<Rightarrow> nat \<Rightarrow> ab_entry" where
  "ab_entry_at ab i \<equiv> ab_entries ab ! i"

definition set_entry :: "nat \<Rightarrow> ab_entry \<Rightarrow> nkit_auto_balancer \<Rightarrow> nkit_auto_balancer" where
  "set_entry i e ab = ab\<lparr>ab_entries := (ab_entries ab)[i := e]\<rparr>"

definition ab_perf_open :: "perf_counter \<Rightarrow> os \<Rightarrow> int \<times> os" where
  "ab_perf_open config w = os_open config w"

definition find_target_node :: "int \<Rightarrow> int \<Rightarrow> int" where
  "find_target_node current_node num_nodes = (if num_nodes \<le> 1 then current_node else (current_node + 1) smod num_nodes)"

subsection \<open>The monitor thread\<close>

text \<open>One sample: the two counts, or nothing where a counter cannot be opened.\<close>

definition ab_sample :: "os \<Rightarrow> (int \<times> int) option \<times> os" where
  "ab_sample w =
    (case ab_perf_open PERF_COUNT_HW_CACHE_MISSES w of (fd_miss, w1) \<Rightarrow>
     case ab_perf_open PERF_COUNT_HW_INSTRUCTIONS w1 of (fd_instr, w2) \<Rightarrow>
     if fd_miss < 0 \<or> fd_instr < 0 then
       (let w3 = (if fd_miss \<ge> 0 then os_close fd_miss w2 else w2);
            w4 = (if fd_instr \<ge> 0 then os_close fd_instr w3 else w3) in (None, w4))
     else
       let w3 = os_do (Perf_call (Ioctl fd_miss PERF_EVENT_IOC_RESET)) w2;
           w4 = os_do (Perf_call (Ioctl fd_instr PERF_EVENT_IOC_RESET)) w3;
           w5 = os_do (Perf_call (Ioctl fd_miss PERF_EVENT_IOC_ENABLE)) w4;
           w6 = os_do (Perf_call (Ioctl fd_instr PERF_EVENT_IOC_ENABLE)) w5;
           w7 = os_do (Thread_call (Nanosleep 0 10000000)) w6;
           w8 = os_do (Perf_call (Ioctl fd_miss PERF_EVENT_IOC_DISABLE)) w7;
           w9 = os_do (Perf_call (Ioctl fd_instr PERF_EVENT_IOC_DISABLE)) w8 in
       case read_counter fd_miss w9 of (n1, v1, w10) \<Rightarrow>
       case read_counter fd_instr w10 of (n2, v2, w11) \<Rightarrow>
       let count_miss = (if n1 < 0 then 0 else v1); count_instr = (if n2 < 0 then 0 else v2) in
       (Some (count_miss, count_instr), os_close fd_instr (os_close fd_miss w11)))"

text \<open>The migration of the thread in slot \<open>i\<close>.\<close>

definition ab_migrate :: "ab_cb \<Rightarrow> nat \<Rightarrow> int \<Rightarrow> int \<Rightarrow> c_double \<Rightarrow> nkit_auto_balancer \<Rightarrow> os \<Rightarrow> nkit_auto_balancer \<times> os" where
  "ab_migrate cb i from_node to_node mpki ab w =
    (case os_mask w of (cpumask, w1) \<Rightarrow>
     if cpumask = NULL then (ab, w1) else
     case os_node_to_cpus to_node w1 of (rc, bits, w2) \<Rightarrow>
     if rc \<noteq> 0 then (ab, os_free_mask cpumask w2) else
     case os_ask_int (Numa_call Num_configured_cpus) w2 of (num_cpus, w3) \<Rightarrow>
     let cpuset = cpu_set (filter bits (map int [0..<nat num_cpus])); w4 = os_free_mask cpumask w3;
         e = ab_entry_at ab i in
     case os_ask_int (Thread_call (Pthread_setaffinity (en_tid e) cpuset)) w4 of (ret, w5) \<Rightarrow>
     if ret = 0 then
       (let ab1 = (set_entry i (e\<lparr>en_current_node := to_node\<rparr>) ab)\<lparr>ab_migration_count := ab_migration_count ab + 1\<rparr> in
        (ab1, if ab_callback ab1 \<noteq> NULL then cb (ab_callback ab1) (en_tid e) from_node to_node mpki w5 else w5))
     else (ab, w5))"

definition ab_scan_entry :: "ab_cb \<Rightarrow> ab_others \<Rightarrow> int \<Rightarrow> nat \<Rightarrow> nat \<Rightarrow> nkit_auto_balancer \<Rightarrow> os \<Rightarrow> nkit_auto_balancer \<times> os" where
  "ab_scan_entry cb others num_nodes n i ab w =
    (if \<not> en_active (ab_entry_at ab i) then (ab, w) else
     case ab_sample w of
       (None, w1) \<Rightarrow> (ab, w1)
     | (Some (count_miss, count_instr), w1) \<Rightarrow>
       let ab1 = others n (Some i) ab in
       if count_instr < AB_MIN_INSTRUCTIONS then (ab1, w1) else
       let mpki = mpki_of count_miss count_instr in
       if \<not> dbl_less (ab_mpki_threshold ab1) mpki then (ab1, w1) else
       let from_node = en_current_node (ab_entry_at ab1 i); to_node = find_target_node from_node num_nodes in
       if to_node \<noteq> from_node then ab_migrate cb i from_node to_node mpki ab1 w1 else (ab1, w1))"

fun ab_scan :: "ab_cb \<Rightarrow> ab_others \<Rightarrow> int \<Rightarrow> nat \<Rightarrow> nat list \<Rightarrow> nkit_auto_balancer \<Rightarrow> os \<Rightarrow> nkit_auto_balancer \<times> os" where
  "ab_scan cb others num_nodes n [] ab w = (ab, w)"
| "ab_scan cb others num_nodes n (i # is) ab w =
    (case ab_scan_entry cb others num_nodes n i ab w of (ab1, w1) \<Rightarrow> ab_scan cb others num_nodes n is ab1 w1)"

partial_function (option) ab_monitor_loop ::
  "ab_cb \<Rightarrow> ab_others \<Rightarrow> int \<Rightarrow> u64 \<times> u64 \<Rightarrow> nat \<Rightarrow> nkit_auto_balancer \<Rightarrow> os \<Rightarrow> (nkit_auto_balancer \<times> os) option" where
  "ab_monitor_loop cb others num_nodes ts n ab w =
    (if ab_stop ab then Some (ab, w) else
     let w1 = os_do (Thread_call (Nanosleep (fst ts) (snd ts))) w; ab1 = others n None ab in
     if ab_stop ab1 then Some (ab1, w1) else
     case ab_scan cb others num_nodes n [0..<AB_MAX_THREADS] ab1 w1 of (ab2, w2) \<Rightarrow>
     ab_monitor_loop cb others num_nodes ts (Suc n) ab2 w2)"

definition ab_monitor :: "ab_cb \<Rightarrow> ab_others \<Rightarrow> nkit_context \<Rightarrow> nkit_auto_balancer \<Rightarrow> os \<Rightarrow> (nkit_auto_balancer \<times> os) option" where
  "ab_monitor cb others c ab w =
    (let ms = ab_interval_ms ab; ts = (ucast (ms div 1000), ucast (ms mod 1000) * 1000000);
         num_nodes = (if cx_num_nodes c \<le> 0 then 1 else cx_num_nodes c) in
     ab_monitor_loop cb others num_nodes ts 0 ab w)"

subsection \<open>The operations\<close>

definition new_entry :: ab_entry where
  "new_entry = \<lparr>en_tid = 0, en_current_node = 0, en_fd_miss = - 1, en_fd_instr = - 1, en_active = False\<rparr>"

definition nkit_auto_balancer_create :: "u32 \<Rightarrow> c_double \<Rightarrow> ptr \<Rightarrow> os \<Rightarrow> nkit_auto_balancer option \<times> os" where
  "nkit_auto_balancer_create interval_ms mpki_thresh callback w =
    (if interval_ms = 0 then (None, w) else
     if dbl_le mpki_thresh (Fin 0) then (None, w) else
     case os_calloc 1 sizeof_auto_balancer w of (ab, w1) \<Rightarrow>
     if ab = NULL then (None, w1) else
     case os_ask_int (Thread_call (Pthread_create ab)) w1 of (rc, w2) \<Rightarrow>
     if rc \<noteq> 0 then (None, os_free ab w2) else
     (Some \<lparr>ab_addr = ab, ab_monitor_thread = os_answer w1 (os_tick w1) (Thread_call (Pthread_tid ab)), ab_stop = False,
        ab_interval_ms = interval_ms, ab_mpki_threshold = mpki_thresh, ab_callback = callback,
        ab_entries = replicate AB_MAX_THREADS new_entry, ab_migration_count = 0\<rparr>, w2))"

text \<open>The first slot of a list of slots that satisfies a condition, as the two registration loops search it.\<close>

fun find_slot :: "(ab_entry \<Rightarrow> bool) \<Rightarrow> nkit_auto_balancer \<Rightarrow> nat list \<Rightarrow> nat option" where
  "find_slot P ab [] = None"
| "find_slot P ab (i # is) = (if P (ab_entry_at ab i) then Some i else find_slot P ab is)"

definition nkit_auto_balancer_register :: "nkit_auto_balancer option \<Rightarrow> u64 \<Rightarrow> int \<Rightarrow> int \<times> nkit_auto_balancer option" where
  "nkit_auto_balancer_register h tid node =
    (case h of None \<Rightarrow> (- 1, None)
     | Some ab \<Rightarrow>
       (case find_slot (\<lambda>e. \<not> en_active e) ab [0..<AB_MAX_THREADS] of
          None \<Rightarrow> (- 1, Some ab)
        | Some i \<Rightarrow> (0, Some (set_entry i \<lparr>en_tid = tid, en_current_node = node, en_fd_miss = - 1, en_fd_instr = - 1, en_active = True\<rparr> ab))))"

definition nkit_auto_balancer_unregister :: "nkit_auto_balancer option \<Rightarrow> u64 \<Rightarrow> int \<times> nkit_auto_balancer option" where
  "nkit_auto_balancer_unregister h tid =
    (case h of None \<Rightarrow> (- 1, None)
     | Some ab \<Rightarrow>
       (case find_slot (\<lambda>e. en_active e \<and> en_tid e = tid) ab [0..<AB_MAX_THREADS] of
          None \<Rightarrow> (- 1, Some ab)
        | Some i \<Rightarrow> (0, Some (set_entry i ((ab_entry_at ab i)\<lparr>en_active := False\<rparr>) ab))))"

definition nkit_auto_balancer_migrations :: "nkit_auto_balancer option \<Rightarrow> u64" where
  "nkit_auto_balancer_migrations h = (case h of None \<Rightarrow> 0 | Some ab \<Rightarrow> ab_migration_count ab)"

fun close_entries :: "ab_entry list \<Rightarrow> os \<Rightarrow> os" where
  "close_entries [] w = w"
| "close_entries (e # es) w =
    (let w1 = (if en_fd_miss e \<ge> 0 then os_close (en_fd_miss e) w else w);
         w2 = (if en_fd_instr e \<ge> 0 then os_close (en_fd_instr e) w1 else w1) in close_entries es w2)"

text \<open>
  The join waits for the rest of the monitor's run, \<open>rest\<close>; \<^const>\<open>None\<close> where that never ends.
\<close>

definition nkit_auto_balancer_destroy ::
  "(nkit_auto_balancer \<Rightarrow> os \<Rightarrow> (nkit_auto_balancer \<times> os) option) \<Rightarrow> nkit_auto_balancer option \<Rightarrow> os \<Rightarrow> os option" where
  "nkit_auto_balancer_destroy rest h w =
    (case h of None \<Rightarrow> Some w
     | Some ab \<Rightarrow>
       (case rest (ab\<lparr>ab_stop := True\<rparr>) w of None \<Rightarrow> None
        | Some (ab1, w1) \<Rightarrow>
          let w2 = os_do (Thread_call (Pthread_join (ab_monitor_thread ab))) w1;
              w3 = close_entries (take AB_MAX_THREADS (ab_entries ab1)) w2 in
          Some (os_free (ab_addr ab1) w3)))"

end
