(* ===== verification/NK_Auto_Thms.thy ===== *)
theory NK_Auto_Thms
  imports NK_Auto_Balancer
begin

section \<open>The auto-balancer: properties\<close>

text \<open>
  The registry is a bounded collection of threads; a round of the monitor leaves no resource behind
  and moves threads to valid nodes; a balancer can be destroyed at any time. The rest of the program
  acts on a balancer through its public operations, given as lists of calls.
\<close>

datatype ab_call = Ab_register u64 int | Ab_unregister u64 | Ab_stop

fun ab_do :: "ab_call \<Rightarrow> nkit_auto_balancer \<Rightarrow> nkit_auto_balancer" where
  "ab_do (Ab_register tid node) ab = the (snd (nkit_auto_balancer_register (Some ab) tid node))"
| "ab_do (Ab_unregister tid) ab = the (snd (nkit_auto_balancer_unregister (Some ab) tid))"
| "ab_do Ab_stop ab = ab\<lparr>ab_stop := True\<rparr>"

definition ab_calls :: "(nat \<Rightarrow> nat option \<Rightarrow> ab_call list) \<Rightarrow> ab_others" where
  "ab_calls calls n slot ab = fold ab_do (calls n slot) ab"

subsection \<open>The registry\<close>

definition ab_ok :: "nkit_auto_balancer \<Rightarrow> bool" where
  "ab_ok ab \<longleftrightarrow> length (ab_entries ab) = AB_MAX_THREADS \<and> (\<forall>e \<in> set (ab_entries ab). en_fd_miss e = - 1 \<and> en_fd_instr e = - 1)"

lemma find_slot_Some: "find_slot P ab is = Some i \<Longrightarrow> i \<in> set is \<and> P (ab_entry_at ab i)"
  by (induction "is") (auto split: if_splits)

lemma find_slot_None: "find_slot P ab is = None \<longleftrightarrow> (\<forall>i \<in> set is. \<not> P (ab_entry_at ab i))"
  by (induction "is") auto

lemma set_entry_simps [simp]:
  "ab_entries (set_entry i e ab) = (ab_entries ab)[i := e]" "ab_addr (set_entry i e ab) = ab_addr ab"
  "ab_stop (set_entry i e ab) = ab_stop ab" "ab_migration_count (set_entry i e ab) = ab_migration_count ab"
  "ab_mpki_threshold (set_entry i e ab) = ab_mpki_threshold ab" "ab_callback (set_entry i e ab) = ab_callback ab"
  "ab_monitor_thread (set_entry i e ab) = ab_monitor_thread ab"
  by (simp_all add: set_entry_def)

lemma set_entry_ok: "ab_ok ab \<Longrightarrow> en_fd_miss e = - 1 \<Longrightarrow> en_fd_instr e = - 1 \<Longrightarrow> ab_ok (set_entry i e ab)"
  using set_update_subset_insert [of "ab_entries ab" i e] by (auto simp: ab_ok_def)

lemma entry_fds: "ab_ok ab \<Longrightarrow> i < AB_MAX_THREADS \<Longrightarrow> en_fd_miss (ab_entry_at ab i) = - 1 \<and> en_fd_instr (ab_entry_at ab i) = - 1"
  by (simp add: ab_ok_def)

lemma ab_do_ok:
  assumes "ab_ok ab"
  shows "ab_ok (ab_do call ab)" and "ab_addr (ab_do call ab) = ab_addr ab"
proof -
  have "ab_ok (ab_do call ab) \<and> ab_addr (ab_do call ab) = ab_addr ab"
  proof (cases call)
    case (Ab_register tid node)
    then show ?thesis using assms set_entry_ok by (simp add: nkit_auto_balancer_register_def split: option.split)
  next
    case (Ab_unregister tid)
    then show ?thesis
      using assms find_slot_Some [of _ ab "[0..<AB_MAX_THREADS]"] entry_fds
      by (auto simp: nkit_auto_balancer_unregister_def intro!: set_entry_ok split: option.split)
  qed (use assms in \<open>simp add: ab_ok_def\<close>)
  then show "ab_ok (ab_do call ab)" "ab_addr (ab_do call ab) = ab_addr ab" by simp_all
qed

lemma ab_calls_ok: "ab_ok ab \<Longrightarrow> ab_ok (ab_calls calls n slot ab) \<and> ab_addr (ab_calls calls n slot ab) = ab_addr ab"
proof -
  have "ab_ok ab \<Longrightarrow> ab_ok (fold ab_do cs ab) \<and> ab_addr (fold ab_do cs ab) = ab_addr ab" for cs
    by (induction cs arbitrary: ab) (simp_all add: ab_do_ok)
  then show "ab_ok ab \<Longrightarrow> ?thesis" by (simp add: ab_calls_def)
qed

text \<open>The registered threads with their nodes.\<close>

definition ab_threads :: "nkit_auto_balancer \<Rightarrow> (u64 \<times> int) multiset" where
  "ab_threads ab = image_mset (\<lambda>e. (en_tid e, en_current_node e)) (filter_mset en_active (mset (ab_entries ab)))"

lemma threads_set_entry:
  assumes "i < length (ab_entries ab)"
  shows "ab_threads (set_entry i e ab) + (if en_active (ab_entry_at ab i) then {#(en_tid (ab_entry_at ab i), en_current_node (ab_entry_at ab i))#} else {#}) =
     ab_threads ab + (if en_active e then {#(en_tid e, en_current_node e)#} else {#})"
proof -
  have "mset ((ab_entries ab)[i := e]) + {#ab_entry_at ab i#} = mset (ab_entries ab) + {#e#}"
    using assms by (simp add: mset_update nth_mem)
  then have "image_mset (\<lambda>e. (en_tid e, en_current_node e)) (filter_mset en_active (mset ((ab_entries ab)[i := e]) + {#ab_entry_at ab i#})) =
      image_mset (\<lambda>e. (en_tid e, en_current_node e)) (filter_mset en_active (mset (ab_entries ab) + {#e#}))" by simp
  then show ?thesis by (simp add: ab_threads_def split: if_splits)
qed

lemma threads_full:
  assumes "ab_ok ab"
  shows "size (ab_threads ab) \<le> AB_MAX_THREADS" and "(\<forall>i < AB_MAX_THREADS. en_active (ab_entry_at ab i)) \<longleftrightarrow> size (ab_threads ab) = AB_MAX_THREADS"
proof -
  have len: "length (ab_entries ab) = AB_MAX_THREADS" using assms by (simp add: ab_ok_def)
  have sz: "size (ab_threads ab) = length (filter en_active (ab_entries ab))" by (simp add: ab_threads_def flip: mset_filter)
  then show "size (ab_threads ab) \<le> AB_MAX_THREADS" using len by (metis length_filter_le)
  have "length (filter en_active (ab_entries ab)) = length (ab_entries ab) \<longleftrightarrow> (\<forall>e \<in> set (ab_entries ab). en_active e)"
    by (metis filter_True length_filter_less less_irrefl)
  then show "(\<forall>i < AB_MAX_THREADS. en_active (ab_entry_at ab i)) \<longleftrightarrow> size (ab_threads ab) = AB_MAX_THREADS"
    using sz len by (metis in_set_conv_nth nth_mem)
qed
subsection \<open>A round of the monitor\<close>

lemma open_live:
  assumes "os_open c w = (fd, w')"
  shows "ledger w' = (os_live w + (if fd < 0 then {#} else {#Fd fd#}), os_fault w)"
  using assms os_open_simps(1-3) [of c w] by (auto simp: ledger_def)

lemma close_live: "os_live w = R + (if fd < 0 then {#} else {#Fd fd#}) \<Longrightarrow> ledger (if fd \<ge> 0 then os_close fd w else w) = (R, os_fault w)"
  by (simp add: os_close_def ledger_def os_simps)

lemma ab_sample_ledger: "ledger (snd (ab_sample w)) = ledger w"
proof -
  obtain fm w1 where 1: "os_open PERF_COUNT_HW_CACHE_MISSES w = (fm, w1)" by fastforce
  obtain fi w2 where 2: "os_open PERF_COUNT_HW_INSTRUCTIONS w1 = (fi, w2)" by fastforce
  let ?F = "\<lambda>fd. if fd < 0 then {#} else {#Fd fd#}"
  have l2: "ledger w2 = (os_live w + ?F fi + ?F fm, os_fault w)"
    using open_live [OF 1] open_live [OF 2] by (simp add: ledger_def ac_simps)
  have closed: "ledger (if fi \<ge> 0 then os_close fi (if fm \<ge> 0 then os_close fm v else v) else (if fm \<ge> 0 then os_close fm v else v)) = ledger w"
    if "ledger v = ledger w2" for v
  proof -
    let ?v = "if fm \<ge> 0 then os_close fm v else v"
    have "ledger ?v = (os_live w + ?F fi, os_fault w)"
      using close_live [of v "os_live w + ?F fi" fm] that l2 by (simp add: ledger_def)
    then show ?thesis using close_live [of ?v "os_live w" fi] by (simp add: ledger_def)
  qed
  show ?thesis
  proof (cases "fm < 0 \<or> fi < 0")
    case True
    then show ?thesis using 1 2 closed [OF refl] by (simp add: ab_sample_def ab_perf_open_def Let_def)
  next
    case False
    define w9 where "w9 = os_do (Perf_call (Ioctl fi PERF_EVENT_IOC_DISABLE)) (os_do (Perf_call (Ioctl fm PERF_EVENT_IOC_DISABLE))
      (os_do (Thread_call (Nanosleep 0 10000000)) (os_do (Perf_call (Ioctl fi PERF_EVENT_IOC_ENABLE))
      (os_do (Perf_call (Ioctl fm PERF_EVENT_IOC_ENABLE)) (os_do (Perf_call (Ioctl fi PERF_EVENT_IOC_RESET))
      (os_do (Perf_call (Ioctl fm PERF_EVENT_IOC_RESET)) w2))))))"
    have w9: "ledger w9 = ledger w2" by (simp add: w9_def os_do_keeps)
    have eq: "snd (ab_sample w) = (case read_counter fm w9 of (n1, v1, w10) \<Rightarrow>
        case read_counter fi w10 of (n2, v2, w11) \<Rightarrow> os_close fi (os_close fm w11))"
      using 1 2 False by (simp add: ab_sample_def ab_perf_open_def Let_def case_prod_beta w9_def)
    obtain n1 v1 w10 where r1: "read_counter fm w9 = (n1, v1, w10)" by (metis prod_cases3)
    obtain n2 v2 w11 where r2: "read_counter fi w10 = (n2, v2, w11)" by (metis prod_cases3)
    have "ledger w11 = ledger w2" using read_counter_keeps(1) [OF r1] read_counter_keeps(1) [OF r2] w9 by simp
    then show ?thesis using closed [of w11] False by (simp add: eq r1 r2)
  qed
qed

text \<open>The client's function uses and releases what it likes, but nothing that is not its own.\<close>

definition cb_ok :: "ab_cb \<Rightarrow> bool" where
  "cb_ok cb \<longleftrightarrow> (\<forall>f tid a b mpki w. ledger (cb f tid a b mpki w) = ledger w)"

lemma free_mask_live: "os_live w = R + {#Mask p#} \<Longrightarrow> p \<noteq> NULL \<Longrightarrow> ledger (os_free_mask p w) = (R, os_fault w)"
  by (simp add: os_free_mask_def ledger_def os_simps)

lemma ab_migrate_cases:
  assumes "cb_ok cb" and "ab_migrate cb i from_node to_node mpki ab w = (ab', w')"
  shows "ledger w' = ledger w \<and> (ab' = ab \<or>
    ab' = (set_entry i ((ab_entry_at ab i)\<lparr>en_current_node := to_node\<rparr>) ab)\<lparr>ab_migration_count := ab_migration_count ab + 1\<rparr>)"
proof -
  obtain p w1 where 1: "os_mask w = (p, w1)" by fastforce
  obtain rc bits w2 where 2: "os_node_to_cpus to_node w1 = (rc, bits, w2)" by (metis prod_cases3)
  obtain nc w3 where 3: "os_ask_int (Numa_call Num_configured_cpus) w2 = (nc, w3)" by fastforce
  have l1: "ledger w1 = (os_live w + (if p = NULL then {#} else {#Mask p#}), os_fault w)"
    using 1 os_alloc_simps(1-3) [of "Numa_call Allocate_mask" Mask NULL w] by (auto simp: os_mask_def ledger_def)
  have "w2 = snd (os_ask (Numa_call (Node_to_cpus to_node)) w1)" using 2 os_node_to_cpus_simps(2) [of to_node w1] by simp
  then have l2: "ledger w2 = ledger w1" by (simp add: ledger_simps)
  have l3: "ledger w3 = ledger w1" using os_ask_int_keeps(1) [OF 3] l2 by simp
  have freed: "ledger (os_free_mask p v) = ledger w" if "ledger v = ledger w1" "p \<noteq> NULL" for v
    using free_mask_live [of v "os_live w" p] that l1 by (simp add: ledger_def)
  define w4 where "w4 = os_free_mask p w3"
  obtain ret w5 where 5: "os_ask_int (Thread_call (Pthread_setaffinity (en_tid (ab_entry_at ab i))
      (cpu_set (filter bits (map int [0..<nat nc]))))) w4 = (ret, w5)" by fastforce
  consider "p = NULL" | "p \<noteq> NULL" "rc \<noteq> 0" | "p \<noteq> NULL" "rc = 0" by blast
  then show ?thesis
  proof cases
    case 1
    then show ?thesis using assms(2) \<open>os_mask w = (p, w1)\<close> l1 by (auto simp: ab_migrate_def ledger_def)
  next
    case c2: 2
    then have "ab' = ab" "w' = os_free_mask p w2" using assms(2) 1 2 by (auto simp: ab_migrate_def)
    then show ?thesis using freed [OF l2 c2(1)] by simp
  next
    case c3: 3
    have l5: "ledger w5 = ledger w" using os_ask_int_keeps(1) [OF 5] freed [OF l3 c3(1)] by (simp add: w4_def)
    then show ?thesis
      using assms c3 1 2 3 5 by (auto simp: ab_migrate_def Let_def w4_def [symmetric] cb_ok_def split: if_splits)
  qed
qed
lemma count_ok [simp]: "ab_ok (ab\<lparr>ab_migration_count := c\<rparr>) = ab_ok ab"
  by (simp add: ab_ok_def)

lemma ab_do_stop: "ab_stop ab \<Longrightarrow> ab_stop (ab_do call ab)"
  by (cases call) (simp_all add: nkit_auto_balancer_register_def nkit_auto_balancer_unregister_def split: option.split)

lemma ab_calls_stop: "ab_stop ab \<Longrightarrow> ab_stop (ab_calls calls n slot ab)"
proof -
  have "ab_stop ab \<Longrightarrow> ab_stop (fold ab_do cs ab)" for cs by (induction cs arbitrary: ab) (simp_all add: ab_do_stop)
  then show "ab_stop ab \<Longrightarrow> ?thesis" by (simp add: ab_calls_def)
qed

text \<open>What a step of the monitor keeps, whatever the other threads do meanwhile.\<close>

definition ab_keeps :: "nkit_auto_balancer \<Rightarrow> os \<Rightarrow> nkit_auto_balancer \<Rightarrow> os \<Rightarrow> bool" where
  "ab_keeps ab w ab' w' \<longleftrightarrow> ledger w' = ledger w \<and> ab_ok ab' \<and> ab_addr ab' = ab_addr ab \<and> (ab_stop ab \<longrightarrow> ab_stop ab')"

lemma ab_migrate_keeps:
  assumes "cb_ok cb" and "ab_ok ab" and "i < AB_MAX_THREADS" and "ab_migrate cb i from_node to_node mpki ab w = (ab', w')"
  shows "ab_keeps ab w ab' w'"
  using ab_migrate_cases [OF assms(1,4)] assms(2) entry_fds [OF assms(2,3)] by (auto simp: ab_keeps_def intro!: set_entry_ok)

lemma ab_scan_entry_keeps:
  assumes cb: "cb_ok cb" and ok: "ab_ok ab" and i: "i < AB_MAX_THREADS"
    and run: "ab_scan_entry cb (ab_calls calls) num_nodes n i ab w = (ab', w')"
  shows "ab_keeps ab w ab' w'"
proof (cases "en_active (ab_entry_at ab i)")
  case False
  then show ?thesis using run ok by (simp add: ab_scan_entry_def ab_keeps_def)
next
  case True
  obtain s w1 where s: "ab_sample w = (s, w1)" by fastforce
  have l1: "ledger w1 = ledger w" using ab_sample_ledger [of w] s by simp
  define ab1 where "ab1 = ab_calls calls n (Some i) ab"
  have ok1: "ab_ok ab1" "ab_addr ab1 = ab_addr ab" "ab_stop ab \<Longrightarrow> ab_stop ab1"
    using ab_calls_ok [OF ok] ab_calls_stop by (simp_all add: ab1_def)
  have idle: "ab_keeps ab w ab1 w1" "ab_keeps ab w ab w1" using l1 ok ok1 by (simp_all add: ab_keeps_def)
  show ?thesis
  proof (cases s)
    case None
    then show ?thesis using run True s idle by (simp add: ab_scan_entry_def)
  next
    case (Some v)
    obtain miss instr where v: "v = (miss, instr)" by fastforce
    let ?from = "en_current_node (ab_entry_at ab1 i)"
    let ?to = "find_target_node ?from num_nodes"
    have "(ab', w') = (ab1, w1) \<or> ab_migrate cb i ?from ?to (mpki_of miss instr) ab1 w1 = (ab', w')"
      using run True s Some v by (auto simp: ab_scan_entry_def Let_def ab1_def split: if_splits)
    then show ?thesis
      using idle ab_migrate_keeps [OF cb ok1(1) i, of ?from ?to "mpki_of miss instr" w1 ab' w'] l1 ok1 by (auto simp: ab_keeps_def)
  qed
qed

lemma ab_keeps_trans: "ab_keeps ab w ab1 w1 \<Longrightarrow> ab_keeps ab1 w1 ab2 w2 \<Longrightarrow> ab_keeps ab w ab2 w2"
  by (auto simp: ab_keeps_def)

lemma ab_scan_keeps:
  assumes cb: "cb_ok cb"
  shows "ab_ok ab \<Longrightarrow> \<forall>i \<in> set js. i < AB_MAX_THREADS \<Longrightarrow> ab_scan cb (ab_calls calls) num_nodes n js ab w = (ab', w') \<Longrightarrow>
    ab_keeps ab w ab' w'"
proof (induction js arbitrary: ab w)
  case Nil
  then show ?case by (simp add: ab_keeps_def)
next
  case (Cons i js)
  obtain ab1 w1 where 1: "ab_scan_entry cb (ab_calls calls) num_nodes n i ab w = (ab1, w1)" by fastforce
  have "ab_keeps ab w ab1 w1" using ab_scan_entry_keeps [OF cb Cons.prems(1) _ 1] Cons.prems(2) by simp
  moreover from this have "ab_ok ab1" by (simp add: ab_keeps_def)
  then have "ab_keeps ab1 w1 ab' w'" using Cons.IH [of ab1 w1] Cons.prems(2,3) 1 by simp
  ultimately show ?case by (rule ab_keeps_trans)
qed

subsection \<open>Life of a balancer\<close>

text \<open>
  The history of a balancer: calls of its operations and the slots that the monitor visits, in any
  order.
\<close>

datatype ab_event = Ev_call ab_call | Ev_slot nat nat \<comment> \<open>round and slot\<close>

fun ab_run :: "ab_cb \<Rightarrow> ab_others \<Rightarrow> int \<Rightarrow> ab_event list \<Rightarrow> nkit_auto_balancer \<Rightarrow> os \<Rightarrow> nkit_auto_balancer \<times> os" where
  "ab_run cb others num_nodes [] ab w = (ab, w)"
| "ab_run cb others num_nodes (Ev_call c # evs) ab w = ab_run cb others num_nodes evs (ab_do c ab) w"
| "ab_run cb others num_nodes (Ev_slot n i # evs) ab w =
    (case ab_scan_entry cb others num_nodes n i ab w of (ab1, w1) \<Rightarrow> ab_run cb others num_nodes evs ab1 w1)"

text \<open>The monitor finishes the slots that are left of its round and returns to the head of its loop.\<close>

definition ab_rest :: "ab_cb \<Rightarrow> ab_others \<Rightarrow> int \<Rightarrow> u64 \<times> u64 \<Rightarrow> nat \<Rightarrow> nat list \<Rightarrow> nkit_auto_balancer \<Rightarrow> os \<Rightarrow>
    (nkit_auto_balancer \<times> os) option" where
  "ab_rest cb others num_nodes ts n js ab w =
    (case ab_scan cb others num_nodes n js ab w of (ab1, w1) \<Rightarrow> ab_monitor_loop cb others num_nodes ts (Suc n) ab1 w1)"

fun ev_ok :: "ab_event \<Rightarrow> bool" where
  "ev_ok (Ev_call c) = True"
| "ev_ok (Ev_slot n i) = (i < AB_MAX_THREADS)"

lemma ab_run_keeps:
  assumes cb: "cb_ok cb"
  shows "ab_ok ab \<Longrightarrow> \<forall>ev \<in> set evs. ev_ok ev \<Longrightarrow> ab_run cb (ab_calls calls) num_nodes evs ab w = (ab', w') \<Longrightarrow> ab_keeps ab w ab' w'"
proof (induction evs arbitrary: ab w)
  case Nil
  then show ?case by (simp add: ab_keeps_def)
next
  case (Cons ev evs)
  obtain ab1 w1 where 1: "ab_keeps ab w ab1 w1" "ab_run cb (ab_calls calls) num_nodes evs ab1 w1 = (ab', w')"
  proof (cases ev)
    case (Ev_call c)
    have "ab_keeps ab w (ab_do c ab) w" using ab_do_ok [OF Cons.prems(1)] ab_do_stop by (simp add: ab_keeps_def)
    then show thesis using that Cons.prems(3) Ev_call by simp
  next
    case (Ev_slot n i)
    obtain ab1 w1 where e: "ab_scan_entry cb (ab_calls calls) num_nodes n i ab w = (ab1, w1)" by fastforce
    have "ab_keeps ab w ab1 w1" using ab_scan_entry_keeps [OF cb Cons.prems(1) _ e] Cons.prems(2) Ev_slot by simp
    then show thesis using that Cons.prems(3) Ev_slot e by simp
  qed
  have "ab_ok ab1" using 1(1) by (simp add: ab_keeps_def)
  from ab_keeps_trans [OF 1(1) Cons.IH [OF this _ 1(2)]] Cons.prems(2) show ?case by simp
qed

lemma close_entries_none: "\<forall>e \<in> set es. en_fd_miss e = - 1 \<and> en_fd_instr e = - 1 \<Longrightarrow> close_entries es w = w"
  by (induction es) simp_all
subsection \<open>A round without interference\<close>

lemma find_target_range:
  assumes "0 \<le> c" and "c < n"
  shows "0 \<le> find_target_node c n \<and> find_target_node c n < n"
  using assms by (auto simp: find_target_node_def signed_modulo_int_def signed_divide_int_def minus_div_mult_eq_mod)

text \<open>The slots in \<open>M\<close> were moved on by one node, the others are as before.\<close>

definition ab_moved :: "int \<Rightarrow> nkit_auto_balancer \<Rightarrow> nat set \<Rightarrow> nkit_auto_balancer \<Rightarrow> bool" where
  "ab_moved num_nodes ab M ab' \<longleftrightarrow> length (ab_entries ab') = length (ab_entries ab) \<and>
     ab_migration_count ab' = ab_migration_count ab + of_nat (card M) \<and>
     (\<forall>i < length (ab_entries ab). let e = ab_entry_at ab i; to_node = find_target_node (en_current_node e) num_nodes in
        if i \<in> M then en_active e \<and> to_node \<noteq> en_current_node e \<and> ab_entry_at ab' i = e\<lparr>en_current_node := to_node\<rparr>
        else ab_entry_at ab' i = e)"

abbreviation ab_quiet :: ab_others where
  "ab_quiet \<equiv> ab_calls (\<lambda>_ _. [])"

lemma ab_quiet_id: "ab_quiet n slot ab = ab"
  by (simp add: ab_calls_def)

lemma ab_scan_entry_moves:
  assumes cb: "cb_ok cb" and i: "i < length (ab_entries ab)" and run: "ab_scan_entry cb ab_quiet num_nodes n i ab w = (ab', w')"
  shows "\<exists>M \<subseteq> {i}. ab_moved num_nodes ab M ab'"
proof -
  have same: "ab_moved num_nodes ab {} ab" by (simp add: ab_moved_def)
  let ?e = "ab_entry_at ab i"
  let ?to = "find_target_node (en_current_node ?e) num_nodes"
  obtain s w1 where s: "ab_sample w = (s, w1)" by fastforce
  have "ab' = ab \<or> (\<exists>mpki. en_active ?e \<and> ?to \<noteq> en_current_node ?e \<and> ab_migrate cb i (en_current_node ?e) ?to mpki ab w1 = (ab', w'))"
    using run s by (auto simp: ab_scan_entry_def Let_def ab_quiet_id split: if_splits option.splits)
  then show ?thesis
  proof (elim disjE exE conjE)
    fix mpki
    assume a: "en_active ?e" "?to \<noteq> en_current_node ?e" "ab_migrate cb i (en_current_node ?e) ?to mpki ab w1 = (ab', w')"
    from ab_migrate_cases [OF cb a(3)] show ?thesis
    proof (elim conjE disjE)
      assume "ab' = (set_entry i (?e\<lparr>en_current_node := ?to\<rparr>) ab)\<lparr>ab_migration_count := ab_migration_count ab + 1\<rparr>"
      then have "ab_moved num_nodes ab {i} ab'" using a i by (auto simp: ab_moved_def Let_def nth_list_update)
      then show ?thesis by blast
    qed (use same in blast)
  qed (use same in blast)
qed

lemma ab_moved_trans:
  assumes "ab_moved num_nodes ab M1 ab1" and "ab_moved num_nodes ab1 M2 ab2" and "M1 \<inter> M2 = {}" and "finite M1" and "finite M2"
  shows "ab_moved num_nodes ab (M1 \<union> M2) ab2"
proof -
  have c: "card (M1 \<union> M2) = card M1 + card M2" using assms(3-5) by (simp add: card_Un_disjoint)
  have len: "length (ab_entries ab1) = length (ab_entries ab)" "length (ab_entries ab2) = length (ab_entries ab)"
    using assms(1,2) by (simp_all add: ab_moved_def)
  have "let e = ab_entry_at ab i; to_node = find_target_node (en_current_node e) num_nodes in
      if i \<in> M1 \<union> M2 then en_active e \<and> to_node \<noteq> en_current_node e \<and> ab_entry_at ab2 i = e\<lparr>en_current_node := to_node\<rparr>
      else ab_entry_at ab2 i = e" if "i < length (ab_entries ab)" for i
  proof -
    have 1: "if i \<in> M1 then en_active (ab_entry_at ab i) \<and> find_target_node (en_current_node (ab_entry_at ab i)) num_nodes \<noteq> en_current_node (ab_entry_at ab i) \<and>
        ab_entry_at ab1 i = (ab_entry_at ab i)\<lparr>en_current_node := find_target_node (en_current_node (ab_entry_at ab i)) num_nodes\<rparr>
        else ab_entry_at ab1 i = ab_entry_at ab i"
      using assms(1) that by (simp add: ab_moved_def Let_def)
    have 2: "if i \<in> M2 then en_active (ab_entry_at ab1 i) \<and> find_target_node (en_current_node (ab_entry_at ab1 i)) num_nodes \<noteq> en_current_node (ab_entry_at ab1 i) \<and>
        ab_entry_at ab2 i = (ab_entry_at ab1 i)\<lparr>en_current_node := find_target_node (en_current_node (ab_entry_at ab1 i)) num_nodes\<rparr>
        else ab_entry_at ab2 i = ab_entry_at ab1 i"
      using assms(2) that len by (simp add: ab_moved_def Let_def)
    consider "i \<in> M1" "i \<notin> M2" | "i \<notin> M1" "i \<in> M2" | "i \<notin> M1" "i \<notin> M2" using assms(3) by blast
    then show ?thesis by cases (use 1 2 in \<open>simp_all add: Let_def\<close>)
  qed
  moreover have "ab_migration_count ab2 = ab_migration_count ab + of_nat (card (M1 \<union> M2))"
    using assms(1,2) by (simp add: ab_moved_def c)
  ultimately show ?thesis using len by (simp add: ab_moved_def)
qed

lemma ab_scan_moves:
  assumes cb: "cb_ok cb"
  shows "\<forall>i \<in> set js. i < length (ab_entries ab) \<Longrightarrow> distinct js \<Longrightarrow> ab_scan cb ab_quiet num_nodes n js ab w = (ab', w') \<Longrightarrow>
    \<exists>M \<subseteq> set js. ab_moved num_nodes ab M ab'"
proof (induction js arbitrary: ab w)
  case Nil
  then show ?case by (simp add: ab_moved_def)
next
  case (Cons i js)
  obtain ab1 w1 where 1: "ab_scan_entry cb ab_quiet num_nodes n i ab w = (ab1, w1)" by fastforce
  obtain M1 where M1: "M1 \<subseteq> {i}" "ab_moved num_nodes ab M1 ab1" using ab_scan_entry_moves [OF cb _ 1] Cons.prems(1) by auto
  have len: "length (ab_entries ab1) = length (ab_entries ab)" using M1(2) by (simp add: ab_moved_def)
  obtain M2 where M2: "M2 \<subseteq> set js" "ab_moved num_nodes ab1 M2 ab'" using Cons.IH [of ab1 w1] Cons.prems 1 len by auto
  have fin: "finite M1" "finite M2" using M1(1) M2(1) finite_subset by auto
  have "M1 \<inter> M2 = {}" using M1(1) M2(1) Cons.prems(2) by auto
  from ab_moved_trans [OF M1(2) M2(2) this fin] M1(1) M2(1) show ?case by (intro exI [of _ "M1 \<union> M2"]) auto
qed
subsection \<open>Properties\<close>

text \<open>
  C18. The registry is a collection of at most 64 threads. Registration adds the thread with its node,
  and fails, without effect, exactly when 64 threads are registered; unregistration takes one entry of
  the thread out, and fails, without effect, exactly when it has none.
\<close>

theorem ab_registry:
  assumes ok: "ab_ok ab"
  shows "(case nkit_auto_balancer_register (Some ab) tid node of (r, h) \<Rightarrow> \<exists>ab'. h = Some ab' \<and> ab_ok ab' \<and>
      (if size (ab_threads ab) < AB_MAX_THREADS then r = 0 \<and> ab_threads ab' = ab_threads ab + {#(tid, node)#}
       else r = - 1 \<and> ab' = ab)) \<and>
    (case nkit_auto_balancer_unregister (Some ab) tid of (r, h) \<Rightarrow> \<exists>ab'. h = Some ab' \<and> ab_ok ab' \<and>
      (if \<exists>nd. (tid, nd) \<in># ab_threads ab then r = 0 \<and> (\<exists>nd. ab_threads ab = ab_threads ab' + {#(tid, nd)#})
       else r = - 1 \<and> ab' = ab))"
proof (rule conjI)
  have len: "length (ab_entries ab) = AB_MAX_THREADS" using ok by (simp add: ab_ok_def)
  show "case nkit_auto_balancer_register (Some ab) tid node of (r, h) \<Rightarrow> \<exists>ab'. h = Some ab' \<and> ab_ok ab' \<and>
      (if size (ab_threads ab) < AB_MAX_THREADS then r = 0 \<and> ab_threads ab' = ab_threads ab + {#(tid, node)#}
       else r = - 1 \<and> ab' = ab)"
  proof (cases "find_slot (\<lambda>e. \<not> en_active e) ab [0..<AB_MAX_THREADS]")
    case None
    then have "\<forall>i < AB_MAX_THREADS. en_active (ab_entry_at ab i)" by (simp add: find_slot_None)
    then show ?thesis using None threads_full [OF ok] ok by (simp add: nkit_auto_balancer_register_def)
  next
    case (Some i)
    then have i: "i < AB_MAX_THREADS" "\<not> en_active (ab_entry_at ab i)" using find_slot_Some [OF Some] by simp_all
    then have "size (ab_threads ab) < AB_MAX_THREADS" using threads_full [OF ok] by force
    then show ?thesis
      using Some i len ok threads_set_entry [of i ab] by (auto simp: nkit_auto_balancer_register_def intro!: set_entry_ok)
  qed
  have mem: "(\<exists>nd. (tid, nd) \<in># ab_threads ab) \<longleftrightarrow> (\<exists>i < AB_MAX_THREADS. en_active (ab_entry_at ab i) \<and> en_tid (ab_entry_at ab i) = tid)"
    unfolding ab_threads_def using len by (auto simp: in_set_conv_nth image_iff)
  show "case nkit_auto_balancer_unregister (Some ab) tid of (r, h) \<Rightarrow> \<exists>ab'. h = Some ab' \<and> ab_ok ab' \<and>
      (if \<exists>nd. (tid, nd) \<in># ab_threads ab then r = 0 \<and> (\<exists>nd. ab_threads ab = ab_threads ab' + {#(tid, nd)#})
       else r = - 1 \<and> ab' = ab)"
  proof (cases "find_slot (\<lambda>e. en_active e \<and> en_tid e = tid) ab [0..<AB_MAX_THREADS]")
    case None
    then have "\<not> (\<exists>nd. (tid, nd) \<in># ab_threads ab)" unfolding mem by (auto simp: find_slot_None)
    then show ?thesis using None ok by (simp add: nkit_auto_balancer_unregister_def)
  next
    case (Some i)
    then have i: "i < AB_MAX_THREADS" "en_active (ab_entry_at ab i)" "en_tid (ab_entry_at ab i) = tid" using find_slot_Some [OF Some] by simp_all
    let ?ab' = "set_entry i ((ab_entry_at ab i)\<lparr>en_active := False\<rparr>) ab"
    have "ab_threads ab = ab_threads ?ab' + {#(tid, en_current_node (ab_entry_at ab i))#}"
      using threads_set_entry [of i ab "(ab_entry_at ab i)\<lparr>en_active := False\<rparr>"] i len by simp
    moreover have "\<exists>nd. (tid, nd) \<in># ab_threads ab" unfolding mem using i by blast
    moreover have "ab_ok ?ab'" using ok entry_fds [OF ok i(1)] by (intro set_entry_ok) simp_all
    ultimately show ?thesis using Some by (auto simp: nkit_auto_balancer_unregister_def)
  qed
qed

definition demo_ab :: nkit_auto_balancer where
  "demo_ab = \<lparr>ab_addr = 8192, ab_monitor_thread = 0, ab_stop = False, ab_interval_ms = 500, ab_mpki_threshold = Fin 50,
     ab_callback = NULL, ab_entries = replicate AB_MAX_THREADS new_entry, ab_migration_count = 0\<rparr>"

lemma demo_ab_ok: "ab_ok demo_ab" "ab_threads demo_ab = {#}"
  by (simp_all add: ab_ok_def demo_ab_def new_entry_def ab_threads_def AB_MAX_THREADS_def)

theorem ab_registry_witness:
  "\<exists>ab'. nkit_auto_balancer_register (Some demo_ab) 7 1 = (0, Some ab') \<and> ab_threads ab' = {#(7, 1)#} \<and>
     fst (nkit_auto_balancer_unregister (Some demo_ab) 7) = - 1"
proof -
  have "size (ab_threads demo_ab) < AB_MAX_THREADS" by (simp add: demo_ab_ok AB_MAX_THREADS_def)
  then show ?thesis using ab_registry [OF demo_ab_ok(1), of 7 1] demo_ab_ok(2) by (auto split: prod.splits)
qed


lemma cb_ok_skip: "cb_ok (\<lambda>f tid a b mpki w. w)"
  by (simp add: cb_ok_def)


text \<open>
  C17. A balancer can be destroyed at any time. Creation answers \<^const>\<open>NULL\<close> and keeps nothing, or gives a
  balancer; after any sequence of registrations, unregistrations and visits of the monitor to slots,
  with the monitor anywhere in a round and other threads still calling, \<^verbatim>\<open>nkit_auto_balancer_destroy\<close>
  returns, since the monitor finishes its round and stops, and all that was allocated is released,
  nothing twice.
\<close>

theorem ab_life:
  assumes cb: "cb_ok cb" and evs: "\<forall>ev \<in> set evs. ev_ok ev" and js: "\<forall>j \<in> set js. j < AB_MAX_THREADS"
  shows "case nkit_auto_balancer_create ms th callback w of
      (None, w1) \<Rightarrow> ledger w1 = ledger w
    | (Some ab, w1) \<Rightarrow>
      (case ab_run cb (ab_calls calls) num_nodes evs ab w1 of (ab2, w2) \<Rightarrow>
       \<exists>w3. nkit_auto_balancer_destroy (ab_rest cb (ab_calls calls) num_nodes ts n js) (Some ab2) w2 = Some w3 \<and> ledger w3 = ledger w)"
proof -
  obtain h w1 where c: "nkit_auto_balancer_create ms th callback w = (h, w1)" by fastforce
  obtain p v where 1: "os_calloc 1 sizeof_auto_balancer w = (p, v)" by fastforce
  obtain rc u where 2: "os_ask_int (Thread_call (Pthread_create p)) v = (rc, u)" by fastforce
  have lu: "ledger u = (os_live w + heap_owns p, os_fault w)" using calloc_owns(1) [OF 1] os_ask_int_keeps(1) [OF 2] by simp
  have free: "ledger (os_free p u) = ledger w" using free_owns [of u "os_live w" p] lu by (simp add: ledger_def)
  show ?thesis
  proof (cases h)
    case None
    then show ?thesis using c 1 2 free calloc_owns(1) [OF 1]
      by (auto simp: nkit_auto_balancer_create_def heap_owns_def ledger_def split: if_splits)
  next
    case (Some ab)
    then have ab: "ab_ok ab" "ab_addr ab = p" "w1 = u"
      using c 1 2 by (auto simp: nkit_auto_balancer_create_def ab_ok_def new_entry_def split: if_splits)
    obtain ab2 w2 where r: "ab_run cb (ab_calls calls) num_nodes evs ab w1 = (ab2, w2)" by fastforce
    have k2: "ab_keeps ab w1 ab2 w2" using ab_run_keeps [OF cb ab(1) evs r] .
    let ?ab = "ab2\<lparr>ab_stop := True\<rparr>"
    have ok2: "ab_ok ?ab" using k2 by (simp add: ab_keeps_def ab_ok_def)
    obtain ab3 w3 where s: "ab_scan cb (ab_calls calls) num_nodes n js ?ab w2 = (ab3, w3)" by fastforce
    have k3: "ab_keeps ?ab w2 ab3 w3" using ab_scan_keeps [OF cb ok2 js s] .
    then have rest: "ab_rest cb (ab_calls calls) num_nodes ts n js ?ab w2 = Some (ab3, w3)"
      using s by (simp add: ab_rest_def ab_monitor_loop.simps ab_keeps_def)
    let ?w4 = "os_do (Thread_call (Pthread_join (ab_monitor_thread ab2))) w3"
    have "\<forall>e \<in> set (take AB_MAX_THREADS (ab_entries ab3)). en_fd_miss e = - 1 \<and> en_fd_instr e = - 1"
      using k3 by (auto simp: ab_keeps_def ab_ok_def dest: in_set_takeD)
    then have d: "nkit_auto_balancer_destroy (ab_rest cb (ab_calls calls) num_nodes ts n js) (Some ab2) w2 = Some (os_free (ab_addr ab3) ?w4)"
      using rest by (simp add: nkit_auto_balancer_destroy_def close_entries_none)
    have "ledger ?w4 = ledger u" "ab_addr ab3 = p" using k2 k3 ab(2,3) by (simp_all add: os_do_keeps ab_keeps_def)
    then have "ledger (os_free (ab_addr ab3) ?w4) = ledger w" using free_owns [of ?w4 "os_live w" p] lu by (simp add: ledger_def)
    then show ?thesis using c Some r d by simp
  qed
qed

theorem ab_life_witness:
  "\<exists>ab w1. nkit_auto_balancer_create 500 (Fin 50) NULL (perf_os 99) = (Some ab, w1) \<and>
     (case ab_run (\<lambda>f tid a b mpki w. w) ab_quiet 2 [Ev_call (Ab_register 7 0), Ev_slot 0 0] ab w1 of (ab2, w2) \<Rightarrow>
      \<exists>w3. nkit_auto_balancer_destroy (ab_rest (\<lambda>f tid a b mpki w. w) ab_quiet 2 (0, 500000000) 0 [1..<AB_MAX_THREADS]) (Some ab2) w2 = Some w3 \<and>
        ledger w3 = ({#}, False))"
proof -
  have "fst (nkit_auto_balancer_create 500 (Fin 50) NULL (perf_os 99)) \<noteq> None"
    by (simp add: nkit_auto_balancer_create_def dbl_le_def os_calloc_def os_alloc_def os_ask_def os_ask_int_def perf_os_def demo_os_def)
  then obtain ab w1 where c: "nkit_auto_balancer_create 500 (Fin 50) NULL (perf_os 99) = (Some ab, w1)" by (auto simp: prod_eq_iff)
  have "ledger (perf_os 99) = ({#}, False)" by (simp add: ledger_def perf_os_def demo_os_def)
  then show ?thesis
    using ab_life [OF cb_ok_skip, where evs = "[Ev_call (Ab_register 7 0), Ev_slot 0 0]" and js = "[1..<AB_MAX_THREADS]" and ms = 500
        and th = "Fin 50" and callback = NULL and w = "perf_os 99" and calls = "\<lambda>_ _. []" and num_nodes = 2 and ts = "(0, 500000000)" and n = 0] c
    by (auto simp: AB_MAX_THREADS_def)
qed

lemma slots_Cons: "[0..<AB_MAX_THREADS] = 0 # [1..<AB_MAX_THREADS]" "replicate AB_MAX_THREADS x = x # replicate 63 x"
  by (simp_all add: AB_MAX_THREADS_def upt_conv_Cons numeral_eq_Suc)

lemma perf_os_simps:
  "os_answer (perf_os n) t (Perf_call (Read_fd fd)) = 8"
  "os_answer (perf_os n) t (Perf_call (Read_value fd)) = (if fd = 3 then 100000 else 1000000)"
  "os_answer (perf_os n) t (Numa_call k) = demo_numa k" "os_answer (perf_os n) t (Thread_call k') = 0"
  by (simp_all add: perf_os_def)

lemma perf_os_read:
  assumes "os_answer w = os_answer (perf_os n)"
  shows "\<exists>w'. read_counter fd w = (8, if fd = 3 then 100000 else 1000000, w') \<and> os_answer w' = os_answer (perf_os n)"
  using assms by (simp add: read_counter_def os_ask_int_def os_ask_def perf_os_simps)

lemma demo_sample: "\<exists>w. ab_sample (perf_os 99) = (Some (100000, 1000000), w) \<and> os_answer w = os_answer (perf_os 99)"
proof -
  obtain w1 where o1: "os_open PERF_COUNT_HW_CACHE_MISSES (perf_os 99) = (3, w1)" "os_answer w1 = os_answer (perf_os 99)" "os_tick w1 = 1"
    by (simp add: os_open_def os_ask_int_def os_ask_def perf_os_def demo_os_def)
  obtain w2 where o: "os_open PERF_COUNT_HW_INSTRUCTIONS w1 = (4, w2)" "os_answer w2 = os_answer (perf_os 99)"
    using o1(2,3) by (simp add: os_open_def os_ask_int_def os_ask_def) (simp add: perf_os_def)
  define w9 where "w9 = os_do (Perf_call (Ioctl 4 PERF_EVENT_IOC_DISABLE)) (os_do (Perf_call (Ioctl 3 PERF_EVENT_IOC_DISABLE))
    (os_do (Thread_call (Nanosleep 0 10000000)) (os_do (Perf_call (Ioctl 4 PERF_EVENT_IOC_ENABLE))
    (os_do (Perf_call (Ioctl 3 PERF_EVENT_IOC_ENABLE)) (os_do (Perf_call (Ioctl 4 PERF_EVENT_IOC_RESET))
    (os_do (Perf_call (Ioctl 3 PERF_EVENT_IOC_RESET)) w2))))))"
  have "os_answer w9 = os_answer (perf_os 99)" using o(2) by (simp add: w9_def os_do_keeps)
  then obtain w10 where r1: "read_counter 3 w9 = (8, 100000, w10)" "os_answer w10 = os_answer (perf_os 99)" using perf_os_read [of w9 99 3] by auto
  then obtain w11 where r2: "read_counter 4 w10 = (8, 1000000, w11)" "os_answer w11 = os_answer (perf_os 99)" using perf_os_read [of w10 99 4] by auto
  have "ab_sample (perf_os 99) = (Some (100000, 1000000), os_close 4 (os_close 3 w11))"
    unfolding ab_sample_def ab_perf_open_def o1(1) o(1) prod.case Let_def w9_def [symmetric] r1(1) r2(1) by simp
  then show ?thesis using r2(2) by (simp add: os_close_def os_simps)
qed

text \<open>
  The monitor acts on threads that are no longer registered: a thread that is unregistered while the
  monitor samples for its slot is moved all the same, after the unregistration has returned and the
  thread may have ended.
\<close>

theorem ab_moves_unregistered:
  "let ab = ab_do (Ab_register 7 0) demo_ab; calls = (\<lambda>n slot. if slot = Some 0 then [Ab_unregister 7] else []) in
   case ab_scan_entry (\<lambda>f tid a b mpki w. w) (ab_calls calls) 2 0 0 ab (perf_os 99) of (ab', w') \<Rightarrow>
     ab_threads ab' = {#} \<and> ab_migration_count ab' = 1 \<and> Thread_call (Pthread_setaffinity 7 [0, 1]) \<in> set (os_trace w')"
proof -
  let ?e = "\<lparr>en_tid = 7, en_current_node = 0, en_fd_miss = - 1, en_fd_instr = - 1, en_active = True\<rparr>"
  define ab where "ab = ab_do (Ab_register 7 0) demo_ab"
  define calls where "calls = (\<lambda>(n::nat) slot. if slot = Some (0::nat) then [Ab_unregister 7] else [])"
  have ab: "ab = demo_ab\<lparr>ab_entries := ?e # replicate 63 new_entry\<rparr>"
    by (simp add: ab_def nkit_auto_balancer_register_def demo_ab_def slots_Cons new_entry_def set_entry_def)
  have un: "ab_calls calls 0 (Some 0) ab = demo_ab\<lparr>ab_entries := ?e\<lparr>en_active := False\<rparr> # replicate 63 new_entry\<rparr>"
    by (simp add: ab_calls_def calls_def ab nkit_auto_balancer_unregister_def slots_Cons set_entry_def)
  obtain w1 where s: "ab_sample (perf_os 99) = (Some (100000, 1000000), w1)" "os_answer w1 = os_answer (perf_os 99)" using demo_sample by blast
  have high: "dbl_less (Fin 50) (mpki_of 100000 1000000)" by (rule mpki_decides(1)) (simp_all add: exact_mpki_def)
  have target: "find_target_node 0 2 = 1" by (simp add: find_target_node_def signed_modulo_int_def signed_divide_int_def)
  define ab1 where "ab1 = ab_calls calls 0 (Some 0) ab"
  have ab1: "ab1 = demo_ab\<lparr>ab_entries := ?e\<lparr>en_active := False\<rparr> # replicate 63 new_entry\<rparr>" unfolding ab1_def by (rule un)
  have act: "en_active (ab_entry_at ab 0)" by (simp add: ab)
  have f: "ab_mpki_threshold ab1 = Fin 50" "en_current_node (ab_entry_at ab1 0) = 0"
    "en_tid (ab_entry_at ab1 0) = 7" "ab_callback ab1 = NULL" "ab_migration_count ab1 = 0"
    "ab_threads (set_entry 0 ((ab_entry_at ab1 0)\<lparr>en_current_node := 1\<rparr>) ab1) = {#}"
    by (simp_all add: ab1 demo_ab_def set_entry_def ab_threads_def new_entry_def)
  have run: "ab_scan_entry (\<lambda>f tid a b mpki w. w) (ab_calls calls) 2 0 0 ab (perf_os 99) =
      ab_migrate (\<lambda>f tid a b mpki w. w) 0 0 1 (mpki_of 100000 1000000) ab1 w1"
    using s(1) high act f(1,2) by (simp add: ab_scan_entry_def ab1_def [symmetric] AB_MIN_INSTRUCTIONS_def Let_def target)
  have cpus: "cpu_set (filter (\<lambda>c. True) (map int [0..<nat 2])) = [0, 1]" by (simp add: cpu_set_def CPU_SETSIZE_def upt_rec)
  have "case ab_migrate (\<lambda>f tid a b mpki w. w) 0 0 1 (mpki_of 100000 1000000) ab1 w1 of (ab', w') \<Rightarrow>
     ab_threads ab' = {#} \<and> ab_migration_count ab' = 1 \<and> Thread_call (Pthread_setaffinity 7 [0, 1]) \<in> set (os_trace w')"
    using s(2) f(3-6) cpus
    by (simp add: ab_migrate_def os_mask_def os_alloc_def os_ask_def os_ask_int_def os_node_to_cpus_def os_free_mask_def os_release_def
        perf_os_simps Let_def ab_threads_def)
  then show ?thesis unfolding Let_def ab_def [symmetric] calls_def [symmetric] run .
qed

end
