(* ===== verification/NK_Hugepage.thy ===== *)
theory NK_Hugepage
  imports NK_Prelude
begin

section \<open>The size of a hugepage (\<^verbatim>\<open>src/memory/hugepage_ops.c\<close>)\<close>

text \<open>
  \<^verbatim>\<open>_nkit_get_hugepage_size\<close> looks for a line of \<^verbatim>\<open>/proc/meminfo\<close>. The file is the parameter of the
  model: its contents, or \<^const>\<open>None\<close> where it cannot be opened. The functions of the C library that the
  code uses are modelled on strings: \<^verbatim>\<open>fgets\<close> into a buffer of 128 bytes, and \<^verbatim>\<open>sscanf\<close> with the format
  \<^verbatim>\<open>"%*s %zu"\<close>, which skips a word and converts a number, with an optional sign and saturating at the
  largest \<^verbatim>\<open>size_t\<close>.
\<close>

definition newline :: char where
  "newline = CHR 0x0A"

definition c_isspace :: "char \<Rightarrow> bool" where
  "c_isspace c \<longleftrightarrow> c \<in> {CHR '' '', CHR 0x09, CHR 0x0A, CHR 0x0B, CHR 0x0C, CHR 0x0D}"

definition c_isdigit :: "char \<Rightarrow> bool" where
  "c_isdigit c \<longleftrightarrow> (48::nat) \<le> of_char c \<and> of_char c \<le> (57::nat)"

definition digit_value :: "char \<Rightarrow> nat" where
  "digit_value c = of_char c - 48"

text \<open>At most \<open>n\<close> bytes, up to and with the end of the line.\<close>

fun fgets :: "nat \<Rightarrow> string \<Rightarrow> string \<times> string" where
  "fgets 0 cs = ([], cs)"
| "fgets (Suc n) [] = ([], [])"
| "fgets (Suc n) (c # cs) = (if c = newline then ([c], cs) else case fgets n cs of (line, rest) \<Rightarrow> (c # line, rest))"

definition scan_word :: "string \<Rightarrow> string option" where
  "scan_word s = (case dropWhile c_isspace s of [] \<Rightarrow> None | t \<Rightarrow> Some (dropWhile (\<lambda>c. \<not> c_isspace c) t))"

definition digits_value :: "string \<Rightarrow> nat" where
  "digits_value ds = foldl (\<lambda>a c. 10 * a + digit_value c) 0 ds"

definition scan_zu :: "string \<Rightarrow> u64 option" where
  "scan_zu s =
    (let t = dropWhile c_isspace s;
         neg = (case t of c # _ \<Rightarrow> c = CHR ''-'' | [] \<Rightarrow> False);
         u = (case t of c # t' \<Rightarrow> if c = CHR ''-'' \<or> c = CHR ''+'' then t' else t | [] \<Rightarrow> t);
         ds = takeWhile c_isdigit u; v = digits_value ds in
     if ds = [] then None
     else Some (if 2 ^ 64 \<le> v then - 1 else if neg then - of_nat v else of_nat v))"

definition sscanf_size :: "string \<Rightarrow> u64 option" where
  "sscanf_size line = (case scan_word line of None \<Rightarrow> None | Some rest \<Rightarrow> scan_zu rest)"

definition hugepage_key :: string where
  "hugepage_key = ''Hugepagesize:''"

lemma fgets_rest: "length (snd (fgets n cs)) \<le> length cs" "cs \<noteq> [] \<Longrightarrow> 0 < n \<Longrightarrow> length (snd (fgets n cs)) < length cs"
  by (induction n cs rule: fgets.induct) (auto split: prod.splits)

lemma fgets_shorter: "cs \<noteq> [] \<Longrightarrow> (line, rest) = fgets 127 cs \<Longrightarrow> length rest < length cs"
  using fgets_rest(2) [of cs 127] by (metis snd_conv zero_less_numeral)

text \<open>The loop over the lines; the size in kilobytes, 0 if no line has one.\<close>

function hugepage_loop :: "string \<Rightarrow> u64" where
  "hugepage_loop cs =
    (if cs = [] then 0 else
     case fgets 127 cs of (line, rest) \<Rightarrow>
     if take 13 line = hugepage_key then
       (case sscanf_size line of Some size_kb \<Rightarrow> size_kb | None \<Rightarrow> hugepage_loop rest)
     else hugepage_loop rest)"
  by pat_completeness auto
termination
  by (relation "measure length") (simp_all add: fgets_shorter)

declare hugepage_loop.simps [simp del]

definition nkit_get_hugepage_size :: "string option \<Rightarrow> u64" where
  "nkit_get_hugepage_size meminfo = (case meminfo of None \<Rightarrow> 0 | Some cs \<Rightarrow> hugepage_loop cs * 1024)"

subsection \<open>Reading back what the kernel prints\<close>

text \<open>A number in decimal digits, as the kernel prints it.\<close>

definition digit :: "nat \<Rightarrow> char" where
  "digit d = char_of (48 + d)"

fun decimal :: "nat \<Rightarrow> string" where
  "decimal n = (if n < 10 then [digit n] else decimal (n div 10) @ [digit (n mod 10)])"

declare decimal.simps [simp del]

lemma digit_simps: "d < 10 \<Longrightarrow> c_isdigit (digit d) \<and> digit_value (digit d) = d \<and> \<not> c_isspace (digit d)"
proof -
  assume d: "d < 10"
  have "of_char (digit d) = (48 + d :: nat)" using d by (simp add: digit_def take_bit_nat_eq_self)
  moreover from this have "digit d \<noteq> c" if "of_char c < (48 :: nat)" for c using that by auto
  ultimately show ?thesis using d by (auto simp: c_isdigit_def digit_value_def c_isspace_def)
qed

lemma decimal_ok: "decimal n \<noteq> [] \<and> (\<forall>c \<in> set (decimal n). c_isdigit c \<and> \<not> c_isspace c) \<and> digits_value (decimal n) = n"
proof (induction n rule: decimal.induct)
  case (1 n)
  show ?case
  proof (cases "n < 10")
    case True
    then show ?thesis using digit_simps [of n] by (simp add: decimal.simps [of n] digits_value_def)
  next
    case False
    then show ?thesis using 1 digit_simps [of "n mod 10"] by (auto simp: decimal.simps [of n] digits_value_def)
  qed
qed

lemma fgets_line:
  assumes "newline \<notin> set l" and "length l < n"
  shows "fgets n (l @ newline # rest) = (l @ [newline], rest)"
  using assms
proof (induction l arbitrary: n)
  case Nil
  then show ?case by (cases n) auto
next
  case (Cons c l)
  then show ?case by (cases n) auto
qed

text \<open>A line of the file, and the line that is looked for.\<close>

definition other_line :: "string \<Rightarrow> bool" where
  "other_line l \<longleftrightarrow> newline \<notin> set l \<and> length l < 127 \<and> take 13 (l @ [newline]) \<noteq> hugepage_key"

definition hugepage_line :: "nat \<Rightarrow> nat \<Rightarrow> string" where
  "hugepage_line k kb = hugepage_key @ replicate k (CHR '' '') @ decimal kb @ '' kB''"

lemma key_chars: "\<forall>c \<in> set hugepage_key. \<not> c_isspace c \<and> c \<noteq> newline" "length hugepage_key = 13"
  by (simp_all add: hugepage_key_def c_isspace_def newline_def)

lemma space_chars: "c_isspace (CHR '' '')" "\<not> c_isdigit (CHR '' '')" "CHR '' '' \<noteq> newline"
  by (simp_all add: c_isspace_def c_isdigit_def newline_def)

lemma drop_spaces: "c_isspace c \<Longrightarrow> dropWhile c_isspace (replicate k c @ xs) = dropWhile c_isspace xs"
  by (induction k) simp_all

lemma sscanf_hugepage:
  assumes "0 < k" and "kb < 2 ^ 64"
  shows "sscanf_size (hugepage_line k kb @ [newline]) = Some (of_nat kb)"
proof -
  note D = decimal_ok [of kb]
  let ?tail = "decimal kb @ '' kB'' @ [newline]"
  have word: "scan_word (hugepage_line k kb @ [newline]) = Some (replicate k (CHR '' '') @ ?tail)"
  proof -
    have 1: "dropWhile c_isspace (hugepage_key @ xs) = hugepage_key @ xs" for xs
      by (simp add: hugepage_key_def c_isspace_def)
    have 2: "dropWhile (\<lambda>c. \<not> c_isspace c) (hugepage_key @ replicate k (CHR '' '') @ xs) = replicate k (CHR '' '') @ xs" for xs
      using key_chars(1) assms(1) space_chars by (cases k) (simp_all add: dropWhile_append2)
    show ?thesis using 1 [of "replicate k (CHR '' '') @ ?tail"] 2 [of ?tail]
      by (simp add: scan_word_def hugepage_line_def) (simp add: hugepage_key_def)
  qed
  obtain d ds where ds: "decimal kb = d # ds" using D by (cases "decimal kb") auto
  have d: "c_isdigit d" "\<not> c_isspace d" using D ds by auto
  have drop: "dropWhile c_isspace (replicate k (CHR '' '') @ ?tail) = ?tail"
    using d(2) drop_spaces [OF space_chars(1)] by (simp add: ds)
  have sign: "d \<noteq> CHR ''-''" "d \<noteq> CHR ''+''" using d(1) by (auto simp: c_isdigit_def)
  have take: "takeWhile c_isdigit ?tail = decimal kb" using D space_chars by (simp add: takeWhile_append2)
  have "scan_zu (replicate k (CHR '' '') @ ?tail) = Some (of_nat kb)"
    using drop take D sign assms(2) ds by (simp add: scan_zu_def Let_def)
  then show ?thesis by (simp add: sscanf_size_def word)
qed

lemma hugepage_line_chars: "newline \<notin> set (hugepage_line k kb)" "take 13 (hugepage_line k kb @ xs) = hugepage_key"
  using key_chars decimal_ok [of kb] space_chars
  by (auto simp: hugepage_line_def newline_def c_isspace_def)

subsection \<open>Properties\<close>

text \<open>
  C39. The size is read back. Where the lines before it are others, of at most 126 characters, a line
  \<^verbatim>\<open>Hugepagesize:\<close> with a number of kilobytes is found by the loop, which always ends, and the result is that
  number in bytes.
\<close>

theorem hugepage_size_read:
  assumes lines: "\<forall>l \<in> set ls. other_line l" and "0 < k" and kb: "kb < 2 ^ 64" and "length (hugepage_line k kb) < 127"
  shows "nkit_get_hugepage_size (Some (concat (map (\<lambda>l. l @ [newline]) ls) @ hugepage_line k kb @ newline # rest)) = of_nat kb * 1024"
proof -
  have "hugepage_loop (concat (map (\<lambda>l. l @ [newline]) ls) @ hugepage_line k kb @ newline # rest) = of_nat kb"
    using lines
  proof (induction ls)
    case Nil
    have "fgets 127 (hugepage_line k kb @ newline # rest) = (hugepage_line k kb @ [newline], rest)"
      using hugepage_line_chars(1) assms(4) by (rule fgets_line)
    then show ?case
      using sscanf_hugepage [OF assms(2) kb] hugepage_line_chars(2) by (subst hugepage_loop.simps) simp
  next
    case (Cons l ls)
    let ?rest = "concat (map (\<lambda>l. l @ [newline]) ls) @ hugepage_line k kb @ newline # rest"
    have "other_line l" using Cons.prems by simp
    then have "fgets 127 (l @ newline # ?rest) = (l @ [newline], ?rest)" "take 13 (l @ [newline]) \<noteq> hugepage_key"
      by (auto simp: other_line_def intro: fgets_line)
    then have "hugepage_loop (l @ newline # ?rest) = hugepage_loop ?rest" by (subst hugepage_loop.simps) simp
    then show ?case using Cons by simp
  qed
  then show ?thesis by (simp add: nkit_get_hugepage_size_def)
qed

theorem hugepage_size_read_witness:
  "nkit_get_hugepage_size (Some (''MemTotal:       16384 kB'' @ [newline] @ ''Hugepagesize:     2048 kB'' @ [newline])) = 2097152"
proof -
  have "other_line ''MemTotal:       16384 kB''" by (simp add: other_line_def newline_def hugepage_key_def)
  moreover have line: "hugepage_line 5 2048 = ''Hugepagesize:     2048 kB''"
    by code_simp
  ultimately show ?thesis
    using hugepage_size_read [of "[''MemTotal:       16384 kB'']" 5 2048 "[]"] by (simp add: line)
qed

end
