(* ===== verification/NK_Migrate.thy ===== *)
theory NK_Migrate
  imports NK_Affinity
begin

section \<open>Page migration (\<^verbatim>\<open>src/memory/migrate.c\<close>)\<close>

text \<open>
  The range is extended down to a page boundary and handed to \<^verbatim>\<open>mbind\<close> with a mask that holds the
  target node; setting a bit with a negative index leaves the mask empty. Writing into a mask that could not be
  allocated is a fault. The second result is the \<^verbatim>\<open>errno\<close> that the function itself sets.
\<close>

definition nkit_memory_migrate :: "ptr \<Rightarrow> u64 \<Rightarrow> int \<Rightarrow> os \<Rightarrow> int \<times> int option \<times> os" where
  "nkit_memory_migrate p sz target_node w =
    (case os_ask_int Numa_available w of (avail, w1) \<Rightarrow>
     if avail < 0 then (- 1, Some EINVAL, w1) else
     case os_ask_int Numa_max_node w1 of (max_node, w2) \<Rightarrow>
     if target_node > max_node then (- 1, Some EINVAL, w2) else
     case os_ask Sysconf_pagesize w2 of (page_size, w3) \<Rightarrow>
     let aligned_ptr = p AND NOT (page_size - 1);
         offset = p - aligned_ptr;
         aligned_size = sz + offset in
     case os_mask w3 of (nodemask, w4) \<Rightarrow>
     let w5 = (if nodemask = NULL then os_invalid w4 else w4) in
     case os_ask_int (Mbind_node aligned_ptr aligned_size target_node) w5 of (ret, w6) \<Rightarrow>
     let w7 = os_free_mask nodemask w6 in
     (if ret \<noteq> 0 then - 1 else 0, None, w7))"

subsection \<open>The documented page size and mask allocation\<close>

definition page_ok :: "nat \<Rightarrow> os \<Rightarrow> bool" where
  "page_ok k w \<longleftrightarrow> k < 64 \<and> (\<forall>t. os_answer w t Sysconf_pagesize = 2 ^ k) \<and> (\<forall>t. os_answer w t (Numa_call Allocate_mask) \<noteq> NULL)"

lemma page_down:
  fixes p :: u64
  assumes "k < 64"
  shows "2 ^ k dvd unat (p AND NOT (2 ^ k - 1))" and "unat (p AND NOT (2 ^ k - 1)) \<le> unat p" and "unat p - unat (p AND NOT (2 ^ k - 1)) < 2 ^ k"
proof -
  have e: "unat (p AND NOT (2 ^ k - 1)) = unat p div 2 ^ k * 2 ^ k"
    using unat_and_not_mask [of p k] assms by (simp add: mask_eq_exp_minus_1)
  show "2 ^ k dvd unat (p AND NOT (2 ^ k - 1))" "unat (p AND NOT (2 ^ k - 1)) \<le> unat p" by (simp_all add: e)
  show "unat p - unat (p AND NOT (2 ^ k - 1)) < 2 ^ k" by (simp add: e minus_div_mult_eq_mod)
qed

subsection \<open>Properties\<close>



end
