(* ===== verification/NK_Ring_Mpmc.thy ===== *)
theory NK_Ring_Mpmc
  imports NK_Ring NK_Mutex
begin

section \<open>The ring buffer under concurrency (\<^verbatim>\<open>include/numakit/structs/ring_buffer.h\<close>)\<close>

text \<open>
  Any number of producers and consumers, one step per access to shared memory: \<open>head\<close>, \<open>tail\<close>, and the
  sequence number and the data of a cell. A weak compare-and-swap may fail for no reason. The local
  variables of a call are in its program counter. \<open>rs_items\<close> lists the items in the order in which
  their positions were claimed, \<open>rs_claims\<close> counts the positions that consumers claimed, and
  \<open>rs_out\<close> lists the positions and items of the pops that returned.
\<close>

datatype ring_pc =
    Rg_idle
  | Rpush_seq u64 ptr
  | Rpush_cas u64 ptr
  | Rpush_data u64 ptr
  | Rpush_publish u64 ptr
  | Rpush_reload ptr
  | Rpop_seq u64
  | Rpop_cas u64
  | Rpop_data u64
  | Rpop_release u64 ptr
  | Rpop_reload

record ring_sys =
  rs_ring :: nkit_ring
  rs_pc :: "nat \<Rightarrow> ring_pc"
  rs_items :: "ptr list"
  rs_claims :: nat
  rs_out :: "(nat \<times> ptr) list"

definition rs_go :: "nat \<Rightarrow> ring_pc \<Rightarrow> ring_sys \<Rightarrow> ring_sys" where
  "rs_go i p s = s\<lparr>rs_pc := (rs_pc s)(i := p)\<rparr>"

definition ring_slot :: "nkit_ring \<Rightarrow> u64 \<Rightarrow> nat" where
  "ring_slot ring pos = unat (pos AND rg_mask ring)"

definition ring_cell :: "nkit_ring \<Rightarrow> u64 \<Rightarrow> nkit_cell" where
  "ring_cell ring pos = rg_cells ring ! ring_slot ring pos"

definition set_cell :: "u64 \<Rightarrow> nkit_cell \<Rightarrow> nkit_ring \<Rightarrow> nkit_ring" where
  "set_cell pos c ring = ring\<lparr>rg_cells := (rg_cells ring)[ring_slot ring pos := c]\<rparr>"

inductive nkit_ring_push_step :: "nat \<Rightarrow> ring_sys \<Rightarrow> ring_sys \<Rightarrow> bool" where
  push_head: "rs_pc s i = Rg_idle \<Longrightarrow> nkit_ring_push_step i s (rs_go i (Rpush_seq (rg_head (rs_ring s)) x) s)"
| push_seq: "rs_pc s i = Rpush_seq pos x \<Longrightarrow> diff = sint (c_sequence (ring_cell (rs_ring s) pos) - pos) \<Longrightarrow>
    nkit_ring_push_step i s (rs_go i (if diff = 0 then Rpush_cas pos x else if diff < 0 then Rg_idle else Rpush_reload x) s)"
| push_reload: "rs_pc s i = Rpush_reload x \<Longrightarrow> nkit_ring_push_step i s (rs_go i (Rpush_seq (rg_head (rs_ring s)) x) s)"
| push_lost: "rs_pc s i = Rpush_cas pos x \<Longrightarrow> nkit_ring_push_step i s (rs_go i (Rpush_seq (rg_head (rs_ring s)) x) s)"
| push_won: "rs_pc s i = Rpush_cas pos x \<Longrightarrow> rg_head (rs_ring s) = pos \<Longrightarrow> nkit_ring_push_step i s
    (rs_go i (Rpush_data pos x) (s\<lparr>rs_ring := (rs_ring s)\<lparr>rg_head := pos + 1\<rparr>, rs_items := rs_items s @ [x]\<rparr>))"
| push_data: "rs_pc s i = Rpush_data pos x \<Longrightarrow> nkit_ring_push_step i s
    (rs_go i (Rpush_publish pos x) (s\<lparr>rs_ring := set_cell pos ((ring_cell (rs_ring s) pos)\<lparr>c_data := x\<rparr>) (rs_ring s)\<rparr>))"
| push_publish: "rs_pc s i = Rpush_publish pos x \<Longrightarrow> nkit_ring_push_step i s
    (rs_go i Rg_idle (s\<lparr>rs_ring := set_cell pos ((ring_cell (rs_ring s) pos)\<lparr>c_sequence := pos + 1\<rparr>) (rs_ring s)\<rparr>))"

inductive nkit_ring_pop_step :: "nat \<Rightarrow> ring_sys \<Rightarrow> ring_sys \<Rightarrow> bool" where
  pop_tail: "rs_pc s i = Rg_idle \<Longrightarrow> nkit_ring_pop_step i s (rs_go i (Rpop_seq (rg_tail (rs_ring s))) s)"
| pop_seq: "rs_pc s i = Rpop_seq pos \<Longrightarrow> diff = sint (c_sequence (ring_cell (rs_ring s) pos) - (pos + 1)) \<Longrightarrow>
    nkit_ring_pop_step i s (rs_go i (if diff = 0 then Rpop_cas pos else if diff < 0 then Rg_idle else Rpop_reload) s)"
| pop_reload: "rs_pc s i = Rpop_reload \<Longrightarrow> nkit_ring_pop_step i s (rs_go i (Rpop_seq (rg_tail (rs_ring s))) s)"
| pop_lost: "rs_pc s i = Rpop_cas pos \<Longrightarrow> nkit_ring_pop_step i s (rs_go i (Rpop_seq (rg_tail (rs_ring s))) s)"
| pop_won: "rs_pc s i = Rpop_cas pos \<Longrightarrow> rg_tail (rs_ring s) = pos \<Longrightarrow> nkit_ring_pop_step i s
    (rs_go i (Rpop_data pos) (s\<lparr>rs_ring := (rs_ring s)\<lparr>rg_tail := pos + 1\<rparr>, rs_claims := rs_claims s + 1\<rparr>))"
| pop_data: "rs_pc s i = Rpop_data pos \<Longrightarrow> nkit_ring_pop_step i s (rs_go i (Rpop_release pos (c_data (ring_cell (rs_ring s) pos))) s)"
| pop_release: "rs_pc s i = Rpop_release pos x \<Longrightarrow> nkit_ring_pop_step i s
    (rs_go i Rg_idle (s\<lparr>rs_ring := set_cell pos ((ring_cell (rs_ring s) pos)\<lparr>c_sequence := pos + rg_mask (rs_ring s) + 1\<rparr>) (rs_ring s),
       rs_out := rs_out s @ [(unat pos, x)]\<rparr>))"

definition ring_step :: "nat \<Rightarrow> ring_sys \<Rightarrow> ring_sys \<Rightarrow> bool" where
  "ring_step i s s' \<longleftrightarrow> nkit_ring_push_step i s s' \<or> nkit_ring_pop_step i s s'"

definition ring_start :: "nkit_ring \<Rightarrow> ring_sys" where
  "ring_start r = \<lparr>rs_ring = r, rs_pc = (\<lambda>_. Rg_idle), rs_items = [], rs_claims = 0, rs_out = []\<rparr>"

abbreviation ring_reach :: "nkit_ring \<Rightarrow> ring_sys \<Rightarrow> bool" where
  "ring_reach r \<equiv> reach (\<lambda>s. s = ring_start r) ring_step"

subsection \<open>Turns of the cells\<close>

text \<open>
  \<open>W\<close> is the set of the positions whose producer has claimed them and not yet published the item,
  \<open>R\<close> that of the positions whose consumer has not yet released the cell. The cell of the position
  \<open>q\<close> that will be claimed next for it is free for \<open>q\<close>, or still serves position \<open>q - 2 ^ k\<close>.
\<close>

definition ring_free :: "nat \<Rightarrow> nat \<Rightarrow> nat set \<Rightarrow> nat \<Rightarrow> bool" where
  "ring_free k T R q \<longleftrightarrow> q < 2 ^ k \<or> (q - 2 ^ k < T \<and> q - 2 ^ k \<notin> R)"

definition turn_ok :: "nat \<Rightarrow> ptr list \<Rightarrow> nat \<Rightarrow> nat set \<Rightarrow> nat set \<Rightarrow> nat \<Rightarrow> nkit_cell \<Rightarrow> bool" where
  "turn_ok k items T W R q c \<longleftrightarrow>
    (if ring_free k T R q then c_sequence c = of_nat q
     else if q - 2 ^ k \<in> W then c_sequence c = of_nat (q - 2 ^ k)
     else c_sequence c = of_nat (q - 2 ^ k + 1) \<and> c_data c = items ! (q - 2 ^ k))"

definition ring_core :: "nat \<Rightarrow> nkit_ring \<Rightarrow> ptr list \<Rightarrow> nat \<Rightarrow> nat set \<Rightarrow> nat set \<Rightarrow> (nat \<times> ptr) list \<Rightarrow> bool" where
  "ring_core k ring items T W R out \<longleftrightarrow>
    0 < k \<and> k < 64 \<and> rg_mask ring = 2 ^ k - 1 \<and> length (rg_cells ring) = 2 ^ k \<and>
    rg_head ring = of_nat (length items) \<and> rg_tail ring = of_nat T \<and>
    T \<le> length items \<and> length items \<le> T + 2 ^ k \<and>
    (\<forall>p \<in> W. T \<le> p \<and> p < length items) \<and> (\<forall>p \<in> R. p < T \<and> length items \<le> p + 2 ^ k) \<and>
    (\<forall>q. length items \<le> q \<and> q < length items + 2 ^ k \<longrightarrow> turn_ok k items T W R q (rg_cells ring ! (q mod 2 ^ k))) \<and>
    distinct (map fst out) \<and> fst ` set out = {..<T} - R \<and> (\<forall>(t, x) \<in> set out. x = items ! t)"

lemma ring_coreD:
  assumes "ring_core k ring items T W R out"
  shows "k < 64" "rg_mask ring = 2 ^ k - 1" "length (rg_cells ring) = 2 ^ k"
    "rg_head ring = of_nat (length items)" "rg_tail ring = of_nat T" "T \<le> length items" "length items \<le> T + 2 ^ k"
    "\<And>p. p \<in> W \<Longrightarrow> T \<le> p \<and> p < length items" "\<And>p. p \<in> R \<Longrightarrow> p < T \<and> length items \<le> p + 2 ^ k"
    "\<And>q. length items \<le> q \<Longrightarrow> q < length items + 2 ^ k \<Longrightarrow> turn_ok k items T W R q (rg_cells ring ! (q mod 2 ^ k))"
    "distinct (map fst out)" "fst ` set out = {..<T} - R" "\<And>t x. (t, x) \<in> set out \<Longrightarrow> x = items ! t"
    "0 < k"
  using assms unfolding ring_core_def by blast+

lemma near_mod:
  fixes p q n :: nat
  assumes "p mod n = q mod n" and "p < q + n" and "q < p + n"
  shows "p = q"
proof -
  have "p = q" if "p \<le> q" "q < p + n" "p mod n = q mod n" for p q :: nat
  proof -
    have "q - p < n" "0 < n" using that by auto
    then show ?thesis using slots_distinct [of p 0 n "q - p"] that by auto
  qed
  from this [of p q] this [of q p] assms show ?thesis by (cases "p \<le> q") auto
qed

lemma ring_slot_of:
  assumes "ring_core k ring items T W R out"
  shows "ring_slot ring pos = unat pos mod 2 ^ k" and "ring_slot ring pos < length (rg_cells ring)"
proof -
  note D = ring_coreD(1-3) [OF assms]
  show *: "ring_slot ring pos = unat pos mod 2 ^ k" using unat_of_nat_and_mask [of k "unat pos"] D(1,2) by (simp add: ring_slot_def)
  show "ring_slot ring pos < length (rg_cells ring)" by (simp add: * D(3))
qed

text \<open>The cell of a position that a producer or a consumer may look at, in terms of its turn.\<close>

lemma ring_turn:
  assumes core: "ring_core k ring items T W R out" and p: "p < length items" "length items \<le> p + 2 ^ k"
  shows "turn_ok k items T W R (p + 2 ^ k) (rg_cells ring ! (p mod 2 ^ k))"
  using ring_coreD(10) [OF core, of "p + 2 ^ k"] p by simp

lemma ring_core_claim_push:
  assumes core: "ring_core k ring items T W R out" and free: "ring_free k T R (length items)"
  shows "ring_core k (ring\<lparr>rg_head := of_nat (length items) + 1\<rparr>) (items @ [x]) T (insert (length items) W) R out"
proof -
  note D = ring_coreD [OF core]
  let ?H = "length items"
  have turn: "turn_ok k (items @ [x]) T (insert ?H W) R q (rg_cells ring ! (q mod 2 ^ k))" if q: "?H + 1 \<le> q" "q < ?H + 1 + 2 ^ k" for q
  proof (cases "q = ?H + 2 ^ k")
    case True
    have "c_sequence (rg_cells ring ! (?H mod 2 ^ k)) = of_nat ?H" using D(10) [of ?H] free by (simp add: turn_ok_def)
    then show ?thesis using True D(6) by (auto simp: turn_ok_def ring_free_def)
  next
    case False
    then have "turn_ok k items T W R q (rg_cells ring ! (q mod 2 ^ k))" using D(10) q by simp
    moreover have "q < 2 ^ k \<or> q - 2 ^ k < ?H" using False q by auto
    ultimately show ?thesis by (auto simp: turn_ok_def nth_append ring_free_def split: if_splits)
  qed
  have R: "length items + 1 \<le> p + 2 ^ k" if "p \<in> R" for p
    using D(9) [OF that] free that by (cases "length items = p + 2 ^ k") (auto simp: ring_free_def)
  have H: "?H + 1 \<le> T + 2 ^ k" using free D(7) by (auto simp: ring_free_def)
  have out: "y = (items @ [x]) ! t" if "(t, y) \<in> set out" for t y
  proof -
    have "t < T" using D(12) that by force
    then show ?thesis using D(6,13) that by (auto simp: nth_append)
  qed
  have W: "T \<le> p \<and> p < ?H + 1" if "p \<in> W" for p using D(8) [OF that] by simp
  show ?thesis unfolding ring_core_def
    using D(1-3,5,6,9,11,12,14) W turn R H out by (auto simp: le_SucI)
qed

lemma ring_core_claim_pop:
  assumes core: "ring_core k ring items T W R out" and full: "T < length items" "T \<notin> W"
  shows "ring_core k (ring\<lparr>rg_tail := of_nat T + 1\<rparr>) items (T + 1) W (insert T R) out"
proof -
  note D = ring_coreD [OF core]
  have turn: "turn_ok k items (T + 1) W (insert T R) q (rg_cells ring ! (q mod 2 ^ k))" if q: "length items \<le> q" "q < length items + 2 ^ k" for q
  proof -
    have "ring_free k (T + 1) (insert T R) q = ring_free k T R q" by (auto simp: ring_free_def)
    then show ?thesis using D(10) [OF q] by (simp add: turn_ok_def)
  qed
  have W: "T + 1 \<le> p \<and> p < length items" if "p \<in> W" for p using D(8) [OF that] full(2) that by (cases "p = T") auto
  have R: "p < T + 1 \<and> length items \<le> p + 2 ^ k" if "p \<in> R" for p using D(9) [OF that] by simp
  have dom: "fst ` set out = {..<T + 1} - insert T R" using D(12) by auto
  show ?thesis unfolding ring_core_def
    using D(1-4,7,11,13,14) turn W R dom full(1) by (auto simp: le_SucI less_SucI)
qed

lemma ring_core_cell:
  assumes core: "ring_core k ring items T W R out" and pos: "unat pos < length items" "length items \<le> unat pos + 2 ^ k"
    and W: "\<forall>p \<in> W'. T \<le> p \<and> p < length items" and R: "R' \<subseteq> R"
    and others: "\<And>q. q \<noteq> unat pos \<Longrightarrow> (q \<in> W') = (q \<in> W) \<and> (q \<in> R') = (q \<in> R)"
    and turn: "turn_ok k items T W' R' (unat pos + 2 ^ k) c"
    and out: "distinct (map fst out')" "fst ` set out' = {..<T} - R'" "\<forall>(t, x) \<in> set out'. x = items ! t"
  shows "ring_core k (set_cell pos c ring) items T W' R' out'"
proof -
  note D = ring_coreD [OF core]
  note slot = ring_slot_of [OF core, of pos]
  have "turn_ok k items T W' R' q ((rg_cells ring)[unat pos mod 2 ^ k := c] ! (q mod 2 ^ k))"
    if q: "length items \<le> q" "q < length items + 2 ^ k" for q
  proof (cases "q = unat pos + 2 ^ k")
    case True
    then show ?thesis using turn slot by simp
  next
    case False
    then have "q mod 2 ^ k \<noteq> unat pos mod 2 ^ k" using near_mod [of q "2 ^ k" "unat pos + 2 ^ k"] q pos by auto
    moreover have "turn_ok k items T W' R' q c' = turn_ok k items T W R q c'" for c'
    proof (cases "q < 2 ^ k")
      case True
      then show ?thesis by (simp add: turn_ok_def ring_free_def)
    next
      case c: False
      then have "q - 2 ^ k \<noteq> unat pos" using False by auto
      then show ?thesis using others by (simp add: turn_ok_def ring_free_def)
    qed
    ultimately show ?thesis using D(10) [OF q] by (metis nth_list_update_neq)
  qed
  then show ?thesis unfolding ring_core_def
    using D(1-7,9,14) W R out slot by (auto simp: set_cell_def)
qed
subsection \<open>The invariant of the threads\<close>

fun pc_writes :: "ring_pc \<Rightarrow> nat option" where
  "pc_writes (Rpush_data pos x) = Some (unat pos)"
| "pc_writes (Rpush_publish pos x) = Some (unat pos)"
| "pc_writes _ = None"

fun pc_reads :: "ring_pc \<Rightarrow> nat option" where
  "pc_reads (Rpop_data pos) = Some (unat pos)"
| "pc_reads (Rpop_release pos x) = Some (unat pos)"
| "pc_reads _ = None"

definition rs_writes :: "ring_sys \<Rightarrow> nat set" where
  "rs_writes s = {p. \<exists>i. pc_writes (rs_pc s i) = Some p}"

definition rs_reads :: "ring_sys \<Rightarrow> nat set" where
  "rs_reads s = {p. \<exists>i. pc_reads (rs_pc s i) = Some p}"

fun rpc_ok :: "nat \<Rightarrow> nkit_ring \<Rightarrow> ptr list \<Rightarrow> nat \<Rightarrow> nat set \<Rightarrow> nat set \<Rightarrow> ring_pc \<Rightarrow> bool" where
  "rpc_ok k ring items T W R (Rpush_seq pos x) \<longleftrightarrow> unat pos \<le> length items"
| "rpc_ok k ring items T W R (Rpush_cas pos x) \<longleftrightarrow> unat pos \<le> length items \<and> (unat pos = length items \<longrightarrow> ring_free k T R (length items))"
| "rpc_ok k ring items T W R (Rpush_data pos x) \<longleftrightarrow> unat pos < length items \<and> items ! unat pos = x"
| "rpc_ok k ring items T W R (Rpush_publish pos x) \<longleftrightarrow> unat pos < length items \<and> items ! unat pos = x \<and> c_data (rg_cells ring ! (unat pos mod 2 ^ k)) = x"
| "rpc_ok k ring items T W R (Rpop_seq pos) \<longleftrightarrow> unat pos \<le> T"
| "rpc_ok k ring items T W R (Rpop_cas pos) \<longleftrightarrow> unat pos \<le> T \<and> (unat pos = T \<longrightarrow> T < length items \<and> T \<notin> W)"
| "rpc_ok k ring items T W R (Rpop_release pos x) \<longleftrightarrow> unat pos < length items \<and> items ! unat pos = x"
| "rpc_ok k ring items T W R _ \<longleftrightarrow> True"

definition ring_inv :: "nat \<Rightarrow> ring_sys \<Rightarrow> bool" where
  "ring_inv k s \<longleftrightarrow>
    ring_core k (rs_ring s) (rs_items s) (rs_claims s) (rs_writes s) (rs_reads s) (rs_out s) \<and>
    (\<forall>i. rpc_ok k (rs_ring s) (rs_items s) (rs_claims s) (rs_writes s) (rs_reads s) (rs_pc s i)) \<and>
    (\<forall>i j p. pc_writes (rs_pc s i) = Some p \<longrightarrow> pc_writes (rs_pc s j) = Some p \<longrightarrow> i = j) \<and>
    (\<forall>i j p. pc_reads (rs_pc s i) = Some p \<longrightarrow> pc_reads (rs_pc s j) = Some p \<longrightarrow> i = j)"

lemma ring_invD:
  assumes "ring_inv k s"
  shows "ring_core k (rs_ring s) (rs_items s) (rs_claims s) (rs_writes s) (rs_reads s) (rs_out s)"
    "\<And>i. rpc_ok k (rs_ring s) (rs_items s) (rs_claims s) (rs_writes s) (rs_reads s) (rs_pc s i)"
    "\<And>i j p. pc_writes (rs_pc s i) = Some p \<Longrightarrow> pc_writes (rs_pc s j) = Some p \<Longrightarrow> i = j"
    "\<And>i j p. pc_reads (rs_pc s i) = Some p \<Longrightarrow> pc_reads (rs_pc s j) = Some p \<Longrightarrow> i = j"
  using assms unfolding ring_inv_def by blast+

lemma rs_go_simps [simp]:
  "rs_ring (rs_go i p s) = rs_ring s" "rs_items (rs_go i p s) = rs_items s" "rs_claims (rs_go i p s) = rs_claims s"
  "rs_out (rs_go i p s) = rs_out s" "rs_pc (rs_go i p s) = (rs_pc s)(i := p)"
  by (simp_all add: rs_go_def)

lemma pc_in_sets: "pc_writes (rs_pc s i) = Some p \<Longrightarrow> p \<in> rs_writes s" "pc_reads (rs_pc s i) = Some p \<Longrightarrow> p \<in> rs_reads s"
  by (auto simp: rs_writes_def rs_reads_def)

lemma held_upd:
  assumes inj: "\<And>i j p. f i = Some p \<Longrightarrow> f j = Some p \<Longrightarrow> i = j"
  shows "{p. \<exists>j. (if j = i then v else f j) = Some p} = {p. \<exists>j. f j = Some p} - set_option (f i) \<union> set_option v"
proof (rule set_eqI)
  fix p
  have "(\<exists>j. (if j = i then v else f j) = Some p) \<longleftrightarrow> v = Some p \<or> (\<exists>j. j \<noteq> i \<and> f j = Some p)" by metis
  moreover have "(\<exists>j. j \<noteq> i \<and> f j = Some p) \<longleftrightarrow> (\<exists>j. f j = Some p) \<and> f i \<noteq> Some p" using inj by metis
  ultimately show "p \<in> {p. \<exists>j. (if j = i then v else f j) = Some p} \<longleftrightarrow> p \<in> {p. \<exists>j. f j = Some p} - set_option (f i) \<union> set_option v"
    by auto
qed

text \<open>
  A step of thread \<open>i\<close>: the sets of positions change by what its old and its new program counter
  hold, and the other threads keep what they know.
\<close>

lemma ring_inv_go:
  assumes inv: "ring_inv k s" and pc: "rs_pc s' = rs_pc s"
    and W: "W' = rs_writes s - set_option (pc_writes (rs_pc s i)) \<union> set_option (pc_writes p)"
    and R: "R' = rs_reads s - set_option (pc_reads (rs_pc s i)) \<union> set_option (pc_reads p)"
    and fresh: "set_option (pc_writes p) \<inter> (rs_writes s - set_option (pc_writes (rs_pc s i))) = {}"
      "set_option (pc_reads p) \<inter> (rs_reads s - set_option (pc_reads (rs_pc s i))) = {}"
    and core: "ring_core k (rs_ring s') (rs_items s') (rs_claims s') W' R' (rs_out s')"
    and self: "rpc_ok k (rs_ring s') (rs_items s') (rs_claims s') W' R' p"
    and others: "\<And>j. j \<noteq> i \<Longrightarrow> rpc_ok k (rs_ring s') (rs_items s') (rs_claims s') W' R' (rs_pc s j)"
  shows "ring_inv k (rs_go i p s')"
proof -
  note D = ring_invD [OF inv]
  have W': "rs_writes (rs_go i p s') = W'"
    unfolding W rs_writes_def using held_upd [where f = "\<lambda>j. pc_writes (rs_pc s j)" and i = i and v = "pc_writes p", OF D(3)]
    by (simp add: pc if_distrib [of pc_writes])
  have R': "rs_reads (rs_go i p s') = R'"
    unfolding R rs_reads_def using held_upd [where f = "\<lambda>j. pc_reads (rs_pc s j)" and i = i and v = "pc_reads p", OF D(4)]
    by (simp add: pc if_distrib [of pc_reads])
  have w: "j = i" if "pc_writes p = Some q" "pc_writes (rs_pc s j) = Some q" for j q
    using fresh(1) that pc_in_sets(1) [of s j q] D(3) [of j q i] by auto
  have r: "j = i" if "pc_reads p = Some q" "pc_reads (rs_pc s j) = Some q" for j q
    using fresh(2) that pc_in_sets(2) [of s j q] D(4) [of j q i] by auto
  have 1: "a = b" if "pc_writes (rs_pc (rs_go i p s') a) = Some q" "pc_writes (rs_pc (rs_go i p s') b) = Some q" for a b q
    using that w [of q a] w [of q b] D(3) [of a q b] by (auto simp: pc split: if_splits)
  have 2: "a = b" if "pc_reads (rs_pc (rs_go i p s') a) = Some q" "pc_reads (rs_pc (rs_go i p s') b) = Some q" for a b q
    using that r [of q a] r [of q b] D(4) [of a q b] by (auto simp: pc split: if_splits)
  have 3: "rpc_ok k (rs_ring s') (rs_items s') (rs_claims s') W' R' (rs_pc (rs_go i p s') j)" for j
    using self others pc by simp
  show ?thesis unfolding ring_inv_def W' R' rs_go_simps(1-4)
    by (intro conjI allI impI core 3) (rule 1 2; assumption)+
qed

lemma ring_inv_local:
  assumes inv: "ring_inv k s" and same: "pc_writes p = pc_writes (rs_pc s i)" "pc_reads p = pc_reads (rs_pc s i)"
    and self: "rpc_ok k (rs_ring s) (rs_items s) (rs_claims s) (rs_writes s) (rs_reads s) p"
  shows "ring_inv k (rs_go i p s)"
proof -
  note D = ring_invD [OF inv]
  have e: "rs_writes s = rs_writes s - set_option (pc_writes (rs_pc s i)) \<union> set_option (pc_writes p)"
    "rs_reads s = rs_reads s - set_option (pc_reads (rs_pc s i)) \<union> set_option (pc_reads p)"
    using same pc_in_sets [of s i] by auto
  show ?thesis by (rule ring_inv_go [OF inv refl e]) (use same D self in auto)
qed

lemma rpc_ok_claim_push:
  assumes "ring_core k ring items T W R out" and "rpc_ok k ring items T W R pc"
  shows "rpc_ok k (ring\<lparr>rg_head := h\<rparr>) (items @ [x]) T (insert (length items) W) R pc"
  using assms(2) ring_coreD(6) [OF assms(1)] by (cases pc) (auto simp: nth_append)

lemma rpc_ok_claim_pop:
  assumes "ring_core k ring items T W R out" and "rpc_ok k ring items T W R pc"
  shows "rpc_ok k (ring\<lparr>rg_tail := t\<rparr>) items (T + 1) W (insert T R) pc"
  using assms(2) by (cases pc) (auto simp: ring_free_def)

lemma rpc_ok_cell:
  assumes core: "ring_core k ring items T W R out" and ok: "rpc_ok k ring items T W R pc"
    and sub: "W' \<subseteq> W" "R' \<subseteq> R" and pc: "set_option (pc_writes pc) \<subseteq> W"
    and data: "c_data c = c_data (ring_cell ring pos) \<or> unat pos \<in> W \<and> pc_writes pc \<noteq> Some (unat pos)"
  shows "rpc_ok k (set_cell pos c ring) items T W' R' pc"
proof (cases "\<exists>pos' x. pc = Rpush_publish pos' x")
  case True
  then obtain pos' x where p: "pc = Rpush_publish pos' x" by blast
  note slot = ring_slot_of [OF core, of pos]
  note D = ring_coreD [OF core]
  have "c_data ((rg_cells ring)[unat pos mod 2 ^ k := c] ! (unat pos' mod 2 ^ k)) = c_data (rg_cells ring ! (unat pos' mod 2 ^ k))"
  proof (cases "unat pos mod 2 ^ k = unat pos' mod 2 ^ k")
    case True
    have "\<not> (unat pos \<in> W \<and> pc_writes pc \<noteq> Some (unat pos))"
      using near_mod [OF True] D(7) D(8) [of "unat pos"] D(8) [of "unat pos'"] pc p by auto
    then show ?thesis using data slot True by (auto simp: ring_cell_def)
  qed simp
  then show ?thesis using ok p slot by (simp add: set_cell_def)
next
  case False
  then show ?thesis using ok sub by (cases pc) (auto simp: ring_free_def)
qed
subsection \<open>The steps keep the invariant\<close>

text \<open>
  The positions stay below \<open>2 ^ 63\<close>, so that no position word stands for two positions and the signed
  differences are exact.
\<close>

definition ring_small :: "nat \<Rightarrow> ring_sys \<Rightarrow> bool" where
  "ring_small k s \<longleftrightarrow> length (rs_items s) + 2 ^ k < 2 ^ 63"

lemma of_nat_u64_eq: "a < 2 ^ 64 \<Longrightarrow> b < 2 ^ 64 \<Longrightarrow> (of_nat a = (of_nat b :: u64)) = (a = b)"
  by (metis unat_of_nat_small)

lemma ring_cell_nth:
  assumes "ring_core k ring items T W R out"
  shows "ring_cell ring pos = rg_cells ring ! (unat pos mod 2 ^ k)"
  using ring_slot_of [OF assms] by (simp add: ring_cell_def)

lemma turn_seq:
  assumes "turn_ok k items T W R q c"
  shows "\<exists>v. c_sequence c = of_nat v \<and> v \<le> q \<and> (v = q \<or> q \<le> v + 2 ^ k)"
proof (cases "ring_free k T R q")
  case False
  then have q: "2 ^ k \<le> q" "(1::nat) \<le> 2 ^ k" by (auto simp: ring_free_def)
  then have "q - 2 ^ k + 1 \<le> q" by linarith
  then show ?thesis using assms False q(1)
    by (intro exI [of _ "if q - 2 ^ k \<in> W then q - 2 ^ k else q - 2 ^ k + 1"]) (auto simp: turn_ok_def)
qed (use assms in \<open>auto simp: turn_ok_def\<close>)

lemma seq_ready_push:
  assumes core: "ring_core k ring items T W R out" and small: "length items + 2 ^ k < 2 ^ 63"
    and pos: "unat pos = length items" and seq: "c_sequence (ring_cell ring pos) = pos"
  shows "ring_free k T R (length items)"
proof (rule ccontr)
  assume nf: "\<not> ring_free k T R (length items)"
  note D = ring_coreD [OF core]
  let ?H = "length items"
  have n: "2 ^ k \<le> ?H" using nf by (auto simp: ring_free_def)
  have two: "(2::nat) \<le> 2 ^ k" using D(14) self_le_power [of "2::nat" k] by simp
  have "pos = of_nat ?H" by (simp flip: pos)
  moreover have "turn_ok k items T W R ?H (ring_cell ring pos)" using D(10) [of ?H] pos by (simp add: ring_cell_nth [OF core])
  ultimately have "of_nat ?H = (of_nat (?H - 2 ^ k) :: u64) \<or> of_nat ?H = (of_nat (?H - 2 ^ k + 1) :: u64)"
    using nf seq by (auto simp: turn_ok_def split: if_splits)
  then show False using of_nat_u64_eq [of ?H "?H - 2 ^ k"] of_nat_u64_eq [of ?H "?H - 2 ^ k + 1"] n two small by auto
qed

lemma seq_ready_pop:
  assumes core: "ring_core k ring items T W R out" and small: "length items + 2 ^ k < 2 ^ 63"
    and pos: "unat pos = T" and seq: "c_sequence (ring_cell ring pos) = pos + 1"
  shows "T < length items \<and> T \<notin> W"
proof -
  note D = ring_coreD [OF core]
  have w: "pos + 1 = of_nat (T + 1)" by (simp flip: pos)
  have cell: "ring_cell ring pos = rg_cells ring ! (T mod 2 ^ k)" using pos by (simp add: ring_cell_nth [OF core])
  show ?thesis
  proof (cases "T = length items")
    case True
    have "turn_ok k items T W R T (ring_cell ring pos)" using D(10) [of T] True cell by simp
    then obtain v where "v \<le> T" "pos + 1 = of_nat v" using turn_seq seq by metis
    then have False using of_nat_u64_eq [of "T + 1" v] small True w by simp
    then show ?thesis ..
  next
    case False
    then have "turn_ok k items T W R (T + 2 ^ k) (ring_cell ring pos)" using ring_turn [OF core, of T] D(6,7) cell by simp
    then have "T \<in> W \<Longrightarrow> of_nat (T + 1) = (of_nat T :: u64)" unfolding turn_ok_def seq w by (simp add: ring_free_def)
    then show ?thesis using of_nat_u64_eq [of "T + 1" T] small D(6) False by auto
  qed
qed
lemma ring_push_won_inv:
  assumes inv: "ring_inv k s" and small: "ring_small k s" and pc: "rs_pc s i = Rpush_cas pos x" and head: "rg_head (rs_ring s) = pos"
  shows "ring_inv k (rs_go i (Rpush_data pos x) (s\<lparr>rs_ring := (rs_ring s)\<lparr>rg_head := pos + 1\<rparr>, rs_items := rs_items s @ [x]\<rparr>))"
proof -
  note D = ring_invD [OF inv]
  note C = ring_coreD [OF D(1)]
  let ?H = "length (rs_items s)"
  have pos: "pos = of_nat ?H" "unat pos = ?H" using head C(4) small by (auto simp: ring_small_def unat_of_nat_small)
  then have free: "ring_free k (rs_claims s) (rs_reads s) ?H" using D(2) [of i] pc by simp
  have new: "?H \<notin> rs_writes s" using C(8) [of ?H] by auto
  show ?thesis
  proof (rule ring_inv_go [OF inv])
    show "ring_core k (rs_ring (s\<lparr>rs_ring := (rs_ring s)\<lparr>rg_head := pos + 1\<rparr>, rs_items := rs_items s @ [x]\<rparr>))
      (rs_items (s\<lparr>rs_ring := (rs_ring s)\<lparr>rg_head := pos + 1\<rparr>, rs_items := rs_items s @ [x]\<rparr>))
      (rs_claims (s\<lparr>rs_ring := (rs_ring s)\<lparr>rg_head := pos + 1\<rparr>, rs_items := rs_items s @ [x]\<rparr>)) (insert ?H (rs_writes s)) (rs_reads s)
      (rs_out (s\<lparr>rs_ring := (rs_ring s)\<lparr>rg_head := pos + 1\<rparr>, rs_items := rs_items s @ [x]\<rparr>))"
      using ring_core_claim_push [OF D(1) free, of x] pos(1) by simp
  qed (use pc pos(2) new rpc_ok_claim_push [OF D(1) D(2)] in auto)
qed

lemma ring_pop_won_inv:
  assumes inv: "ring_inv k s" and small: "ring_small k s" and pc: "rs_pc s i = Rpop_cas pos" and tail: "rg_tail (rs_ring s) = pos"
  shows "ring_inv k (rs_go i (Rpop_data pos) (s\<lparr>rs_ring := (rs_ring s)\<lparr>rg_tail := pos + 1\<rparr>, rs_claims := rs_claims s + 1\<rparr>))"
proof -
  note D = ring_invD [OF inv]
  note C = ring_coreD [OF D(1)]
  let ?T = "rs_claims s"
  have pos: "pos = of_nat ?T" "unat pos = ?T" using tail C(5,6) small by (auto simp: ring_small_def unat_of_nat_small)
  then have full: "?T < length (rs_items s)" "?T \<notin> rs_writes s" using D(2) [of i] pc by simp_all
  have new: "?T \<notin> rs_reads s" using C(9) [of ?T] by auto
  show ?thesis
  proof (rule ring_inv_go [OF inv])
    show "ring_core k (rs_ring (s\<lparr>rs_ring := (rs_ring s)\<lparr>rg_tail := pos + 1\<rparr>, rs_claims := rs_claims s + 1\<rparr>))
      (rs_items (s\<lparr>rs_ring := (rs_ring s)\<lparr>rg_tail := pos + 1\<rparr>, rs_claims := rs_claims s + 1\<rparr>))
      (rs_claims (s\<lparr>rs_ring := (rs_ring s)\<lparr>rg_tail := pos + 1\<rparr>, rs_claims := rs_claims s + 1\<rparr>)) (rs_writes s) (insert ?T (rs_reads s))
      (rs_out (s\<lparr>rs_ring := (rs_ring s)\<lparr>rg_tail := pos + 1\<rparr>, rs_claims := rs_claims s + 1\<rparr>))"
      using ring_core_claim_pop [OF D(1) full] pos(1) by simp
  qed (use pc pos(2) new rpc_ok_claim_pop [OF D(1) D(2)] in auto)
qed

text \<open>A producer fills and publishes the cell it has claimed; a consumer releases it.\<close>

lemma ring_push_data_inv:
  assumes inv: "ring_inv k s" and pc: "rs_pc s i = Rpush_data pos x"
  shows "ring_inv k (rs_go i (Rpush_publish pos x) (s\<lparr>rs_ring := set_cell pos ((ring_cell (rs_ring s) pos)\<lparr>c_data := x\<rparr>) (rs_ring s)\<rparr>))"
proof -
  note D = ring_invD [OF inv]
  note C = ring_coreD [OF D(1)]
  have w: "unat pos \<in> rs_writes s" using pc_in_sets(1) [of s i] pc by simp
  note b = C(8) [OF w]
  have near: "length (rs_items s) \<le> unat pos + 2 ^ k" using b C(7) by simp
  have turn: "turn_ok k (rs_items s) (rs_claims s) (rs_writes s) (rs_reads s) (unat pos + 2 ^ k) ((ring_cell (rs_ring s) pos)\<lparr>c_data := x\<rparr>)"
    using ring_turn [OF D(1) _ near] b w by (auto simp: turn_ok_def ring_cell_nth [OF D(1)] ring_free_def)
  have core: "ring_core k (set_cell pos ((ring_cell (rs_ring s) pos)\<lparr>c_data := x\<rparr>) (rs_ring s)) (rs_items s) (rs_claims s) (rs_writes s) (rs_reads s) (rs_out s)"
    by (rule ring_core_cell [OF D(1) _ near _ _ _ turn]) (use b C(8,11,12,13) in auto)
  have other: "rpc_ok k (set_cell pos ((ring_cell (rs_ring s) pos)\<lparr>c_data := x\<rparr>) (rs_ring s)) (rs_items s) (rs_claims s) (rs_writes s) (rs_reads s) (rs_pc s j)" if "j \<noteq> i" for j
    using rpc_ok_cell [OF D(1) D(2) [of j] order_refl order_refl] w that D(3) [of i "unat pos" j] pc pc_in_sets(1) [of s j] by auto
  have self: "rpc_ok k (set_cell pos ((ring_cell (rs_ring s) pos)\<lparr>c_data := x\<rparr>) (rs_ring s)) (rs_items s) (rs_claims s) (rs_writes s) (rs_reads s) (Rpush_publish pos x)"
    using D(2) [of i] pc ring_slot_of [OF D(1), of pos] by (simp add: set_cell_def)
  show ?thesis
    by (rule ring_inv_go [OF inv, where W' = "rs_writes s" and R' = "rs_reads s"]) (use pc w core other self in auto)
qed

lemma ring_push_publish_inv:
  assumes inv: "ring_inv k s" and pc: "rs_pc s i = Rpush_publish pos x"
  shows "ring_inv k (rs_go i Rg_idle (s\<lparr>rs_ring := set_cell pos ((ring_cell (rs_ring s) pos)\<lparr>c_sequence := pos + 1\<rparr>) (rs_ring s)\<rparr>))"
proof -
  note D = ring_invD [OF inv]
  note C = ring_coreD [OF D(1)]
  let ?W = "rs_writes s - {unat pos}" and ?c = "(ring_cell (rs_ring s) pos)\<lparr>c_sequence := pos + 1\<rparr>"
  have w: "unat pos \<in> rs_writes s" using pc_in_sets(1) [of s i] pc by simp
  note b = C(8) [OF w]
  have near: "length (rs_items s) \<le> unat pos + 2 ^ k" using b C(7) by simp
  have turn: "turn_ok k (rs_items s) (rs_claims s) ?W (rs_reads s) (unat pos + 2 ^ k) ?c"
    using D(2) [of i] pc b by (simp add: turn_ok_def ring_cell_nth [OF D(1)] ring_free_def)
  have core: "ring_core k (set_cell pos ?c (rs_ring s)) (rs_items s) (rs_claims s) ?W (rs_reads s) (rs_out s)"
    by (rule ring_core_cell [OF D(1) _ near _ _ _ turn]) (use b C(8,11,12,13) in auto)
  have other: "rpc_ok k (set_cell pos ?c (rs_ring s)) (rs_items s) (rs_claims s) ?W (rs_reads s) (rs_pc s j)" for j
    by (rule rpc_ok_cell [OF D(1) D(2)]) (use pc_in_sets(1) [of s j] in auto)
  show ?thesis
    by (rule ring_inv_go [OF inv, where W' = ?W and R' = "rs_reads s"]) (use pc core other in auto)
qed

lemma ring_pop_data_inv:
  assumes inv: "ring_inv k s" and pc: "rs_pc s i = Rpop_data pos"
  shows "ring_inv k (rs_go i (Rpop_release pos (c_data (ring_cell (rs_ring s) pos))) s)"
proof (rule ring_inv_local [OF inv])
  note D = ring_invD [OF inv]
  note C = ring_coreD [OF D(1)]
  have r: "unat pos \<in> rs_reads s" using pc_in_sets(2) [of s i] pc by simp
  note b = C(9) [OF r]
  have "unat pos \<notin> rs_writes s" using C(8) [of "unat pos"] b by auto
  then show "rpc_ok k (rs_ring s) (rs_items s) (rs_claims s) (rs_writes s) (rs_reads s) (Rpop_release pos (c_data (ring_cell (rs_ring s) pos)))"
    using ring_turn [OF D(1), of "unat pos"] b C(6) r by (auto simp: turn_ok_def ring_cell_nth [OF D(1)] ring_free_def)
qed (use pc in simp_all)

lemma ring_pop_release_inv:
  assumes inv: "ring_inv k s" and pc: "rs_pc s i = Rpop_release pos x"
  shows "ring_inv k (rs_go i Rg_idle (s\<lparr>rs_ring := set_cell pos ((ring_cell (rs_ring s) pos)\<lparr>c_sequence := pos + rg_mask (rs_ring s) + 1\<rparr>) (rs_ring s),
       rs_out := rs_out s @ [(unat pos, x)]\<rparr>))"
proof -
  note D = ring_invD [OF inv]
  note C = ring_coreD [OF D(1)]
  let ?R = "rs_reads s - {unat pos}" and ?c = "(ring_cell (rs_ring s) pos)\<lparr>c_sequence := pos + rg_mask (rs_ring s) + 1\<rparr>"
  have r: "unat pos \<in> rs_reads s" using pc_in_sets(2) [of s i] pc by simp
  note b = C(9) [OF r]
  have m: "pos + rg_mask (rs_ring s) + 1 = of_nat (unat pos + 2 ^ k)" by (simp add: C(2))
  have turn: "turn_ok k (rs_items s) (rs_claims s) (rs_writes s) ?R (unat pos + 2 ^ k) ?c"
    using b by (simp add: turn_ok_def ring_free_def m)
  have x: "x = rs_items s ! unat pos" using D(2) [of i] pc by simp
  have "unat pos \<notin> fst ` set (rs_out s)" using C(12) r by simp
  then have out: "distinct (map fst (rs_out s @ [(unat pos, x)]))" "fst ` set (rs_out s @ [(unat pos, x)]) = {..<rs_claims s} - ?R"
      "\<forall>(t, y) \<in> set (rs_out s @ [(unat pos, x)]). y = rs_items s ! t"
    using C(11,12,13) b r x by auto
  have core: "ring_core k (set_cell pos ?c (rs_ring s)) (rs_items s) (rs_claims s) (rs_writes s) ?R (rs_out s @ [(unat pos, x)])"
    by (rule ring_core_cell [OF D(1) _ _ _ _ _ turn out]) (use b C(6,8) in auto)
  have other: "rpc_ok k (set_cell pos ?c (rs_ring s)) (rs_items s) (rs_claims s) (rs_writes s) ?R (rs_pc s j)" for j
    by (rule rpc_ok_cell [OF D(1) D(2)]) (use pc_in_sets(1) [of s j] in auto)
  show ?thesis
    by (rule ring_inv_go [OF inv, where W' = "rs_writes s" and R' = ?R]) (use pc core other in auto)
qed
lemma ring_counter_le:
  assumes "ring_core k ring items T W R out"
  shows "unat (rg_head ring) \<le> length items" and "unat (rg_tail ring) \<le> T"
  using ring_coreD(4,5) [OF assms] by (simp_all add: unat_of_nat)

lemma sint_diff_0: "(sint (a - b) = 0) = (a = b)" for a b :: u64
  using signed_eq_0_iff [of "a - b"] by simp

lemma ring_push_inv:
  assumes inv: "ring_inv k s" and small: "ring_small k s" and step: "nkit_ring_push_step i s s'"
  shows "ring_inv k s'"
proof -
  note D = ring_invD [OF inv]
  note sm = small [unfolded ring_small_def]
  from step show ?thesis
  proof cases
    case (push_seq pos x diff)
    have pos: "unat pos \<le> length (rs_items s)" using D(2) [of i] push_seq by simp
    have "ring_free k (rs_claims s) (rs_reads s) (length (rs_items s))" if "diff = 0" "unat pos = length (rs_items s)"
      using seq_ready_push [OF D(1) sm that(2)] push_seq(3) that(1) sint_diff_0 by metis
    then show ?thesis unfolding push_seq(1) by (intro ring_inv_local [OF inv]) (use push_seq pos in auto)
  next
    case (push_head x)
    then show ?thesis using ring_counter_le(1) [OF D(1)] by (auto intro: ring_inv_local [OF inv])
  next
    case (push_reload x)
    then show ?thesis using ring_counter_le(1) [OF D(1)] by (auto intro: ring_inv_local [OF inv])
  next
    case (push_lost pos x)
    then show ?thesis using ring_counter_le(1) [OF D(1)] by (auto intro: ring_inv_local [OF inv])
  qed (use ring_push_won_inv [OF inv small] ring_push_data_inv [OF inv] ring_push_publish_inv [OF inv] in auto)
qed

lemma ring_pop_inv:
  assumes inv: "ring_inv k s" and small: "ring_small k s" and step: "nkit_ring_pop_step i s s'"
  shows "ring_inv k s'"
proof -
  note D = ring_invD [OF inv]
  note sm = small [unfolded ring_small_def]
  from step show ?thesis
  proof cases
    case (pop_seq pos diff)
    have pos: "unat pos \<le> rs_claims s" using D(2) [of i] pop_seq by simp
    have "rs_claims s < length (rs_items s) \<and> rs_claims s \<notin> rs_writes s" if "diff = 0" "unat pos = rs_claims s"
      using seq_ready_pop [OF D(1) sm that(2)] pop_seq(3) that(1) sint_diff_0 by metis
    then show ?thesis unfolding pop_seq(1) by (intro ring_inv_local [OF inv]) (use pop_seq pos in auto)
  next
    case pop_tail
    then show ?thesis using ring_counter_le(2) [OF D(1)] by (auto intro: ring_inv_local [OF inv])
  next
    case pop_reload
    then show ?thesis using ring_counter_le(2) [OF D(1)] by (auto intro: ring_inv_local [OF inv])
  next
    case (pop_lost pos)
    then show ?thesis using ring_counter_le(2) [OF D(1)] by (auto intro: ring_inv_local [OF inv])
  qed (use ring_pop_won_inv [OF inv small] ring_pop_data_inv [OF inv] ring_pop_release_inv [OF inv] in auto)
qed

lemma ring_step_mono: "ring_step i s s' \<Longrightarrow> length (rs_items s) \<le> length (rs_items s')"
  unfolding ring_step_def by (auto elim!: nkit_ring_push_step.cases nkit_ring_pop_step.cases)

lemma ring_inv_start:
  assumes "ring_at k 0 r []"
  shows "ring_inv k (ring_start r)"
proof -
  note at = ring_atD [OF assms]
  have "turn_ok k [] 0 {} {} q (rg_cells r ! (q mod 2 ^ k))" if "q < 2 ^ k" for q
    using at(9) [OF that] that by (simp add: turn_ok_def ring_free_def ring_cell_ok_def)
  then show ?thesis using at(1-8)
    by (simp add: ring_inv_def ring_core_def ring_start_def rs_writes_def rs_reads_def)
qed

lemma ring_reach_inv:
  assumes "ring_at k 0 r []" and "ring_reach r s" and "ring_small k s"
  shows "ring_inv k s"
proof -
  have "ring_small k s \<longrightarrow> ring_inv k s" using assms(2)
  proof (rule reach_invariant)
    show "ring_small k s \<longrightarrow> ring_inv k s" if "s = ring_start r" for s using ring_inv_start [OF assms(1)] that by simp
    show "ring_small k s' \<longrightarrow> ring_inv k s'" if IH: "ring_small k s \<longrightarrow> ring_inv k s" and step: "ring_step i s s'" for i s s'
    proof
      assume "ring_small k s'"
      then have "ring_small k s" using ring_step_mono [OF step] by (simp add: ring_small_def)
      then show "ring_inv k s'" using IH step ring_push_inv ring_pop_inv unfolding ring_step_def by blast
    qed
  qed
  then show ?thesis using assms(3) by blast
qed
subsection \<open>Rings at rest, and refused calls\<close>

lemma ring_quiet_rep:
  assumes core: "ring_core k ring items T {} {} out" and cap: "rg_capacity ring = 2 ^ k"
  shows "ring_rep ring (drop T items)"
proof -
  note D = ring_coreD [OF core]
  have "ring_cell_ok T (drop T items) j (rg_cells ring ! ((T + j) mod 2 ^ k))" if j: "j < 2 ^ k" for j
  proof (cases "T + j < length items")
    case True
    then have "turn_ok k items T {} {} (T + j + 2 ^ k) (rg_cells ring ! ((T + j) mod 2 ^ k))" using ring_turn [OF core True] D(7) by simp
    moreover have "j < length items - T" using True by linarith
    ultimately show ?thesis by (simp add: turn_ok_def ring_free_def ring_cell_ok_def)
  next
    case False
    then have "turn_ok k items T {} {} (T + j) (rg_cells ring ! ((T + j) mod 2 ^ k))" using D(6,10) j by simp
    moreover have "ring_free k T {} (T + j)" using j by (auto simp: ring_free_def)
    moreover have "\<not> j < length items - T" using False by linarith
    ultimately show ?thesis by (simp add: turn_ok_def ring_cell_ok_def)
  qed
  then have "ring_at k T ring (drop T items)" unfolding ring_at_def using D(1-7,14) cap by simp
  then show ?thesis unfolding ring_rep_def by blast
qed

lemma ring_quiet_out:
  assumes core: "ring_core k ring items T {} {} out"
  shows "mset items = mset (map snd out) + mset (drop T items)"
proof -
  note D = ring_coreD [OF core]
  have "mset (map fst out) = mset [0..<T]"
    using D(11,12) by (intro set_eq_iff_mset_eq_distinct [THEN iffD1]) auto
  then have "image_mset ((!) items) (mset (map fst out)) = mset (map ((!) items) [0..<T])" by simp
  moreover have "map ((!) items) [0..<T] = take T items" using D(6) by (intro nth_equalityI) simp_all
  moreover have "map ((!) items) (map fst out) = map snd out" using D(13) by auto
  ultimately have "mset (map snd out) = mset (take T items)" by (metis mset_map)
  then show ?thesis by (metis append_take_drop_id mset_append)
qed

lemma next_turn:
  fixes p h n :: nat
  assumes "p \<le> h" and "0 < n"
  shows "\<exists>q. h \<le> q \<and> q < h + n \<and> q mod n = p mod n \<and> p \<le> q \<and> (p < h \<longrightarrow> p + n \<le> q)"
proof -
  let ?d = "h - p" and ?m = "(h - p + n - 1) div n"
  have "n * ?m = ?d + n - 1 - (?d + n - 1) mod n" by (metis minus_mod_eq_mult_div)
  moreover have "(?d + n - 1) mod n < n" using assms(2) by simp
  ultimately have b: "?d \<le> n * ?m" "n * ?m < ?d + n" using assms(2) by linarith+
  have "n \<le> n * ?m" if "0 < ?d" using b(1) that by (cases ?m) auto
  then show ?thesis using assms(1) b by (intro exI [of _ "p + n * ?m"]) auto
qed

lemma seq_behind:
  assumes core: "ring_core k ring items T W R out" and small: "length items + 2 ^ k < 2 ^ 63" and p: "unat pos \<le> length items"
    and a: "a \<le> length items + 1" and neg: "sint (c_sequence (ring_cell ring pos) - of_nat a) < 0"
  shows "\<exists>q v. length items \<le> q \<and> q < length items + 2 ^ k \<and> q mod 2 ^ k = unat pos mod 2 ^ k \<and> unat pos \<le> q \<and>
    (unat pos < length items \<longrightarrow> unat pos + 2 ^ k \<le> q) \<and> turn_ok k items T W R q (ring_cell ring pos) \<and>
    c_sequence (ring_cell ring pos) = of_nat v \<and> v < a \<and> (v = q \<or> q \<le> v + 2 ^ k)"
proof -
  obtain q where q: "length items \<le> q" "q < length items + 2 ^ k" "q mod 2 ^ k = unat pos mod 2 ^ k" "unat pos \<le> q"
      "unat pos < length items \<longrightarrow> unat pos + 2 ^ k \<le> q"
    using next_turn [OF p, of "2 ^ k"] by auto
  have turn: "turn_ok k items T W R q (ring_cell ring pos)"
    using ring_coreD(10) [OF core q(1,2)] q(3) by (simp add: ring_cell_nth [OF core])
  obtain v where v: "c_sequence (ring_cell ring pos) = of_nat v" "v \<le> q" "v = q \<or> q \<le> v + 2 ^ k" using turn_seq [OF turn] by blast
  have "sint (of_nat v - of_nat a :: u64) = int v - int a" using v(2) q(2) a small by (intro sint_diff_of_nat) simp_all
  then have "v < a" using neg v(1) by simp
  then show ?thesis using q turn v by blast
qed

lemma push_refused:
  assumes core: "ring_core k ring items T W R out" and small: "length items + 2 ^ k < 2 ^ 63" and p: "unat pos \<le> length items"
    and neg: "sint (c_sequence (ring_cell ring pos) - pos) < 0"
  shows "length items = T + 2 ^ k \<or> (2 ^ k \<le> length items \<and> length items - 2 ^ k \<in> R)"
proof -
  note D = ring_coreD [OF core]
  have pos: "of_nat (unat pos) = pos" by simp
  obtain q v where q: "length items \<le> q" "q < length items + 2 ^ k" "q mod 2 ^ k = unat pos mod 2 ^ k" "unat pos \<le> q"
      "unat pos < length items \<longrightarrow> unat pos + 2 ^ k \<le> q" "turn_ok k items T W R q (ring_cell ring pos)"
      "c_sequence (ring_cell ring pos) = of_nat v" "v < unat pos" "v = q \<or> q \<le> v + 2 ^ k"
    using seq_behind [OF core small p, of "unat pos"] p neg pos by auto
  have H: "unat pos = length items" using q(4,5,8,9) p by auto
  then have "q = length items" using near_mod [of q "2 ^ k" "length items"] q(1-3) by simp
  then have "c_sequence (ring_cell ring pos) = pos" if "ring_free k T R (length items)" using q(6) that pos H by (simp add: turn_ok_def)
  then have "\<not> ring_free k T R (length items)" using neg by auto
  then show ?thesis using D(7) by (auto simp: ring_free_def)
qed

lemma pop_refused:
  assumes core: "ring_core k ring items T W R out" and small: "length items + 2 ^ k < 2 ^ 63" and p: "unat pos \<le> T"
    and neg: "sint (c_sequence (ring_cell ring pos) - (pos + 1)) < 0"
  shows "T = length items \<or> T \<in> W"
proof (rule ccontr)
  assume no: "\<not> (T = length items \<or> T \<in> W)"
  note D = ring_coreD [OF core]
  let ?p = "unat pos"
  have T: "T < length items" using no D(6) by simp
  have pos: "of_nat (?p + 1) = pos + 1" by simp
  have pl: "?p \<le> length items" "?p + 1 \<le> length items + 1" using p T by simp_all
  obtain q v where q: "length items \<le> q" "?p + 2 ^ k \<le> q" "turn_ok k items T W R q (ring_cell ring pos)" "v < ?p + 1" "v = q \<or> q \<le> v + 2 ^ k"
    using seq_behind [OF core small pl] neg p T unfolding pos by auto
  have n: "(0::nat) < 2 ^ k" by simp
  have qp: "q = ?p + 2 ^ k" using q(2,4,5) n by linarith
  have "?p \<notin> W" using D(8) [of ?p] p no by (cases "?p = T") auto
  then have "c_sequence (ring_cell ring pos) = of_nat (?p + 2 ^ k) \<or> c_sequence (ring_cell ring pos) = of_nat (?p + 1)"
    using q(3) by (auto simp: turn_ok_def qp split: if_splits)
  moreover have "sint (of_nat (?p + 2 ^ k) - of_nat (?p + 1) :: u64) = int (?p + 2 ^ k) - int (?p + 1)"
    using small T p by (intro sint_diff_of_nat) linarith+
  then have "0 \<le> sint (of_nat (?p + 2 ^ k) - of_nat (?p + 1) :: u64)" using n by linarith
  ultimately show False using neg unfolding pos [symmetric] by auto
qed
lemma ring_create_reach:
  assumes "mmap_ok w" and "nkit_ring_create node_id capacity w = (Some r, w')" and "ring_reach r s"
    and "length (rs_items s) + unat capacity < 2 ^ 63"
  shows "\<exists>k. capacity = 2 ^ k \<and> unat capacity = 2 ^ k \<and> ring_inv k s \<and> ring_small k s"
proof -
  obtain k where k: "k < 64" "capacity = 2 ^ k" "ring_at k 0 r []" using ring_create_at [OF assms(1,2)] by blast
  then have cap: "unat capacity = 2 ^ k" by (simp add: unat_exp)
  then have "ring_small k s" using assms(4) by (simp add: ring_small_def)
  then show ?thesis using ring_reach_inv [OF k(3) assms(3)] k(2) cap by blast
qed

lemma ring_step_capacity: "ring_step i s s' \<Longrightarrow> rg_capacity (rs_ring s') = rg_capacity (rs_ring s)"
  unfolding ring_step_def by (auto elim!: nkit_ring_push_step.cases nkit_ring_pop_step.cases simp: set_cell_def)

lemma ring_reach_capacity: "ring_reach r s \<Longrightarrow> rg_capacity (rs_ring s) = rg_capacity r"
  by (erule reach_invariant) (auto simp: ring_start_def ring_step_capacity)

subsection \<open>Properties\<close>

text \<open>
  C4. Many producers and many consumers. In every interleaving of their accesses to shared memory the
  ring never holds more than \<open>capacity\<close> items, every pop that returns has a position of its own and
  returns the item that was pushed with that position, and positions are handed out in order on both
  sides. When no call is under way, every pushed item was popped once or is still in the ring, which
  then is the queue of the sequential model. This holds while the positions stay below \<open>2 ^ 63\<close>.
\<close>

theorem ring_mpmc_fifo:
  assumes "mmap_ok w" and "nkit_ring_create node_id capacity w = (Some r, w')" and "ring_reach r s"
    and "length (rs_items s) + unat capacity < 2 ^ 63"
  shows "rs_claims s \<le> length (rs_items s) \<and> length (rs_items s) \<le> rs_claims s + unat capacity \<and>
    distinct (map fst (rs_out s)) \<and> (\<forall>(t, x) \<in> set (rs_out s). t < rs_claims s \<and> x = rs_items s ! t) \<and>
    ((\<forall>i. rs_pc s i = Rg_idle) \<longrightarrow>
      mset (rs_items s) = mset (map snd (rs_out s)) + mset (drop (rs_claims s) (rs_items s)) \<and>
      ring_rep (rs_ring s) (drop (rs_claims s) (rs_items s)))"
proof -
  obtain k where k: "unat capacity = 2 ^ k" "ring_inv k s" "capacity = 2 ^ k" using ring_create_reach [OF assms] by blast
  note D = ring_invD [OF k(2)]
  note C = ring_coreD [OF D(1)]
  have out: "t < rs_claims s \<and> x = rs_items s ! t" if "(t, x) \<in> set (rs_out s)" for t x
    using C(12,13) that by force
  have "rs_writes s = {} \<and> rs_reads s = {}" if "\<forall>i. rs_pc s i = Rg_idle" using that by (simp add: rs_writes_def rs_reads_def)
  moreover have "rg_capacity (rs_ring s) = 2 ^ k" using ring_reach_capacity [OF assms(3)] ring_create_at(2) [OF assms(1,2)] k(3) by simp
  ultimately have "mset (rs_items s) = mset (map snd (rs_out s)) + mset (drop (rs_claims s) (rs_items s)) \<and>
      ring_rep (rs_ring s) (drop (rs_claims s) (rs_items s))" if "\<forall>i. rs_pc s i = Rg_idle"
    using D(1) ring_quiet_out ring_quiet_rep that by metis
  then show ?thesis using C(6,7,11) k(1) out by auto
qed

text \<open>Two threads at a ring of two cells, for evaluation.\<close>

definition rs_two :: "u64 \<Rightarrow> u64 \<Rightarrow> nkit_cell \<Rightarrow> ring_pc \<Rightarrow> ring_pc \<Rightarrow> ptr list \<Rightarrow> nat \<Rightarrow> (nat \<times> ptr) list \<Rightarrow> ring_sys" where
  "rs_two h t c p q items n out = \<lparr>rs_ring = demo_ring\<lparr>rg_head := h, rg_tail := t, rg_cells := [c, \<lparr>c_sequence = 1, c_data = NULL\<rparr>]\<rparr>,
     rs_pc = (\<lambda>_. Rg_idle)(0 := p, 1 := q), rs_items = items, rs_claims = n, rs_out = out\<rparr>"

lemma rs_two_simps:
  "rs_pc (rs_two h t c p q items n out) 0 = p" "rs_pc (rs_two h t c p q items n out) (Suc 0) = q"
  "rs_go 0 p' (rs_two h t c p q items n out) = rs_two h t c p' q items n out"
  "rs_go (Suc 0) q' (rs_two h t c p q items n out) = rs_two h t c p q' items n out"
  "rg_head (rs_ring (rs_two h t c p q items n out)) = h" "rg_tail (rs_ring (rs_two h t c p q items n out)) = t"
  "rg_mask (rs_ring (rs_two h t c p q items n out)) = 1"
  "ring_cell (rs_ring (rs_two h t c p q items n out)) 0 = c"
  "rs_items (rs_two h t c p q items n out) = items" "rs_claims (rs_two h t c p q items n out) = n" "rs_out (rs_two h t c p q items n out) = out"
  "(rs_two h t c p q items n out)\<lparr>rs_ring := (rs_ring (rs_two h t c p q items n out))\<lparr>rg_head := h'\<rparr>, rs_items := items'\<rparr> = rs_two h' t c p q items' n out"
  "(rs_two h t c p q items n out)\<lparr>rs_ring := (rs_ring (rs_two h t c p q items n out))\<lparr>rg_tail := t'\<rparr>, rs_claims := n'\<rparr> = rs_two h t' c p q items n' out"
  "(rs_two h t c p q items n out)\<lparr>rs_ring := set_cell 0 c' (rs_ring (rs_two h t c p q items n out))\<rparr> = rs_two h t c' p q items n out"
  "(rs_two h t c p q items n out)\<lparr>rs_out := out'\<rparr> = rs_two h t c p q items n out'"
  by (auto simp: rs_two_def rs_go_def fun_eq_iff ring_cell_def ring_slot_def set_cell_def demo_ring_def)

lemma rs_two_step:
  assumes "ring_reach r s" and "nkit_ring_push_step i s s' \<or> nkit_ring_pop_step i s s'" and "s' = u"
  shows "ring_reach r u"
  using assms by (auto intro: reach.move simp: ring_step_def)

text \<open>Thread 0 has claimed position 0 for item 5; thread 1 looks for an item.\<close>

lemma rs_two_claimed: "ring_reach demo_ring (rs_two 1 0 \<lparr>c_sequence = 0, c_data = NULL\<rparr> (Rpush_data 0 5) (Rpop_seq 0) [5] 0 [])"
proof -
  let ?c = "\<lparr>c_sequence = 0, c_data = NULL\<rparr>"
  have 0: "ring_reach demo_ring (rs_two 0 0 ?c Rg_idle Rg_idle [] 0 [])"
    by (rule reach.start) (auto simp: rs_two_def ring_start_def demo_ring_def fun_eq_iff)
  have 1: "ring_reach demo_ring (rs_two 0 0 ?c (Rpush_seq 0 5) Rg_idle [] 0 [])"
    by (rule rs_two_step [OF 0 disjI1 [OF push_head [where i = 0 and x = 5]]]) (simp add: rs_two_simps)+
  have 2: "ring_reach demo_ring (rs_two 0 0 ?c (Rpush_cas 0 5) Rg_idle [] 0 [])"
    by (rule rs_two_step [OF 1 disjI1 [OF push_seq [where i = 0, OF _ refl]]]) (simp add: rs_two_simps)+
  have 3: "ring_reach demo_ring (rs_two 1 0 ?c (Rpush_data 0 5) Rg_idle [5] 0 [])"
    by (rule rs_two_step [OF 2 disjI1 [OF push_won [where i = 0]]]) (simp add: rs_two_simps)+
  show ?thesis
    by (rule rs_two_step [OF 3 disjI2 [OF pop_tail [where i = 1]]]) (simp add: rs_two_simps)+
qed

lemma rs_two_popped: "ring_reach demo_ring (rs_two 1 1 \<lparr>c_sequence = 2, c_data = 5\<rparr> Rg_idle Rg_idle [5] 1 [(0, 5)])"
proof -
  have 1: "ring_reach demo_ring (rs_two 1 0 \<lparr>c_sequence = 0, c_data = 5\<rparr> (Rpush_publish 0 5) (Rpop_seq 0) [5] 0 [])"
    by (rule rs_two_step [OF rs_two_claimed disjI1 [OF push_data [where i = 0]]]) (simp add: rs_two_simps)+
  have 2: "ring_reach demo_ring (rs_two 1 0 \<lparr>c_sequence = 1, c_data = 5\<rparr> Rg_idle (Rpop_seq 0) [5] 0 [])"
    by (rule rs_two_step [OF 1 disjI1 [OF push_publish [where i = 0]]]) (simp add: rs_two_simps)+
  have 3: "ring_reach demo_ring (rs_two 1 0 \<lparr>c_sequence = 1, c_data = 5\<rparr> Rg_idle (Rpop_cas 0) [5] 0 [])"
    by (rule rs_two_step [OF 2 disjI2 [OF pop_seq [where i = 1, OF _ refl]]]) (simp add: rs_two_simps)+
  have 4: "ring_reach demo_ring (rs_two 1 1 \<lparr>c_sequence = 1, c_data = 5\<rparr> Rg_idle (Rpop_data 0) [5] 1 [])"
    by (rule rs_two_step [OF 3 disjI2 [OF pop_won [where i = 1]]]) (simp add: rs_two_simps)+
  have 5: "ring_reach demo_ring (rs_two 1 1 \<lparr>c_sequence = 1, c_data = 5\<rparr> Rg_idle (Rpop_release 0 5) [5] 1 [])"
    by (rule rs_two_step [OF 4 disjI2 [OF pop_data [where i = 1]]]) (simp add: rs_two_simps)+
  show ?thesis
    by (rule rs_two_step [OF 5 disjI2 [OF pop_release [where i = 1]]]) (simp add: rs_two_simps)+
qed

theorem ring_mpmc_fifo_witness:
  "let s = rs_two 1 1 \<lparr>c_sequence = 2, c_data = 5\<rparr> Rg_idle Rg_idle [5] 1 [(0, 5)] in
     ring_reach demo_ring s \<and> length (rs_items s) \<le> rs_claims s + 2 \<and> ring_rep (rs_ring s) []"
proof -
  have "rs_pc (rs_two 1 1 \<lparr>c_sequence = 2, c_data = 5\<rparr> Rg_idle Rg_idle [5] 1 [(0, 5)]) i = Rg_idle" for i by (simp add: rs_two_def)
  then show ?thesis using rs_two_popped ring_mpmc_fifo [OF mmap_ok_demo_os demo_ring rs_two_popped] by (simp add: rs_two_simps)
qed

text \<open>
  C23. Refused calls. A push gives up only when the ring holds \<open>capacity\<close> items, or when the consumer of
  the item \<open>capacity\<close> places before has taken its position and not yet released the cell. A pop gives up
  only when the ring is empty, or when the producer of the oldest item has claimed its position and not yet
  published it.
\<close>

theorem ring_mpmc_refusals:
  assumes "mmap_ok w" and "nkit_ring_create node_id capacity w = (Some r, w')" and "ring_reach r s"
    and "length (rs_items s) + unat capacity < 2 ^ 63"
  shows "(rs_pc s i = Rpush_seq pos x \<longrightarrow> nkit_ring_push_step i s s' \<longrightarrow> rs_pc s' i = Rg_idle \<longrightarrow>
      length (rs_items s) = rs_claims s + unat capacity \<or>
      (\<exists>j t. pc_reads (rs_pc s j) = Some t \<and> length (rs_items s) = t + unat capacity)) \<and>
    (rs_pc s i = Rpop_seq pos \<longrightarrow> nkit_ring_pop_step i s s' \<longrightarrow> rs_pc s' i = Rg_idle \<longrightarrow>
      length (rs_items s) = rs_claims s \<or> (\<exists>j. pc_writes (rs_pc s j) = Some (rs_claims s)))"
proof -
  obtain k where k: "unat capacity = 2 ^ k" "ring_inv k s" "ring_small k s" using ring_create_reach [OF assms] by blast
  note D = ring_invD [OF k(2)]
  note sm = k(3) [unfolded ring_small_def]
  have "length (rs_items s) = rs_claims s + unat capacity \<or> (\<exists>j t. pc_reads (rs_pc s j) = Some t \<and> length (rs_items s) = t + unat capacity)"
    if pc: "rs_pc s i = Rpush_seq pos x" and step: "nkit_ring_push_step i s s'" and idle: "rs_pc s' i = Rg_idle"
  proof -
    have "sint (c_sequence (ring_cell (rs_ring s) pos) - pos) < 0"
      using step pc idle by (cases rule: nkit_ring_push_step.cases) (auto split: if_splits)
    with push_refused [OF D(1) sm] D(2) [of i] pc
    have "length (rs_items s) = rs_claims s + 2 ^ k \<or> (2 ^ k \<le> length (rs_items s) \<and> length (rs_items s) - 2 ^ k \<in> rs_reads s)" by simp
    then show ?thesis
    proof
      assume r: "2 ^ k \<le> length (rs_items s) \<and> length (rs_items s) - 2 ^ k \<in> rs_reads s"
      then obtain j where "pc_reads (rs_pc s j) = Some (length (rs_items s) - 2 ^ k)" by (auto simp: rs_reads_def)
      then show ?thesis using r k(1) by (intro disjI2 exI [of _ j] exI [of _ "length (rs_items s) - 2 ^ k"]) simp
    qed (simp add: k(1))
  qed
  moreover have "length (rs_items s) = rs_claims s \<or> (\<exists>j. pc_writes (rs_pc s j) = Some (rs_claims s))"
    if pc: "rs_pc s i = Rpop_seq pos" and step: "nkit_ring_pop_step i s s'" and idle: "rs_pc s' i = Rg_idle"
  proof -
    have "sint (c_sequence (ring_cell (rs_ring s) pos) - (pos + 1)) < 0"
      using step pc idle by (cases rule: nkit_ring_pop_step.cases) (auto split: if_splits)
    with pop_refused [OF D(1) sm] D(2) [of i] pc show ?thesis by (auto simp: rs_writes_def)
  qed
  ultimately show ?thesis by blast
qed

theorem ring_mpmc_refusals_witness:
  "let s = rs_two 1 0 \<lparr>c_sequence = 0, c_data = NULL\<rparr> (Rpush_data 0 5) (Rpop_seq 0) [5] 0 [] in
     nkit_ring_pop_step 1 s (rs_go 1 Rg_idle s) \<and> length (rs_items s) \<noteq> rs_claims s \<and> (\<exists>j. pc_writes (rs_pc s j) = Some (rs_claims s))"
proof -
  let ?s = "rs_two 1 0 \<lparr>c_sequence = 0, c_data = NULL\<rparr> (Rpush_data 0 5) (Rpop_seq 0) [5] 0 []"
  have step: "nkit_ring_pop_step 1 ?s (rs_go 1 Rg_idle ?s)"
    using pop_seq [of ?s 1 0, OF _ refl] by (simp add: rs_two_simps)
  then show ?thesis
    using ring_mpmc_refusals [OF mmap_ok_demo_os demo_ring rs_two_claimed, of 1 0 0 "rs_go 1 Rg_idle ?s"] by (simp add: rs_two_simps)
qed

end
