(* ===== verification/Spec2Isabelle.thy ===== *)
theory Spec2Isabelle
  imports NK_Mcs NK_Ticket NK_Rws NK_Hash_Thms NK_Messaging NK_Topology NK_Pcounter NK_Mempool NK_Deque_Conc NK_Task_Run NK_Skip_Thms
    NK_Auto_Thms NK_Hugepage NK_Migrate NK_Ring_Mpmc
begin

text \<open>
  A verification library for libnumakit, a C library of NUMA-aware memory allocators, concurrent
  data structures, locks and scheduling helpers. It models every function of \<^verbatim>\<open>src/\<close> and the
  inline functions of \<^verbatim>\<open>include/numakit/\<close>.

  \<^bold>\<open>How the program is modelled.\<close>
  A C structure is a record with a field for each member (and one for its address where the address matters),
  a handle is an option whose \<open>None\<close> is the null pointer, \<^verbatim>\<open>size_t\<close>, pointers and the fixed-width unsigned types
  are machine words that wrap around, and \<^verbatim>\<open>int\<close> is an integer. A function takes and returns the state that it
  changes. A loop that may not end is a \<open>partial_function (option)\<close> whose \<open>None\<close> is divergence; no fuel is used,
  and that a call returns is part of the theorems. Other loops are recursive functions with termination proofs.
  \<open>NK_Prelude\<close> has the types, byte memories, \<^verbatim>\<open>memcmp\<close> and the lemmas on words and lists; \<open>NK_Double\<close> has the
  IEEE binary64 operations that the balancers use, with bounds on the rounding error.

  \<^bold>\<open>The platform.\<close>
  The operating system, the C allocator, libnuma, hwloc, pthreads and the performance counters are not part of the
  repository. \<open>NK_Platform\<close> makes them a parameter: the record \<open>os\<close> has an arbitrary function that answers each
  call, a trace of the calls, and a ledger of the live resources with a flag that records the release of a
  resource that is not live, or another access that C leaves undefined. What is assumed of the answers is a
  named hypothesis of the theorem that needs it: \<open>mmap_ok\<close> (a mapping is page aligned and lies
  in the lower half of the address space), \<open>perf_ok\<close>, \<open>page_ok\<close>, \<open>qsort_ok\<close> and the like. The locale \<open>owned_object\<close> states what a constructor and
  a destructor owe the ledger; the arena, the ring, the slab, the hash table and others interpret it.

  \<^bold>\<open>Memory (\<^verbatim>\<open>src/memory/\<close>).\<close>
  \<open>NK_Arena\<close> models \<^verbatim>\<open>arena.c\<close>: blocks of one arena lie inside its mapping, are aligned and disjoint, the advised
  range lies inside the mapping, and a request near \<open>2 ^ 64\<close> wraps around. \<open>NK_Slab\<close> (\<^verbatim>\<open>slab.c\<close>) and \<open>NK_Mempool\<close>
  (\<^verbatim>\<open>pool.c\<close>) show that over any sequence of allocations and frees live objects are disjoint and inside their
  memory. \<open>NK_Hugepage\<close> (\<^verbatim>\<open>hugepage_ops.c\<close>) reads back the size
  printed in \<^verbatim>\<open>/proc/meminfo\<close>; \<open>NK_Migrate\<close> (\<^verbatim>\<open>migrate.c\<close>) gives the range handed to \<^verbatim>\<open>mbind\<close>.

  \<^bold>\<open>Structures (\<^verbatim>\<open>src/structs/\<close>).\<close>
  \<open>NK_Queue_Spec\<close> is the contract of a bounded queue and \<open>NK_Map_Spec\<close> that of a map from byte strings to pointers, each
  a locale with the behaviour of whole runs proved in it. \<open>NK_Ring\<close> (\<^verbatim>\<open>ring_buffer.c\<close>, \<^verbatim>\<open>ring_buffer.h\<close>) interprets the first,
  and \<open>NK_Ring_Mpmc\<close> treats push and pop under all interleavings of many producers and consumers. \<open>NK_Hash\<close> defines
  the Robin Hood table of \<^verbatim>\<open>hash_table.c\<close>; \<open>NK_Probe\<close>, \<open>NK_Hash_Loops\<close> and \<open>NK_Hash_Correct\<close> prove its probing,
  insertion, backward-shift and resizing correct, and \<open>NK_Hash_Thms\<close> has the theorems. \<open>NK_Skip\<close> defines the skip
  list of \<^verbatim>\<open>skip_list.c\<close> on an explicit memory of nodes; \<open>NK_Skip_Chain\<close>, \<open>NK_Skip_Shard\<close> and \<open>NK_Skip_Map\<close> prove searching, linking and unlinking
  on all levels and across shards, \<open>NK_Skip_Life\<close> creation, counting and destruction, \<open>NK_Skip_Thms\<close> has the theorems. Both
  structures interpret the map contract, so the same theorem on runs holds of both. \<open>NK_Deque\<close> models
  \<^verbatim>\<open>deque.c\<close> as one thread runs it, \<open>NK_Deque_Conc\<close> with an owner and thieves.

  \<^bold>\<open>Locks and counters (\<^verbatim>\<open>src/sync/\<close>).\<close>
  \<open>NK_Mutex\<close> has reachability, invariants and what a lock gives its client. \<open>NK_Mcs\<close>, \<open>NK_Ticket\<close> and
  \<open>NK_Rws\<close> model \<^verbatim>\<open>mcs_lock.c\<close>, \<^verbatim>\<open>ticket_lock.c\<close> and \<^verbatim>\<open>rws_lock.c\<close> as step relations. The MCS lock excludes,
  serves in the order of arrival, does not block, and makes the critical sections of its client take effect one after the other; the ticket lock excludes and lets
  the first of its queue in; the reader-writer lock keeps a writer apart from readers and other writers. \<open>NK_Pcounter\<close> models \<^verbatim>\<open>pcounter.c\<close>: exact sums, and bounds
  for reads beside increments.

  \<^bold>\<open>Context, topology and scheduling (\<^verbatim>\<open>src/init.c\<close>, \<^verbatim>\<open>src/topology/\<close>, \<^verbatim>\<open>src/sched/\<close>).\<close>
  \<open>NK_Context\<close> passes the global context explicitly through \<^verbatim>\<open>nkit_init\<close> and \<^verbatim>\<open>nkit_teardown\<close>; \<open>NK_Topology\<close> has the queries.
  \<open>NK_Affinity\<close> models pinning, launching and joining of \<^verbatim>\<open>affinity.c\<close>; \<open>NK_Messaging\<close> the mailboxes of \<^verbatim>\<open>messaging.c\<close>, whose
  messages arrive once and in order. \<open>NK_Task_Pool\<close> models \<^verbatim>\<open>task_pool.c\<close> with every failure path of its creation, and \<open>NK_Task_Run\<close>
  shows that an accepted task is called once or still waits, and that stealing misses none. \<open>NK_Balancer\<close> models \<^verbatim>\<open>balancer.c\<close>: the
  advice against the exact ratio, and the descriptors it holds. \<open>NK_Auto_Balancer\<close> and \<open>NK_Auto_Thms\<close> treat \<^verbatim>\<open>auto_balancer.c\<close>: the registry,
  a round of the monitor, and that destruction returns and releases everything.

  \<^bold>\<open>Bounds.\<close>
  The deque theorem holds while fewer than \<open>2 ^ 31\<close> items were pushed, so that capacities do not overflow; the one on the
  concurrent ring while positions stay below \<open>2 ^ 63\<close>, so that a position word names one position and the signed
  differences are exact. The sequential ring has no such bound: its counters may wrap around.

  \<^bold>\<open>Not modelled.\<close>
  Memory is sequentially consistent: the weaker orderings of the C atomics, and the caches and pages behind an
  address, are not modelled. The calls of the deque and the ring are single steps in the runs of the task pool,
  and the operations of a hash table or of a shard run under their lock as one thread runs them. In \<^verbatim>\<open>auto_balancer.c\<close> other threads act
  between the rounds of the monitor and while it samples. Padding and alignment attributes have no effect on results. The examples, the tests and
  benchmarks, the build files and the scripts only call the library; \<^verbatim>\<open>version.h\<close> and \<^verbatim>\<open>tools/nkit-info.c\<close> are empty.
\<close>

end
